(* ===== verification/Cpp_Prelude.thy ===== *)
theory Cpp_Prelude
  imports Main "HOL-Library.Word" "HOL-Library.Monad_Syntax" "HOL-Library.Tree"
begin

section \<open>Shared vocabulary of the models\<close>

text \<open>
  What every component uses: the width of \<open>size_t\<close>, the \<open>ASSERT\<close> macro of
  \<^verbatim>\<open>accessory.h\<close>, the reading of \<open>option\<close> as "no undefined behaviour, no crash and a
  return", and the arithmetic of \<open>size_t\<close> counters.

  A model function of type \<open>\<dots> option\<close> is \<open>Some r\<close> when the C++ call returns \<open>r\<close>.
  It is \<open>None\<close> when the call dereferences a null or dangling pointer, when an enabled
  assertion fails (the macro then writes through a null pointer), or when a loop never ends
  (\<^theory_text>\<open>partial_function (option)\<close>). A theorem that concludes \<open>Some\<close> therefore
  excludes all three.
\<close>

named_theorems heap_simps \<open>evaluation of single heap accesses\<close>
named_theorems word_nat \<open>of_nat images of size_t computations\<close>

text \<open>The target of the sources is a 32-bit RTOS (\<^verbatim>\<open>BitsAlgorithms.h\<close> checks
  \<open>sizeof(size_t) == 4\<close> at compile time).\<close>

type_synonym size_t = "32 word"

text \<open>
  \<open>ASSERT(condition)\<close>: with \<open>ENABLE_ASSERTION\<close> (the flag \<open>dbg\<close>) a false condition
  crashes; otherwise the macro is empty.
\<close>

definition ASSERT :: "bool \<Rightarrow> bool \<Rightarrow> unit option" where
  "ASSERT dbg condition = (if dbg \<and> \<not> condition then None else Some ())"

lemma ASSERT_True [simp]: "ASSERT dbg True = Some ()"
  by (simp add: ASSERT_def)

lemma ASSERT_release [simp]: "ASSERT False c = Some ()"
  by (simp add: ASSERT_def)

lemma ASSERT_debug_False [simp]: "ASSERT True False = None"
  by (simp add: ASSERT_def)

lemma ASSERT_Some [simp]: "ASSERT dbg c = Some u \<longleftrightarrow> (dbg \<longrightarrow> c)"
  by (auto simp: ASSERT_def)

subsection \<open>Exceptions\<close>

text \<open>The exceptions the modelled code can raise or let through; constructing an object either
  throws or yields the object.\<close>

datatype cpp_exception = Bad_alloc | Ctor_exception | Out_of_range

type_synonym 'a made = "cpp_exception + 'a"

subsection \<open>Counters of type size_t\<close>

lemma size_t_bound: "unat (x :: size_t) < 2 ^ 32"
  using unsigned_less [of x] by simp

lemma of_nat_eq_size_t:
  assumes "a < 2 ^ 32" "b < 2 ^ 32"
  shows "(of_nat a :: size_t) = of_nat b \<longleftrightarrow> a = b"
  using assms by (simp add: word_of_nat_eq_iff take_bit_nat_eq_self)

lemma of_nat_le_size_t:
  assumes "a < 2 ^ 32" "b < 2 ^ 32"
  shows "(of_nat a :: size_t) \<le> of_nat b \<longleftrightarrow> a \<le> b"
  using assms by (simp add: word_le_nat_alt unat_of_nat take_bit_nat_eq_self)

lemma of_nat_less_size_t:
  assumes "a < 2 ^ 32" "b < 2 ^ 32"
  shows "(of_nat a :: size_t) < of_nat b \<longleftrightarrow> a < b"
  using assms by (simp add: word_less_nat_alt unat_of_nat take_bit_nat_eq_self)

lemma unat_of_nat_size_t:
  assumes "a < 2 ^ 32"
  shows "unat (of_nat a :: size_t) = a"
  using assms by (simp add: unat_of_nat take_bit_nat_eq_self)

lemma max_of_nat_size_t:
  assumes "a < 2 ^ 32" "b < 2 ^ 32"
  shows "max (of_nat a :: size_t) (of_nat b) = of_nat (max a b)"
  using assms by (simp add: max_def of_nat_le_size_t)

lemmas size_t_nat = of_nat_eq_size_t of_nat_le_size_t of_nat_less_size_t
  unat_of_nat_size_t max_of_nat_size_t

subsection \<open>Lists\<close>

lemma distinct_split_unique:
  assumes "distinct (xs @ a # ys)" and "xs @ a # ys = xs' @ a # ys'"
  shows "xs' = xs \<and> ys' = ys"
  using append_Cons_eq_iff [of a xs ys xs' ys'] assms(2) assms(1)[THEN distinct_append [THEN iffD1]]
  by simp

lemma in_set_split:
  assumes "a \<in> set zs"
  obtains xs ys where "zs = xs @ a # ys"
  using assms by (auto simp: in_set_conv_decomp)

end
