(* ===== verification/Avl_Heap.thy ===== *)
theory Avl_Heap
  imports Cpp_Prelude
begin

section \<open>The node heap of random_access_list.hpp\<close>

text \<open>
  \<open>TAvlTreeNode\<close> objects live in a heap, a partial map from addresses to nodes; a C++
  pointer is an optional address, \<open>None\<close> being \<open>NULL\<close>. The first part is the model
  (the node, field access, the tree object \<open>avl_tree_stump\<close> with its cache); the second
  part is the abstraction: the shape predicate \<open>tree_at\<close> relates a pointer to a binary
  tree of addresses, \<open>ctx_at\<close> relates the path from a node up to the root to a list of
  frames, and \<open>annot\<close> says that the stored sizes and heights are the real ones.
\<close>

subsection \<open>Nodes, pointers and field access\<close>

type_synonym addr = nat
type_synonym ptr = "addr option"

record 'a TAvlTreeNode =
  nd_value :: "'a option"  \<comment> \<open>raw storage: \<open>None\<close> until a value is constructed in it\<close>
  nd_parent :: ptr
  nd_height :: size_t
  nd_size :: size_t
  nd_left :: ptr
  nd_right :: ptr

type_synonym 'a heap = "addr \<rightharpoonup> 'a TAvlTreeNode"

text \<open>The default constructor leaves the value storage raw.\<close>

definition TAvlTreeNode_new :: "'a TAvlTreeNode" where
  "TAvlTreeNode_new = \<lparr>nd_value = None, nd_parent = None, nd_height = 1, nd_size = 1,
     nd_left = None, nd_right = None\<rparr>"

text \<open>The \<open>construct_t\<close> constructors build the value in place.\<close>

definition TAvlTreeNode_construct :: "'a \<Rightarrow> 'a TAvlTreeNode" where
  "TAvlTreeNode_construct v = TAvlTreeNode_new\<lparr>nd_value := Some v\<rparr>"

definition node_resetInvariant :: "'a TAvlTreeNode \<Rightarrow> 'a TAvlTreeNode" where
  "node_resetInvariant n = n\<lparr>nd_right := None, nd_left := None, nd_parent := None,
     nd_size := 1, nd_height := 1\<rparr>"

definition deref :: "'a heap \<Rightarrow> ptr \<Rightarrow> 'a TAvlTreeNode option" where
  "deref h p = (case p of None \<Rightarrow> None | Some a \<Rightarrow> h a)"

definition upd :: "'a heap \<Rightarrow> ptr \<Rightarrow> ('a TAvlTreeNode \<Rightarrow> 'a TAvlTreeNode) \<Rightarrow> 'a heap option" where
  "upd h p f = (case p of None \<Rightarrow> None | Some a \<Rightarrow>
     (case h a of None \<Rightarrow> None | Some n \<Rightarrow> Some (h(a \<mapsto> f n))))"

abbreviation get_parent :: "'a heap \<Rightarrow> ptr \<Rightarrow> ptr option" where
  "get_parent h p \<equiv> map_option nd_parent (deref h p)"

abbreviation get_left :: "'a heap \<Rightarrow> ptr \<Rightarrow> ptr option" where
  "get_left h p \<equiv> map_option nd_left (deref h p)"

abbreviation get_right :: "'a heap \<Rightarrow> ptr \<Rightarrow> ptr option" where
  "get_right h p \<equiv> map_option nd_right (deref h p)"

abbreviation set_parent :: "'a heap \<Rightarrow> ptr \<Rightarrow> ptr \<Rightarrow> 'a heap option" where
  "set_parent h p q \<equiv> upd h p (\<lambda>n. n\<lparr>nd_parent := q\<rparr>)"

abbreviation set_left :: "'a heap \<Rightarrow> ptr \<Rightarrow> ptr \<Rightarrow> 'a heap option" where
  "set_left h p q \<equiv> upd h p (\<lambda>n. n\<lparr>nd_left := q\<rparr>)"

abbreviation set_right :: "'a heap \<Rightarrow> ptr \<Rightarrow> ptr \<Rightarrow> 'a heap option" where
  "set_right h p q \<equiv> upd h p (\<lambda>n. n\<lparr>nd_right := q\<rparr>)"

lemma deref_simps [simp]:
  "deref h None = None"
  "deref h (Some a) = h a"
  by (simp_all add: deref_def)

lemma upd_None [simp]: "upd h None f = None"
  by (simp add: upd_def)

lemma upd_Some [simp]: "h a = Some n \<Longrightarrow> upd h (Some a) f = Some (h(a \<mapsto> f n))"
  by (simp add: upd_def)

text \<open>\<open>size(node)\<close> and \<open>height(node)\<close>: zero for a null pointer.\<close>

definition node_size :: "'a heap \<Rightarrow> ptr \<Rightarrow> size_t option" where
  "node_size h node = (case node of None \<Rightarrow> Some 0 | Some a \<Rightarrow> map_option nd_size (h a))"

definition node_height :: "'a heap \<Rightarrow> ptr \<Rightarrow> size_t option" where
  "node_height h node = (case node of None \<Rightarrow> Some 0 | Some a \<Rightarrow> map_option nd_height (h a))"

subsection \<open>The tree object and its cache\<close>

text \<open>
  \<open>avl_tree_stump\<close> with the members of its \<open>TCacheAndAllocator\<close>: the two gap nodes
  \<open>before_begin\<close> and \<open>end\<close> and the cached first element \<open>begin\<close>. Two trees with equal
  allocators share one heap, so the heap is passed beside the object.
\<close>

record avl_tree_stump =
  s_root :: ptr
  s_before_begin :: ptr
  s_begin :: ptr
  s_end :: ptr

definition algorithmic_complexity :: "'a heap \<Rightarrow> avl_tree_stump \<Rightarrow> size_t option" where
  "algorithmic_complexity h s = map_option (\<lambda>x. x + 1) (node_height h (s_root s))"

definition stump_size :: "'a heap \<Rightarrow> avl_tree_stump \<Rightarrow> size_t option" where
  "stump_size h s = node_size h (s_root s)"

definition getBeforeBegin :: "bool \<Rightarrow> avl_tree_stump \<Rightarrow> ptr option" where
  "getBeforeBegin dbg s = do { ASSERT dbg (s_before_begin s \<noteq> None); Some (s_before_begin s) }"

definition getBegin :: "bool \<Rightarrow> avl_tree_stump \<Rightarrow> ptr option" where
  "getBegin dbg s = do { ASSERT dbg (s_begin s \<noteq> None); Some (s_begin s) }"

definition getEnd :: "bool \<Rightarrow> avl_tree_stump \<Rightarrow> ptr option" where
  "getEnd dbg s = do { ASSERT dbg (s_end s \<noteq> None); Some (s_end s) }"

definition isNotEmptyNode :: "bool \<Rightarrow> avl_tree_stump \<Rightarrow> ptr \<Rightarrow> bool option" where
  "isNotEmptyNode dbg s node = do {
     ASSERT dbg (s_before_begin s \<noteq> None \<and> s_end s \<noteq> None \<and> s_begin s \<noteq> None);
     Some (node \<noteq> s_before_begin s \<and> node \<noteq> s_end s) }"

subsection \<open>Trees of addresses in the heap\<close>

fun tree_at :: "'a heap \<Rightarrow> ptr \<Rightarrow> ptr \<Rightarrow> addr tree \<Rightarrow> bool" where
  "tree_at h p par Leaf \<longleftrightarrow> p = None"
| "tree_at h p par (Node l a r) \<longleftrightarrow> p = Some a \<and>
     (case h a of None \<Rightarrow> False | Some n \<Rightarrow> nd_parent n = par \<and>
        tree_at h (nd_left n) (Some a) l \<and> tree_at h (nd_right n) (Some a) r)"

lemma tree_at_None [simp]: "tree_at h None par t \<longleftrightarrow> t = Leaf"
  by (cases t) auto

lemma tree_at_Some:
  "tree_at h (Some a) par t \<longleftrightarrow> (\<exists>l r n. t = Node l a r \<and> h a = Some n \<and> nd_parent n = par \<and>
     tree_at h (nd_left n) (Some a) l \<and> tree_at h (nd_right n) (Some a) r)"
  by (cases t) (auto split: option.splits)

lemma tree_at_NodeE:
  assumes "tree_at h p par (Node l a r)"
  obtains n where "p = Some a" "h a = Some n" "nd_parent n = par"
    "tree_at h (nd_left n) (Some a) l" "tree_at h (nd_right n) (Some a) r"
  using assms by (auto split: option.splits)

lemma tree_at_dom: "tree_at h p par t \<Longrightarrow> a \<in> set_tree t \<Longrightarrow> \<exists>n. h a = Some n"
  by (induction t arbitrary: p par) (auto split: option.splits)

lemma tree_at_root_in: "tree_at h (Some a) par t \<Longrightarrow> a \<in> set_tree t"
  by (auto simp: tree_at_Some)

text \<open>The one frame rule of the shape: only the links of the tree's own nodes matter, and the
  parent link of its root may change together with the expected parent.\<close>

definition same_links :: "'a heap \<Rightarrow> 'a heap \<Rightarrow> addr \<Rightarrow> bool" where
  "same_links h h' a \<longleftrightarrow> (\<exists>n n'. h a = Some n \<and> h' a = Some n' \<and> nd_left n' = nd_left n \<and>
     nd_right n' = nd_right n \<and> nd_parent n' = nd_parent n)"

lemma tree_at_same_links:
  assumes "tree_at h p par t" and "\<And>a. a \<in> set_tree t \<Longrightarrow> same_links h h' a"
  shows "tree_at h' p par t"
  using assms
proof (induction t arbitrary: p par)
  case Leaf
  then show ?case by simp
next
  case (Node l a r)
  from Node.prems(1) obtain n where n: "p = Some a" "h a = Some n" "nd_parent n = par"
    "tree_at h (nd_left n) (Some a) l" "tree_at h (nd_right n) (Some a) r"
    by (rule tree_at_NodeE)
  from Node.prems(2)[of a] n(2) obtain n' where n': "h' a = Some n'" "nd_left n' = nd_left n"
    "nd_right n' = nd_right n" "nd_parent n' = nd_parent n"
    by (auto simp: same_links_def)
  have "tree_at h' (nd_left n) (Some a) l" "tree_at h' (nd_right n) (Some a) r"
    using Node.IH n(4,5) Node.prems(2) by simp_all
  with n n' show ?case by simp
qed

lemma tree_at_eq_heap:
  assumes "tree_at h p par t" and "\<And>a. a \<in> set_tree t \<Longrightarrow> h' a = h a"
  shows "tree_at h' p par t"
  using assms(1)
proof (rule tree_at_same_links)
  fix a assume "a \<in> set_tree t"
  with assms show "same_links h h' a"
    by (auto simp: same_links_def dest: tree_at_dom)
qed

lemma tree_at_reparent:
  assumes "tree_at h p par t" and "distinct (inorder t)"
    and "\<And>a. a \<in> set_tree t \<Longrightarrow> p \<noteq> Some a \<Longrightarrow> h' a = h a"
    and "\<And>a n. p = Some a \<Longrightarrow> h a = Some n \<Longrightarrow> h' a = Some (n\<lparr>nd_parent := par'\<rparr>)"
  shows "tree_at h' p par' t"
proof (cases t)
  case Leaf
  with assms(1) show ?thesis by simp
next
  case (Node l a r)
  with assms(1) obtain n where n: "p = Some a" "h a = Some n" "nd_parent n = par"
    "tree_at h (nd_left n) (Some a) l" "tree_at h (nd_right n) (Some a) r"
    by (auto split: option.splits)
  have "tree_at h' (nd_left n) (Some a) l"
    by (rule tree_at_eq_heap [OF n(4)]) (use Node n assms(2,3) in auto)
  moreover have "tree_at h' (nd_right n) (Some a) r"
    by (rule tree_at_eq_heap [OF n(5)]) (use Node n assms(2,3) in auto)
  ultimately show ?thesis using Node n assms(4)[of a n] by simp
qed

end
