(* ===== verification/Avl_Zipper.thy ===== *)
theory Avl_Zipper
  imports Avl_Heap
begin

section \<open>Paths to the root and stored annotations\<close>

text \<open>
  The code walks from a node to the root along \<open>_parent\<close> links. The path is a list of
  frames, innermost first: \<open>LeftOf a r\<close> says that the hole is the left child of \<open>a\<close>, whose
  right subtree is \<open>r\<close>. \<open>fill c t\<close> is the whole tree, \<open>ctx_at\<close> says that the heap
  holds the path. \<open>annot h t\<close> says that every node of \<open>t\<close> stores the size and the height
  of its subtree.
\<close>

subsection \<open>Frames\<close>

datatype frame = LeftOf addr "addr tree" | RightOf "addr tree" addr

fun frame_addr :: "frame \<Rightarrow> addr" where
  "frame_addr (LeftOf a r) = a"
| "frame_addr (RightOf l a) = a"

fun plug :: "frame \<Rightarrow> addr tree \<Rightarrow> addr tree" where
  "plug (LeftOf a r) t = Node t a r"
| "plug (RightOf l a) t = Node l a t"

fun fill :: "frame list \<Rightarrow> addr tree \<Rightarrow> addr tree" where
  "fill [] t = t"
| "fill (f # c) t = fill c (plug f t)"

text \<open>The addresses left and right of the hole, in order.\<close>

fun pre :: "frame list \<Rightarrow> addr list" where
  "pre [] = []"
| "pre (LeftOf a r # c) = pre c"
| "pre (RightOf l a # c) = pre c @ inorder l @ [a]"

fun post :: "frame list \<Rightarrow> addr list" where
  "post [] = []"
| "post (LeftOf a r # c) = a # inorder r @ post c"
| "post (RightOf l a # c) = post c"

abbreviation set_ctx :: "frame list \<Rightarrow> addr set" where
  "set_ctx c \<equiv> set (pre c) \<union> set (post c)"

lemma inorder_fill [simp]: "inorder (fill c t) = pre c @ inorder t @ post c"
proof (induction c arbitrary: t)
  case Nil
  then show ?case by simp
next
  case (Cons f c)
  then show ?case by (cases f) simp_all
qed

lemma set_tree_fill: "set_tree (fill c t) = set_tree t \<union> set_ctx c"
proof -
  have "set_tree (fill c t) = set (inorder (fill c t))" by (rule set_inorder [symmetric])
  also have "\<dots> = set_tree t \<union> set_ctx c" unfolding inorder_fill by auto
  finally show ?thesis .
qed

lemma fill_append: "fill (c @ c') t = fill c' (fill c t)"
  by (induction c arbitrary: t) simp_all

lemma size_fill: "size (fill c t) = length (pre c) + size t + length (post c)"
proof -
  have "size (fill c t) = length (inorder (fill c t))" by (rule length_inorder [symmetric])
  then show ?thesis unfolding inorder_fill by simp
qed

text \<open>Every address of a tree has a path.\<close>

lemma locate:
  assumes "a \<in> set_tree t"
  shows "\<exists>c l r. t = fill c (Node l a r)"
  using assms
proof (induction t)
  case Leaf
  then show ?case by simp
next
  case (Node l x r)
  then consider "a = x" | "a \<in> set_tree l" | "a \<in> set_tree r" by auto
  then show ?case
  proof cases
    case 1
    then have "Node l x r = fill [] (Node l a r)" by simp
    then show ?thesis by blast
  next
    case 2
    with Node.IH(1) obtain c l' r' where "l = fill c (Node l' a r')" by blast
    then have "Node l x r = fill (c @ [LeftOf x r]) (Node l' a r')"
      by (simp add: fill_append)
    then show ?thesis by blast
  next
    case 3
    with Node.IH(2) obtain c l' r' where "r = fill c (Node l' a r')" by blast
    then have "Node l x r = fill (c @ [RightOf l x]) (Node l' a r')"
      by (simp add: fill_append)
    then show ?thesis by blast
  qed
qed

lemma locate_split:
  assumes "inorder t = xs @ a # ys" and "distinct (inorder t)"
  obtains c l r where "t = fill c (Node l a r)" "xs = pre c @ inorder l" "ys = inorder r @ post c"
proof -
  from assms(1) have "a \<in> set (inorder t)" by simp
  then have "a \<in> set_tree t" by simp
  then obtain c l r where t: "t = fill c (Node l a r)" using locate by blast
  then have "inorder t = (pre c @ inorder l) @ a # (inorder r @ post c)" by simp
  with assms have "pre c @ inorder l = xs \<and> inorder r @ post c = ys"
    by (metis distinct_split_unique)
  with t that show ?thesis by blast
qed

subsection \<open>Paths in the heap\<close>

fun ctx_at :: "'a heap \<Rightarrow> ptr \<Rightarrow> ptr \<Rightarrow> frame list \<Rightarrow> bool" where
  "ctx_at h p par [] \<longleftrightarrow> par = None"
| "ctx_at h p par (LeftOf a r # c) \<longleftrightarrow> par = Some a \<and> (case h a of None \<Rightarrow> False | Some n \<Rightarrow>
     nd_left n = p \<and> tree_at h (nd_right n) (Some a) r \<and> ctx_at h (Some a) (nd_parent n) c)"
| "ctx_at h p par (RightOf l a # c) \<longleftrightarrow> par = Some a \<and> (case h a of None \<Rightarrow> False | Some n \<Rightarrow>
     nd_right n = p \<and> tree_at h (nd_left n) (Some a) l \<and> ctx_at h (Some a) (nd_parent n) c)"

fun ctx_top :: "frame list \<Rightarrow> ptr \<Rightarrow> ptr" where
  "ctx_top [] p = p"
| "ctx_top (f # c) p = ctx_top c (Some (frame_addr f))"

lemma tree_at_fillD:
  assumes "tree_at h p par t" "ctx_at h p par c"
  shows "tree_at h (ctx_top c p) None (fill c t)"
  using assms
proof (induction c arbitrary: p par t)
  case Nil
  then show ?case by simp
next
  case (Cons f c)
  show ?case
  proof (cases f)
    case (LeftOf a r)
    with Cons.prems show ?thesis
      by (auto split: option.splits intro: Cons.IH)
  next
    case (RightOf l a)
    with Cons.prems show ?thesis
      by (auto split: option.splits intro: Cons.IH)
  qed
qed

lemma tree_at_fillE:
  assumes "tree_at h root None (fill c t)"
  obtains p par where "tree_at h p par t" "ctx_at h p par c" "ctx_top c p = root"
  using assms
proof (induction c arbitrary: t thesis)
  case Nil
  then show ?case by simp
next
  case (Cons f c)
  from Cons.prems(2) have "tree_at h root None (fill c (plug f t))" by simp
  then obtain q par where q: "tree_at h q par (plug f t)" "ctx_at h q par c" "ctx_top c q = root"
    using Cons.IH by blast
  show ?case
  proof (cases f)
    case (LeftOf a r)
    with q(1) obtain n where "q = Some a" "h a = Some n" "nd_parent n = par"
      "tree_at h (nd_left n) (Some a) t" "tree_at h (nd_right n) (Some a) r"
      by (auto split: option.splits)
    with q LeftOf Cons.prems(1)[of "nd_left n" "Some a"] show ?thesis by simp
  next
    case (RightOf l a)
    with q(1) obtain n where "q = Some a" "h a = Some n" "nd_parent n = par"
      "tree_at h (nd_left n) (Some a) l" "tree_at h (nd_right n) (Some a) t"
      by (auto split: option.splits)
    with q RightOf Cons.prems(1)[of "nd_right n" "Some a"] show ?thesis by simp
  qed
qed

lemma ctx_at_eq_heap:
  assumes "ctx_at h p par c" and "\<And>a. a \<in> set_ctx c \<Longrightarrow> h' a = h a"
  shows "ctx_at h' p par c"
  using assms
proof (induction h p par c rule: ctx_at.induct)
  case (2 h p par a r c)
  then show ?case by (auto split: option.splits intro: tree_at_eq_heap)
next
  case (3 h p par l a c)
  then show ?case by (auto split: option.splits intro: tree_at_eq_heap)
qed simp

text \<open>Replacing the child pointer that leads to the hole.\<close>

fun set_hole :: "frame \<Rightarrow> ptr \<Rightarrow> 'a TAvlTreeNode \<Rightarrow> 'a TAvlTreeNode" where
  "set_hole (LeftOf a r) p n = n\<lparr>nd_left := p\<rparr>"
| "set_hole (RightOf l a) p n = n\<lparr>nd_right := p\<rparr>"

fun relink :: "'a heap \<Rightarrow> frame list \<Rightarrow> ptr \<Rightarrow> 'a heap" where
  "relink h [] p = h"
| "relink h (f # c) p = (case h (frame_addr f) of None \<Rightarrow> h
     | Some n \<Rightarrow> h(frame_addr f \<mapsto> set_hole f p n))"

lemma relink_other [simp]: "a \<notin> set_ctx c \<Longrightarrow> relink h c p a = h a"
proof (cases c)
  case (Cons f d)
  assume "a \<notin> set_ctx c"
  with Cons show ?thesis by (cases f) (auto split: option.splits)
qed simp

lemma ctx_at_relink:
  assumes "ctx_at h p par c" and "distinct (pre c @ post c)"
  shows "ctx_at (relink h c p') p' par c"
proof (cases c)
  case Nil
  with assms show ?thesis by simp
next
  case (Cons f d)
  show ?thesis
  proof (cases f)
    case (LeftOf a r)
    with Cons assms obtain n where n: "h a = Some n" "nd_left n = p" "par = Some a"
      "tree_at h (nd_right n) (Some a) r" "ctx_at h (Some a) (nd_parent n) d"
      by (auto split: option.splits)
    let ?h = "h(a \<mapsto> n\<lparr>nd_left := p'\<rparr>)"
    have "tree_at ?h (nd_right n) (Some a) r"
      by (rule tree_at_eq_heap [OF n(4)]) (use assms(2) Cons LeftOf in auto)
    moreover have "ctx_at ?h (Some a) (nd_parent n) d"
      by (rule ctx_at_eq_heap [OF n(5)]) (use assms(2) Cons LeftOf in auto)
    ultimately show ?thesis using Cons LeftOf n by simp
  next
    case (RightOf l a)
    with Cons assms obtain n where n: "h a = Some n" "nd_right n = p" "par = Some a"
      "tree_at h (nd_left n) (Some a) l" "ctx_at h (Some a) (nd_parent n) d"
      by (auto split: option.splits)
    let ?h = "h(a \<mapsto> n\<lparr>nd_right := p'\<rparr>)"
    have "tree_at ?h (nd_left n) (Some a) l"
      by (rule tree_at_eq_heap [OF n(4)]) (use assms(2) Cons RightOf in auto)
    moreover have "ctx_at ?h (Some a) (nd_parent n) d"
      by (rule ctx_at_eq_heap [OF n(5)]) (use assms(2) Cons RightOf in auto)
    ultimately show ?thesis using Cons RightOf n by simp
  qed
qed

subsection \<open>Views of a node\<close>

text \<open>A node seen through the fields an argument needs: links with value, annotations, value.\<close>

definition links :: "'a heap \<Rightarrow> addr \<Rightarrow> ('a option \<times> ptr \<times> ptr \<times> ptr) option" where
  "links h a = map_option (\<lambda>n. (nd_value n, nd_parent n, nd_left n, nd_right n)) (h a)"

definition marks :: "'a heap \<Rightarrow> addr \<Rightarrow> (size_t \<times> size_t) option" where
  "marks h a = map_option (\<lambda>n. (nd_size n, nd_height n)) (h a)"

definition val_at :: "'a heap \<Rightarrow> addr \<Rightarrow> 'a option option" where
  "val_at h a = map_option nd_value (h a)"

lemmas view_defs = links_def marks_def val_at_def

lemma val_at_dom: "val_at h' = val_at h \<Longrightarrow> dom h' = dom h"
  by (auto simp: val_at_def fun_eq_iff dom_def) (metis map_option_is_None option.exhaust)+

lemma val_at_relink [simp]: "val_at (relink h c p) = val_at h"
proof (cases c)
  case (Cons f d)
  then show ?thesis
    by (cases f) (auto simp: val_at_def fun_eq_iff split: option.splits)
qed simp

lemma marks_relink [simp]: "marks (relink h c p) = marks h"
proof (cases c)
  case (Cons f d)
  then show ?thesis
    by (cases f) (auto simp: marks_def fun_eq_iff split: option.splits)
qed simp

lemma tree_at_links:
  assumes "links h' = links h"
  shows "tree_at h' p par t = tree_at h p par t"
proof -
  have "tree_at k' p par t" if "tree_at k p par t" "links k' = links k" for k k' :: "'a heap"
    using that(1)
  proof (rule tree_at_same_links)
    fix a assume "a \<in> set_tree t"
    with that obtain n where "k a = Some n" by (blast dest: tree_at_dom)
    with fun_cong [OF that(2), of a] show "same_links k k' a"
      by (auto simp: links_def same_links_def)
  qed
  from this[of h h'] this[of h' h] assms show ?thesis by auto
qed

lemma links_eqD:
  assumes "links h' = links h" "h a = Some n"
  obtains n' where "h' a = Some n'" "nd_parent n' = nd_parent n" "nd_left n' = nd_left n"
    "nd_right n' = nd_right n" "nd_value n' = nd_value n"
  using fun_cong [OF assms(1), of a] assms(2) that by (auto simp: links_def)

lemma ctx_at_links:
  assumes "links h' = links h"
  shows "ctx_at h' p par c = ctx_at h p par c"
proof -
  have "ctx_at k' p par c" if c: "ctx_at k p par c" and l: "links k' = links k" for k k' :: "'a heap"
    using c
  proof (induction c arbitrary: p par)
    case Nil
    then show ?case by simp
  next
    case (Cons f c)
    then obtain n where n: "k (frame_addr f) = Some n"
      by (cases f) (auto split: option.splits)
    obtain n' where n': "k' (frame_addr f) = Some n'" "nd_parent n' = nd_parent n"
      "nd_left n' = nd_left n" "nd_right n' = nd_right n"
      using links_eqD [OF l n] by blast
    show ?case using Cons n n' tree_at_links [OF l] by (cases f) simp_all
  qed
  from this[of h h'] this[of h' h] assms show ?thesis by auto
qed

subsection \<open>Stored sizes and heights\<close>

fun annot :: "'a heap \<Rightarrow> addr tree \<Rightarrow> bool" where
  "annot h Leaf \<longleftrightarrow> True"
| "annot h (Node l a r) \<longleftrightarrow> annot h l \<and> annot h r \<and>
     marks h a = Some (of_nat (size (Node l a r)), of_nat (height (Node l a r)))"

declare annot.simps(2) [simp del]

lemma annot_marks:
  assumes "annot h t" and "\<And>a. a \<in> set_tree t \<Longrightarrow> marks h' a = marks h a"
  shows "annot h' t"
  using assms by (induction t) (auto simp: annot.simps(2))

fun annot_ctx :: "'a heap \<Rightarrow> frame list \<Rightarrow> bool" where
  "annot_ctx h [] \<longleftrightarrow> True"
| "annot_ctx h (LeftOf a r # c) \<longleftrightarrow> annot h r \<and> annot_ctx h c"
| "annot_ctx h (RightOf l a # c) \<longleftrightarrow> annot h l \<and> annot_ctx h c"

lemma annot_ctx_marks:
  assumes "annot_ctx h c" and "\<And>a. a \<in> set_ctx c \<Longrightarrow> marks h' a = marks h a"
  shows "annot_ctx h' c"
  using assms by (induction h c rule: annot_ctx.induct) (auto intro: annot_marks)

lemma annot_fillD:
  "annot h (fill c t) \<Longrightarrow> annot h t \<and> annot_ctx h c"
proof (induction c arbitrary: t)
  case (Cons f c)
  then have "annot h (plug f t)" "annot_ctx h c" by auto
  then show ?case by (cases f) (simp_all add: annot.simps(2))
qed simp

lemma node_size_annot:
  "tree_at h p par t \<Longrightarrow> annot h t \<Longrightarrow> node_size h p = Some (of_nat (size t))"
  by (cases t) (auto simp: node_size_def annot.simps(2) marks_def split: option.splits)

lemma node_height_annot:
  "tree_at h p par t \<Longrightarrow> annot h t \<Longrightarrow> node_height h p = Some (of_nat (height t))"
  by (cases t) (auto simp: node_height_def annot.simps(2) marks_def split: option.splits)

subsection \<open>Frame rules\<close>

text \<open>What a change inside \<open>X\<close> leaves alone.\<close>

lemma tree_at_off:
  "tree_at h p par t \<Longrightarrow> (\<And>a. a \<notin> X \<Longrightarrow> h' a = h a) \<Longrightarrow> set_tree t \<inter> X = {} \<Longrightarrow> tree_at h' p par t"
  by (erule tree_at_eq_heap) (metis disjoint_iff)

lemma ctx_at_off:
  "ctx_at h p par c \<Longrightarrow> (\<And>a. a \<notin> X \<Longrightarrow> h' a = h a) \<Longrightarrow> set_ctx c \<inter> X = {} \<Longrightarrow> ctx_at h' p par c"
  by (erule ctx_at_eq_heap) (metis disjoint_iff)

lemma marks_off: "(\<And>a. a \<notin> X \<Longrightarrow> h' a = h a) \<Longrightarrow> Y \<inter> X = {} \<Longrightarrow> a \<in> Y \<Longrightarrow> marks h' a = marks h a"
  by (subgoal_tac "a \<notin> X") (auto simp: marks_def)

lemma annot_off:
  "annot h t \<Longrightarrow> (\<And>a. a \<notin> X \<Longrightarrow> h' a = h a) \<Longrightarrow> set_tree t \<inter> X = {} \<Longrightarrow> annot h' t"
  by (erule annot_marks) (rule marks_off)

lemma annot_ctx_off:
  "annot_ctx h c \<Longrightarrow> (\<And>a. a \<notin> X \<Longrightarrow> h' a = h a) \<Longrightarrow> set_ctx c \<inter> X = {} \<Longrightarrow> annot_ctx h' c"
  by (erule annot_ctx_marks) (rule marks_off)

lemmas off_rules = tree_at_off ctx_at_off annot_off annot_ctx_off

end
