(* ===== verification/Avl_Rotate.thy ===== *)
theory Avl_Rotate
  imports Avl_Zipper
begin

section \<open>Rotations and rebalancing\<close>

text \<open>
  The balancing half of \<open>avl_tree_stump\<close>: recomputing the stored size and height of a
  node, the two rotations, the balance check of one level and the loop that climbs to the
  root. The specification side is a purely functional rebalancing of the tree of
  addresses; the heap code is proved to compute it and to leave correct annotations.
\<close>

subsection \<open>The code\<close>

definition recalculate_height_and_size_with_data_from_two_childs ::
  "bool \<Rightarrow> 'a heap \<Rightarrow> ptr \<Rightarrow> 'a heap option" where
  "recalculate_height_and_size_with_data_from_two_childs dbg h lowest_incorrect = do {
     ASSERT dbg (lowest_incorrect \<noteq> None);
     if lowest_incorrect = None then Some h else do {
       n \<leftarrow> deref h lowest_incorrect;
       ls \<leftarrow> node_size h (nd_left n);
       rs \<leftarrow> node_size h (nd_right n);
       h \<leftarrow> upd h lowest_incorrect (\<lambda>n. n\<lparr>nd_size := ls + rs + 1\<rparr>);
       lh \<leftarrow> node_height h (nd_left n);
       rh \<leftarrow> node_height h (nd_right n);
       upd h lowest_incorrect (\<lambda>n. n\<lparr>nd_height := max lh rh + 1\<rparr>) } }"

definition replace_subnode_if_equal_to_such_and_node_not_null ::
  "bool \<Rightarrow> 'a heap \<Rightarrow> ptr \<Rightarrow> ptr \<Rightarrow> ptr \<Rightarrow> 'a heap option" where
  "replace_subnode_if_equal_to_such_and_node_not_null dbg h node such replacer =
     (if node = None then Some h else do {
        n \<leftarrow> deref h node;
        if nd_left n = such then set_left h node replacer
        else if nd_right n = such then set_right h node replacer
        else do { ASSERT dbg False; Some h } })"

text \<open>Both rotations take the reference \<open>root_\<close> and return its new value with the heap.\<close>

definition right_rotate :: "bool \<Rightarrow> 'a heap \<Rightarrow> ptr \<Rightarrow> bool \<Rightarrow> ('a heap \<times> ptr) option" where
  "right_rotate dbg h root needHeightAndSizeRestore = do {
     ASSERT dbg (root \<noteq> None);
     if root = None then Some (h, root) else do {
     rn \<leftarrow> deref h root;
     ASSERT dbg (nd_left rn \<noteq> None);
     if nd_left rn = None then Some (h, root) else do {
     let pivot = nd_left rn;
     pivot_inner_child \<leftarrow> get_right h pivot;
     h \<leftarrow> set_right h pivot root;
     rp \<leftarrow> get_parent h root;
     h \<leftarrow> set_parent h pivot rp;
     h \<leftarrow> set_parent h root pivot;
     h \<leftarrow> set_left h root pivot_inner_child;
     h \<leftarrow> (if pivot_inner_child \<noteq> None then set_parent h pivot_inner_child root else Some h);
     pp \<leftarrow> get_parent h pivot;
     h \<leftarrow> replace_subnode_if_equal_to_such_and_node_not_null dbg h pp root pivot;
     h \<leftarrow> (if needHeightAndSizeRestore then do {
          h \<leftarrow> recalculate_height_and_size_with_data_from_two_childs dbg h root;
          recalculate_height_and_size_with_data_from_two_childs dbg h pivot } else Some h);
     Some (h, pivot) } } }"

definition left_rotate :: "bool \<Rightarrow> 'a heap \<Rightarrow> ptr \<Rightarrow> bool \<Rightarrow> ('a heap \<times> ptr) option" where
  "left_rotate dbg h root needHeightAndSizeRestore = do {
     ASSERT dbg (root \<noteq> None);
     if root = None then Some (h, root) else do {
     rn \<leftarrow> deref h root;
     ASSERT dbg (nd_right rn \<noteq> None);
     if nd_right rn = None then Some (h, root) else do {
     let pivot = nd_right rn;
     pivot_inner_child \<leftarrow> get_left h pivot;
     h \<leftarrow> set_left h pivot root;
     rp \<leftarrow> get_parent h root;
     h \<leftarrow> set_parent h pivot rp;
     h \<leftarrow> set_parent h root pivot;
     h \<leftarrow> set_right h root pivot_inner_child;
     h \<leftarrow> (if pivot_inner_child \<noteq> None then set_parent h pivot_inner_child root else Some h);
     pp \<leftarrow> get_parent h pivot;
     h \<leftarrow> replace_subnode_if_equal_to_such_and_node_not_null dbg h pp root pivot;
     h \<leftarrow> (if needHeightAndSizeRestore then do {
          h \<leftarrow> recalculate_height_and_size_with_data_from_two_childs dbg h root;
          recalculate_height_and_size_with_data_from_two_childs dbg h pivot } else Some h);
     Some (h, pivot) } } }"

text \<open>One level: a single rotation towards the lighter side, never a double one.\<close>

definition check_and_restore_balance_of_level ::
  "bool \<Rightarrow> 'a heap \<Rightarrow> ptr \<Rightarrow> ('a heap \<times> ptr) option" where
  "check_and_restore_balance_of_level dbg h root = do {
     ASSERT dbg (root \<noteq> None);
     if root = None then Some (h, root) else do {
     n \<leftarrow> deref h root;
     left_height \<leftarrow> node_height h (nd_left n);
     right_height \<leftarrow> node_height h (nd_right n);
     if left_height > right_height + 1 then right_rotate dbg h root True
     else if right_height > left_height + 1 then left_rotate dbg h root True
     else Some (h, root) } }"

partial_function (option) restore_loop ::
  "bool \<Rightarrow> 'a heap \<Rightarrow> ptr \<Rightarrow> ('a heap \<times> ptr) option" where
  "restore_loop dbg h lowest_incorrect = do {
     p \<leftarrow> get_parent h lowest_incorrect;
     if p = None then Some (h, lowest_incorrect) else do {
       h \<leftarrow> recalculate_height_and_size_with_data_from_two_childs dbg h lowest_incorrect;
       (h, q) \<leftarrow> check_and_restore_balance_of_level dbg h lowest_incorrect;
       p \<leftarrow> get_parent h q;
       restore_loop dbg h p } }"

definition restore_height_size_and_balance_of_tree ::
  "bool \<Rightarrow> 'a heap \<Rightarrow> avl_tree_stump \<Rightarrow> ptr \<Rightarrow> ('a heap \<times> avl_tree_stump) option" where
  "restore_height_size_and_balance_of_tree dbg h s lowest_incorrect = do {
     ASSERT dbg (lowest_incorrect \<noteq> None);
     if lowest_incorrect = None then Some (h, s) else do {
     (h, p) \<leftarrow> restore_loop dbg h lowest_incorrect;
     h \<leftarrow> recalculate_height_and_size_with_data_from_two_childs dbg h p;
     (h, p) \<leftarrow> check_and_restore_balance_of_level dbg h p;
     Some (h, s\<lparr>s_root := p\<rparr>) } }"

subsection \<open>The functional specification\<close>

fun rot_right :: "addr tree \<Rightarrow> addr tree" where
  "rot_right (Node (Node a x b) y c) = Node a x (Node b y c)"
| "rot_right t = t"

fun rot_left :: "addr tree \<Rightarrow> addr tree" where
  "rot_left (Node a x (Node b y c)) = Node (Node a x b) y c"
| "rot_left t = t"

fun rebalance :: "addr tree \<Rightarrow> addr tree" where
  "rebalance Leaf = Leaf"
| "rebalance (Node l a r) =
     (if height l > height r + 1 then rot_right (Node l a r)
      else if height r > height l + 1 then rot_left (Node l a r)
      else Node l a r)"

text \<open>Rebalance at the hole and at every node above it.\<close>

fun rebuild :: "frame list \<Rightarrow> addr tree \<Rightarrow> addr tree" where
  "rebuild [] t = rebalance t"
| "rebuild (f # c) t = rebuild c (plug f (rebalance t))"

lemma inorder_rot_right [simp]: "inorder (rot_right t) = inorder t"
  by (cases t rule: rot_right.cases) simp_all

lemma inorder_rot_left [simp]: "inorder (rot_left t) = inorder t"
  by (cases t rule: rot_left.cases) simp_all

lemma inorder_rebalance [simp]: "inorder (rebalance t) = inorder t"
  by (cases t) (simp_all del: rot_right.simps rot_left.simps)

lemma inorder_plug: "inorder (plug f t) = pre [f] @ inorder t @ post [f]"
  by (cases f) simp_all

theorem inorder_rebuild [simp]: "inorder (rebuild c t) = pre c @ inorder t @ post c"
proof (induction c arbitrary: t)
  case Nil
  then show ?case by simp
next
  case (Cons f c)
  then show ?case by (cases f) (simp_all add: inorder_plug)
qed

subsection \<open>Recomputing one node\<close>

lemma recalculate_eval:
  assumes "h a = Some n" "node_size h (nd_left n) = Some ls" "node_size h (nd_right n) = Some rs"
    "node_height h (nd_left n) = Some lh" "node_height h (nd_right n) = Some rh"
    "nd_left n \<noteq> Some a" "nd_right n \<noteq> Some a"
  shows "recalculate_height_and_size_with_data_from_two_childs dbg h (Some a) =
    Some (h(a \<mapsto> n\<lparr>nd_size := ls + rs + 1, nd_height := max lh rh + 1\<rparr>))"
proof -
  have "node_height (h(a \<mapsto> m)) q = node_height h q" if "q \<noteq> Some a" for q m
    using that by (cases q) (auto simp: node_height_def)
  with assms show ?thesis
    by (simp add: recalculate_height_and_size_with_data_from_two_childs_def)
qed

lemma recalculate_spec:
  assumes t: "tree_at h (Some a) par (Node l a r)" and ann: "annot h l" "annot h r"
    and nin: "a \<notin> set_tree l" "a \<notin> set_tree r" and sz: "size (Node l a r) < 2 ^ 32"
  obtains h' where
    "recalculate_height_and_size_with_data_from_two_childs dbg h (Some a) = Some h'"
    "links h' = links h" "\<And>b. b \<noteq> a \<Longrightarrow> h' b = h b" "annot h' (Node l a r)"
proof -
  from t obtain n where n: "h a = Some n" "tree_at h (nd_left n) (Some a) l"
    "tree_at h (nd_right n) (Some a) r" by (auto split: option.splits)
  let ?n = "n\<lparr>nd_size := of_nat (size l) + of_nat (size r) + 1,
    nd_height := max (of_nat (height l)) (of_nat (height r)) + 1\<rparr>"
  have "nd_left n \<noteq> Some a" "nd_right n \<noteq> Some a"
    using n nin by (auto dest: tree_at_root_in)
  then have "recalculate_height_and_size_with_data_from_two_childs dbg h (Some a) =
    Some (h(a \<mapsto> ?n))"
    using n ann by (intro recalculate_eval) (auto intro: node_size_annot node_height_annot)
  moreover have "links (h(a \<mapsto> ?n)) = links h"
    using n by (auto simp: links_def)
  moreover have "annot (h(a \<mapsto> ?n)) (Node l a r)"
  proof -
    have "annot (h(a \<mapsto> ?n)) l" "annot (h(a \<mapsto> ?n)) r"
      by (rule annot_marks [OF ann(1)], use nin in \<open>auto simp: marks_def\<close>)
        (rule annot_marks [OF ann(2)], use nin in \<open>auto simp: marks_def\<close>)
    moreover have "height l < 2 ^ 32" "height r < 2 ^ 32"
      using sz height_le_size_tree [of l] height_le_size_tree [of r] by simp_all
    then have "max (of_nat (height l)) (of_nat (height r)) = (of_nat (max (height l) (height r)) :: size_t)"
      by (rule max_of_nat_size_t)
    ultimately show ?thesis by (simp add: annot.simps(2) marks_def)
  qed
  ultimately show ?thesis using that by simp
qed

subsection \<open>The rotations\<close>

lemma replace_subnode_spec:
  assumes "ctx_at h (Some y) par c" "y \<notin> set_ctx c"
  shows "replace_subnode_if_equal_to_such_and_node_not_null dbg h par (Some y) q =
    Some (relink h c q)"
proof (cases c)
  case Nil
  with assms show ?thesis
    by (simp add: replace_subnode_if_equal_to_such_and_node_not_null_def)
next
  case (Cons f d)
  show ?thesis
  proof (cases f)
    case (LeftOf a r)
    with assms Cons show ?thesis
      by (auto simp: replace_subnode_if_equal_to_such_and_node_not_null_def split: option.splits)
  next
    case (RightOf l a)
    with assms Cons obtain n where n: "h a = Some n" "nd_right n = Some y" "par = Some a"
      "tree_at h (nd_left n) (Some a) l" by (auto split: option.splits)
    moreover from this assms(2) Cons RightOf have "nd_left n \<noteq> Some y"
      by (auto dest: tree_at_root_in)
    ultimately show ?thesis using Cons RightOf
      by (simp add: replace_subnode_if_equal_to_such_and_node_not_null_def)
  qed
qed

text \<open>The heap after the link assignments of a rotation, before the parent's child pointer is
  replaced: \<open>x\<close> is the pivot, \<open>y\<close> the old root, \<open>b\<close> the pivot's inner child.\<close>

definition adopt :: "'a heap \<Rightarrow> ptr \<Rightarrow> ptr \<Rightarrow> 'a heap" where
  "adopt h b y = (case b of None \<Rightarrow> h | Some b \<Rightarrow>
     (case h b of None \<Rightarrow> h | Some n \<Rightarrow> h(b \<mapsto> n\<lparr>nd_parent := y\<rparr>)))"

lemma adopt_other [simp]: "b \<noteq> Some a \<Longrightarrow> adopt h b y a = h a"
  by (auto simp: adopt_def split: option.splits)

lemma adopt_views [simp]: "val_at (adopt h b y) = val_at h" "marks (adopt h b y) = marks h"
  by (auto simp: adopt_def val_at_def marks_def fun_eq_iff split: option.splits)

lemma tree_at_adopt:
  assumes "tree_at h b par t" "distinct (inorder t)"
  shows "tree_at (adopt h b y) b y t"
  using assms by (rule tree_at_reparent) (auto simp: adopt_def split: option.splits)

lemma set_parent_adopt:
  assumes "tree_at h b par t"
  shows "(if b \<noteq> None then set_parent h b y else Some h) = Some (adopt h b y)"
proof (cases b)
  case (Some a)
  with assms obtain n where "h a = Some n" by (auto simp: tree_at_Some)
  with Some show ?thesis by (simp add: adopt_def)
qed (simp add: adopt_def)

text \<open>The tail both rotations share: with \<open>needHeightAndSizeRestore\<close> the old root and then
  the pivot are recomputed.\<close>

definition recalculate_after_rotation ::
  "bool \<Rightarrow> bool \<Rightarrow> 'a heap \<Rightarrow> addr \<Rightarrow> addr \<Rightarrow> 'a heap option" where
  "recalculate_after_rotation dbg need h root pivot = (if need then do {
     h \<leftarrow> recalculate_height_and_size_with_data_from_two_childs dbg h (Some root);
     recalculate_height_and_size_with_data_from_two_childs dbg h (Some pivot) } else Some h)"

lemma right_rotate_links:
  assumes t: "tree_at h (Some y) par (Node (Node A x B) y C)" and c: "ctx_at h (Some y) par c"
    and d: "distinct (inorder (fill c (Node (Node A x B) y C)))"
  obtains h' where "\<And>need. right_rotate dbg h (Some y) need =
      do { k \<leftarrow> recalculate_after_rotation dbg need h' y x; Some (k, Some x) }"
    "tree_at h' (Some x) par (Node A x (Node B y C))" "ctx_at h' (Some x) par c"
    "val_at h' = val_at h" "marks h' = marks h"
    "\<And>a. a \<notin> set_tree (fill c (Node (Node A x B) y C)) \<Longrightarrow> h' a = h a"
proof -
  from t obtain yn xn where n: "h y = Some yn" "nd_parent yn = par" "nd_left yn = Some x"
    "h x = Some xn" "nd_parent xn = Some y" "tree_at h (nd_left xn) (Some x) A"
    "tree_at h (nd_right xn) (Some x) B" "tree_at h (nd_right yn) (Some y) C"
    by (auto split: option.splits)
  note ds = d [unfolded inorder_fill]
  let ?b = "nd_right xn"
  let ?g = "h(x \<mapsto> xn\<lparr>nd_right := Some y, nd_parent := par\<rparr>,
    y \<mapsto> yn\<lparr>nd_parent := Some x, nd_left := ?b\<rparr>)"
  let ?k = "adopt ?g ?b (Some y)" let ?h = "relink ?k c (Some x)"
  have B: "tree_at ?g ?b (Some x) B"
    by (rule tree_at_eq_heap [OF n(7)]) (use ds in auto)
  have b: "?b \<noteq> Some x" "?b \<noteq> Some y"
    using n(7) ds by (auto dest!: tree_at_root_in)
  have notb: "?b \<noteq> Some a" if "a \<in> set_ctx c \<union> set_tree A \<union> set_tree C" for a
    using n(7) ds that by (auto dest!: tree_at_root_in)
  have off: "a \<notin> set_ctx c" if "a \<in> set_tree A \<union> set_tree B \<union> set_tree C" for a
    using ds that by auto
  have ck: "ctx_at ?k (Some y) par c"
    by (rule ctx_at_eq_heap [OF c]) (use ds notb in auto)
  have run: "right_rotate dbg h (Some y) need =
      do { k \<leftarrow> recalculate_after_rotation dbg need ?h y x; Some (k, Some x) }" for need
    using n b ds set_parent_adopt [OF B, of "Some y"] replace_subnode_spec [OF ck, of dbg "Some x"]
    by (simp add: right_rotate_def recalculate_after_rotation_def Let_def)
  have A: "tree_at ?h (nd_left xn) (Some x) A"
    by (rule tree_at_eq_heap [OF n(6)]) (use ds notb off in auto)
  have C: "tree_at ?h (nd_right yn) (Some y) C"
    by (rule tree_at_eq_heap [OF n(8)]) (use ds notb off in auto)
  have B': "tree_at ?h ?b (Some y) B"
    by (rule tree_at_eq_heap [OF tree_at_adopt [OF B]]) (use ds off in auto)
  have new: "tree_at ?h (Some x) par (Node A x (Node B y C))"
    using A B' C b ds by simp
  have cx: "ctx_at ?h (Some x) par c"
    by (rule ctx_at_relink [OF ck]) (use ds in auto)
  have "val_at ?h = val_at h" "marks ?h = marks h"
    using n ds by (auto simp: val_at_def marks_def fun_eq_iff)
  moreover have "?h a = h a" if "a \<notin> set_tree (fill c (Node (Node A x B) y C))" for a
  proof -
    from that have "?b \<noteq> Some a" using n(7) by (auto simp: set_tree_fill dest!: tree_at_root_in)
    with that show ?thesis by (auto simp: set_tree_fill)
  qed
  ultimately show ?thesis using that run new cx by blast
qed

lemma left_rotate_links:
  assumes t: "tree_at h (Some y) par (Node A y (Node B x C))" and c: "ctx_at h (Some y) par c"
    and d: "distinct (inorder (fill c (Node A y (Node B x C))))"
  obtains h' where "\<And>need. left_rotate dbg h (Some y) need =
      do { k \<leftarrow> recalculate_after_rotation dbg need h' y x; Some (k, Some x) }"
    "tree_at h' (Some x) par (Node (Node A y B) x C)" "ctx_at h' (Some x) par c"
    "val_at h' = val_at h" "marks h' = marks h"
    "\<And>a. a \<notin> set_tree (fill c (Node A y (Node B x C))) \<Longrightarrow> h' a = h a"
proof -
  from t obtain yn xn where n: "h y = Some yn" "nd_parent yn = par" "nd_right yn = Some x"
    "h x = Some xn" "nd_parent xn = Some y" "tree_at h (nd_left yn) (Some y) A"
    "tree_at h (nd_left xn) (Some x) B" "tree_at h (nd_right xn) (Some x) C"
    by (auto split: option.splits)
  note ds = d [unfolded inorder_fill]
  let ?b = "nd_left xn"
  let ?g = "h(x \<mapsto> xn\<lparr>nd_left := Some y, nd_parent := par\<rparr>,
    y \<mapsto> yn\<lparr>nd_parent := Some x, nd_right := ?b\<rparr>)"
  let ?k = "adopt ?g ?b (Some y)" let ?h = "relink ?k c (Some x)"
  have B: "tree_at ?g ?b (Some x) B"
    by (rule tree_at_eq_heap [OF n(7)]) (use ds in auto)
  have b: "?b \<noteq> Some x" "?b \<noteq> Some y"
    using n(7) ds by (auto dest!: tree_at_root_in)
  have notb: "?b \<noteq> Some a" if "a \<in> set_ctx c \<union> set_tree A \<union> set_tree C" for a
    using n(7) ds that by (auto dest!: tree_at_root_in)
  have off: "a \<notin> set_ctx c" if "a \<in> set_tree A \<union> set_tree B \<union> set_tree C" for a
    using ds that by auto
  have ck: "ctx_at ?k (Some y) par c"
    by (rule ctx_at_eq_heap [OF c]) (use ds notb in auto)
  have run: "left_rotate dbg h (Some y) need =
      do { k \<leftarrow> recalculate_after_rotation dbg need ?h y x; Some (k, Some x) }" for need
    using n b ds set_parent_adopt [OF B, of "Some y"] replace_subnode_spec [OF ck, of dbg "Some x"]
    by (simp add: left_rotate_def recalculate_after_rotation_def Let_def)
  have A: "tree_at ?h (nd_left yn) (Some y) A"
    by (rule tree_at_eq_heap [OF n(6)]) (use ds notb off in auto)
  have C: "tree_at ?h (nd_right xn) (Some x) C"
    by (rule tree_at_eq_heap [OF n(8)]) (use ds notb off in auto)
  have B': "tree_at ?h ?b (Some y) B"
    by (rule tree_at_eq_heap [OF tree_at_adopt [OF B]]) (use ds off in auto)
  have new: "tree_at ?h (Some x) par (Node (Node A y B) x C)"
    using A B' C b ds by simp
  have cx: "ctx_at ?h (Some x) par c"
    by (rule ctx_at_relink [OF ck]) (use ds in auto)
  have "val_at ?h = val_at h" "marks ?h = marks h"
    using n ds by (auto simp: val_at_def marks_def fun_eq_iff)
  moreover have "?h a = h a" if "a \<notin> set_tree (fill c (Node A y (Node B x C)))" for a
  proof -
    from that have "?b \<noteq> Some a" using n(7) by (auto simp: set_tree_fill dest!: tree_at_root_in)
    with that show ?thesis by (auto simp: set_tree_fill)
  qed
  ultimately show ?thesis using that run new cx by blast
qed

subsection \<open>One level of the climb\<close>

text \<open>The state at one level: the subtree at \<open>p\<close>, the path above it with correctly annotated
  side trees, no sharing, and fewer nodes than \<open>size_t\<close> can count.\<close>

definition focus :: "'a heap \<Rightarrow> ptr \<Rightarrow> ptr \<Rightarrow> frame list \<Rightarrow> addr tree \<Rightarrow> bool" where
  "focus h p par c t \<longleftrightarrow> tree_at h p par t \<and> ctx_at h p par c \<and> annot_ctx h c \<and>
     distinct (inorder (fill c t)) \<and> size (fill c t) < 2 ^ 32"

text \<open>The values stay, and only nodes of \<open>X\<close> change at all.\<close>

definition touches :: "addr set \<Rightarrow> 'a heap \<Rightarrow> 'a heap \<Rightarrow> bool" where
  "touches X h h' \<longleftrightarrow> val_at h' = val_at h \<and> (\<forall>a. a \<notin> X \<longrightarrow> h' a = h a)"

lemma touches_refl [simp]: "touches X h h"
  by (simp add: touches_def)

lemma touches_trans: "touches X h k \<Longrightarrow> touches X k h' \<Longrightarrow> touches X h h'"
  by (simp add: touches_def)

lemma focus_distinct:
  assumes "focus h p par c t"
  shows "distinct (pre c)" "distinct (post c)" "distinct (inorder t)"
    "\<And>a. a \<in> set_tree t \<Longrightarrow> a \<notin> set_ctx c" "set (pre c) \<inter> set (post c) = {}"
  using assms by (auto simp: focus_def)

lemma focus_size: "focus h p par c t \<Longrightarrow> size t < 2 ^ 32"
  by (simp add: focus_def size_fill)

text \<open>A change of annotations inside the subtree keeps the focus.\<close>

lemma focus_links:
  assumes "focus h p par c t" "links h' = links h" "\<And>a. a \<notin> set_tree t \<Longrightarrow> h' a = h a"
  shows "focus h' p par c t"
proof -
  have "annot_ctx h' c"
  proof (rule annot_ctx_off)
    show "annot_ctx h c" using assms(1) by (simp add: focus_def)
    show "set_ctx c \<inter> set_tree t = {}" using focus_distinct(4) [OF assms(1)] by blast
  qed (rule assms(3))
  with assms show ?thesis
    by (simp add: focus_def tree_at_links [OF assms(2)] ctx_at_links [OF assms(2)])
qed

lemma links_touches:
  "links h' = links h \<Longrightarrow> (\<And>a. a \<notin> X \<Longrightarrow> h' a = h a) \<Longrightarrow> touches X h h'"
proof -
  assume l: "links h' = links h" and "\<And>a. a \<notin> X \<Longrightarrow> h' a = h a"
  moreover have "val_at h' = val_at h"
  proof
    fix a
    have "map_option fst (links h' a) = map_option fst (links h a)" using l by simp
    then show "val_at h' a = val_at h a"
      by (simp add: links_def val_at_def option.map_comp comp_def)
  qed
  ultimately show ?thesis by (simp add: touches_def)
qed

lemma recalculate_pair_right:
  assumes t: "tree_at k (Some x) par (Node A x (Node B y C))"
    and ann: "annot k A" "annot k B" "annot k C"
    and d: "distinct (inorder (Node A x (Node B y C)))" and sz: "size (Node A x (Node B y C)) < 2 ^ 32"
  obtains h' where "recalculate_after_rotation dbg True k y x = Some h'" "links h' = links k"
    "\<And>b. b \<notin> {x, y} \<Longrightarrow> h' b = k b" "annot h' (Node A x (Node B y C))"
proof -
  from t obtain xn where "tree_at k (Some y) (Some x) (Node B y C)"
    by (auto split: option.splits)
  then obtain h1 where h1:
    "recalculate_height_and_size_with_data_from_two_childs dbg k (Some y) = Some h1"
    "links h1 = links k" "\<And>b. b \<noteq> y \<Longrightarrow> h1 b = k b" "annot h1 (Node B y C)"
    by (rule recalculate_spec) (use ann d sz in auto)
  have "annot h1 A"
    by (rule annot_off [OF ann(1), of "{y}"], rule h1(3)) (use d in auto)
  moreover from t h1(2) have "tree_at h1 (Some x) par (Node A x (Node B y C))"
    by (simp only: tree_at_links [OF h1(2)])
  ultimately obtain h2 where h2:
    "recalculate_height_and_size_with_data_from_two_childs dbg h1 (Some x) = Some h2"
    "links h2 = links h1" "\<And>b. b \<noteq> x \<Longrightarrow> h2 b = h1 b" "annot h2 (Node A x (Node B y C))"
    using h1(4) by (elim recalculate_spec [where dbg = dbg]) (use d sz in auto)
  show ?thesis
    by (rule that [of h2]) (use h1 h2 in \<open>auto simp: recalculate_after_rotation_def\<close>)
qed

lemma recalculate_pair_left:
  assumes t: "tree_at k (Some x) par (Node (Node A y B) x C)"
    and ann: "annot k A" "annot k B" "annot k C"
    and d: "distinct (inorder (Node (Node A y B) x C))" and sz: "size (Node (Node A y B) x C) < 2 ^ 32"
  obtains h' where "recalculate_after_rotation dbg True k y x = Some h'" "links h' = links k"
    "\<And>b. b \<notin> {x, y} \<Longrightarrow> h' b = k b" "annot h' (Node (Node A y B) x C)"
proof -
  from t obtain xn where "tree_at k (Some y) (Some x) (Node A y B)"
    by (auto split: option.splits)
  then obtain h1 where h1:
    "recalculate_height_and_size_with_data_from_two_childs dbg k (Some y) = Some h1"
    "links h1 = links k" "\<And>b. b \<noteq> y \<Longrightarrow> h1 b = k b" "annot h1 (Node A y B)"
    by (rule recalculate_spec) (use ann d sz in auto)
  have "annot h1 C"
    by (rule annot_off [OF ann(3), of "{y}"], rule h1(3)) (use d in auto)
  moreover from t h1(2) have "tree_at h1 (Some x) par (Node (Node A y B) x C)"
    by (simp only: tree_at_links [OF h1(2)])
  ultimately obtain h2 where h2:
    "recalculate_height_and_size_with_data_from_two_childs dbg h1 (Some x) = Some h2"
    "links h2 = links h1" "\<And>b. b \<noteq> x \<Longrightarrow> h2 b = h1 b" "annot h2 (Node (Node A y B) x C)"
    using h1(4) by (elim recalculate_spec [where dbg = dbg]) (use d sz in auto)
  show ?thesis
    by (rule that [of h2]) (use h1 h2 in \<open>auto simp: recalculate_after_rotation_def\<close>)
qed

lemma right_rotate_spec:
  assumes f: "focus h (Some y) par c (Node (Node A x B) y C)"
    and ann: "annot h A" "annot h B" "annot h C"
  obtains h' where "right_rotate dbg h (Some y) True = Some (h', Some x)"
    "focus h' (Some x) par c (Node A x (Node B y C))" "annot h' (Node A x (Node B y C))"
    "touches (set_tree (fill c (Node (Node A x B) y C))) h h'"
proof -
  let ?t = "Node A x (Node B y C)" let ?X = "set_tree (fill c (Node (Node A x B) y C))"
  obtain k where k: "\<And>need. right_rotate dbg h (Some y) need =
      do { k \<leftarrow> recalculate_after_rotation dbg need k y x; Some (k, Some x) }"
    "tree_at k (Some x) par ?t" "ctx_at k (Some x) par c" "val_at k = val_at h"
    "marks k = marks h" "\<And>a. a \<notin> ?X \<Longrightarrow> k a = h a"
    using f unfolding focus_def by (blast intro: right_rotate_links [of h y par A x B C c dbg])
  have fk: "focus k (Some x) par c ?t"
    using f k(2,3,5) by (auto simp: focus_def size_fill intro: annot_ctx_marks)
  have annk: "annot k A" "annot k B" "annot k C"
    using ann k(5) by (auto intro: annot_marks)
  obtain h' where h': "recalculate_after_rotation dbg True k y x = Some h'"
    "links h' = links k" "\<And>b. b \<notin> {x, y} \<Longrightarrow> h' b = k b" "annot h' ?t"
    by (rule recalculate_pair_right [OF k(2) annk focus_distinct(3) [OF fk] focus_size [OF fk],
        where dbg = dbg]) (rule that)
  have "focus h' (Some x) par c ?t"
    using fk h'(2) by (rule focus_links) (use h'(3) in auto)
  moreover have "touches ?X k h'"
    using h'(2) by (rule links_touches) (use h'(3) in \<open>auto simp: set_tree_fill\<close>)
  then have "touches ?X h h'"
    using k(4,6) by (auto simp: touches_def)
  ultimately show ?thesis using that k(1)[of True] h'(1,4) by simp
qed

lemma left_rotate_spec:
  assumes f: "focus h (Some y) par c (Node A y (Node B x C))"
    and ann: "annot h A" "annot h B" "annot h C"
  obtains h' where "left_rotate dbg h (Some y) True = Some (h', Some x)"
    "focus h' (Some x) par c (Node (Node A y B) x C)" "annot h' (Node (Node A y B) x C)"
    "touches (set_tree (fill c (Node A y (Node B x C)))) h h'"
proof -
  let ?t = "Node (Node A y B) x C" let ?X = "set_tree (fill c (Node A y (Node B x C)))"
  obtain k where k: "\<And>need. left_rotate dbg h (Some y) need =
      do { k \<leftarrow> recalculate_after_rotation dbg need k y x; Some (k, Some x) }"
    "tree_at k (Some x) par ?t" "ctx_at k (Some x) par c" "val_at k = val_at h"
    "marks k = marks h" "\<And>a. a \<notin> ?X \<Longrightarrow> k a = h a"
    using f unfolding focus_def by (blast intro: left_rotate_links [of h y par A B x C c dbg])
  have fk: "focus k (Some x) par c ?t"
    using f k(2,3,5) by (auto simp: focus_def size_fill intro: annot_ctx_marks)
  have annk: "annot k A" "annot k B" "annot k C"
    using ann k(5) by (auto intro: annot_marks)
  obtain h' where h': "recalculate_after_rotation dbg True k y x = Some h'"
    "links h' = links k" "\<And>b. b \<notin> {x, y} \<Longrightarrow> h' b = k b" "annot h' ?t"
    by (rule recalculate_pair_left [OF k(2) annk focus_distinct(3) [OF fk] focus_size [OF fk],
        where dbg = dbg]) (rule that)
  have "focus h' (Some x) par c ?t"
    using fk h'(2) by (rule focus_links) (use h'(3) in auto)
  moreover have "touches ?X k h'"
    using h'(2) by (rule links_touches) (use h'(3) in \<open>auto simp: set_tree_fill\<close>)
  then have "touches ?X h h'"
    using k(4,6) by (auto simp: touches_def)
  ultimately show ?thesis using that k(1)[of True] h'(1,4) by simp
qed

lemma check_and_restore_spec:
  assumes f: "focus h (Some a) par c (Node l a r)" and ann: "annot h (Node l a r)"
  obtains h' q where "check_and_restore_balance_of_level dbg h (Some a) = Some (h', q)"
    "focus h' q par c (rebalance (Node l a r))" "annot h' (rebalance (Node l a r))"
    "touches (set_tree (fill c (Node l a r))) h h'"
proof -
  from f obtain n where n: "h a = Some n" "tree_at h (nd_left n) (Some a) l"
    "tree_at h (nd_right n) (Some a) r" by (auto simp: focus_def split: option.splits)
  from ann have al: "annot h l" "annot h r" by (simp_all add: annot.simps(2))
  have "height l + 1 < 2 ^ 32" "height r + 1 < 2 ^ 32"
    using focus_size [OF f] height_le_size_tree [of l] height_le_size_tree [of r] by simp_all
  then have hs: "(of_nat (height r) + 1 :: size_t) < of_nat (height l) \<longleftrightarrow> height r + 1 < height l"
    "(of_nat (height l) + 1 :: size_t) < of_nat (height r) \<longleftrightarrow> height l + 1 < height r"
    using of_nat_less_size_t [of "height r + 1" "height l"]
      of_nat_less_size_t [of "height l + 1" "height r"] by (simp_all add: ac_simps)
  have run: "check_and_restore_balance_of_level dbg h (Some a) =
      (if height r + 1 < height l then right_rotate dbg h (Some a) True
       else if height l + 1 < height r then left_rotate dbg h (Some a) True else Some (h, Some a))"
    using n hs node_height_annot [OF n(2) al(1)] node_height_annot [OF n(3) al(2)]
    by (simp add: check_and_restore_balance_of_level_def)
  consider "height r + 1 < height l" | "\<not> height r + 1 < height l" "height l + 1 < height r"
    | "\<not> height r + 1 < height l" "\<not> height l + 1 < height r" by blast
  then show ?thesis
  proof cases
    case 1
    then obtain A x B where l: "l = Node A x B" by (cases l) auto
    show ?thesis
      by (rule right_rotate_spec [OF f [unfolded l], where dbg = dbg])
        (use that 1 l al run in \<open>simp_all add: annot.simps(2)\<close>)
  next
    case 2
    then obtain A x B where r: "r = Node A x B" by (cases r) auto
    show ?thesis
      by (rule left_rotate_spec [OF f [unfolded r], where dbg = dbg])
        (use that 2 r al run in \<open>simp_all add: annot.simps(2)\<close>)
  next
    case 3
    with that f ann run show ?thesis by simp
  qed
qed

lemma rebalance_Node: "\<exists>l' b r'. rebalance (Node l a r) = Node l' b r'"
proof -
  have "size (rebalance (Node l a r)) = size (Node l a r)"
    by (metis inorder_rebalance length_inorder)
  then show ?thesis by (cases "rebalance (Node l a r)") auto
qed

text \<open>Recompute and rebalance: the body of the loop.\<close>

definition restore_level :: "bool \<Rightarrow> 'a heap \<Rightarrow> ptr \<Rightarrow> ('a heap \<times> ptr) option" where
  "restore_level dbg h p = do {
     h \<leftarrow> recalculate_height_and_size_with_data_from_two_childs dbg h p;
     check_and_restore_balance_of_level dbg h p }"

lemma restore_level_spec:
  assumes f: "focus h (Some a) par c (Node l a r)" and ann: "annot h l" "annot h r"
  obtains h' q where "restore_level dbg h (Some a) = Some (h', q)"
    "focus h' q par c (rebalance (Node l a r))" "annot h' (rebalance (Node l a r))"
    "touches (set_tree (fill c (Node l a r))) h h'"
proof -
  let ?X = "set_tree (fill c (Node l a r))"
  from focus_distinct(3) [OF f] have d: "a \<notin> set_tree l" "a \<notin> set_tree r" by auto
  from f have "tree_at h (Some a) par (Node l a r)" by (simp add: focus_def)
  then obtain k where k:
    "recalculate_height_and_size_with_data_from_two_childs dbg h (Some a) = Some k"
    "links k = links h" "\<And>b. b \<noteq> a \<Longrightarrow> k b = h b" "annot k (Node l a r)"
    using ann d focus_size [OF f] by (rule recalculate_spec [where dbg = dbg]) (rule that)
  have fk: "focus k (Some a) par c (Node l a r)"
    using f k(2) by (rule focus_links) (use k(3) in auto)
  have tk: "touches ?X h k"
    using k(2) by (rule links_touches) (use k(3) in \<open>auto simp: set_tree_fill\<close>)
  show ?thesis
    by (rule check_and_restore_spec [OF fk k(4), where dbg = dbg])
      (rule that, auto simp: restore_level_def k(1) intro: touches_trans [OF tk])
qed

subsection \<open>The climb to the root\<close>

lemma focus_up:
  assumes "focus h p par (f # c) t" "annot h t"
  obtains a l r par' where "par = Some a" "plug f t = Node l a r" "annot h l" "annot h r"
    "focus h (Some a) par' c (plug f t)"
proof -
  have ff: "fill (f # c) t = fill c (plug f t)" by simp
  show ?thesis
  proof (cases f)
    case (LeftOf a r)
    with assms obtain n where "par = Some a" "h a = Some n" "nd_left n = p"
      "tree_at h (nd_right n) (Some a) r" "ctx_at h (Some a) (nd_parent n) c"
      "tree_at h p (Some a) t" "annot h r" "annot_ctx h c"
      by (auto simp: focus_def split: option.splits)
    with assms ff LeftOf that show ?thesis by (auto simp: focus_def)
  next
    case (RightOf l a)
    with assms obtain n where "par = Some a" "h a = Some n" "nd_right n = p"
      "tree_at h (nd_left n) (Some a) l" "ctx_at h (Some a) (nd_parent n) c"
      "tree_at h p (Some a) t" "annot h l" "annot_ctx h c"
      by (auto simp: focus_def split: option.splits)
    with assms ff RightOf that show ?thesis by (auto simp: focus_def)
  qed
qed

lemma focus_parent:
  "focus h (Some a) par c t \<Longrightarrow> get_parent h (Some a) = Some par"
  by (cases t) (auto simp: focus_def split: option.splits)

lemma focus_Node: "focus h p par c (Node l a r) \<Longrightarrow> p = Some a"
  by (simp add: focus_def)

lemma focus_root: "focus h p None c t \<Longrightarrow> c = []"
  by (cases "(h, p, None :: ptr, c)" rule: ctx_at.cases) (auto simp: focus_def)

lemma set_tree_inorder_eq: "inorder t = inorder t' \<Longrightarrow> set_tree t = set_tree t'"
  by (metis set_inorder)

lemma restore_loop_spec:
  assumes "focus h (Some a) par c (Node l a r)" "annot h l" "annot h r"
  shows "\<exists>h' q. do { (h, p) \<leftarrow> restore_loop dbg h (Some a); restore_level dbg h p } = Some (h', q) \<and>
    tree_at h' q None (rebuild c (Node l a r)) \<and> annot h' (rebuild c (Node l a r)) \<and>
    touches (set_tree (fill c (Node l a r))) h h'"
  using assms
proof (induction c arbitrary: h a par l r)
  case Nil
  then have "par = None" by (simp add: focus_def)
  with focus_parent [OF Nil.prems(1)] have "restore_loop dbg h (Some a) = Some (h, Some a)"
    by (subst restore_loop.simps) auto
  moreover obtain h' q where "restore_level dbg h (Some a) = Some (h', q)"
    "focus h' q par [] (rebalance (Node l a r))" "annot h' (rebalance (Node l a r))"
    "touches (set_tree (fill [] (Node l a r))) h h'"
    using restore_level_spec [OF Nil.prems, where dbg = dbg] by blast
  ultimately show ?case using \<open>par = None\<close> by (auto simp: focus_def simp del: rebalance.simps)
next
  case (Cons f c)
  let ?t = "Node l a r"
  obtain k q where k: "restore_level dbg h (Some a) = Some (k, q)"
    "focus k q par (f # c) (rebalance ?t)" "annot k (rebalance ?t)"
    "touches (set_tree (fill (f # c) ?t)) h k"
    using restore_level_spec [OF Cons.prems, where dbg = dbg] by blast
  obtain b where b: "q = Some b"
    using rebalance_Node [of l a r] focus_Node k(2) by metis
  obtain e l' r' par' where e: "par = Some e" "plug f (rebalance ?t) = Node l' e r'" "annot k l'"
    "annot k r'" "focus k (Some e) par' c (Node l' e r')"
    using focus_up [OF k(2,3)] by metis
  have run: "restore_loop dbg h (Some a) = restore_loop dbg k (Some e)"
    using focus_parent [OF Cons.prems(1)] focus_parent [OF k(2) [unfolded b]] k(1) b e(1)
    by (subst restore_loop.simps) (auto simp: restore_level_def split: bind_splits)
  have X: "set_tree (fill c (Node l' e r')) = set_tree (fill (f # c) ?t)"
    unfolding e(2) [symmetric]
    by (rule set_tree_inorder_eq) (simp add: inorder_plug)
  show ?case
    using Cons.IH [OF e(5,3,4)] touches_trans [OF k(4)] e(2) by (auto simp: run X)
qed

theorem restore_height_size_and_balance_spec:
  assumes "focus h (Some a) par c (Node l a r)" "annot h l" "annot h r"
  obtains h' q where
    "restore_height_size_and_balance_of_tree dbg h s (Some a) = Some (h', s\<lparr>s_root := q\<rparr>)"
    "tree_at h' q None (rebuild c (Node l a r))" "annot h' (rebuild c (Node l a r))"
    "touches (set_tree (fill c (Node l a r))) h h'"
proof -
  obtain h' q where h': "do { (h, p) \<leftarrow> restore_loop dbg h (Some a); restore_level dbg h p } = Some (h', q)"
    "tree_at h' q None (rebuild c (Node l a r))" "annot h' (rebuild c (Node l a r))"
    "touches (set_tree (fill c (Node l a r))) h h'"
    using restore_loop_spec [OF assms] by blast
  from h'(1) have "restore_height_size_and_balance_of_tree dbg h s (Some a) = Some (h', s\<lparr>s_root := q\<rparr>)"
    by (auto simp: restore_height_size_and_balance_of_tree_def restore_level_def split: bind_splits)
  with h' that show ?thesis by blast
qed

end
