(* ===== verification/Avl_Navigate.thy ===== *)
theory Avl_Navigate
  imports Avl_Rotate
begin

section \<open>Navigation: neighbours, indices and jumps\<close>

text \<open>
  The const half of \<open>avl_tree_stump\<close>: the leftmost and rightmost node of a subtree, the
  in-order neighbours, the index of a node, the node of an index, and \<open>go_to\<close>. The lemmas
  read each of them on the in-order list of addresses.
\<close>

subsection \<open>The code\<close>

datatype TNodeType = LEFT | RIGHT

partial_function (option) rightmost_loop :: "'a heap \<Rightarrow> ptr \<Rightarrow> ptr option" where
  "rightmost_loop h node = do {
     n \<leftarrow> deref h node;
     if nd_right n = None then Some node else rightmost_loop h (nd_right n) }"

definition find_rightmost :: "bool \<Rightarrow> 'a heap \<Rightarrow> ptr \<Rightarrow> ptr option" where
  "find_rightmost dbg h node = do {
     ASSERT dbg (node \<noteq> None);
     if node = None then Some None else rightmost_loop h node }"

partial_function (option) leftmost_loop :: "'a heap \<Rightarrow> ptr \<Rightarrow> ptr option" where
  "leftmost_loop h node = do {
     n \<leftarrow> deref h node;
     if nd_left n = None then Some node else leftmost_loop h (nd_left n) }"

definition find_leftmost :: "bool \<Rightarrow> 'a heap \<Rightarrow> ptr \<Rightarrow> ptr option" where
  "find_leftmost dbg h node = do {
     ASSERT dbg (node \<noteq> None);
     if node = None then Some None else leftmost_loop h node }"

definition child_type :: "bool \<Rightarrow> 'a heap \<Rightarrow> avl_tree_stump \<Rightarrow> ptr \<Rightarrow> TNodeType option" where
  "child_type dbg h s node = do {
     ASSERT dbg (node \<noteq> None);
     ASSERT dbg (s_root s \<noteq> node);
     n \<leftarrow> deref h node;
     ASSERT dbg (nd_parent n \<noteq> None);
     p \<leftarrow> deref h (nd_parent n);
     if nd_left p = node then Some LEFT else do {
       ASSERT dbg (nd_right p = node);
       Some RIGHT } }"

text \<open>\<open>for(;node->_parent && child_type(node)==side;node = node->_parent);\<close>\<close>

partial_function (option) climb_while ::
  "bool \<Rightarrow> 'a heap \<Rightarrow> avl_tree_stump \<Rightarrow> TNodeType \<Rightarrow> ptr \<Rightarrow> ptr option" where
  "climb_while dbg h s side node = do {
     n \<leftarrow> deref h node;
     if nd_parent n = None then Some node else do {
       ct \<leftarrow> child_type dbg h s node;
       if ct = side then climb_while dbg h s side (nd_parent n) else Some node } }"

definition forward :: "bool \<Rightarrow> 'a heap \<Rightarrow> avl_tree_stump \<Rightarrow> ptr \<Rightarrow> ptr option" where
  "forward dbg h s node = do {
     ASSERT dbg (node \<noteq> None);
     ASSERT dbg (s_root s \<noteq> None);
     if node = None then Some None else do {
     n \<leftarrow> deref h node;
     ASSERT dbg (nd_parent n \<noteq> None \<or> node = s_root s);
     if nd_right n \<noteq> None then find_leftmost dbg h (nd_right n)
     else if nd_parent n = None then Some None
     else do {
       ct \<leftarrow> child_type dbg h s node;
       if ct = LEFT then Some (nd_parent n) else do {
         ASSERT dbg (ct = RIGHT);
         q \<leftarrow> climb_while dbg h s RIGHT node;
         get_parent h q } } } }"

definition backward :: "bool \<Rightarrow> 'a heap \<Rightarrow> avl_tree_stump \<Rightarrow> ptr \<Rightarrow> ptr option" where
  "backward dbg h s node = do {
     ASSERT dbg (node \<noteq> None);
     ASSERT dbg (s_root s \<noteq> None);
     if node = None then Some None else do {
     n \<leftarrow> deref h node;
     ASSERT dbg (nd_parent n \<noteq> None \<or> node = s_root s);
     if nd_left n \<noteq> None then find_rightmost dbg h (nd_left n)
     else if nd_parent n = None then Some None
     else do {
       ct \<leftarrow> child_type dbg h s node;
       if ct = RIGHT then Some (nd_parent n) else do {
         ASSERT dbg (ct = LEFT);
         q \<leftarrow> climb_while dbg h s LEFT node;
         get_parent h q } } } }"

definition left_subtree_size :: "'a heap \<Rightarrow> ptr \<Rightarrow> size_t option" where
  "left_subtree_size h node = do { n \<leftarrow> deref h node; node_size h (nd_left n) }"

definition right_subtree_size :: "'a heap \<Rightarrow> ptr \<Rightarrow> size_t option" where
  "right_subtree_size h node = do {
     sz \<leftarrow> node_size h node;
     n \<leftarrow> deref h node;
     ls \<leftarrow> node_size h (nd_left n);
     Some (sz - ls - 1) }"

definition right_path_size :: "'a heap \<Rightarrow> ptr \<Rightarrow> size_t option" where
  "right_path_size h node = do {
     rs \<leftarrow> right_subtree_size h node;
     n \<leftarrow> deref h node;
     rrs \<leftarrow> right_subtree_size h (nd_right n);
     Some (rs - rrs) }"

definition left_path_size :: "bool \<Rightarrow> 'a heap \<Rightarrow> ptr \<Rightarrow> size_t option" where
  "left_path_size dbg h node = do {
     ASSERT dbg (node \<noteq> None);
     if node = None then Some 0 else do {
       n \<leftarrow> deref h node;
       if nd_left n = None then Some 0 else do {
         ls \<leftarrow> left_subtree_size h node;
         lls \<leftarrow> left_subtree_size h (nd_left n);
         Some (ls - lls) } } }"

partial_function (option) getIndex_loop ::
  "bool \<Rightarrow> 'a heap \<Rightarrow> avl_tree_stump \<Rightarrow> ptr \<Rightarrow> size_t \<Rightarrow> (ptr \<times> size_t) option" where
  "getIndex_loop dbg h s node index_accumulator = do {
     n \<leftarrow> deref h node;
     if nd_parent n = None then Some (node, index_accumulator) else do {
       ct \<leftarrow> child_type dbg h s node;
       if ct = LEFT then do {
         k \<leftarrow> left_path_size dbg h (nd_parent n);
         getIndex_loop dbg h s (nd_parent n) (index_accumulator + k) }
       else do {
         k \<leftarrow> right_path_size h (nd_parent n);
         getIndex_loop dbg h s (nd_parent n) (index_accumulator - k) } } }"

definition getIndex :: "bool \<Rightarrow> 'a heap \<Rightarrow> avl_tree_stump \<Rightarrow> ptr \<Rightarrow> size_t option" where
  "getIndex dbg h s node = do {
     ASSERT dbg (node \<noteq> None);
     ASSERT dbg (s_root s \<noteq> None);
     (node, index_accumulator) \<leftarrow> getIndex_loop dbg h s node 0;
     ASSERT dbg (node = s_root s);
     ls \<leftarrow> left_subtree_size h node;
     Some (ls - index_accumulator) }"

partial_function (option) getByIndex_loop ::
  "bool \<Rightarrow> 'a heap \<Rightarrow> size_t \<Rightarrow> ptr \<Rightarrow> size_t \<Rightarrow> size_t \<Rightarrow> ptr option" where
  "getByIndex_loop dbg h searched_index current_node left_index_border current_index = (
     if current_index > searched_index then do {
       n \<leftarrow> deref h current_node;
       if nd_left n = None then do { ASSERT dbg False; Some None } else do {
         ls \<leftarrow> left_subtree_size h (nd_left n);
         ASSERT dbg (left_index_border + ls \<ge> left_index_border);
         getByIndex_loop dbg h searched_index (nd_left n) left_index_border (left_index_border + ls) } }
     else if current_index < searched_index then do {
       cs \<leftarrow> left_subtree_size h current_node;
       n \<leftarrow> deref h current_node;
       if nd_right n = None then do { ASSERT dbg False; Some None } else do {
         ls \<leftarrow> left_subtree_size h (nd_right n);
         ASSERT dbg (left_index_border + cs + 1 + ls \<ge> left_index_border + cs + 1);
         getByIndex_loop dbg h searched_index (nd_right n) (left_index_border + cs + 1)
           (left_index_border + cs + 1 + ls) } }
     else Some current_node)"

definition getByIndex :: "bool \<Rightarrow> 'a heap \<Rightarrow> avl_tree_stump \<Rightarrow> size_t \<Rightarrow> ptr option" where
  "getByIndex dbg h s searched_index = do {
     ASSERT dbg (s_root s \<noteq> None);
     if s_root s = None then Some None else do {
       sz \<leftarrow> node_size h (s_root s);
       if searched_index \<ge> sz then Some None else do {
         ls \<leftarrow> left_subtree_size h (s_root s);
         getByIndex_loop dbg h searched_index (s_root s) 0 ls } } }"

text \<open>\<open>n\<close> counts down to zero, as the \<open>for\<close> loop does.\<close>

fun applyNTimes :: "('v \<Rightarrow> 'v option) \<Rightarrow> nat \<Rightarrow> 'v \<Rightarrow> 'v option" where
  "applyNTimes functor 0 v = Some v"
| "applyNTimes functor (Suc n) v = do { v' \<leftarrow> functor v; applyNTimes functor n v' }"

text \<open>\<open>difference_type\<close> is the signed reading of the same 32 bits; \<open>abs\<close> of the least value
  is undefined behaviour.\<close>

definition abs_step :: "size_t \<Rightarrow> size_t option" where
  "abs_step stepAmount = (if sint stepAmount = - (2 ^ 31) then None
     else Some (if sint stepAmount < 0 then - stepAmount else stepAmount))"

definition go_to :: "bool \<Rightarrow> 'a heap \<Rightarrow> avl_tree_stump \<Rightarrow> ptr \<Rightarrow> size_t \<Rightarrow> ptr option" where
  "go_to dbg h s node stepAmount = do {
     ASSERT dbg (node \<noteq> None);
     absStepAmount \<leftarrow> abs_step stepAmount;
     if absStepAmount \<le> 2
     then applyNTimes (if sint stepAmount \<ge> 0 then forward dbg h s else backward dbg h s)
            (unat absStepAmount) node
     else do {
       sourceNodeIndex \<leftarrow> getIndex dbg h s node;
       getByIndex dbg h s (sourceNodeIndex + stepAmount) } }"

definition distance :: "bool \<Rightarrow> 'a heap \<Rightarrow> avl_tree_stump \<Rightarrow> ptr \<Rightarrow> ptr \<Rightarrow> size_t option" where
  "distance dbg h s lft rgt = do {
     r \<leftarrow> getIndex dbg h s rgt;
     l \<leftarrow> getIndex dbg h s lft;
     Some (r - l) }"

subsection \<open>A subtree in its tree\<close>

text \<open>The structural part of \<open>focus\<close>, tied to the root of the tree object.\<close>

definition hole :: "'a heap \<Rightarrow> avl_tree_stump \<Rightarrow> ptr \<Rightarrow> ptr \<Rightarrow> frame list \<Rightarrow> addr tree \<Rightarrow> bool" where
  "hole h s p par c t \<longleftrightarrow> tree_at h p par t \<and> ctx_at h p par c \<and> ctx_top c p = s_root s \<and>
     distinct (inorder (fill c t))"

text \<open>The tree object: shape, no sharing, correct annotations, countable size.\<close>

definition tree_inv :: "'a heap \<Rightarrow> avl_tree_stump \<Rightarrow> addr tree \<Rightarrow> bool" where
  "tree_inv h s t \<longleftrightarrow> tree_at h (s_root s) None t \<and> distinct (inorder t) \<and> annot h t \<and> size t < 2 ^ 32"

definition ptr_hd :: "addr list \<Rightarrow> ptr" where
  "ptr_hd xs = (case xs of [] \<Rightarrow> None | a # _ \<Rightarrow> Some a)"

definition ptr_last :: "addr list \<Rightarrow> ptr" where
  "ptr_last xs = (if xs = [] then None else Some (last xs))"

lemma ptr_hd_simps [simp]: "ptr_hd [] = None" "ptr_hd (a # xs) = Some a"
  by (simp_all add: ptr_hd_def)

lemma ptr_last_simps [simp]: "ptr_last [] = None" "ptr_last (xs @ [a]) = Some a"
  by (simp_all add: ptr_last_def)

lemma ptr_hd_append [simp]: "xs \<noteq> [] \<Longrightarrow> ptr_hd (xs @ ys) = ptr_hd xs"
  by (cases xs) simp_all

lemma ptr_last_append [simp]: "ys \<noteq> [] \<Longrightarrow> ptr_last (xs @ ys) = ptr_last ys"
  by (simp add: ptr_last_def)

lemma inorder_eq_Nil [simp]: "inorder t = [] \<longleftrightarrow> t = Leaf"
  by (cases t) simp_all

lemma hole_up:
  assumes "hole h s p par (f # c) t"
  obtains par' where "par = Some (frame_addr f)" "hole h s par par' c (plug f t)"
  using assms by (cases f) (auto simp: hole_def split: option.splits)

lemma ctx_top_in: "c \<noteq> [] \<Longrightarrow> \<exists>b. ctx_top c p = Some b \<and> b \<in> set_ctx c"
proof (induction c arbitrary: p)
  case (Cons f c)
  show ?case
  proof (cases "c = []")
    case True
    then show ?thesis by (cases f) auto
  next
    case False
    with Cons.IH [of "Some (frame_addr f)"] obtain b where
      "ctx_top c (Some (frame_addr f)) = Some b" "b \<in> set_ctx c" by blast
    then show ?thesis by (cases f) auto
  qed
qed simp

lemma hole_disjoint: "hole h s p par c t \<Longrightarrow> set_tree t \<inter> set_ctx c = {}"
  unfolding hole_def inorder_fill by auto

lemma hole_not_root:
  assumes "hole h s (Some a) par (f # c) t"
  shows "s_root s \<noteq> Some a"
proof -
  obtain b where b: "ctx_top (f # c) (Some a) = Some b" "b \<in> set_ctx (f # c)"
    using ctx_top_in [of "f # c" "Some a"] by blast
  from assms have "tree_at h (Some a) par t" "ctx_top (f # c) (Some a) = s_root s"
    by (simp_all only: hole_def)
  then have "a \<in> set_tree t" "s_root s = Some b"
    using b(1) by (blast dest: tree_at_root_in, metis)
  with hole_disjoint [OF assms] b(2) show ?thesis by (metis disjoint_iff option.inject)
qed

lemma hole_root_nonnull:
  assumes "hole h s (Some a) par c t"
  shows "s_root s \<noteq> None"
proof -
  have "ctx_top c (Some a) \<noteq> None" by (cases "c = []") (auto dest: ctx_top_in [of c "Some a"])
  with assms show ?thesis unfolding hole_def by simp
qed

lemma hole_deref:
  assumes "hole h s (Some a) par c (Node l a r)"
  obtains n where "h a = Some n" "nd_parent n = par" "tree_at h (nd_left n) (Some a) l"
    "tree_at h (nd_right n) (Some a) r"
  using assms by (auto simp: hole_def split: option.splits)

lemma hole_root: "hole h s (Some a) par c t \<Longrightarrow> par = None \<longleftrightarrow> s_root s = Some a"
proof (cases c)
  case (Cons f d)
  assume "hole h s (Some a) par c t"
  with hole_not_root hole_up Cons show ?thesis by (metis option.distinct(1))
qed (simp add: hole_def)

lemma tree_inv_hole:
  assumes "tree_inv h s (fill c (Node l a r))"
  obtains par where "hole h s (Some a) par c (Node l a r)"
  using assms unfolding tree_inv_def hole_def by (metis tree_at.simps(2) tree_at_fillE)

lemma tree_inv_split:
  assumes "tree_inv h s t" "inorder t = xs @ a # ys"
  obtains c l r par where "t = fill c (Node l a r)" "xs = pre c @ inorder l"
    "ys = inorder r @ post c" "hole h s (Some a) par c (Node l a r)"
proof -
  from assms have "distinct (inorder t)" by (simp add: tree_inv_def)
  from locate_split [OF assms(2) this] obtain c l r where t: "t = fill c (Node l a r)"
    "xs = pre c @ inorder l" "ys = inorder r @ post c" .
  from tree_inv_hole [of h s c l a r] assms(1) t(1) that [OF t] show ?thesis by metis
qed

subsection \<open>Neighbours\<close>

lemma leftmost_loop_spec:
  "tree_at h (Some a) par t \<Longrightarrow> leftmost_loop h (Some a) = Some (ptr_hd (inorder t))"
proof (induction t arbitrary: a par)
  case (Node l b r)
  from Node.prems obtain n where n: "a = b" "h a = Some n" "tree_at h (nd_left n) (Some a) l"
    by (auto split: option.splits)
  show ?case
  proof (cases "nd_left n")
    case None
    with n show ?thesis by (subst leftmost_loop.simps) simp
  next
    case (Some e)
    with n Node.IH(1) have "leftmost_loop h (Some e) = Some (ptr_hd (inorder l))" by auto
    moreover from Some n have "l \<noteq> Leaf" by auto
    ultimately show ?thesis using n Some by (subst leftmost_loop.simps) simp
  qed
qed simp

lemma rightmost_loop_spec:
  "tree_at h (Some a) par t \<Longrightarrow> rightmost_loop h (Some a) = Some (ptr_last (inorder t))"
proof (induction t arbitrary: a par)
  case (Node l b r)
  from Node.prems obtain n where n: "a = b" "h a = Some n" "tree_at h (nd_right n) (Some a) r"
    by (auto split: option.splits)
  show ?case
  proof (cases "nd_right n")
    case None
    with n show ?thesis by (subst rightmost_loop.simps) simp
  next
    case (Some e)
    with n Node.IH(2) have "rightmost_loop h (Some e) = Some (ptr_last (inorder r))" by auto
    moreover from Some n have "r \<noteq> Leaf" by auto
    ultimately show ?thesis using n Some
      by (subst rightmost_loop.simps) (simp add: ptr_last_def)
  qed
qed simp

lemma child_type_spec:
  assumes "hole h s (Some a) par (f # c) (Node l a r)"
  shows "child_type dbg h s (Some a) = Some (case f of LeftOf _ _ \<Rightarrow> LEFT | RightOf _ _ \<Rightarrow> RIGHT)"
proof (cases f)
  case (LeftOf b r')
  with assms hole_not_root [OF assms] show ?thesis
    by (auto simp: hole_def child_type_def split: option.splits)
next
  case (RightOf l' b)
  with assms obtain m where m: "h b = Some m" "nd_right m = Some a" "par = Some b"
    "tree_at h (nd_left m) (Some b) l'" by (auto simp: hole_def split: option.splits)
  from assms RightOf have "a \<notin> set_tree l'" by (auto simp: hole_def)
  with m(4) have "nd_left m \<noteq> Some a" by (auto dest: tree_at_root_in)
  with m assms hole_not_root [OF assms] RightOf show ?thesis
    by (auto simp: hole_def child_type_def split: option.splits)
qed

lemma climb_right_spec:
  assumes "hole h s (Some a) par c (Node l a r)"
  shows "do { q \<leftarrow> climb_while dbg h s RIGHT (Some a); get_parent h q } = Some (ptr_hd (post c))"
  using assms
proof (induction c arbitrary: a par l r)
  case Nil
  then obtain n where "h a = Some n" "nd_parent n = None"
    by (auto simp: hole_def split: option.splits)
  then show ?case by (subst climb_while.simps) simp
next
  case (Cons f c)
  from Cons.prems obtain n where n: "h a = Some n" "nd_parent n = par" by (rule hole_deref)
  from Cons.prems obtain par' where up: "par = Some (frame_addr f)"
    "hole h s par par' c (plug f (Node l a r))" by (rule hole_up)
  show ?case
  proof (cases f)
    case (LeftOf b r')
    with n up child_type_spec [OF Cons.prems, of dbg] show ?thesis
      by (subst climb_while.simps) simp
  next
    case (RightOf l' b)
    with Cons.IH up have "do { q \<leftarrow> climb_while dbg h s RIGHT (Some b); get_parent h q } =
      Some (ptr_hd (post c))" by auto
    with n up child_type_spec [OF Cons.prems, of dbg] RightOf show ?thesis
      by (subst climb_while.simps) simp
  qed
qed

lemma climb_left_spec:
  assumes "hole h s (Some a) par c (Node l a r)"
  shows "do { q \<leftarrow> climb_while dbg h s LEFT (Some a); get_parent h q } = Some (ptr_last (pre c))"
  using assms
proof (induction c arbitrary: a par l r)
  case Nil
  then obtain n where "h a = Some n" "nd_parent n = None"
    by (auto simp: hole_def split: option.splits)
  then show ?case by (subst climb_while.simps) simp
next
  case (Cons f c)
  from Cons.prems obtain n where n: "h a = Some n" "nd_parent n = par" by (rule hole_deref)
  from Cons.prems obtain par' where up: "par = Some (frame_addr f)"
    "hole h s par par' c (plug f (Node l a r))" by (rule hole_up)
  show ?case
  proof (cases f)
    case (RightOf l' b)
    with n up child_type_spec [OF Cons.prems, of dbg] show ?thesis
      by (subst climb_while.simps) (simp flip: append_assoc)
  next
    case (LeftOf b r')
    with Cons.IH up have "do { q \<leftarrow> climb_while dbg h s LEFT (Some b); get_parent h q } =
      Some (ptr_last (pre c))" by auto
    with n up child_type_spec [OF Cons.prems, of dbg] LeftOf show ?thesis
      by (subst climb_while.simps) simp
  qed
qed

lemma forward_hole:
  assumes f: "hole h s (Some a) par c (Node l a r)"
  shows "forward dbg h s (Some a) = Some (ptr_hd (inorder r @ post c))"
proof -
  from f obtain n where n: "h a = Some n" "nd_parent n = par"
    "tree_at h (nd_right n) (Some a) r" by (rule hole_deref)
  note rt = hole_root_nonnull [OF f]
  show ?thesis
  proof (cases "nd_right n")
    case (Some e)
    with n(3) have "r \<noteq> Leaf" by auto
    moreover have "leftmost_loop h (Some e) = Some (ptr_hd (inorder r))"
      using n(3) Some by (intro leftmost_loop_spec) simp
    ultimately show ?thesis using n Some rt hole_root [OF f]
      by (cases par) (simp_all add: forward_def find_leftmost_def)
  next
    case None
    with n(3) have r: "r = Leaf" by simp
    show ?thesis
    proof (cases c)
      case Nil
      with f have "par = None" "s_root s = Some a" by (simp_all add: hole_def)
      with n None r Nil show ?thesis by (simp add: forward_def)
    next
      case (Cons g d)
      from f [unfolded Cons] have "par = Some (frame_addr g)" by (rule hole_up)
      with climb_right_spec [OF f, of dbg] child_type_spec [OF f [unfolded Cons], of dbg] n None r rt Cons
      show ?thesis by (cases g) (auto simp: forward_def)
    qed
  qed
qed

lemma backward_hole:
  assumes f: "hole h s (Some a) par c (Node l a r)"
  shows "backward dbg h s (Some a) = Some (ptr_last (pre c @ inorder l))"
proof -
  from f obtain n where n: "h a = Some n" "nd_parent n = par"
    "tree_at h (nd_left n) (Some a) l" by (rule hole_deref)
  note rt = hole_root_nonnull [OF f]
  show ?thesis
  proof (cases "nd_left n")
    case (Some e)
    with n(3) have "l \<noteq> Leaf" by auto
    moreover have "rightmost_loop h (Some e) = Some (ptr_last (inorder l))"
      using n(3) Some by (intro rightmost_loop_spec) simp
    ultimately show ?thesis using n Some rt hole_root [OF f]
      by (cases par) (simp_all add: backward_def find_rightmost_def)
  next
    case None
    with n(3) have r: "l = Leaf" by simp
    show ?thesis
    proof (cases c)
      case Nil
      with f have "par = None" "s_root s = Some a" by (simp_all add: hole_def)
      with n None r Nil show ?thesis by (simp add: backward_def)
    next
      case (Cons g d)
      from f [unfolded Cons] have "par = Some (frame_addr g)" by (rule hole_up)
      with climb_left_spec [OF f, of dbg] child_type_spec [OF f [unfolded Cons], of dbg] n None r rt Cons
      show ?thesis by (cases g) (auto simp: backward_def simp flip: append_assoc)
    qed
  qed
qed

lemma forward_spec:
  "tree_inv h s t \<Longrightarrow> inorder t = xs @ a # ys \<Longrightarrow> forward dbg h s (Some a) = Some (ptr_hd ys)"
  by (elim tree_inv_split) (auto dest: forward_hole)

lemma backward_spec:
  "tree_inv h s t \<Longrightarrow> inorder t = xs @ a # ys \<Longrightarrow> backward dbg h s (Some a) = Some (ptr_last xs)"
  by (elim tree_inv_split) (auto dest: backward_hole)

subsection \<open>Indices\<close>

lemma left_subtree_size_annot:
  "tree_at h (Some a) par (Node l a r) \<Longrightarrow> annot h (Node l a r) \<Longrightarrow>
   left_subtree_size h (Some a) = Some (of_nat (size l))"
  by (auto simp: left_subtree_size_def annot.simps(2) node_size_annot split: option.splits)

lemma right_subtree_size_annot:
  "tree_at h (Some a) par (Node l a r) \<Longrightarrow> annot h (Node l a r) \<Longrightarrow>
   right_subtree_size h (Some a) = Some (of_nat (size r))"
  using node_size_annot [of h "Some a" par "Node l a r"]
  by (auto simp: right_subtree_size_def annot.simps(2) node_size_annot split: option.splits)

text \<open>What one step of the climb adds to or takes from the accumulator.\<close>

lemma left_path_size_annot:
  assumes "hole h s (Some a) par (LeftOf b r' # c) (Node l a r)" "annot h (Node (Node l a r) b r')"
  shows "left_path_size dbg h (Some b) = Some (of_nat (size l + size r + 1) - of_nat (size l))"
proof -
  from assms(1) obtain n where n: "h b = Some n" "nd_left n = Some a" "tree_at h (Some a) (Some b) (Node l a r)"
    "tree_at h (Some b) (nd_parent n) (Node (Node l a r) b r')"
    by (auto simp: hole_def split: option.splits)
  from assms(2) have "annot h (Node l a r)" by (simp add: annot.simps(2))
  with n assms(2) left_subtree_size_annot [OF n(3)] left_subtree_size_annot [OF n(4)]
  show ?thesis by (simp add: left_path_size_def)
qed

lemma right_path_size_annot:
  assumes "hole h s (Some a) par (RightOf l' b # c) (Node l a r)" "annot h (Node l' b (Node l a r))"
  shows "right_path_size h (Some b) = Some (of_nat (size l + size r + 1) - of_nat (size r))"
proof -
  from assms(1) obtain n where n: "h b = Some n" "nd_right n = Some a" "tree_at h (Some a) (Some b) (Node l a r)"
    "tree_at h (Some b) (nd_parent n) (Node l' b (Node l a r))"
    by (auto simp: hole_def split: option.splits)
  from assms(2) have "annot h (Node l a r)" by (simp add: annot.simps(2))
  with n assms(2) right_subtree_size_annot [OF n(3)] right_subtree_size_annot [OF n(4)]
  show ?thesis by (simp add: right_path_size_def)
qed

lemma getIndex_loop_spec:
  assumes "hole h s (Some a) par c (Node l a r)" "annot h (fill c (Node l a r))"
  shows "do { (q, i) \<leftarrow> getIndex_loop dbg h s (Some a) acc; ASSERT dbg (q = s_root s);
      ls \<leftarrow> left_subtree_size h q; Some (ls - i) } = Some (of_nat (length (pre c) + size l) - acc)"
  using assms
proof (induction c arbitrary: a par l r acc)
  case Nil
  then have "tree_at h (Some a) None (Node l a r)" "s_root s = Some a" "par = None"
    "annot h (Node l a r)" by (auto simp: hole_def)
  moreover from Nil.prems(1) obtain n where "h a = Some n" "nd_parent n = par" by (rule hole_deref)
  ultimately show ?case using left_subtree_size_annot [of h a None l r]
    by (subst getIndex_loop.simps) simp
next
  case (Cons f c)
  from Cons.prems(1) obtain n where n: "h a = Some n" "nd_parent n = par" by (rule hole_deref)
  from Cons.prems(1) obtain par' where up: "par = Some (frame_addr f)"
    "hole h s par par' c (plug f (Node l a r))" by (rule hole_up)
  from Cons.prems(2) have ann: "annot h (fill c (plug f (Node l a r)))" by simp
  note step = n up(1) child_type_spec [OF Cons.prems(1), of dbg]
  show ?case
  proof (cases f)
    case (LeftOf b r')
    with Cons.prems ann annot_fillD have "left_path_size dbg h (Some b) =
        Some (of_nat (size l + size r + 1) - of_nat (size l))"
      by (intro left_path_size_annot [of h s a par b r' c]) auto
    with step LeftOf Cons.IH [of b par' "Node l a r" r' "acc + (of_nat (size l + size r + 1) - of_nat (size l))"]
      up ann show ?thesis by (subst getIndex_loop.simps) (simp add: algebra_simps)
  next
    case (RightOf l' b)
    with Cons.prems ann annot_fillD have "right_path_size h (Some b) =
        Some (of_nat (size l + size r + 1) - of_nat (size r))"
      by (intro right_path_size_annot [of h s a par l' b c]) auto
    with step RightOf Cons.IH [of b par' l' "Node l a r" "acc - (of_nat (size l + size r + 1) - of_nat (size r))"]
      up ann show ?thesis by (subst getIndex_loop.simps) (simp add: algebra_simps)
  qed
qed

lemma getIndex_spec:
  assumes "tree_inv h s t" "inorder t = xs @ a # ys"
  shows "getIndex dbg h s (Some a) = Some (of_nat (length xs))"
proof -
  from assms obtain c l r par where t: "t = fill c (Node l a r)" "xs = pre c @ inorder l"
    "hole h s (Some a) par c (Node l a r)" by (rule tree_inv_split)
  from assms(1) t(1) have "annot h (fill c (Node l a r))" by (simp add: tree_inv_def)
  from getIndex_loop_spec [OF t(3) this, of dbg 0] hole_root_nonnull [OF t(3)] t(2)
  show ?thesis by (auto simp: getIndex_def)
qed

lemma getByIndex_loop_spec:
  assumes "tree_at h (Some a) par t" "annot h t" "t = Node l a r"
    "lb \<le> i" "i < lb + size t" "lb + size t < 2 ^ 32"
  shows "getByIndex_loop dbg h (of_nat i) (Some a) (of_nat lb) (of_nat lb + of_nat (size l)) =
    Some (Some (inorder t ! (i - lb)))"
  using assms
proof (induction t arbitrary: a par l r lb)
  case (Node l' b r')
  then have eq [simp]: "l' = l" "b = a" "r' = r" by simp_all
  from Node.prems obtain n where n: "h a = Some n" "tree_at h (nd_left n) (Some a) l"
    "tree_at h (nd_right n) (Some a) r" by (auto split: option.splits)
  from Node.prems have ann: "annot h l" "annot h r" by (simp_all add: annot.simps(2))
  have ls: "left_subtree_size h (Some a) = Some (of_nat (size l))"
    using Node.prems by (intro left_subtree_size_annot) auto
  have cmp: "(of_nat lb + of_nat (size l) :: size_t) > of_nat i \<longleftrightarrow> lb + size l > i"
    "(of_nat lb + of_nat (size l) :: size_t) < of_nat i \<longleftrightarrow> lb + size l < i"
    using of_nat_less_size_t [of i "lb + size l"] of_nat_less_size_t [of "lb + size l" i] Node.prems
    by simp_all
  consider "i < lb + size l" | "i = lb + size l" | "lb + size l < i" by linarith
  then show ?case
  proof cases
    case 1
    with Node.prems(4) obtain l1 e l2 where l: "l = Node l1 e l2" by (cases l) auto
    with n have e: "nd_left n = Some e" by simp
    have "left_subtree_size h (Some e) = Some (of_nat (size l1))"
      using n(2) ann(1) l by (intro left_subtree_size_annot [of h e "Some a" l1 l2]) auto
    moreover have "(of_nat lb :: size_t) \<le> of_nat lb + of_nat (size l1)"
      using of_nat_le_size_t [of lb "lb + size l1"] Node.prems l by simp
    moreover have "getByIndex_loop dbg h (of_nat i) (Some e) (of_nat lb) (of_nat lb + of_nat (size l1)) =
        Some (Some (inorder l ! (i - lb)))"
      using Node.IH(1) [of e "Some a" l1 l2 lb] n(2) e l ann(1) 1 Node.prems by auto
    moreover have "inorder (Node l a r) ! (i - lb) = inorder l ! (i - lb)"
      using 1 Node.prems(4) by (simp add: nth_append less_diff_conv2)
    ultimately show ?thesis using n cmp 1 e by (subst getByIndex_loop.simps) simp
  next
    case 2
    with cmp show ?thesis by (subst getByIndex_loop.simps) (simp add: nth_append)
  next
    case 3
    let ?lb = "lb + size l + 1"
    from 3 Node.prems(5) obtain r1 e r2 where r: "r = Node r1 e r2" by (cases r) auto
    with n have e: "nd_right n = Some e" by simp
    have lss: "left_subtree_size h (Some e) = Some (of_nat (size r1))"
      using n(3) ann(2) r by (intro left_subtree_size_annot [of h e "Some a" r1 r2]) auto
    have le: "(of_nat ?lb :: size_t) \<le> of_nat ?lb + of_nat (size r1)"
      using of_nat_le_size_t [of ?lb "?lb + size r1"] Node.prems r by (simp add: add.assoc)
    have "getByIndex_loop dbg h (of_nat i) (Some e) (of_nat ?lb) (of_nat ?lb + of_nat (size r1)) =
        Some (Some (inorder r ! (i - ?lb)))"
      using Node.IH(2) [of e "Some a" r1 r2 ?lb] n(3) e r ann(2) 3 Node.prems by auto
    moreover have "inorder (Node l a r) ! (i - lb) = inorder r ! (i - ?lb)"
      using 3 by (auto simp: nth_append nth_Cons')
    moreover have "of_nat lb + of_nat (size l) + 1 = (of_nat ?lb :: size_t)" by simp
    ultimately show ?thesis using n cmp 3 e ls lss le
      by (subst getByIndex_loop.simps) (simp del: of_nat_add of_nat_Suc)
  qed
qed simp

lemma getByIndex_spec:
  assumes "tree_inv h s t" "t \<noteq> Leaf" "i < 2 ^ 32"
  shows "getByIndex dbg h s (of_nat i) =
    Some (if i < size t then Some (inorder t ! i) else None)"
proof -
  from assms(2) obtain l a r where t: "t = Node l a r" by (cases t) auto
  from assms t have tr: "tree_at h (Some a) None t" "s_root s = Some a" "annot h t" "size t < 2 ^ 32"
    by (auto simp: tree_inv_def)
  have "getByIndex dbg h s (of_nat i) = (if size t \<le> i then Some None
      else getByIndex_loop dbg h (of_nat i) (Some a) 0 (of_nat (size l)))"
    using tr(2) t node_size_annot [OF tr(1,3)] left_subtree_size_annot [OF tr(1,3) [unfolded t]]
      of_nat_le_size_t [of "size t" i] tr(4) assms(3)
    by (simp add: getByIndex_def del: of_nat_Suc of_nat_add tree.size)
  with getByIndex_loop_spec [OF tr(1,3) t, of 0 i] tr(4) show ?thesis by simp
qed

subsection \<open>Jumps\<close>

lemma forward_nth:
  assumes "tree_inv h s t" "Suc i < size t"
  shows "forward dbg h s (Some (inorder t ! i)) = Some (Some (inorder t ! Suc i))"
proof -
  have "inorder t = take i (inorder t) @ inorder t ! i # drop (Suc i) (inorder t)"
    using assms(2) by (simp add: id_take_nth_drop)
  from forward_spec [OF assms(1) this] show ?thesis
    using assms(2) by (simp add: Cons_nth_drop_Suc [symmetric, of "Suc i"])
qed

lemma backward_nth:
  assumes "tree_inv h s t" "Suc i < size t"
  shows "backward dbg h s (Some (inorder t ! Suc i)) = Some (Some (inorder t ! i))"
proof -
  have "inorder t = take (Suc i) (inorder t) @ inorder t ! Suc i # drop (Suc (Suc i)) (inorder t)"
    using assms(2) by (intro id_take_nth_drop) simp
  from backward_spec [OF assms(1) this] show ?thesis
    using assms(2) by (simp add: take_Suc_conv_app_nth)
qed

lemma applyNTimes_forward:
  "tree_inv h s t \<Longrightarrow> i + n < size t \<Longrightarrow>
   applyNTimes (forward dbg h s) n (Some (inorder t ! i)) = Some (Some (inorder t ! (i + n)))"
  by (induction n arbitrary: i) (simp_all add: forward_nth)

lemma applyNTimes_backward:
  "tree_inv h s t \<Longrightarrow> i + n < size t \<Longrightarrow>
   applyNTimes (backward dbg h s) n (Some (inorder t ! (i + n))) = Some (Some (inorder t ! i))"
  by (induction n) (simp_all add: backward_nth)

lemma abs_step_spec:
  assumes "sint k \<noteq> - (2 ^ 31)"
  shows "abs_step k = Some (of_nat (nat \<bar>sint k\<bar>))"
proof -
  have "k = of_int (sint k)" by simp
  then have "(if sint k < 0 then - k else k) = of_int \<bar>sint k\<bar>"
    by (metis abs_of_neg abs_of_nonneg linorder_not_less of_int_minus)
  with assms show ?thesis by (simp add: abs_step_def)
qed

lemma getIndex_nth:
  assumes "tree_inv h s t" "i < size t"
  shows "getIndex dbg h s (Some (inorder t ! i)) = Some (of_nat i)"
proof -
  have "inorder t = take i (inorder t) @ inorder t ! i # drop (Suc i) (inorder t)"
    using assms(2) by (simp add: id_take_nth_drop)
  from getIndex_spec [OF assms(1) this] show ?thesis using assms(2) by simp
qed

lemma go_to_spec:
  assumes t: "tree_inv h s t" and sz: "size t < 2 ^ 31" and i: "i < size t" and j: "j < size t"
    and k: "int i + sint k = int j"
  shows "go_to dbg h s (Some (inorder t ! i)) k = Some (Some (inorder t ! j))"
proof -
  let ?n = "nat \<bar>sint k\<bar>"
  have n: "?n < 2 ^ 31" using sz i j k by linarith
  then have abs: "abs_step k = Some (of_nat ?n)" by (intro abs_step_spec) auto
  have lin: "(of_nat ?n :: size_t) \<le> 2 \<longleftrightarrow> ?n \<le> 2"
    using of_nat_le_size_t [of ?n 2] n by simp
  have un: "unat (of_nat ?n :: size_t) = ?n"
    using n by (intro unat_of_nat_size_t) simp
  show ?thesis
  proof (cases "?n \<le> 2")
    case True
    show ?thesis
    proof (cases "sint k \<ge> 0")
      case ge: True
      with k have "j = i + ?n" by simp
      with applyNTimes_forward [OF t, of i ?n dbg] j ge show ?thesis
        using True abs lin un by (simp add: go_to_def del: of_nat_nat)
    next
      case lt: False
      with k have "i = j + ?n" by simp
      with applyNTimes_backward [OF t, of j ?n dbg] i lt show ?thesis
        using True abs lin un by (simp add: go_to_def del: of_nat_nat)
    qed
  next
    case False
    have "of_nat i + k = (of_int (int i + sint k) :: size_t)" by simp
    then have "of_nat i + k = (of_nat j :: size_t)" unfolding k by simp
    moreover have "getByIndex dbg h s (of_nat j) = Some (Some (inorder t ! j))"
      using getByIndex_spec [OF t, of j] i j sz by fastforce
    ultimately show ?thesis
      using False abs lin getIndex_nth [OF t i, of dbg] by (simp add: go_to_def del: of_nat_nat)
  qed
qed

lemma distance_spec:
  assumes t: "tree_inv h s t" and sz: "size t < 2 ^ 31" and i: "i < size t" and j: "j < size t"
  shows "map_option sint (distance dbg h s (Some (inorder t ! i)) (Some (inorder t ! j))) =
    Some (int j - int i)"
proof -
  have "(of_nat j - of_nat i :: size_t) = of_int (int j - int i)" by simp
  moreover have "signed_take_bit 31 (int j - int i) = int j - int i"
    using sz i j by (intro signed_take_bit_int_eq_self) simp_all
  ultimately have "sint (of_nat j - of_nat i :: size_t) = int j - int i"
    by (simp only: sint_sbintrunc') simp
  with getIndex_nth [OF t i, of dbg] getIndex_nth [OF t j, of dbg] show ?thesis
    by (simp add: distance_def)
qed

end
