(* ===== verification/Avl_Update.thy ===== *)
theory Avl_Update
  imports Avl_Navigate
begin

section \<open>Insertion and removal\<close>

text \<open>
  The mutating half of \<open>avl_tree_stump\<close>. Insertion hangs the new node below the position or
  below its predecessor and climbs to the root; removal splices the node out, substituting
  the rightmost node of its left subtree when there is one. The lemmas give the in-order
  list after each operation, the tree invariant, and the part of the heap that changed.
\<close>

subsection \<open>The code\<close>

definition insert_before ::
  "bool \<Rightarrow> 'a heap \<Rightarrow> avl_tree_stump \<Rightarrow> ptr \<Rightarrow> ptr \<Rightarrow> ('a heap \<times> avl_tree_stump \<times> ptr) option" where
  "insert_before dbg h s it new_node = do {
     ASSERT dbg (new_node \<noteq> None);
     if new_node = None then Some (h, s, it) else do {
     n \<leftarrow> deref h new_node;
     ASSERT dbg (nd_size n = 1);
     ASSERT dbg (nd_height n = 1);
     h \<leftarrow> upd h new_node (\<lambda>n. n\<lparr>nd_size := 1, nd_height := 1, nd_left := None, nd_right := None\<rparr>);
     let s = (if it = s_begin s then s\<lparr>s_begin := new_node\<rparr> else s);
     let firstInsertion = (it = None \<and> s_root s = None);
     ASSERT dbg (firstInsertion \<or> (s_root s \<noteq> None \<and> it \<noteq> None));
     if firstInsertion then do {
       h \<leftarrow> set_parent h new_node None;
       Some (h, s\<lparr>s_root := new_node\<rparr>, new_node) }
     else do {
       i \<leftarrow> deref h it;
       if nd_left i = None then do {
         h \<leftarrow> set_left h it new_node;
         h \<leftarrow> set_parent h new_node it;
         (h, s) \<leftarrow> restore_height_size_and_balance_of_tree dbg h s it;
         ASSERT dbg (s_root s \<noteq> None);
         Some (h, s, new_node) }
       else do {
         it \<leftarrow> find_rightmost dbg h (nd_left i);
         h \<leftarrow> set_right h it new_node;
         h \<leftarrow> set_parent h new_node it;
         (h, s) \<leftarrow> restore_height_size_and_balance_of_tree dbg h s it;
         ASSERT dbg (s_root s \<noteq> None);
         Some (h, s, new_node) } } } }"

definition replace_node ::
  "bool \<Rightarrow> 'a heap \<Rightarrow> avl_tree_stump \<Rightarrow> ptr \<Rightarrow> ptr \<Rightarrow> ('a heap \<times> avl_tree_stump) option" where
  "replace_node dbg h s replaceable replacer = do {
     ASSERT dbg (replaceable \<noteq> None);
     p \<leftarrow> get_parent h replaceable;
     if p = None then do {
       ASSERT dbg (replaceable = s_root s);
       h \<leftarrow> (if replacer \<noteq> None then set_parent h replacer None else Some h);
       Some (h, s\<lparr>s_root := replacer\<rparr>) }
     else do {
       ct \<leftarrow> child_type dbg h s replaceable;
       h \<leftarrow> (if ct = LEFT then set_left h p replacer else set_right h p replacer);
       p \<leftarrow> get_parent h replaceable;
       h \<leftarrow> (if replacer \<noteq> None then set_parent h replacer p else Some h);
       Some (h, s) } }"

text \<open>The part of \<open>delete_\<close> that puts \<open>rightmost\<close> in the place of \<open>node\<close>.\<close>

definition substitute_node ::
  "bool \<Rightarrow> 'a heap \<Rightarrow> avl_tree_stump \<Rightarrow> ptr \<Rightarrow> ptr \<Rightarrow> ('a heap \<times> avl_tree_stump) option" where
  "substitute_node dbg h s node rightmost = do {
     (h, s) \<leftarrow> replace_node dbg h s node rightmost;
     l \<leftarrow> get_left h node;
     h \<leftarrow> set_left h rightmost l;
     r \<leftarrow> get_right h node;
     h \<leftarrow> set_right h rightmost r;
     l \<leftarrow> get_left h rightmost;
     h \<leftarrow> (if l \<noteq> None then set_parent h l rightmost else Some h);
     r \<leftarrow> get_right h rightmost;
     h \<leftarrow> (if r \<noteq> None then set_parent h r rightmost else Some h);
     Some (h, s) }"

definition unlink_node ::
  "bool \<Rightarrow> 'a heap \<Rightarrow> avl_tree_stump \<Rightarrow> ptr \<Rightarrow> ('a heap \<times> avl_tree_stump) option" where
  "unlink_node dbg h s node = do {
     n \<leftarrow> deref h node;
     if nd_left n = None then do {
       let node_have_parent = (nd_parent n \<noteq> None);
       (h, s) \<leftarrow> replace_node dbg h s node (nd_right n);
       if node_have_parent then do {
         p \<leftarrow> get_parent h node;
         restore_height_size_and_balance_of_tree dbg h s p }
       else Some (h, s) }
     else do {
       rightmost \<leftarrow> find_rightmost dbg h (nd_left n);
       old_parent_of_rightmost \<leftarrow> get_parent h rightmost;
       rl \<leftarrow> get_left h rightmost;
       (h, s) \<leftarrow> replace_node dbg h s rightmost rl;
       (h, s) \<leftarrow> substitute_node dbg h s node rightmost;
       restore_height_size_and_balance_of_tree dbg h s
         (if old_parent_of_rightmost = node then rightmost else old_parent_of_rightmost) } }"

text \<open>Destroying a value that was never constructed is undefined behaviour; the storage goes
  back to the allocator in the scope exit.\<close>

definition destroy_node :: "'a heap \<Rightarrow> ptr \<Rightarrow> bool \<Rightarrow> 'a heap option" where
  "destroy_node h node needDestroyValue = do {
     n \<leftarrow> deref h node;
     if needDestroyValue \<and> nd_value n = None then None
     else Some (h(the node := None)) }"

definition delete_node ::
  "bool \<Rightarrow> 'a heap \<Rightarrow> avl_tree_stump \<Rightarrow> ptr \<Rightarrow> bool \<Rightarrow> bool \<Rightarrow> ('a heap \<times> avl_tree_stump) option" where
  "delete_node dbg h s node needDestroyNode needDestroyValue = do {
     ASSERT dbg (s_root s \<noteq> None);
     ASSERT dbg (node \<noteq> None);
     if node = None then Some (h, s) else do {
     notEmpty \<leftarrow> isNotEmptyNode dbg s node;
     ASSERT dbg notEmpty;
     bb \<leftarrow> getBeforeBegin dbg s;
     e \<leftarrow> getEnd dbg s;
     if node = bb \<or> node = e then Some (h, s) else do {
     (h, s) \<leftarrow> unlink_node dbg h s node;
     if \<not> needDestroyNode then Some (h, s) else do {
       h \<leftarrow> destroy_node h node needDestroyValue;
       Some (h, s) } } } }"

definition delete_and_get_next ::
  "bool \<Rightarrow> 'a heap \<Rightarrow> avl_tree_stump \<Rightarrow> ptr \<Rightarrow> bool \<Rightarrow> bool \<Rightarrow> ('a heap \<times> avl_tree_stump \<times> ptr) option" where
  "delete_and_get_next dbg h s node needDestroyNode needDestroyValue = do {
     ASSERT dbg (s_root s \<noteq> None);
     ASSERT dbg (node \<noteq> None);
     ASSERT dbg (needDestroyNode \<or> \<not> needDestroyValue);
     if node = None then Some (h, s, None) else do {
     bb \<leftarrow> getBeforeBegin dbg s;
     ASSERT dbg (node \<noteq> bb);
     e \<leftarrow> getEnd dbg s;
     ASSERT dbg (node \<noteq> e);
     nxt \<leftarrow> forward dbg h s node;
     b \<leftarrow> getBegin dbg s;
     let setup_begin_required = (b = node);
     ASSERT dbg (nxt \<noteq> node);
     ASSERT dbg (nxt \<noteq> None);
     (h, s) \<leftarrow> delete_node dbg h s node needDestroyNode needDestroyValue;
     Some (h, if setup_begin_required then s\<lparr>s_begin := nxt\<rparr> else s, nxt) } }"

text \<open>\<open>needDestroyValue\<close> keeps its default \<open>true\<close>.\<close>

definition getNextAndRemoveNode ::
  "bool \<Rightarrow> 'a heap \<Rightarrow> avl_tree_stump \<Rightarrow> ptr \<Rightarrow> ('a heap \<times> avl_tree_stump \<times> ptr) option" where
  "getNextAndRemoveNode dbg h s goingToRemove = delete_and_get_next dbg h s goingToRemove False True"

text \<open>\<open>avl_tree_stump::resetInvariant\<close>: both gap nodes, then two insertions.\<close>

definition stump_resetInvariant ::
  "bool \<Rightarrow> 'a heap \<Rightarrow> avl_tree_stump \<Rightarrow> ('a heap \<times> avl_tree_stump) option" where
  "stump_resetInvariant dbg h s = do {
     h \<leftarrow> upd h (s_before_begin s) node_resetInvariant;
     h \<leftarrow> upd h (s_end s) node_resetInvariant;
     let s = s\<lparr>s_root := None\<rparr>;
     (h, s, end_node) \<leftarrow> insert_before dbg h s None (s_end s);
     (h, s, _) \<leftarrow> insert_before dbg h s end_node (s_before_begin s);
     Some (h, s\<lparr>s_begin := end_node\<rparr>) }"

partial_function (option) destruct_value_and_delete_node_since_begin_to_before_end_loop ::
  "bool \<Rightarrow> 'a heap \<Rightarrow> avl_tree_stump \<Rightarrow> ptr \<Rightarrow> ('a heap \<times> avl_tree_stump) option" where
  "destruct_value_and_delete_node_since_begin_to_before_end_loop dbg h s it =
     (if it = s_end s then Some (h, s) else do {
        (h, s, it) \<leftarrow> delete_and_get_next dbg h s it True True;
        destruct_value_and_delete_node_since_begin_to_before_end_loop dbg h s it })"

definition destruct_value_and_delete_node_since_begin_to_before_end ::
  "bool \<Rightarrow> 'a heap \<Rightarrow> avl_tree_stump \<Rightarrow> ('a heap \<times> avl_tree_stump) option" where
  "destruct_value_and_delete_node_since_begin_to_before_end dbg h s =
     destruct_value_and_delete_node_since_begin_to_before_end_loop dbg h s (s_begin s)"

subsection \<open>Restoring from a changed frame\<close>

lemma tree_inv_annot_fillD:
  "tree_inv h s (fill c t) \<Longrightarrow> annot h t \<and> annot_ctx h c"
  by (auto simp: tree_inv_def dest: annot_fillD)

lemma restore_at_frame:
  assumes t: "tree_at h root None (fill (f # c) u)" and ann: "annot h u" "annot_ctx h (f # c)"
    and d: "distinct (inorder (fill (f # c) u))" and sz: "size (fill (f # c) u) < 2 ^ 32"
  obtains h' q t' where
    "restore_height_size_and_balance_of_tree dbg h s (Some (frame_addr f)) = Some (h', s\<lparr>s_root := q\<rparr>)"
    "tree_inv h' (s\<lparr>s_root := q\<rparr>) t'" "inorder t' = inorder (fill (f # c) u)"
    "touches (set_tree (fill (f # c) u)) h h'"
proof -
  from t obtain p par where "tree_at h p par u" "ctx_at h p par (f # c)" by (rule tree_at_fillE)
  with ann d sz have "focus h p par (f # c) u" by (simp add: focus_def)
  then obtain a l r par' where a: "par = Some a" "plug f u = Node l a r" "annot h l" "annot h r"
    "focus h (Some a) par' c (plug f u)" using ann(1) by (rule focus_up)
  from a(2) have fa: "frame_addr f = a" by (cases f) auto
  obtain h' q where h':
    "restore_height_size_and_balance_of_tree dbg h s (Some a) = Some (h', s\<lparr>s_root := q\<rparr>)"
    "tree_at h' q None (rebuild c (Node l a r))" "annot h' (rebuild c (Node l a r))"
    "touches (set_tree (fill c (Node l a r))) h h'"
    using restore_height_size_and_balance_spec [OF a(5) [unfolded a(2)] a(3,4)] by blast
  have io: "inorder (rebuild c (Node l a r)) = inorder (fill (f # c) u)"
    by (simp add: a(2) [symmetric] del: inorder.simps)
  then have "size (rebuild c (Node l a r)) = size (fill (f # c) u)"
    by (metis length_inorder)
  with h'(2,3) io d sz have "tree_inv h' (s\<lparr>s_root := q\<rparr>) (rebuild c (Node l a r))"
    by (simp add: tree_inv_def)
  with h' io fa a(2) that show ?thesis by simp
qed

subsection \<open>Insertion\<close>

text \<open>What a hanging leaf needs: the slot of its parent is free and the node is not in the tree.\<close>

lemma attach_left:
  assumes t: "tree_at h root None (fill c (Node Leaf i r))"
    and d: "distinct (inorder (fill c (Node Leaf i r)))" and x: "x \<notin> set_tree (fill c (Node Leaf i r))"
    and xn: "h x = Some xn" "nd_left xn = None" "nd_right xn = None"
  obtains k1 k2 where "set_left h (Some i) (Some x) = Some k1" "set_parent k1 (Some x) (Some i) = Some k2"
    "tree_at k2 root None (fill (LeftOf i r # c) (Node Leaf x Leaf))" "marks k2 = marks h"
    "touches (insert x (set_tree (fill c (Node Leaf i r)))) h k2"
proof -
  from t obtain p par where "tree_at h p par (Node Leaf i r)" "ctx_at h p par c" "ctx_top c p = root"
    by (rule tree_at_fillE)
  then obtain n where n: "h i = Some n" "nd_parent n = par" "nd_left n = None"
    "tree_at h (nd_right n) (Some i) r" "ctx_at h (Some i) par c" "ctx_top c (Some i) = root"
    by (auto split: option.splits)
  from x have x': "x \<noteq> i" "x \<notin> set_tree r" "x \<notin> set_ctx c" by (auto simp: set_tree_fill)
  let ?k1 = "h(i \<mapsto> n\<lparr>nd_left := Some x\<rparr>)" let ?k = "?k1(x \<mapsto> xn\<lparr>nd_parent := Some i\<rparr>)"
  have "tree_at ?k (nd_right n) (Some i) r"
    by (rule tree_at_eq_heap [OF n(4)]) (use d x' in auto)
  then have T: "tree_at ?k (Some i) par (plug (LeftOf i r) (Node Leaf x Leaf))"
    using n xn x' by simp
  have "ctx_at ?k (Some i) par c"
    by (rule ctx_at_eq_heap [OF n(5)]) (use d x' in auto)
  with T tree_at_fillD n(6) have "tree_at ?k root None (fill (LeftOf i r # c) (Node Leaf x Leaf))"
    by fastforce
  moreover have "marks ?k = marks h" "val_at ?k = val_at h"
    using n xn by (auto simp: marks_def val_at_def)
  ultimately show ?thesis using n xn x' that [of ?k1 ?k]
    by (auto simp: touches_def set_tree_fill)
qed

lemma attach_right:
  assumes t: "tree_at h root None (fill c (Node l i Leaf))"
    and d: "distinct (inorder (fill c (Node l i Leaf)))" and x: "x \<notin> set_tree (fill c (Node l i Leaf))"
    and xn: "h x = Some xn" "nd_left xn = None" "nd_right xn = None"
  obtains k1 k2 where "set_right h (Some i) (Some x) = Some k1" "set_parent k1 (Some x) (Some i) = Some k2"
    "tree_at k2 root None (fill (RightOf l i # c) (Node Leaf x Leaf))" "marks k2 = marks h"
    "touches (insert x (set_tree (fill c (Node l i Leaf)))) h k2"
proof -
  from t obtain p par where "tree_at h p par (Node l i Leaf)" "ctx_at h p par c" "ctx_top c p = root"
    by (rule tree_at_fillE)
  then obtain n where n: "h i = Some n" "nd_parent n = par" "nd_right n = None"
    "tree_at h (nd_left n) (Some i) l" "ctx_at h (Some i) par c" "ctx_top c (Some i) = root"
    by (auto split: option.splits)
  from x have x': "x \<noteq> i" "x \<notin> set_tree l" "x \<notin> set_ctx c" by (auto simp: set_tree_fill)
  let ?k1 = "h(i \<mapsto> n\<lparr>nd_right := Some x\<rparr>)" let ?k = "?k1(x \<mapsto> xn\<lparr>nd_parent := Some i\<rparr>)"
  have "tree_at ?k (nd_left n) (Some i) l"
    by (rule tree_at_eq_heap [OF n(4)]) (use d x' in auto)
  then have T: "tree_at ?k (Some i) par (plug (RightOf l i) (Node Leaf x Leaf))"
    using n xn x' by simp
  have "ctx_at ?k (Some i) par c"
    by (rule ctx_at_eq_heap [OF n(5)]) (use d x' in auto)
  with T tree_at_fillD n(6) have "tree_at ?k root None (fill (RightOf l i # c) (Node Leaf x Leaf))"
    by fastforce
  moreover have "marks ?k = marks h" "val_at ?k = val_at h"
    using n xn by (auto simp: marks_def val_at_def)
  ultimately show ?thesis using n xn x' that [of ?k1 ?k]
    by (auto simp: touches_def set_tree_fill)
qed

text \<open>Hanging the leaf and climbing, as both branches of the code do.\<close>

lemma attach_restore:
  assumes t: "tree_at k root None (fill (f # c) (Node Leaf x Leaf))" and x: "marks k x = Some (1, 1)"
    and ann: "annot_ctx k (f # c)" and d: "distinct (inorder (fill (f # c) (Node Leaf x Leaf)))"
    and sz: "size (fill (f # c) (Node Leaf x Leaf)) < 2 ^ 32"
  obtains h' q t' where
    "restore_height_size_and_balance_of_tree dbg k s (Some (frame_addr f)) = Some (h', s\<lparr>s_root := q\<rparr>)"
    "q \<noteq> None" "tree_inv h' (s\<lparr>s_root := q\<rparr>) t'" "inorder t' = pre (f # c) @ x # post (f # c)"
    "touches (insert x (set_ctx (f # c))) k h'"
proof -
  have "annot k (Node Leaf x Leaf)" using x by (simp add: annot.simps(2))
  with t ann d sz obtain h' q t' where h':
    "restore_height_size_and_balance_of_tree dbg k s (Some (frame_addr f)) = Some (h', s\<lparr>s_root := q\<rparr>)"
    "tree_inv h' (s\<lparr>s_root := q\<rparr>) t'" "inorder t' = inorder (fill (f # c) (Node Leaf x Leaf))"
    "touches (set_tree (fill (f # c) (Node Leaf x Leaf))) k h'"
    by (metis restore_at_frame)
  from h'(3) have io: "inorder t' = pre (f # c) @ x # post (f # c)"
    unfolding inorder_fill by simp
  then have "t' \<noteq> Leaf" by auto
  with h'(2) have "q \<noteq> None" by (cases q) (auto simp: tree_inv_def)
  with h' io that show ?thesis unfolding set_tree_fill by simp
qed

lemma tree_inv_off:
  assumes "tree_inv h s t" "\<And>a. a \<in> set_tree t \<Longrightarrow> h' a = h a" "s_root s' = s_root s"
  shows "tree_inv h' s' t"
proof -
  have "tree_at h' (s_root s) None t" "annot h' t"
    using assms(1,2) by (auto simp: tree_inv_def marks_def intro: tree_at_eq_heap annot_marks)
  with assms show ?thesis by (simp add: tree_inv_def)
qed

lemma rightmost_free:
  "tree_at h (Some a) par t \<Longrightarrow> \<exists>m n. ptr_last (inorder t) = Some m \<and> h m = Some n \<and> nd_right n = None"
proof (induction t arbitrary: a par)
  case (Node l b r)
  from Node.prems obtain n where n: "h b = Some n" "tree_at h (nd_right n) (Some b) r"
    by (auto split: option.splits)
  show ?case
  proof (cases "nd_right n")
    case None
    with n show ?thesis by auto
  next
    case (Some e)
    with n have "r \<noteq> Leaf" "tree_at h (Some e) (Some b) r" by auto
    with Node.IH(2) show ?thesis by (simp add: ptr_last_def)
  qed
qed simp

text \<open>The predecessor of \<open>i\<close> when \<open>i\<close> has a left child: it has no right child.\<close>

lemma rightmost_of_left:
  assumes inv: "tree_inv h s t" and io: "inorder t = xs @ i # ys"
    and i: "h i = Some n" "nd_left n = Some e"
  obtains c l m where "find_rightmost dbg h (Some e) = Some (Some m)" "t = fill c (Node l m Leaf)"
    "xs = pre (RightOf l m # c)" "post c = i # ys"
proof -
  from inv io obtain c0 l0 r0 par where t0: "t = fill c0 (Node l0 i r0)"
    "xs = pre c0 @ inorder l0" "hole h s (Some i) par c0 (Node l0 i r0)" by (rule tree_inv_split)
  from t0(3) obtain n' where "h i = Some n'" "tree_at h (nd_left n') (Some i) l0"
    by (rule hole_deref)
  with i have e: "tree_at h (Some e) (Some i) l0" by simp
  then have "l0 \<noteq> Leaf" by auto
  from rightmost_free [OF e] obtain m mn where m: "ptr_last (inorder l0) = Some m" "h m = Some mn"
    "nd_right mn = None" by blast
  have fr: "find_rightmost dbg h (Some e) = Some (Some m)"
    using rightmost_loop_spec [OF e] m(1) by (simp add: find_rightmost_def)
  from m(1) \<open>l0 \<noteq> Leaf\<close> obtain zs where "inorder l0 = zs @ [m]"
    by (metis append_butlast_last_id inorder_eq_Nil option.inject ptr_last_def)
  with io t0(2) have "inorder t = (pre c0 @ zs) @ m # (i # ys)" by simp
  from tree_inv_split [OF inv this] obtain c l r par' where t: "t = fill c (Node l m r)"
    "pre c0 @ zs = pre c @ inorder l" "i # ys = inorder r @ post c"
    "hole h s (Some m) par' c (Node l m r)" by blast
  from t(4) obtain m' where "h m = Some m'" "tree_at h (nd_right m') (Some m) r"
    by (rule hole_deref)
  with m have "r = Leaf" by simp
  with that [OF fr] t t0(2) \<open>inorder l0 = zs @ [m]\<close> show ?thesis by simp
qed

theorem insert_before_spec:
  assumes inv: "tree_inv h s t" and io: "inorder t = xs @ i # ys" and x: "x \<notin> set_tree t"
    and n: "h x = Some n" "dbg \<Longrightarrow> nd_size n = 1 \<and> nd_height n = 1" and sz: "size t + 1 < 2 ^ 32"
  obtains h' q t' where "insert_before dbg h s (Some i) (Some x) = Some (h',
      s\<lparr>s_begin := if s_begin s = Some i then Some x else s_begin s, s_root := q\<rparr>, Some x)"
    "tree_inv h' (s\<lparr>s_begin := if s_begin s = Some i then Some x else s_begin s, s_root := q\<rparr>) t'"
    "inorder t' = xs @ x # i # ys" "touches (insert x (set_tree t)) h h'"
proof -
  let ?n = "n\<lparr>nd_size := 1, nd_height := 1, nd_left := None, nd_right := None\<rparr>"
  let ?h = "h(x \<mapsto> ?n)"
  let ?s = "s\<lparr>s_begin := if s_begin s = Some i then Some x else s_begin s\<rparr>"
  have inv': "tree_inv ?h ?s t" by (rule tree_inv_off [OF inv]) (use x in auto)
  have tx: "touches (insert x (set_tree t)) h ?h"
    using n by (auto simp: touches_def val_at_def)
  have "t \<noteq> Leaf" using io by auto
  then have rt: "s_root s \<noteq> None" using inv by (cases "s_root s") (auto simp: tree_inv_def)
  from tree_inv_split [OF inv' io] obtain c l r par where t: "t = fill c (Node l i r)"
    "xs = pre c @ inorder l" "ys = inorder r @ post c" "hole ?h ?s (Some i) par c (Node l i r)" by blast
  then obtain m where m: "?h i = Some m" "tree_at ?h (nd_left m) (Some i) l" by (blast elim: hole_deref)
  have as: "ASSERT dbg (nd_size n = 1) = Some ()" "ASSERT dbg (nd_height n = 1) = Some ()"
    using n(2) by (auto simp: ASSERT_def)
  have run: "insert_before dbg h s (Some i) (Some x) =
    (if nd_left m = None then do {
       h \<leftarrow> set_left ?h (Some i) (Some x); h \<leftarrow> set_parent h (Some x) (Some i);
       (h, s) \<leftarrow> restore_height_size_and_balance_of_tree dbg h ?s (Some i);
       ASSERT dbg (s_root s \<noteq> None); Some (h, s, Some x) }
     else do {
       it \<leftarrow> find_rightmost dbg ?h (nd_left m);
       h \<leftarrow> set_right ?h it (Some x); h \<leftarrow> set_parent h (Some x) it;
       (h, s) \<leftarrow> restore_height_size_and_balance_of_tree dbg h ?s it;
       ASSERT dbg (s_root s \<noteq> None); Some (h, s, Some x) })"
    using n(1) as rt m by (cases "s_begin s = Some i") (auto simp: insert_before_def Let_def)
  have mx: "marks ?h x = Some (1, 1)" by (simp add: marks_def)
  show ?thesis
  proof (cases "nd_left m")
    case None
    with m have l: "l = Leaf" by simp
    from inv' t(1) l have T: "tree_at ?h (s_root s) None (fill c (Node Leaf i r))"
      "distinct (inorder (fill c (Node Leaf i r)))" "annot ?h r" "annot_ctx ?h c"
      using annot_fillD [of ?h c "Node Leaf i r"] by (auto simp: tree_inv_def annot.simps(2))
    obtain k1 k2 where k: "set_left ?h (Some i) (Some x) = Some k1" "set_parent k1 (Some x) (Some i) = Some k2"
      "tree_at k2 (s_root s) None (fill (LeftOf i r # c) (Node Leaf x Leaf))" "marks k2 = marks ?h"
      "touches (insert x (set_tree t)) ?h k2"
      by (rule attach_left [OF T(1,2), of x ?n]) (use x t(1) l in auto)
    have an: "annot_ctx k2 (LeftOf i r # c)"
      by (rule annot_ctx_marks [of ?h]) (use T(3,4) k(4) in auto)
    obtain h' q t' where h':
      "restore_height_size_and_balance_of_tree dbg k2 ?s (Some i) = Some (h', ?s\<lparr>s_root := q\<rparr>)"
      "q \<noteq> None" "tree_inv h' (?s\<lparr>s_root := q\<rparr>) t'" "inorder t' = pre (LeftOf i r # c) @ x # post (LeftOf i r # c)"
      "touches (insert x (set_ctx (LeftOf i r # c))) k2 h'"
      by (rule attach_restore [OF k(3) _ an, of dbg ?s]) (use k(4) mx T(2) x t(1) l sz in \<open>auto simp: set_tree_fill size_fill\<close>)
    have X: "insert x (set_ctx (LeftOf i r # c)) = insert x (set_tree t)"
      using t(1) l by (auto simp: set_tree_fill)
    show ?thesis
      by (rule that [of h' q t'])
        (use run None k h' t l touches_trans [OF tx touches_trans [OF k(5) h'(5) [unfolded X]]] in auto)
  next
    case (Some e)
    from rightmost_of_left [OF inv' io m(1) Some] obtain d l' p where p:
      "find_rightmost dbg ?h (Some e) = Some (Some p)" "t = fill d (Node l' p Leaf)"
      "xs = pre (RightOf l' p # d)" "post d = i # ys" by blast
    from inv' p(2) have T: "tree_at ?h (s_root s) None (fill d (Node l' p Leaf))"
      "distinct (inorder (fill d (Node l' p Leaf)))" "annot ?h l'" "annot_ctx ?h d"
      using annot_fillD [of ?h d "Node l' p Leaf"] by (auto simp: tree_inv_def annot.simps(2))
    obtain k1 k2 where k: "set_right ?h (Some p) (Some x) = Some k1" "set_parent k1 (Some x) (Some p) = Some k2"
      "tree_at k2 (s_root s) None (fill (RightOf l' p # d) (Node Leaf x Leaf))" "marks k2 = marks ?h"
      "touches (insert x (set_tree t)) ?h k2"
      by (rule attach_right [OF T(1,2), of x ?n]) (use x p(2) in auto)
    have an: "annot_ctx k2 (RightOf l' p # d)"
      by (rule annot_ctx_marks [of ?h]) (use T(3,4) k(4) in auto)
    obtain h' q t' where h':
      "restore_height_size_and_balance_of_tree dbg k2 ?s (Some p) = Some (h', ?s\<lparr>s_root := q\<rparr>)"
      "q \<noteq> None" "tree_inv h' (?s\<lparr>s_root := q\<rparr>) t'" "inorder t' = pre (RightOf l' p # d) @ x # post (RightOf l' p # d)"
      "touches (insert x (set_ctx (RightOf l' p # d))) k2 h'"
      by (rule attach_restore [OF k(3) _ an, of dbg ?s]) (use k(4) mx T(2) x p(2) sz in \<open>auto simp: set_tree_fill size_fill\<close>)
    have X: "insert x (set_ctx (RightOf l' p # d)) = insert x (set_tree t)"
      using p(2) by (auto simp: set_tree_fill)
    show ?thesis
      by (rule that [of h' q t'])
        (use run Some k h' p touches_trans [OF tx touches_trans [OF k(5) h'(5) [unfolded X]]] in auto)
  qed
qed

subsection \<open>Removal\<close>

lemma relink_dom: "relink h c q a = None \<longleftrightarrow> h a = None"
proof (cases c)
  case (Cons f d)
  then show ?thesis by (cases f) (auto split: option.splits)
qed simp

lemma replace_node_eval:
  assumes f: "hole h s (Some a) par c (Node l a r)" and q: "\<And>b. q = Some b \<Longrightarrow> h b \<noteq> None"
  shows "replace_node dbg h s (Some a) q = Some (adopt (relink h c q) q par, s\<lparr>s_root := ctx_top c q\<rparr>)"
proof -
  from f obtain n where n: "h a = Some n" "nd_parent n = par" by (rule hole_deref)
  have ad: "(if q \<noteq> None then set_parent k q p else Some k) = Some (adopt k q p)"
    if "\<And>b. q = Some b \<Longrightarrow> k b \<noteq> None" for p and k :: "'a heap"
    using that by (cases q) (auto simp: adopt_def)
  show ?thesis
  proof (cases c)
    case Nil
    with f have "par = None" "s_root s = Some a" by (simp_all add: hole_def)
    with n Nil ad [of h None] q show ?thesis by (simp add: replace_node_def)
  next
    case (Cons g d)
    have pg: "par = Some (frame_addr g)" using f [unfolded Cons] by (rule hole_up)
    obtain m where m: "h (frame_addr g) = Some m"
      using f Cons by (cases g) (auto simp: hole_def split: option.splits)
    have sr: "s\<lparr>s_root := ctx_top c q\<rparr> = s"
      using f Cons by (simp add: hole_def)
    have "a \<notin> set_ctx c" using hole_disjoint [OF f] by auto
    then have ga: "relink h c q a = Some n" using n by simp
    have st: "(if (case g of LeftOf _ _ \<Rightarrow> LEFT | RightOf _ _ \<Rightarrow> RIGHT) = LEFT
        then set_left h par q else set_right h par q) = Some (relink h c q)"
      using m pg Cons by (cases g) simp_all
    have k: "(if q \<noteq> None then set_parent (relink h c q) q par else Some (relink h c q)) =
        Some (adopt (relink h c q) q par)"
      by (rule ad) (use q relink_dom in metis)
    show ?thesis unfolding sr
      using n pg child_type_spec [OF f [unfolded Cons], of dbg] st ga k
      by (cases g; cases q) (simp_all add: replace_node_def)
  qed
qed

lemma hole_fillD: "hole h s p par c t \<Longrightarrow> tree_at h (s_root s) None (fill c t)"
  unfolding hole_def by (metis tree_at_fillD)

lemma replace_node_links:
  assumes f: "hole h s (Some a) par c (Node l a r)" and u: "tree_at h q qpar u" "distinct (inorder u)"
    and d: "set_tree u \<inter> set_ctx c = {}"
  defines "h' \<equiv> adopt (relink h c q) q par"
  shows "tree_at h' q par u" "ctx_at h' q par c" "val_at h' = val_at h" "marks h' = marks h"
    "\<And>b. b \<notin> set_tree u \<Longrightarrow> b \<notin> set_ctx c \<Longrightarrow> h' b = h b"
proof -
  have q: "q \<noteq> Some b" if "b \<notin> set_tree u" for b
    using u(1) that by (auto dest: tree_at_root_in)
  have "tree_at (relink h c q) q qpar u"
    by (rule tree_at_eq_heap [OF u(1)]) (use d in \<open>auto simp: disjoint_iff\<close>)
  then show "tree_at h' q par u" unfolding h'_def using u(2) by (rule tree_at_adopt)
  have "ctx_at (relink h c q) q par c"
    using f by (intro ctx_at_relink) (auto simp: hole_def)
  then show "ctx_at h' q par c" unfolding h'_def
    by (rule ctx_at_eq_heap) (use d q in \<open>auto intro!: adopt_other\<close>)
  show "val_at h' = val_at h" "marks h' = marks h" by (simp_all add: h'_def)
  show "h' b = h b" if "b \<notin> set_tree u" "b \<notin> set_ctx c" for b
    using that q by (simp add: h'_def)
qed

lemma substitute_node_spec:
  assumes f: "hole h s (Some a) par c (Node l a r)" and m: "h m = Some mn"
    and mx: "m \<notin> set_tree (fill c (Node l a r))"
  obtains h' q where "substitute_node dbg h s (Some a) (Some m) = Some (h', s\<lparr>s_root := q\<rparr>)"
    "tree_at h' q None (fill c (Node l m r))" "marks h' = marks h"
    "touches (insert m (set_tree (fill c (Node l a r)))) h h'"
proof -
  from f obtain n where n: "h a = Some n" "nd_parent n = par" "tree_at h (nd_left n) (Some a) l"
    "tree_at h (nd_right n) (Some a) r" by (rule hole_deref)
  have ds: "distinct (pre c @ inorder (Node l a r) @ post c)" using f unfolding hole_def inorder_fill by simp
  have mm: "m \<noteq> a" "m \<notin> set_tree l" "m \<notin> set_tree r" "m \<notin> set_ctx c"
    using mx by (auto simp: set_tree_fill)
  have q: "nd_left n \<noteq> Some b" if "b \<notin> set_tree l" for b
    using n(3) that by (auto dest: tree_at_root_in)
  have q': "nd_right n \<noteq> Some b" if "b \<notin> set_tree r" for b
    using n(4) that by (auto dest: tree_at_root_in)
  have ql: "nd_left n \<noteq> Some b" if "b \<in> set_tree r \<union> set_ctx c \<union> {m}" for b
    using q [of b] ds mm that by auto
  have qr: "nd_right n \<noteq> Some b" if "b \<in> set_tree l \<union> set_ctx c \<union> {m}" for b
    using q' [of b] ds mm that by auto
  have off: "b \<notin> set_ctx c" if "b \<in> set_tree l \<union> set_tree r \<union> {a}" for b
    using ds that by auto
  let ?g = "relink h c (Some m)"
  let ?h2 = "?g(m \<mapsto> mn\<lparr>nd_parent := par\<rparr>)"
  let ?h3 = "?g(m \<mapsto> mn\<lparr>nd_parent := par, nd_left := nd_left n, nd_right := nd_right n\<rparr>)"
  let ?h4 = "adopt ?h3 (nd_left n) (Some m)" let ?h5 = "adopt ?h4 (nd_right n) (Some m)"
  have gm: "?g m = Some mn" using m mm by simp
  have "replace_node dbg h s (Some a) (Some m) = Some (?h2, s\<lparr>s_root := ctx_top c (Some m)\<rparr>)"
    using replace_node_eval [OF f, of "Some m" dbg] m gm by (simp add: adopt_def)
  moreover have ga: "?g a = Some n" using n(1) off by simp
  moreover have l3: "tree_at ?h3 (nd_left n) (Some a) l"
    by (rule tree_at_eq_heap [OF n(3)]) (use off mm in auto)
  moreover have r3: "tree_at ?h3 (nd_right n) (Some a) r"
    by (rule tree_at_eq_heap [OF n(4)]) (use off mm in auto)
  have r4: "tree_at ?h4 (nd_right n) (Some a) r"
    by (rule tree_at_eq_heap [OF r3]) (use ql in simp)
  have h4m: "?h4 m = ?h3 m" using ql by simp
  ultimately have run: "substitute_node dbg h s (Some a) (Some m) =
      Some (?h5, s\<lparr>s_root := ctx_top c (Some m)\<rparr>)"
    using set_parent_adopt [OF l3, of "Some m"] set_parent_adopt [OF r4, of "Some m"] mm
    by (simp add: substitute_node_def gm)
  have l4: "tree_at ?h4 (nd_left n) (Some m) l" using l3 ds by (auto intro: tree_at_adopt)
  have l5: "tree_at ?h5 (nd_left n) (Some m) l"
    by (rule tree_at_eq_heap [OF l4]) (use qr in simp)
  have r5: "tree_at ?h5 (nd_right n) (Some m) r" using r4 ds by (auto intro: tree_at_adopt)
  have h5m: "?h5 m = ?h3 m" using ql qr by simp
  have T: "tree_at ?h5 (Some m) par (Node l m r)" using l5 r5 h5m by simp
  have "ctx_at ?g (Some m) par c"
    using f ds by (intro ctx_at_relink) (auto simp: hole_def)
  then have "ctx_at ?h5 (Some m) par c"
    by (rule ctx_at_eq_heap) (use ql qr mm in auto)
  with T have "tree_at ?h5 (ctx_top c (Some m)) None (fill c (Node l m r))" by (rule tree_at_fillD)
  moreover have "marks ?h3 = marks ?g" "val_at ?h3 = val_at ?g"
    using gm by (auto simp: marks_def val_at_def simp del: marks_relink val_at_relink)
  then have "marks ?h5 = marks h" "val_at ?h5 = val_at h" by simp_all
  moreover have "?h5 b = h b" if "b \<notin> insert m (set_tree (fill c (Node l a r)))" for b
    using that q q' by (simp add: set_tree_fill)
  ultimately show ?thesis using that run by (auto simp: touches_def)
qed

text \<open>A tree whose root was spliced out at the rightmost node of its left subtree.\<close>

lemma rightmost_frame:
  assumes "l \<noteq> Leaf"
  obtains d m lm where "l = fill d (Node lm m Leaf)" "post d = []" "ptr_last (inorder l) = Some m"
  using assms
proof (induction l arbitrary: thesis)
  case (Node l b r)
  show ?case
  proof (cases "r = Leaf")
    case True
    with Node.prems(1)[of "[]" l b] show ?thesis by simp
  next
    case False
    obtain d m lm where d: "r = fill d (Node lm m Leaf)" "post d = []" "ptr_last (inorder r) = Some m"
      using Node.IH(2) False by blast
    have "post (d @ [RightOf l b]) = []" using d(2) by (induction d rule: post.induct) auto
    with d Node.prems(1)[of "d @ [RightOf l b]" lm m] False show ?thesis
      by (simp add: fill_append ptr_last_def)
  qed
qed simp

lemma restore_from_ctx:
  assumes t: "tree_at h root None (fill c u)" and ann: "annot h u" "annot_ctx h c"
    and d: "distinct (inorder (fill c u))" and sz: "size (fill c u) < 2 ^ 32" and c: "c \<noteq> []"
  obtains h' q t' where
    "restore_height_size_and_balance_of_tree dbg h s (Some (frame_addr (hd c))) = Some (h', s\<lparr>s_root := q\<rparr>)"
    "tree_inv h' (s\<lparr>s_root := q\<rparr>) t'" "inorder t' = inorder (fill c u)"
    "touches (set_tree (fill c u)) h h'"
proof -
  from c obtain f c' where "c = f # c'" by (cases c) auto
  with restore_at_frame [of h root f c' u] t ann d sz that show ?thesis by (metis list.sel(1))
qed

lemma ctx_at_parent: "ctx_at h p par c \<Longrightarrow> c \<noteq> [] \<Longrightarrow> par = Some (frame_addr (hd c))"
  by (cases "(h, p, par, c)" rule: ctx_at.cases) auto

lemma unlink_no_left:
  assumes inv: "tree_inv h s (fill c (Node Leaf a r))"
  obtains h' q t' where "unlink_node dbg h s (Some a) = Some (h', s\<lparr>s_root := q\<rparr>)"
    "tree_inv h' (s\<lparr>s_root := q\<rparr>) t'" "inorder t' = pre c @ inorder r @ post c"
    "touches (set_ctx c \<union> set_tree r) h h'"
proof -
  from inv obtain par where f: "hole h s (Some a) par c (Node Leaf a r)" by (rule tree_inv_hole)
  then obtain n where n: "h a = Some n" "nd_parent n = par" "nd_left n = None"
    "tree_at h (nd_right n) (Some a) r" by (metis hole_deref tree_at.simps(1))
  have ds: "distinct (pre c @ inorder (Node Leaf a r) @ post c)" "size (fill c r) < 2 ^ 32"
    using inv unfolding tree_inv_def inorder_fill size_fill by simp_all
  let ?q = "nd_right n" let ?k = "adopt (relink h c ?q) ?q par" let ?s = "s\<lparr>s_root := ctx_top c ?q\<rparr>"
  have "replace_node dbg h s (Some a) ?q = Some (?k, ?s)"
    by (rule replace_node_eval [OF f]) (use n(4) in \<open>auto simp: tree_at_Some\<close>)
  moreover have k: "tree_at ?k ?q par r" "ctx_at ?k ?q par c" "val_at ?k = val_at h" "marks ?k = marks h"
    "\<And>b. b \<notin> set_tree r \<Longrightarrow> b \<notin> set_ctx c \<Longrightarrow> ?k b = h b"
    using replace_node_links [OF f n(4)] ds by auto
  moreover have "?k a = Some n" using k(5)[of a] n(1) ds by simp
  ultimately have run: "unlink_node dbg h s (Some a) = (if par = None then Some (?k, ?s)
      else restore_height_size_and_balance_of_tree dbg ?k ?s par)"
    using n by (simp add: unlink_node_def)
  have T: "tree_at ?k (ctx_top c ?q) None (fill c r)" using k(1,2) by (rule tree_at_fillD)
  have "annot h r" "annot_ctx h c"
    using tree_inv_annot_fillD [OF inv] by (simp_all add: annot.simps(2))
  then have ann: "annot ?k r" "annot_ctx ?k c"
    using k(4) by (auto intro: annot_marks annot_ctx_marks)
  have tk: "touches (set_ctx c \<union> set_tree r) h ?k" using k(3,5) by (simp add: touches_def)
  show ?thesis
  proof (cases "c = []")
    case True
    with f have "par = None" by (simp add: hole_def)
    moreover have "tree_inv ?k ?s r" using T ann True ds by (simp add: tree_inv_def)
    ultimately show ?thesis using that [of ?k "ctx_top c ?q" r] run True tk by simp
  next
    case False
    obtain h' q t' where h':
      "restore_height_size_and_balance_of_tree dbg ?k ?s (Some (frame_addr (hd c))) = Some (h', ?s\<lparr>s_root := q\<rparr>)"
      "tree_inv h' (?s\<lparr>s_root := q\<rparr>) t'" "inorder t' = inorder (fill c r)" "touches (set_tree (fill c r)) ?k h'"
      by (rule restore_from_ctx [OF T ann _ _ False, of dbg ?s]) (use ds in auto)
    have "par = Some (frame_addr (hd c))" using k(2) False by (rule ctx_at_parent)
    then show ?thesis
      using that [of h' q t'] run h' touches_trans [OF tk, of h'] by (simp add: set_tree_fill Un_commute)
  qed
qed

lemma annot_ctx_append: "annot_ctx h (c @ d) \<longleftrightarrow> annot_ctx h c \<and> annot_ctx h d"
  by (induction h c rule: annot_ctx.induct) auto

lemma unlink_left:
  assumes inv: "tree_inv h s (fill c (Node l a r))" and nl: "l \<noteq> Leaf"
  obtains h' q t' where "unlink_node dbg h s (Some a) = Some (h', s\<lparr>s_root := q\<rparr>)"
    "tree_inv h' (s\<lparr>s_root := q\<rparr>) t'" "inorder t' = pre c @ inorder l @ inorder r @ post c"
    "touches (set_tree (fill c (Node l a r))) h h'"
proof -
  let ?X = "set_tree (fill c (Node l a r))"
  from nl obtain d m lm where d: "l = fill d (Node lm m Leaf)" "post d = []" "ptr_last (inorder l) = Some m"
    by (rule rightmost_frame)
  let ?C = "d @ LeftOf a r # c" let ?C' = "d @ LeftOf m r # c"
  have eq: "fill c (Node l a r) = fill ?C (Node lm m Leaf)" by (simp add: fill_append d(1))
  have ds: "distinct (pre c @ inorder (Node l a r) @ post c)" "size (fill c (Node l a r)) < 2 ^ 32"
    using inv unfolding tree_inv_def inorder_fill by simp_all
  from inv obtain par where fa: "hole h s (Some a) par c (Node l a r)" by (rule tree_inv_hole)
  from fa obtain n where n: "h a = Some n" "tree_at h (nd_left n) (Some a) l" by (rule hole_deref)
  from n(2) nl obtain e where e: "nd_left n = Some e" by (cases "nd_left n") auto
  have fr: "find_rightmost dbg h (nd_left n) = Some (Some m)"
    using rightmost_loop_spec [OF n(2) [unfolded e]] e d(3) by (simp add: find_rightmost_def)
  from inv obtain mpar where fm: "hole h s (Some m) mpar ?C (Node lm m Leaf)"
    unfolding eq by (rule tree_inv_hole)
  from fm obtain mn where mn: "h m = Some mn" "nd_parent mn = mpar" "tree_at h (nd_left mn) (Some m) lm"
    by (rule hole_deref)
  have dm: "distinct (pre ?C @ inorder (Node lm m Leaf) @ post ?C)"
    using fm unfolding hole_def inorder_fill by simp
  have X: "?X = set_tree lm \<union> set_ctx ?C \<union> {m}" unfolding eq set_tree_fill by auto
  let ?k = "adopt (relink h ?C (nd_left mn)) (nd_left mn) mpar"
  have ct: "ctx_top ?C q = s_root s" for q
    using fm unfolding hole_def by (cases d) simp_all
  have r1: "replace_node dbg h s (Some m) (nd_left mn) = Some (?k, s)"
    by (subst replace_node_eval [OF fm]) (use mn(3) in \<open>auto simp: ct tree_at_Some\<close>)
  have k: "tree_at ?k (nd_left mn) mpar lm" "ctx_at ?k (nd_left mn) mpar ?C" "val_at ?k = val_at h"
    "marks ?k = marks h" "\<And>b. b \<notin> set_tree lm \<Longrightarrow> b \<notin> set_ctx ?C \<Longrightarrow> ?k b = h b"
    using replace_node_links [OF fm mn(3)] dm by auto
  have km: "?k m = Some mn" using k(5)[of m] mn(1) dm by auto
  have "tree_at ?k (s_root s) None (fill ?C lm)"
    using tree_at_fillD [OF k(1,2)] by (simp only: ct)
  then have T: "tree_at ?k (s_root s) None (fill c (Node (fill d lm) a r))"
    by (simp add: fill_append)
  have ds': "distinct (inorder (fill c (Node (fill d lm) a r)))" "m \<notin> set_tree (fill c (Node (fill d lm) a r))"
    using ds d(1,2) by (auto simp: set_tree_fill)
  from tree_at_fillE [OF T] ds'(1) obtain par' where fk: "hole ?k s (Some a) par' c (Node (fill d lm) a r)"
    unfolding hole_def by (metis tree_at.simps(2))
  obtain k2 q where k2: "substitute_node dbg ?k s (Some a) (Some m) = Some (k2, s\<lparr>s_root := q\<rparr>)"
    "tree_at k2 q None (fill c (Node (fill d lm) m r))" "marks k2 = marks ?k"
    "touches (insert m (set_tree (fill c (Node (fill d lm) a r)))) ?k k2"
    using substitute_node_spec [OF fk km ds'(2), of dbg] by blast
  have eq': "fill c (Node (fill d lm) m r) = fill ?C' lm" by (simp add: fill_append)
  have io: "inorder (fill ?C' lm) = pre c @ inorder l @ inorder r @ post c"
    unfolding eq' [symmetric] by (simp add: d(1,2))
  have "annot h lm" "annot_ctx h ?C"
    using tree_inv_annot_fillD [of h s ?C "Node lm m Leaf"] inv eq by (simp_all add: annot.simps(2))
  then have ann: "annot k2 lm" "annot_ctx k2 ?C'"
    using k2(3) k(4) by (auto simp: annot_ctx_append intro: annot_marks annot_ctx_marks)
  have sz: "size (fill ?C' lm) < 2 ^ 32"
    using ds(2) arg_cong [OF io, of length] by (simp add: size_fill)
  obtain h' q' t' where h':
    "restore_height_size_and_balance_of_tree dbg k2 (s\<lparr>s_root := q\<rparr>) (Some (frame_addr (hd ?C'))) =
      Some (h', s\<lparr>s_root := q\<rparr>\<lparr>s_root := q'\<rparr>)" "tree_inv h' (s\<lparr>s_root := q\<rparr>\<lparr>s_root := q'\<rparr>) t'"
    "inorder t' = inorder (fill ?C' lm)" "touches (set_tree (fill ?C' lm)) k2 h'"
    by (rule restore_from_ctx [OF k2(2) [unfolded eq'] ann, of dbg "s\<lparr>s_root := q\<rparr>"])
      (use io ds sz in auto)
  have mp: "mpar = Some (frame_addr (hd ?C))" using fm unfolding hole_def by (auto intro: ctx_at_parent)
  have "(if mpar = Some a then Some m else mpar) = Some (frame_addr (hd ?C'))"
  proof (cases d)
    case (Cons g d')
    then have "frame_addr g \<in> set_tree l" using d(1) by (cases g) (auto simp: set_tree_fill)
    with ds(1) have "frame_addr g \<noteq> a" by auto
    with Cons mp show ?thesis by simp
  qed (use mp in simp)
  then have run: "unlink_node dbg h s (Some a) = Some (h', s\<lparr>s_root := q'\<rparr>)"
    using n(1) e fr mn(1,2) r1 k2(1) h'(1) by (simp add: unlink_node_def)
  have "set_tree (fill c (Node (fill d lm) a r)) \<subseteq> ?X" "set_tree (fill ?C' lm) \<subseteq> ?X" "m \<in> ?X"
    unfolding eq' [symmetric] d(1) by (auto simp: set_tree_fill)
  then have "touches ?X ?k k2" "touches ?X k2 h'" using k2(4) h'(4) by (auto simp: touches_def)
  moreover have "touches ?X h ?k" using k(3,5) X by (auto simp: touches_def)
  ultimately have "touches ?X h h'" by (blast intro: touches_trans)
  with run h'(2,3) io that show ?thesis by simp
qed

lemma unlink_node_spec:
  assumes inv: "tree_inv h s t" and io: "inorder t = xs @ a # ys"
  obtains h' q t' where "unlink_node dbg h s (Some a) = Some (h', s\<lparr>s_root := q\<rparr>)"
    "tree_inv h' (s\<lparr>s_root := q\<rparr>) t'" "inorder t' = xs @ ys" "touches (set_tree t) h h'"
proof -
  from inv io obtain c l r par where t: "t = fill c (Node l a r)" "xs = pre c @ inorder l"
    "ys = inorder r @ post c" by (rule tree_inv_split)
  show ?thesis
  proof (cases "l = Leaf")
    case True
    with inv t(1) have "tree_inv h s (fill c (Node Leaf a r))" by simp
    then obtain h' q t' where h': "unlink_node dbg h s (Some a) = Some (h', s\<lparr>s_root := q\<rparr>)"
      "tree_inv h' (s\<lparr>s_root := q\<rparr>) t'" "inorder t' = pre c @ inorder r @ post c"
      "touches (set_ctx c \<union> set_tree r) h h'" by (rule unlink_no_left)
    from h'(4) have "touches (set_tree t) h h'" by (auto simp: touches_def t(1) set_tree_fill)
    with h' t True that show ?thesis by simp
  next
    case False
    from unlink_left [OF inv [unfolded t(1)] False, of dbg] t that show ?thesis by (metis append_assoc)
  qed
qed

text \<open>The two gap nodes are allocated and the cached pointers are set.\<close>

lemma gap_asserts:
  assumes "s_before_begin s = Some bb" "s_end s = Some e" "s_begin s = Some b" "a \<noteq> bb" "a \<noteq> e"
  shows "isNotEmptyNode dbg s (Some a) = Some True" "getBeforeBegin dbg s = Some (Some bb)"
    "getEnd dbg s = Some (Some e)" "getBegin dbg s = Some (Some b)"
  using assms by (simp_all add: isNotEmptyNode_def getBeforeBegin_def getEnd_def getBegin_def)

lemma delete_node_spec:
  assumes inv: "tree_inv h s t" and io: "inorder t = xs @ a # ys"
    and gap: "s_before_begin s = Some bb" "s_end s = Some e" "s_begin s = Some b" "a \<noteq> bb" "a \<noteq> e"
    and v: "destroy \<Longrightarrow> needValue \<Longrightarrow> \<exists>v. val_at h a = Some (Some v)"
  obtains h' q t' where
    "delete_node dbg h s (Some a) destroy needValue = Some (h', s\<lparr>s_root := q\<rparr>)"
    "tree_inv h' (s\<lparr>s_root := q\<rparr>) t'" "inorder t' = xs @ ys"
    "\<And>c. c \<notin> set_tree t \<Longrightarrow> h' c = h c"
    "val_at h' = (if destroy then (val_at h)(a := None) else val_at h)"
proof -
  from inv io obtain k q t' where k: "unlink_node dbg h s (Some a) = Some (k, s\<lparr>s_root := q\<rparr>)"
    "tree_inv k (s\<lparr>s_root := q\<rparr>) t'" "inorder t' = xs @ ys" "touches (set_tree t) h k"
    by (rule unlink_node_spec)
  have a: "a \<in> set_tree t" using io by (metis in_set_conv_decomp set_inorder)
  have rt: "s_root s \<noteq> None" using inv a by (cases "s_root s") (auto simp: tree_inv_def)
  have run: "delete_node dbg h s (Some a) destroy needValue =
      (if \<not> destroy then Some (k, s\<lparr>s_root := q\<rparr>) else do {
        h \<leftarrow> destroy_node k (Some a) needValue; Some (h, s\<lparr>s_root := q\<rparr>) })"
    using rt k(1) gap gap_asserts [OF gap, of dbg] by (simp add: delete_node_def)
  show ?thesis
  proof (cases destroy)
    case False
    with run k that [of k q t'] show ?thesis by (simp add: touches_def)
  next
    case True
    obtain n where n: "h a = Some n" using inv a by (auto simp: tree_inv_def dest: tree_at_dom)
    have "val_at k a = val_at h a" using k(4) by (simp add: touches_def)
    then obtain n' where n': "k a = Some n'" "nd_value n' = nd_value n"
      using n by (auto simp: val_at_def)
    have "destroy_node k (Some a) needValue = Some (k(a := None))"
      using n' n v True by (auto simp: destroy_node_def val_at_def)
    moreover have "a \<notin> set_tree t'"
    proof -
      have "distinct (inorder t)" using inv by (simp add: tree_inv_def)
      then have "a \<notin> set (inorder t')" unfolding k(3) io by auto
      then show ?thesis by simp
    qed
    then have "tree_inv (k(a := None)) (s\<lparr>s_root := q\<rparr>) t'"
      by (intro tree_inv_off [OF k(2)]) auto
    moreover have "val_at (k(a := None)) = (val_at h)(a := None)"
      using k(4) by (auto simp: touches_def val_at_def fun_eq_iff)
    ultimately show ?thesis
      by (intro that [of "k(a := None)" q t']) (use run True k a in \<open>auto simp: touches_def\<close>)
  qed
qed

end
