(* ===== verification/Avl_Stump.thy ===== *)
theory Avl_Stump
  imports Avl_Update
begin

section \<open>The tree object as a sequence between two gap nodes\<close>

text \<open>
  The invariant a live \<open>avl_tree_stump\<close> keeps between calls: the in-order list is
  \<open>before_begin\<close>, the elements, \<open>end\<close>; the cached \<open>begin\<close> is the first element (or
  \<open>end\<close>); every element node holds a constructed value and the gap nodes hold none. Construction, insertion, removal,
  clearing and self-checking are stated over the list of element addresses, and the values
  of elements are read through \<open>vals\<close>.
\<close>

subsection \<open>The invariant\<close>

definition first_of :: "addr list \<Rightarrow> avl_tree_stump \<Rightarrow> ptr" where
  "first_of xs s = (case xs of [] \<Rightarrow> s_end s | a # _ \<Rightarrow> Some a)"

definition stump_inv :: "'a heap \<Rightarrow> avl_tree_stump \<Rightarrow> addr list \<Rightarrow> bool" where
  "stump_inv h s xs \<longleftrightarrow> (\<exists>t bb e. tree_inv h s t \<and> inorder t = bb # xs @ [e] \<and>
     s_before_begin s = Some bb \<and> s_end s = Some e \<and> s_begin s = first_of xs s \<and>
     (\<forall>a\<in>set xs. \<exists>v. val_at h a = Some (Some v)) \<and> val_at h bb = Some None \<and> val_at h e = Some None)"

text \<open>The values stored in a list of nodes.\<close>

definition vals :: "'a heap \<Rightarrow> addr list \<Rightarrow> 'a list" where
  "vals h xs = map (\<lambda>a. the (the (val_at h a))) xs"

text \<open>The addresses a tree object owns.\<close>

definition owned :: "avl_tree_stump \<Rightarrow> addr list \<Rightarrow> addr set" where
  "owned s xs = set xs \<union> set_option (s_before_begin s) \<union> set_option (s_end s)"

lemma first_of_simps [simp]:
  "first_of [] s = s_end s" "first_of (a # xs) s = Some a"
  by (simp_all add: first_of_def)

lemma vals_simps [simp]:
  "vals h [] = []" "vals h (a # xs) = the (the (val_at h a)) # vals h xs"
  "vals h (xs @ ys) = vals h xs @ vals h ys" "length (vals h xs) = length xs"
  by (simp_all add: vals_def)

lemma vals_cong: "(\<And>a. a \<in> set xs \<Longrightarrow> val_at h' a = val_at h a) \<Longrightarrow> vals h' xs = vals h xs"
  by (simp add: vals_def)

lemma stump_invE:
  assumes "stump_inv h s xs"
  obtains t bb e where "tree_inv h s t" "inorder t = bb # xs @ [e]" "s_before_begin s = Some bb"
    "s_end s = Some e" "s_begin s = first_of xs s" "\<forall>a\<in>set xs. \<exists>v. val_at h a = Some (Some v)"
    "distinct (bb # xs @ [e])" "size t = length xs + 2" "set_tree t = owned s xs"
    "val_at h bb = Some None" "val_at h e = Some None"
proof -
  from assms obtain t bb e where t: "tree_inv h s t" "inorder t = bb # xs @ [e]"
    "s_before_begin s = Some bb" "s_end s = Some e" "s_begin s = first_of xs s"
    "\<forall>a\<in>set xs. \<exists>v. val_at h a = Some (Some v)" "val_at h bb = Some None" "val_at h e = Some None"
    unfolding stump_inv_def by blast
  from t(1,2) have "distinct (bb # xs @ [e])" by (simp only: tree_inv_def)
  moreover have "size t = length xs + 2" using arg_cong [OF t(2), of length] by simp
  moreover have "set_tree t = owned s xs"
    using arg_cong [OF t(2), of set] t(3,4) by (auto simp: owned_def)
  ultimately show ?thesis using that t by blast
qed

lemma stump_size_spec:
  assumes "stump_inv h s xs"
  shows "stump_size h s = Some (of_nat (length xs + 2))"
  using assms
  by (elim stump_invE) (auto simp: stump_size_def tree_inv_def dest: node_size_annot)

lemma stump_inv_bound: "stump_inv h s xs \<Longrightarrow> length xs + 2 < 2 ^ 32"
  by (elim stump_invE) (auto simp: tree_inv_def)

lemma stump_inv_distinct: "stump_inv h s xs \<Longrightarrow> distinct xs"
  by (elim stump_invE) simp

lemma stump_inv_root: "stump_inv h s xs \<Longrightarrow> s_root s \<noteq> None"
  by (elim stump_invE, cases "s_root s") (auto simp: tree_inv_def)

lemma stump_invI:
  assumes "tree_inv h s t" "inorder t = bb # xs @ [e]" "s_before_begin s = Some bb" "s_end s = Some e"
    "s_begin s = first_of xs s" "\<forall>a\<in>set xs. \<exists>v. val_at h a = Some (Some v)"
    "val_at h bb = Some None" "val_at h e = Some None"
  shows "stump_inv h s xs"
  using assms unfolding stump_inv_def by blast

text \<open>A change elsewhere in the heap does not disturb the object.\<close>

lemma stump_inv_off:
  assumes inv: "stump_inv h s xs" and eq: "\<And>a. a \<in> owned s xs \<Longrightarrow> h' a = h a"
  shows "stump_inv h' s xs" "vals h' xs = vals h xs"
proof -
  from inv obtain t bb e where t: "tree_inv h s t" "inorder t = bb # xs @ [e]"
    "s_before_begin s = Some bb" "s_end s = Some e" "s_begin s = first_of xs s"
    "\<forall>a\<in>set xs. \<exists>v. val_at h a = Some (Some v)" "set_tree t = owned s xs"
    "val_at h bb = Some None" "val_at h e = Some None"
    by (rule stump_invE)
  have "val_at h' bb = Some None" "val_at h' e = Some None"
    using eq [of bb] eq [of e] t(3,4,8,9) by (simp_all add: val_at_def owned_def)
  moreover have v: "val_at h' a = val_at h a" if "a \<in> set xs" for a
    using eq [of a] that by (simp add: val_at_def owned_def)
  moreover have "tree_inv h' s t" using t(1) by (rule tree_inv_off) (use eq t(7) in auto)
  ultimately show "stump_inv h' s xs" using t v by (intro stump_invI [of h' s t bb xs e]) auto
  show "vals h' xs = vals h xs" using v by (rule vals_cong)
qed

subsection \<open>Insertion and removal on the sequence\<close>

definition same_gaps :: "avl_tree_stump \<Rightarrow> avl_tree_stump \<Rightarrow> bool" where
  "same_gaps s s' \<longleftrightarrow> s_before_begin s' = s_before_begin s \<and> s_end s' = s_end s"

lemma same_gaps_refl [simp]: "same_gaps s s"
  by (simp add: same_gaps_def)

lemma same_gaps_trans: "same_gaps s s' \<Longrightarrow> same_gaps s' s'' \<Longrightarrow> same_gaps s s''"
  by (simp add: same_gaps_def)

lemma first_of_gaps: "same_gaps s s' \<Longrightarrow> first_of xs s' = first_of xs s"
  by (cases xs) (simp_all add: same_gaps_def)

lemma owned_gaps: "same_gaps s s' \<Longrightarrow> owned s' xs = owned s xs"
  by (simp add: same_gaps_def owned_def)

lemma owned_Cons: "owned s (xs @ x # ys) = insert x (owned s (xs @ ys))"
  by (auto simp: owned_def)

text \<open>A node that is ready to be inserted: allocated, holding a value, with the initial size
  and height, and in no tree.\<close>

definition fresh_node :: "'a heap \<Rightarrow> addr \<Rightarrow> bool" where
  "fresh_node h x \<longleftrightarrow> (\<exists>n v. h x = Some n \<and> nd_value n = Some v \<and> nd_size n = 1 \<and> nd_height n = 1)"

lemma insert_before_stump:
  assumes inv: "stump_inv h s (xs @ ys)" and x: "fresh_node h x" "x \<notin> owned s (xs @ ys)"
    and sz: "length (xs @ ys) + 3 < 2 ^ 32"
  obtains h' s' where "insert_before dbg h s (first_of ys s) (Some x) = Some (h', s', Some x)"
    "stump_inv h' s' (xs @ x # ys)" "same_gaps s s'" "val_at h' = val_at h"
    "\<forall>a. a \<notin> owned s (xs @ x # ys) \<longrightarrow> h' a = h a"
proof -
  from inv obtain t bb e where t: "tree_inv h s t" "inorder t = bb # (xs @ ys) @ [e]"
    "s_before_begin s = Some bb" "s_end s = Some e" "s_begin s = first_of (xs @ ys) s"
    "\<forall>a\<in>set (xs @ ys). \<exists>v. val_at h a = Some (Some v)" "distinct (bb # (xs @ ys) @ [e])"
    "size t = length (xs @ ys) + 2" "set_tree t = owned s (xs @ ys)" "val_at h bb = Some None" "val_at h e = Some None"
    by (rule stump_invE)
  obtain i zs where i: "ys @ [e] = i # zs" "first_of ys s = Some i"
    using t(4) by (cases ys) auto
  from t(2) i(1) have io: "inorder t = (bb # xs) @ i # zs" by simp
  from x(1) obtain n v where n: "h x = Some n" "nd_value n = Some v" "nd_size n = 1" "nd_height n = 1"
    by (auto simp: fresh_node_def)
  let ?s = "\<lambda>q. s\<lparr>s_begin := if s_begin s = Some i then Some x else s_begin s, s_root := q\<rparr>"
  obtain h' q t' where h': "insert_before dbg h s (Some i) (Some x) = Some (h', ?s q, Some x)"
    "tree_inv h' (?s q) t'" "inorder t' = (bb # xs) @ x # i # zs" "touches (insert x (set_tree t)) h h'"
    by (rule insert_before_spec [OF t(1) io, of x n dbg]) (use x(2) t(8,9) n sz in auto)
  have b: "s_begin (?s q) = first_of (xs @ x # ys) (?s q)"
  proof (cases xs)
    case Nil
    then have "s_begin s = Some i" using t(5) i(2) by simp
    with Nil show ?thesis by simp
  next
    case (Cons a as)
    then have "a \<noteq> i" using t(7) i(1) by (cases ys) auto
    with Cons t(5) show ?thesis by simp
  qed
  have v: "val_at h' = val_at h" using h'(4) by (simp add: touches_def)
  have "stump_inv h' (?s q) (xs @ x # ys)"
    by (rule stump_invI [OF h'(2), of bb _ e]) (use h'(3) i(1) t(3,4,6,10,11) b n v in \<open>auto simp: val_at_def\<close>)
  with h'(1) i(2) v show ?thesis
    by (intro that [of h' "?s q"]) (use h'(4) in \<open>auto simp: same_gaps_def touches_def owned_Cons t(9)\<close>)
qed

lemma delete_and_get_next_stump:
  assumes inv: "stump_inv h s (xs @ a # ys)" and asrt: "dbg \<Longrightarrow> destroy \<or> \<not> needValue"
  obtains h' s' where
    "delete_and_get_next dbg h s (Some a) destroy needValue = Some (h', s', first_of ys s)"
    "stump_inv h' s' (xs @ ys)" "same_gaps s s'"
    "val_at h' = (if destroy then (val_at h)(a := None) else val_at h)"
    "\<forall>b. b \<notin> owned s (xs @ a # ys) \<longrightarrow> h' b = h b"
proof -
  from inv obtain t bb e where t: "tree_inv h s t" "inorder t = bb # (xs @ a # ys) @ [e]"
    "s_before_begin s = Some bb" "s_end s = Some e" "s_begin s = first_of (xs @ a # ys) s"
    "\<forall>a\<in>set (xs @ a # ys). \<exists>v. val_at h a = Some (Some v)" "distinct (bb # (xs @ a # ys) @ [e])"
    "set_tree t = owned s (xs @ a # ys)" "val_at h bb = Some None" "val_at h e = Some None" by (rule stump_invE)
  from t(2) have io: "inorder t = (bb # xs) @ a # (ys @ [e])" by simp
  have fw: "forward dbg h s (Some a) = Some (first_of ys s)"
    using forward_spec [OF t(1) io, of dbg] t(4) by (cases ys) simp_all
  have ne: "a \<noteq> bb" "a \<noteq> e" "first_of ys s \<noteq> Some a" "first_of ys s \<noteq> None"
    using t(4,7) by (cases ys; auto)+
  from t(5) obtain b where b: "s_begin s = Some b" by (cases xs) auto
  obtain k q t' where k: "delete_node dbg h s (Some a) destroy needValue = Some (k, s\<lparr>s_root := q\<rparr>)"
    "tree_inv k (s\<lparr>s_root := q\<rparr>) t'" "inorder t' = (bb # xs) @ ys @ [e]"
    "\<And>c. c \<notin> set_tree t \<Longrightarrow> k c = h c"
    "val_at k = (if destroy then (val_at h)(a := None) else val_at h)"
    using delete_node_spec [OF t(1) io t(3,4) b ne(1,2), of destroy needValue dbg] t(6)
    by (metis in_set_conv_decomp)
  let ?s = "s\<lparr>s_root := q, s_begin := if b = a then first_of ys s else Some b\<rparr>"
  have run: "delete_and_get_next dbg h s (Some a) destroy needValue = Some (k, ?s, first_of ys s)"
    using asrt stump_inv_root [OF inv] fw k(1) ne b t(3,4)
      gap_asserts [OF t(3,4) b ne(1,2), of dbg]
    by (auto simp: delete_and_get_next_def ASSERT_def)
  have "s_begin ?s = first_of (xs @ ys) ?s"
    using t(5,7) b ne(3) by (cases xs; cases ys) auto
  moreover have "\<forall>c\<in>set (xs @ ys). \<exists>v. val_at k c = Some (Some v)"
    using k(5) t(6,7) by auto
  ultimately have "stump_inv k ?s (xs @ ys)"
    using k(2,3,5) t(3,4,9,10) ne(1,2) by (intro stump_invI [of k ?s t' bb _ e]) (auto simp: tree_inv_def)
  with run show ?thesis
    by (intro that [of k ?s]) (use k(4,5) t(8) in \<open>auto simp: same_gaps_def\<close>)
qed

text \<open>In a build with assertions \<open>getNextAndRemoveNode\<close> never returns: it passes
  \<open>needDestroyNode = false\<close> and leaves \<open>needDestroyValue\<close> at \<open>true\<close>.\<close>

lemma getNextAndRemoveNode_debug: "getNextAndRemoveNode True h s p = None"
  by (simp add: getNextAndRemoveNode_def delete_and_get_next_def ASSERT_def)

lemma getNextAndRemoveNode_stump:
  assumes "stump_inv h s (xs @ a # ys)"
  obtains h' s' where "getNextAndRemoveNode False h s (Some a) = Some (h', s', first_of ys s)"
    "stump_inv h' s' (xs @ ys)" "same_gaps s s'" "val_at h' = val_at h"
    "\<forall>b. b \<notin> owned s (xs @ a # ys) \<longrightarrow> h' b = h b"
  using delete_and_get_next_stump [OF assms, of False False True] unfolding getNextAndRemoveNode_def
  by auto

subsection \<open>Clearing\<close>

lemma clear_loop_stump:
  assumes "stump_inv h s (xs @ ys)"
  shows "\<exists>h' s'. destruct_value_and_delete_node_since_begin_to_before_end_loop dbg h s (first_of ys s) =
      Some (h', s') \<and> stump_inv h' s' xs \<and> same_gaps s s' \<and>
      val_at h' = (\<lambda>a. if a \<in> set ys then None else val_at h a) \<and>
      (\<forall>b. b \<notin> owned s (xs @ ys) \<longrightarrow> h' b = h b)"
  using assms
proof (induction ys arbitrary: h s)
  case Nil
  then show ?case
    by (subst destruct_value_and_delete_node_since_begin_to_before_end_loop.simps) auto
next
  case (Cons a ys)
  obtain k s1 where k: "delete_and_get_next dbg h s (Some a) True True = Some (k, s1, first_of ys s)"
    "stump_inv k s1 (xs @ ys)" "same_gaps s s1" "val_at k = (val_at h)(a := None)"
    "\<forall>b. b \<notin> owned s (xs @ a # ys) \<longrightarrow> k b = h b"
    using delete_and_get_next_stump [OF Cons.prems, of dbg True True] by auto
  from Cons.IH [OF k(2)] first_of_gaps [OF k(3)] obtain h' s' where h':
    "destruct_value_and_delete_node_since_begin_to_before_end_loop dbg k s1 (first_of ys s) = Some (h', s')"
    "stump_inv h' s' xs" "same_gaps s1 s'" "val_at h' = (\<lambda>a. if a \<in> set ys then None else val_at k a)"
    "\<forall>b. b \<notin> owned s (xs @ ys) \<longrightarrow> h' b = k b" unfolding owned_gaps [OF k(3)] by auto
  have "Some a \<noteq> s_end s" using Cons.prems by (elim stump_invE) auto
  then have "destruct_value_and_delete_node_since_begin_to_before_end_loop dbg h s (Some a) = Some (h', s')"
    using k(1) h'(1)
    by (subst destruct_value_and_delete_node_since_begin_to_before_end_loop.simps) simp
  moreover have "val_at h' = (\<lambda>b. if b \<in> set (a # ys) then None else val_at h b)"
    using h'(4) k(4) by auto
  ultimately show ?case
    using h'(2) same_gaps_trans [OF k(3) h'(3)] h'(5) k(5) by (auto simp: owned_Cons)
qed

lemma clear_stump:
  assumes "stump_inv h s xs"
  obtains h' s' where "destruct_value_and_delete_node_since_begin_to_before_end dbg h s = Some (h', s')"
    "stump_inv h' s' []" "same_gaps s s'" "\<forall>a\<in>set xs. h' a = None"
    "\<forall>b. b \<notin> owned s xs \<longrightarrow> h' b = h b"
proof -
  have "s_begin s = first_of xs s" using assms by (elim stump_invE)
  with clear_loop_stump [of h s "[]" xs dbg] assms that show ?thesis
    unfolding destruct_value_and_delete_node_since_begin_to_before_end_def
    by (auto simp: val_at_def fun_eq_iff split: if_splits)
qed

subsection \<open>The first insertion\<close>

text \<open>An empty list has one of two trees. The code run on each of them, for any heap that holds it.\<close>

lemmas insertion_code = insert_before_def find_rightmost_def rightmost_loop.simps
  restore_height_size_and_balance_of_tree_def restore_loop.simps
  recalculate_height_and_size_with_data_from_two_childs_def check_and_restore_balance_of_level_def
  right_rotate_def left_rotate_def node_size_def node_height_def replace_subnode_if_equal_to_such_and_node_not_null_def

lemma first_insertion_end_on_top:
  assumes "h e = Some \<lparr>nd_value = None, nd_parent = None, nd_height = 2, nd_size = 2, nd_left = Some bb, nd_right = None\<rparr>"
    "h bb = Some \<lparr>nd_value = None, nd_parent = Some e, nd_height = 1, nd_size = 1, nd_left = None, nd_right = None\<rparr>"
    "h x = Some \<lparr>nd_value = v, nd_parent = p, nd_height = 1, nd_size = 1, nd_left = l, nd_right = r\<rparr>"
    "e \<noteq> bb" "e \<noteq> x" "bb \<noteq> x" "s_root s = Some e" "s_end s = Some e" "s_begin s = Some e"
  shows "\<exists>h' s'. insert_before dbg h s (Some e) (Some x) = Some (h', s', Some x) \<and>
     tree_inv h' s' (Node Leaf bb (Node (Node Leaf x Leaf) e Leaf))"
  using assms assms(4-6) [symmetric] by (simp add: insertion_code tree_inv_def annot.simps(2) marks_def Let_def)

lemma first_insertion_end_below:
  assumes "h e = Some \<lparr>nd_value = None, nd_parent = Some bb, nd_height = 1, nd_size = 1, nd_left = None, nd_right = None\<rparr>"
    "h bb = Some \<lparr>nd_value = None, nd_parent = None, nd_height = 2, nd_size = 2, nd_left = None, nd_right = Some e\<rparr>"
    "h x = Some \<lparr>nd_value = v, nd_parent = p, nd_height = 1, nd_size = 1, nd_left = l, nd_right = r\<rparr>"
    "e \<noteq> bb" "e \<noteq> x" "bb \<noteq> x" "s_root s = Some bb" "s_end s = Some e" "s_begin s = Some e"
  shows "\<exists>h' s'. insert_before dbg h s (Some e) (Some x) = Some (h', s', Some x) \<and>
     tree_inv h' s' (Node (Node Leaf bb (Node Leaf x Leaf)) e Leaf)"
  using assms assms(4-6) [symmetric] by (simp add: insertion_code tree_inv_def annot.simps(2) marks_def Let_def)

lemma inorder_two:
  assumes "inorder t = [a, b]"
  shows "t = Node (Node Leaf a Leaf) b Leaf \<or> t = Node Leaf a (Node Leaf b Leaf)"
proof (cases t)
  case (Node l c r)
  with assms consider "inorder l = []" "c = a" "inorder r = [b]" | "inorder l = [a]" "c = b" "inorder r = []"
    by (auto simp: append_eq_Cons_conv)
  moreover have leaf: "u = Leaf" if "inorder u = []" for u using that by (cases u) auto
  moreover have "u = Node Leaf d Leaf" if "inorder u = [d]" for u d
    using that leaf by (cases u) (auto simp: append_eq_Cons_conv)
  ultimately show ?thesis using Node by metis
qed (use assms in simp)

theorem first_insertion:
  assumes inv: "stump_inv h s []" and x: "fresh_node h x" "x \<notin> owned s []"
  shows "\<exists>h' s' l a r. insert_before dbg h s (s_end s) (Some x) = Some (h', s', Some x) \<and>
    tree_inv h' s' (Node l a r) \<and> (height r = 2 \<and> height l = 0 \<or> height l = 2 \<and> height r = 0)"
proof -
  from inv obtain t bb e where t: "tree_inv h s t" "inorder t = [bb, e]" "s_end s = Some e" "s_begin s = Some e"
    "bb \<noteq> e" "set_tree t = owned s []" "val_at h bb = Some None" "val_at h e = Some None"
    by (elim stump_invE) auto
  have ne: "e \<noteq> bb" "e \<noteq> x" "bb \<noteq> x" using t(2,5,6) x(2) set_inorder [of t] by auto
  obtain nx where nx: "h x = Some nx" "nd_size nx = 1" "nd_height nx = 1" using x(1) by (auto simp: fresh_node_def)
  have hx: "h x = Some \<lparr>nd_value = nd_value nx, nd_parent = nd_parent nx, nd_height = 1, nd_size = 1,
    nd_left = nd_left nx, nd_right = nd_right nx\<rparr>" using nx by (cases nx) simp
  from inorder_two [OF t(2)] show ?thesis
  proof
    assume sh: "t = Node (Node Leaf bb Leaf) e Leaf"
    have "h e = Some \<lparr>nd_value = None, nd_parent = None, nd_height = 2, nd_size = 2, nd_left = Some bb, nd_right = None\<rparr>"
      "h bb = Some \<lparr>nd_value = None, nd_parent = Some e, nd_height = 1, nd_size = 1, nd_left = None, nd_right = None\<rparr>"
      "s_root s = Some e"
      using t(1,7,8) unfolding sh by (auto simp: tree_inv_def annot.simps(2) marks_def val_at_def split: option.splits)
    from first_insertion_end_on_top [OF this(1,2) hx ne this(3) t(3,4), of dbg] show ?thesis using t(3)
      by (elim exE conjE) (auto intro!: exI)
  next
    assume sh: "t = Node Leaf bb (Node Leaf e Leaf)"
    have "h e = Some \<lparr>nd_value = None, nd_parent = Some bb, nd_height = 1, nd_size = 1, nd_left = None, nd_right = None\<rparr>"
      "h bb = Some \<lparr>nd_value = None, nd_parent = None, nd_height = 2, nd_size = 2, nd_left = None, nd_right = Some e\<rparr>"
      "s_root s = Some bb"
      using t(1,7,8) unfolding sh by (auto simp: tree_inv_def annot.simps(2) marks_def val_at_def split: option.splits)
    from first_insertion_end_below [OF this(1,2) hx ne this(3) t(3,4), of dbg] show ?thesis using t(3)
      by (elim exE conjE) (auto intro!: exI)
  qed
qed

end
