(* ===== verification/Avl_Vine.thy ===== *)
theory Avl_Vine
  imports Avl_Stump
begin

section \<open>Resetting the tree and taking all its nodes out\<close>

text \<open>
  \<open>resetInvariant\<close> builds the empty sequence out of the two gap nodes.
  \<open>treeToVineWithPreserveInvariantsOnlyForMember_right\<close> turns the tree into a list linked by
  \<open>_right\<close> with rotations that leave sizes and heights alone, and \<open>moveNodes\<close> walks that
  list, resets every element node and rebuilds the empty tree.
  \<open>boost::intrusive::list\<close> links the removed nodes through their \<open>_left\<close> and \<open>_right\<close>
  fields; the model keeps the list of addresses and leaves the two fields reset, and every
  later use of such a node (\<open>insert_before\<close>) overwrites both.
\<close>

subsection \<open>The code\<close>

partial_function (option) vine_loop ::
  "bool \<Rightarrow> 'a heap \<Rightarrow> ptr \<Rightarrow> ('a heap \<times> ptr) option" where
  "vine_loop dbg h current = do {
     n \<leftarrow> deref h current;
     if nd_left n \<noteq> None then do {
       (h, current) \<leftarrow> right_rotate dbg h current False;
       r \<leftarrow> get_right h current;
       vine_loop dbg h r }
     else if nd_parent n = None then Some (h, current)
     else vine_loop dbg h (nd_parent n) }"

definition treeToVineWithPreserveInvariantsOnlyForMember_right ::
  "bool \<Rightarrow> 'a heap \<Rightarrow> avl_tree_stump \<Rightarrow> ('a heap \<times> ptr) option" where
  "treeToVineWithPreserveInvariantsOnlyForMember_right dbg h s = do {
     current \<leftarrow> find_rightmost dbg h (s_root s);
     ASSERT dbg (current \<noteq> None);
     vine_loop dbg h current }"

partial_function (option) moveNodes_loop ::
  "bool \<Rightarrow> 'a heap \<Rightarrow> ptr \<Rightarrow> ptr \<Rightarrow> addr list \<Rightarrow> ('a heap \<times> addr list) option" where
  "moveNodes_loop dbg h current end_node result =
     (if current = end_node then Some (h, result) else do {
        nxt \<leftarrow> get_right h current;
        ASSERT dbg (nxt \<noteq> None);
        h \<leftarrow> upd h current node_resetInvariant;
        moveNodes_loop dbg h nxt end_node (result @ [the current]) })"

definition moveNodes ::
  "bool \<Rightarrow> 'a heap \<Rightarrow> avl_tree_stump \<Rightarrow> ('a heap \<times> avl_tree_stump \<times> addr list) option" where
  "moveNodes dbg h s = do {
     (h, current) \<leftarrow> treeToVineWithPreserveInvariantsOnlyForMember_right dbg h s;
     end_node \<leftarrow> getEnd dbg s;
     ASSERT dbg (current \<noteq> None);
     bb \<leftarrow> getBeforeBegin dbg s;
     ASSERT dbg (current = bb);
     er \<leftarrow> get_right h end_node;
     ASSERT dbg (er = None);
     current \<leftarrow> get_right h current;
     ASSERT dbg (current \<noteq> None);
     (h, result) \<leftarrow> moveNodes_loop dbg h current end_node [];
     (h, s) \<leftarrow> stump_resetInvariant dbg h s;
     Some (h, s, result) }"

text \<open>The range version removes node by node.\<close>

partial_function (option) moveNodes_range ::
  "bool \<Rightarrow> 'a heap \<Rightarrow> avl_tree_stump \<Rightarrow> ptr \<Rightarrow> ptr \<Rightarrow> addr list \<Rightarrow>
   ('a heap \<times> avl_tree_stump \<times> addr list) option" where
  "moveNodes_range dbg h s current end_node result =
     (if current = end_node then Some (h, s, result) else do {
        (h, s, nxt) \<leftarrow> getNextAndRemoveNode dbg h s current;
        h \<leftarrow> upd h current node_resetInvariant;
        moveNodes_range dbg h s nxt end_node (result @ [the current]) })"

subsection \<open>The empty tree\<close>

lemma val_at_reset: "h a = Some n \<Longrightarrow> val_at (h(a \<mapsto> node_resetInvariant n)) = val_at h"
  by (auto simp: val_at_def node_resetInvariant_def)

lemma resetInvariant_stump:
  assumes gap: "s_before_begin s = Some bb" "s_end s = Some e" "bb \<noteq> e"
    and n: "h bb = Some nb" "h e = Some ne" "nd_value nb = None" "nd_value ne = None"
  obtains h' s' where "stump_resetInvariant dbg h s = Some (h', s')" "stump_inv h' s' []"
    "same_gaps s s'" "val_at h' = val_at h" "\<forall>a. a \<notin> {bb, e} \<longrightarrow> h' a = h a"
proof -
  let ?h = "h(bb \<mapsto> node_resetInvariant nb, e \<mapsto> node_resetInvariant ne)"
  let ?s = "s\<lparr>s_root := Some e, s_begin := if s_begin s = None then Some e else s_begin s\<rparr>"
  have i1: "insert_before dbg ?h (s\<lparr>s_root := None\<rparr>) None (Some e) = Some (?h, ?s, Some e)"
    by (cases ne; cases "s_begin s")
      (simp_all add: insert_before_def node_resetInvariant_def Let_def)
  have t: "tree_inv ?h ?s (Node Leaf e Leaf)"
    by (simp add: tree_inv_def annot.simps(2) marks_def node_resetInvariant_def)
  let ?s' = "\<lambda>q. ?s\<lparr>s_begin := if s_begin ?s = Some e then Some bb else s_begin ?s, s_root := q\<rparr>"
  obtain h' q t' where h': "insert_before dbg ?h ?s (Some e) (Some bb) = Some (h', ?s' q, Some bb)"
    "tree_inv h' (?s' q) t'" "inorder t' = [] @ bb # e # []"
    "touches (insert bb (set_tree (Node Leaf e Leaf))) ?h h'"
    by (rule insert_before_spec [OF t, of "[]" e "[]" bb "node_resetInvariant nb" dbg])
      (use gap in \<open>auto simp: node_resetInvariant_def\<close>)
  let ?r = "(?s' q)\<lparr>s_begin := Some e\<rparr>"
  have run: "stump_resetInvariant dbg h s = Some (h', ?r)"
    using gap n i1 h'(1) by (simp add: stump_resetInvariant_def Let_def)
  have "val_at ?h = val_at h"
    using n gap(3) by (auto simp: val_at_def node_resetInvariant_def)
  then have v: "val_at h' = val_at h" using h'(4) by (simp add: touches_def)
  have "stump_inv h' ?r []"
    using h'(2,3) gap n v by (intro stump_invI [of _ _ t' bb _ e]) (auto simp: tree_inv_def val_at_def [of h])
  with run v show ?thesis
    by (intro that [of h' ?r]) (use h'(4) in \<open>auto simp: same_gaps_def touches_def\<close>)
qed

subsection \<open>The vine\<close>

fun vine :: "addr tree \<Rightarrow> bool" where
  "vine Leaf \<longleftrightarrow> True"
| "vine (Node l a r) \<longleftrightarrow> l = Leaf \<and> vine r"

text \<open>Paths that only turn right, and the size of what hangs to their left.\<close>

fun right_path :: "frame list \<Rightarrow> bool" where
  "right_path [] \<longleftrightarrow> True"
| "right_path (LeftOf a r # c) \<longleftrightarrow> False"
| "right_path (RightOf l a # c) \<longleftrightarrow> right_path c"

fun left_weight :: "frame list \<Rightarrow> nat" where
  "left_weight [] = 0"
| "left_weight (LeftOf a r # c) = left_weight c"
| "left_weight (RightOf l a # c) = size l + left_weight c"

lemma right_path_post: "right_path c \<Longrightarrow> post c = []"
  by (induction c rule: right_path.induct) auto

lemma vine_loop_spec:
  assumes "hole h s (Some a) par c (Node l a r)" "right_path c" "vine r"
  shows "\<exists>h' b v. vine_loop dbg h (Some a) = Some (h', Some b) \<and> tree_at h' (Some b) None v \<and> vine v \<and>
    inorder v = pre c @ inorder (Node l a r) \<and> touches (set_tree (fill c (Node l a r))) h h'"
  using assms
proof (induction "2 * (size l + left_weight c) + length c" arbitrary: h s par c l a r rule: less_induct)
  case less
  from less.prems(1) obtain n where n: "h a = Some n" "nd_parent n = par" "tree_at h (nd_left n) (Some a) l"
    by (rule hole_deref)
  show ?case
  proof (cases l)
    case Leaf
    with n have nl: "nd_left n = None" by simp
    show ?thesis
    proof (cases c)
      case Nil
      with less.prems have "par = None" "tree_at h (Some a) None (Node l a r)" by (auto simp: hole_def)
      with n nl Leaf Nil less.prems(3) show ?thesis
        by (intro exI [of _ h] exI [of _ a] exI [of _ "Node l a r"], subst vine_loop.simps) simp
    next
      case (Cons f d)
      with less.prems(2) obtain l' b where f: "f = RightOf l' b" by (cases f) auto
      from less.prems(1)[unfolded Cons] obtain par' where up: "par = Some (frame_addr f)"
        "hole h s par par' d (plug f (Node l a r))" by (rule hole_up)
      have "vine_loop dbg h (Some a) = vine_loop dbg h (Some b)"
        using n nl up(1) f by (subst vine_loop.simps) simp
      with less.hyps [of l' d h s b par' "Node l a r"] up f Cons Leaf less.prems(2,3) show ?thesis
        by simp
    qed
  next
    case (Node A x B)
    with n obtain ln where nl: "nd_left n = Some x" by simp
    have T: "tree_at h (Some a) par (Node (Node A x B) a r)" "ctx_at h (Some a) par c"
      "distinct (inorder (fill c (Node (Node A x B) a r)))"
      using less.prems(1) Node by (simp_all add: hole_def)
    obtain k where k: "\<And>need. right_rotate dbg h (Some a) need =
        do { k \<leftarrow> recalculate_after_rotation dbg need k a x; Some (k, Some x) }"
      "tree_at k (Some x) par (Node A x (Node B a r))" "ctx_at k (Some x) par c"
      "val_at k = val_at h" "marks k = marks h"
      "\<And>b. b \<notin> set_tree (fill c (Node (Node A x B) a r)) \<Longrightarrow> k b = h b"
      using right_rotate_links [OF T, where dbg = dbg] by blast
    from k(2) obtain xn where xn: "k x = Some xn" "nd_right xn = Some a" "tree_at k (Some a) (Some x) (Node B a r)"
      by (auto split: option.splits)
    let ?s = "s\<lparr>s_root := ctx_top (RightOf A x # c) (Some a)\<rparr>"
    have "hole k ?s (Some a) (Some x) (RightOf A x # c) (Node B a r)"
      using k(2,3) xn T(3) by (auto simp: hole_def)
    from less.hyps [OF _ this] less.prems(2,3) Node obtain h' b v where h':
      "vine_loop dbg k (Some a) = Some (h', Some b)" "tree_at h' (Some b) None v" "vine v"
      "inorder v = pre (RightOf A x # c) @ inorder (Node B a r)"
      "touches (set_tree (fill (RightOf A x # c) (Node B a r))) k h'"
      by auto
    have X: "set_tree (fill (RightOf A x # c) (Node B a r)) = set_tree (fill c (Node l a r))"
      using Node by (auto simp: set_tree_fill)
    have "touches (set_tree (fill c (Node l a r))) h k"
      using k(4,6) Node by (simp add: touches_def)
    with h'(5) have "touches (set_tree (fill c (Node l a r))) h h'"
      unfolding X by (blast intro: touches_trans)
    moreover have "vine_loop dbg h (Some a) = vine_loop dbg k (Some a)"
      using n nl k(1)[of False] xn by (subst vine_loop.simps) (simp add: recalculate_after_rotation_def)
    ultimately show ?thesis using h' Node by auto
  qed
qed

lemma right_path_append: "right_path c \<Longrightarrow> right_path (c @ [RightOf l a])"
  by (induction c rule: right_path.induct) auto

lemma rightmost_right_path:
  assumes "t \<noteq> Leaf"
  obtains c l a where "t = fill c (Node l a Leaf)" "right_path c" "ptr_last (inorder t) = Some a"
  using assms
proof (induction t arbitrary: thesis)
  case (Node l b r)
  show ?case
  proof (cases "r = Leaf")
    case True
    with Node.prems(1)[of "[]" l b] show ?thesis by simp
  next
    case False
    with Node.IH(2) obtain c l' a where c: "r = fill c (Node l' a Leaf)" "right_path c"
      "ptr_last (inorder r) = Some a" by blast
    with False Node.prems(1)[of "c @ [RightOf l b]" l' a] right_path_append show ?thesis
      by (simp add: fill_append ptr_last_def)
  qed
qed simp

lemma treeToVine_spec:
  assumes inv: "tree_inv h s t" and ne: "t \<noteq> Leaf"
  obtains h' b v where
    "treeToVineWithPreserveInvariantsOnlyForMember_right dbg h s = Some (h', Some b)"
    "tree_at h' (Some b) None v" "vine v" "inorder v = inorder t" "touches (set_tree t) h h'"
proof -
  from ne obtain c l a where t: "t = fill c (Node l a Leaf)" "right_path c" "ptr_last (inorder t) = Some a"
    by (rule rightmost_right_path)
  from inv ne obtain b where b: "s_root s = Some b" "tree_at h (Some b) None t"
    by (cases "s_root s") (auto simp: tree_inv_def)
  have f: "find_rightmost dbg h (s_root s) = Some (Some a)"
    using rightmost_loop_spec [OF b(2)] b(1) t(3) by (simp add: find_rightmost_def)
  from inv [unfolded t(1)] obtain par where "hole h s (Some a) par c (Node l a Leaf)"
    by (rule tree_inv_hole)
  from vine_loop_spec [OF this t(2), of dbg] f t(1) right_path_post [OF t(2)] that show ?thesis
    by (auto simp: treeToVineWithPreserveInvariantsOnlyForMember_right_def)
qed

subsection \<open>Taking the nodes out\<close>

definition reset_all :: "'a heap \<Rightarrow> addr list \<Rightarrow> 'a heap" where
  "reset_all h xs = (\<lambda>a. if a \<in> set xs then map_option node_resetInvariant (h a) else h a)"

lemma val_at_reset_all [simp]: "val_at (reset_all h xs) = val_at h"
  by (auto simp: val_at_def reset_all_def node_resetInvariant_def option.map_comp comp_def)

lemma fresh_reset:
  "val_at h a = Some (Some v) \<Longrightarrow> a \<in> set xs \<Longrightarrow> fresh_node (reset_all h xs) a"
  by (auto simp: fresh_node_def reset_all_def val_at_def node_resetInvariant_def)

lemma moveNodes_loop_spec:
  assumes "tree_at h p par v" "vine v" "inorder v = xs @ [e]" "distinct (xs @ [e])"
  shows "moveNodes_loop dbg h p (Some e) acc = Some (reset_all h xs, acc @ xs)"
  using assms
proof (induction xs arbitrary: h p par v acc)
  case Nil
  then have "p = Some e" by (cases v) auto
  then show ?case by (subst moveNodes_loop.simps) (simp add: reset_all_def)
next
  case (Cons a xs)
  then obtain r where v: "v = Node Leaf a r" "vine r" "inorder r = xs @ [e]" by (cases v) auto
  with Cons.prems obtain n where n: "p = Some a" "h a = Some n" "tree_at h (nd_right n) (Some a) r"
    by (auto split: option.splits)
  let ?h = "h(a \<mapsto> node_resetInvariant n)"
  have "a \<notin> set_tree r"
    using Cons.prems(4) arg_cong [OF v(3), of set] by auto
  then have "tree_at ?h (nd_right n) (Some a) r"
    by (intro tree_at_eq_heap [OF n(3)]) auto
  with v(2,3) Cons.prems(4)
  have IH: "moveNodes_loop dbg ?h (nd_right n) (Some e) (acc @ [a]) = Some (reset_all ?h xs, acc @ a # xs)"
    by (subst Cons.IH [of ?h "nd_right n" "Some a" r]) simp_all
  have "nd_right n \<noteq> None" using n(3) v(3) by (cases "nd_right n") auto
  moreover have "reset_all ?h xs = reset_all h (a # xs)"
    using n(2) Cons.prems(4) by (auto simp: reset_all_def)
  moreover have "a \<noteq> e" using Cons.prems(4) by auto
  ultimately show ?case using n IH by (subst moveNodes_loop.simps) simp
qed

lemma vine_last_right:
  "tree_at h p par v \<Longrightarrow> vine v \<Longrightarrow> inorder v = xs @ [e] \<Longrightarrow> \<exists>n. h e = Some n \<and> nd_right n = None"
proof (induction xs arbitrary: p par v)
  case Nil
  then show ?case by (cases v) (auto split: option.splits)
next
  case (Cons a xs)
  then show ?case by (cases v) (auto split: option.splits)
qed

theorem moveNodes_stump:
  assumes inv: "stump_inv h s xs"
  obtains h' s' where "moveNodes dbg h s = Some (h', s', xs)" "stump_inv h' s' []" "same_gaps s s'"
    "val_at h' = val_at h" "\<forall>a\<in>set xs. fresh_node h' a" "\<forall>a. a \<notin> owned s xs \<longrightarrow> h' a = h a"
proof -
  from inv obtain t bb e where t: "tree_inv h s t" "inorder t = bb # xs @ [e]"
    "s_before_begin s = Some bb" "s_end s = Some e" "\<forall>a\<in>set xs. \<exists>v. val_at h a = Some (Some v)"
    "distinct (bb # xs @ [e])" "set_tree t = owned s xs" "val_at h bb = Some None" "val_at h e = Some None" by (rule stump_invE)
  have "t \<noteq> Leaf" using t(2) by auto
  with t(1) obtain k b v where k:
    "treeToVineWithPreserveInvariantsOnlyForMember_right dbg h s = Some (k, Some b)"
    "tree_at k (Some b) None v" "vine v" "inorder v = inorder t" "touches (set_tree t) h k"
    by (rule treeToVine_spec)
  from k(2-4) t(2) obtain r where v: "v = Node Leaf bb r" "vine r" "inorder r = xs @ [e]" "b = bb"
    by (cases v) auto
  with k(2) obtain n where n: "k bb = Some n" "tree_at k (nd_right n) (Some bb) r"
    by (auto split: option.splits)
  have nr: "nd_right n \<noteq> None" using n(2) v(3) by (cases "nd_right n") auto
  obtain en where en: "k e = Some en" "nd_right en = None"
    using vine_last_right [OF n(2) v(2,3)] by blast
  let ?k = "reset_all k xs"
  have loop: "moveNodes_loop dbg k (nd_right n) (Some e) [] = Some (?k, xs)"
    using moveNodes_loop_spec [OF n(2) v(2,3)] t(6) by simp
  have vk: "val_at k = val_at h" using k(5) by (simp add: touches_def)
  have none: "nd_value n = None" "nd_value en = None"
    using t(8,9) n(1) en(1) unfolding vk [symmetric] by (simp_all add: val_at_def)
  have gaps: "?k bb = Some n" "?k e = Some en" "bb \<noteq> e"
    using n(1) en(1) t(6) by (auto simp: reset_all_def)
  obtain h' s' where h': "stump_resetInvariant dbg ?k s = Some (h', s')" "stump_inv h' s' []"
    "same_gaps s s'" "val_at h' = val_at ?k" "\<forall>a. a \<notin> {bb, e} \<longrightarrow> h' a = ?k a"
    using resetInvariant_stump [OF t(3,4) gaps(3,1,2) none, of dbg] by blast
  have "moveNodes dbg h s = Some (h', s', xs)"
    using k(1) v(4) t(3,4) n(1) en nr loop h'(1)
    by (simp add: moveNodes_def getEnd_def getBeforeBegin_def)
  moreover note vk
  moreover have "fresh_node h' a" if a: "a \<in> set xs" for a
  proof -
    have "h' a = ?k a" using h'(5) a t(6) by auto
    moreover have "fresh_node ?k a" using t(5) a vk by (metis fresh_reset)
    ultimately show ?thesis by (simp add: fresh_node_def)
  qed
  moreover have "h' a = h a" if "a \<notin> owned s xs" for a
    using that h'(5) k(5) t(3,4,7) by (auto simp: touches_def owned_def reset_all_def)
  ultimately show ?thesis using that h' by simp
qed

lemma moveNodes_range_stump:
  assumes "stump_inv h s (xs @ ys @ zs)"
  shows "\<exists>h' s'. moveNodes_range False h s (first_of (ys @ zs) s) (first_of zs s) acc =
      Some (h', s', acc @ ys) \<and> stump_inv h' s' (xs @ zs) \<and> same_gaps s s' \<and> val_at h' = val_at h \<and>
      (\<forall>a\<in>set ys. fresh_node h' a) \<and> (\<forall>b. b \<notin> owned s (xs @ ys @ zs) \<longrightarrow> h' b = h b)"
  using assms
proof (induction ys arbitrary: h s acc)
  case Nil
  then show ?case by (subst moveNodes_range.simps) auto
next
  case (Cons a ys)
  have inv: "stump_inv h s (xs @ a # (ys @ zs))" using Cons.prems by simp
  obtain k s1 where k: "getNextAndRemoveNode False h s (Some a) = Some (k, s1, first_of (ys @ zs) s)"
    "stump_inv k s1 (xs @ ys @ zs)" "same_gaps s s1" "val_at k = val_at h"
    "\<forall>b. b \<notin> owned s (xs @ a # ys @ zs) \<longrightarrow> k b = h b"
    using getNextAndRemoveNode_stump [OF inv] by blast
  have va: "\<exists>v. val_at h a = Some (Some v)" and na: "a \<notin> owned s (xs @ ys @ zs)"
    using inv by (elim stump_invE, force simp: owned_def)+
  then obtain n v where n: "k a = Some n" "nd_value n = Some v"
    using fun_cong [OF k(4), of a] by (auto simp: val_at_def)
  let ?k = "k(a \<mapsto> node_resetInvariant n)"
  have inv': "stump_inv ?k s1 (xs @ ys @ zs)"
    by (rule stump_inv_off [OF k(2)]) (use na owned_gaps [OF k(3)] in auto)
  obtain h' s' where h':
    "moveNodes_range False ?k s1 (first_of (ys @ zs) s) (first_of zs s) (acc @ [a]) = Some (h', s', acc @ a # ys)"
    "stump_inv h' s' (xs @ zs)" "same_gaps s1 s'" "val_at h' = val_at ?k" "\<forall>a\<in>set ys. fresh_node h' a"
    "\<forall>b. b \<notin> owned s (xs @ ys @ zs) \<longrightarrow> h' b = ?k b"
    using Cons.IH [of ?k s1 "acc @ [a]", OF inv', unfolded first_of_gaps [OF k(3)] owned_gaps [OF k(3)]]
    by (simp only: append_assoc append_Cons append_Nil) blast
  have ne: "Some a \<noteq> first_of zs s" using inv by (elim stump_invE, cases zs) auto
  then have "moveNodes_range False h s (Some a) (first_of zs s) acc = Some (h', s', acc @ a # ys)"
    using k(1) n(1) h'(1) by (subst moveNodes_range.simps) simp
  moreover have "fresh_node h' a" using h'(6) na n by (simp add: fresh_node_def node_resetInvariant_def)
  moreover have "val_at h' = val_at h" using h'(4) k(4) val_at_reset [of k a n, OF n(1)] by simp
  ultimately show ?case
    using h' k(5) same_gaps_trans [OF k(3)] by (auto simp: owned_Cons)
qed

text \<open>With assertions enabled a range that is not empty never comes back.\<close>

lemma moveNodes_range_debug:
  "current \<noteq> end_node \<Longrightarrow> moveNodes_range True h s current end_node acc = None"
  by (subst moveNodes_range.simps) (simp add: getNextAndRemoveNode_debug)

end
