(* ===== verification/Ral_Iterator.thy ===== *)
theory Ral_Iterator
  imports Avl_Vine
begin

section \<open>Iterators of random_access_list\<close>

text \<open>
  A \<open>random_access_list\<close> owns one heap-allocated \<open>avl_tree_stump\<close> (its
  \<open>_implementation\<close>); the model keeps the stump together with the address it was
  allocated at, because iterators remember that address and \<open>swap\<close> exchanges the owned
  objects. \<open>TRandomAccessIterator\<close> is a node pointer and a collection pointer; its
  operations read the collection they belong to.
\<close>

record random_access_list =
  ral_at :: addr
  ral_impl :: avl_tree_stump

record TRandomAccessIterator =
  it_current :: ptr
  it_collection :: ptr

definition iterator_at :: "ptr \<Rightarrow> random_access_list \<Rightarrow> TRandomAccessIterator" where
  "iterator_at node collection = \<lparr>it_current = node, it_collection = Some (ral_at collection)\<rparr>"

definition iterator_default :: TRandomAccessIterator where
  "iterator_default = \<lparr>it_current = None, it_collection = None\<rparr>"

definition checkIteratorBelongsToCoollection ::
  "bool \<Rightarrow> TRandomAccessIterator \<Rightarrow> random_access_list \<Rightarrow> unit option" where
  "checkIteratorBelongsToCoollection dbg it l = ASSERT dbg (Some (ral_at l) = it_collection it)"

definition iterator_dereference ::
  "bool \<Rightarrow> 'a heap \<Rightarrow> random_access_list \<Rightarrow> TRandomAccessIterator \<Rightarrow> 'a option" where
  "iterator_dereference dbg h l it = do {
     ASSERT dbg (it_current it \<noteq> None);
     ASSERT dbg (it_collection it \<noteq> None);
     bb \<leftarrow> getBeforeBegin dbg (ral_impl l);
     ASSERT dbg (it_current it \<noteq> bb);
     e \<leftarrow> getEnd dbg (ral_impl l);
     ASSERT dbg (it_current it \<noteq> e);
     n \<leftarrow> deref h (it_current it);
     nd_value n }"

definition iterator_equal ::
  "bool \<Rightarrow> TRandomAccessIterator \<Rightarrow> TRandomAccessIterator \<Rightarrow> bool option" where
  "iterator_equal dbg it that_it = do {
     ASSERT dbg (it_current it \<noteq> it_current that_it \<or> it_collection it = it_collection that_it);
     Some (it_current it = it_current that_it) }"

definition iterator_increment ::
  "bool \<Rightarrow> 'a heap \<Rightarrow> random_access_list \<Rightarrow> TRandomAccessIterator \<Rightarrow> TRandomAccessIterator option" where
  "iterator_increment dbg h l it = do {
     ASSERT dbg (it_current it \<noteq> None);
     ASSERT dbg (it_collection it \<noteq> None);
     e \<leftarrow> getEnd dbg (ral_impl l);
     ASSERT dbg (it_current it \<noteq> e);
     q \<leftarrow> forward dbg h (ral_impl l) (it_current it);
     ASSERT dbg (q \<noteq> None);
     if q = None then do { e \<leftarrow> getEnd dbg (ral_impl l); Some (it\<lparr>it_current := e\<rparr>) }
     else Some (it\<lparr>it_current := q\<rparr>) }"

definition iterator_decrement ::
  "bool \<Rightarrow> 'a heap \<Rightarrow> random_access_list \<Rightarrow> TRandomAccessIterator \<Rightarrow> TRandomAccessIterator option" where
  "iterator_decrement dbg h l it = do {
     ASSERT dbg (it_current it \<noteq> None);
     ASSERT dbg (it_collection it \<noteq> None);
     b \<leftarrow> getBegin dbg (ral_impl l);
     ASSERT dbg (it_current it \<noteq> b);
     q \<leftarrow> backward dbg h (ral_impl l) (it_current it);
     ASSERT dbg (q \<noteq> None);
     if q = None then do { e \<leftarrow> getEnd dbg (ral_impl l); Some (it\<lparr>it_current := e\<rparr>) }
     else Some (it\<lparr>it_current := q\<rparr>) }"

definition iterator_advance ::
  "bool \<Rightarrow> 'a heap \<Rightarrow> random_access_list \<Rightarrow> TRandomAccessIterator \<Rightarrow> size_t \<Rightarrow> TRandomAccessIterator option" where
  "iterator_advance dbg h l it iteratorIncrement = do {
     ASSERT dbg (it_current it \<noteq> None);
     ASSERT dbg (it_collection it \<noteq> None);
     e \<leftarrow> getEnd dbg (ral_impl l);
     ASSERT dbg ((it_current it \<noteq> e \<and> sint iteratorIncrement > 0) \<or> sint iteratorIncrement \<le> 0);
     b \<leftarrow> getBegin dbg (ral_impl l);
     ASSERT dbg ((it_current it \<noteq> b \<and> sint iteratorIncrement < 0) \<or> sint iteratorIncrement \<ge> 0);
     q \<leftarrow> go_to dbg h (ral_impl l) (it_current it) iteratorIncrement;
     ASSERT dbg (q \<noteq> None);
     if q = None then Some (it\<lparr>it_current := e\<rparr>) else Some (it\<lparr>it_current := q\<rparr>) }"

definition iterator_distance_to ::
  "bool \<Rightarrow> 'a heap \<Rightarrow> random_access_list \<Rightarrow> TRandomAccessIterator \<Rightarrow> TRandomAccessIterator \<Rightarrow> size_t option" where
  "iterator_distance_to dbg h l it that_it = do {
     ASSERT dbg (it_current it \<noteq> None);
     ASSERT dbg (it_collection it \<noteq> None);
     ASSERT dbg (it_current that_it \<noteq> None);
     ASSERT dbg (it_collection that_it \<noteq> None);
     ASSERT dbg (it_collection it = it_collection that_it);
     distance dbg h (ral_impl l) (it_current it) (it_current that_it) }"

text \<open>\<open>begin()\<close> and \<open>end()\<close> (and their const versions).\<close>

definition ral_begin :: "bool \<Rightarrow> random_access_list \<Rightarrow> TRandomAccessIterator option" where
  "ral_begin dbg l = do { b \<leftarrow> getBegin dbg (ral_impl l); Some (iterator_at b l) }"

definition ral_end :: "bool \<Rightarrow> random_access_list \<Rightarrow> TRandomAccessIterator option" where
  "ral_end dbg l = do { e \<leftarrow> getEnd dbg (ral_impl l); Some (iterator_at e l) }"

subsection \<open>Positions\<close>

text \<open>The iterator in front of the suffix \<open>ys\<close> of a list with elements \<open>xs @ ys\<close>.\<close>

definition position :: "addr list \<Rightarrow> random_access_list \<Rightarrow> TRandomAccessIterator" where
  "position ys l = iterator_at (first_of ys (ral_impl l)) l"

abbreviation ral_inv :: "'a heap \<Rightarrow> random_access_list \<Rightarrow> addr list \<Rightarrow> bool" where
  "ral_inv h l xs \<equiv> stump_inv h (ral_impl l) xs"

lemma position_sel [simp]:
  "it_current (position ys l) = first_of ys (ral_impl l)"
  "it_collection (position ys l) = Some (ral_at l)"
  by (simp_all add: position_def iterator_at_def)

lemma position_update:
  "(position ys l)\<lparr>it_current := first_of zs (ral_impl l)\<rparr> = position zs l"
  by (simp add: position_def iterator_at_def)

lemma stump_gets:
  assumes "stump_inv h s xs"
  shows "getBeforeBegin dbg s = Some (s_before_begin s)" "getBegin dbg s = Some (first_of xs s)"
    "getEnd dbg s = Some (s_end s)" "s_end s \<noteq> None" "first_of xs s \<noteq> None" "s_begin s = first_of xs s"
  using assms
  by (elim stump_invE, cases xs, auto simp: getBeforeBegin_def getBegin_def getEnd_def)+

lemma ral_begin_spec: "ral_inv h l xs \<Longrightarrow> ral_begin dbg l = Some (position xs l)"
  by (simp add: ral_begin_def stump_gets position_def)

lemma ral_end_spec: "ral_inv h l xs \<Longrightarrow> ral_end dbg l = Some (position [] l)"
  by (simp add: ral_end_def stump_gets position_def)

lemma stump_neighbours:
  assumes "stump_inv h s (xs @ a # ys)"
  shows "forward dbg h s (Some a) = Some (first_of ys s)" "Some a \<noteq> s_end s" "Some a \<noteq> s_before_begin s"
    "backward dbg h s (first_of ys s) = Some (Some a)" "first_of ys s \<noteq> first_of (xs @ a # ys) s"
    "first_of ys s \<noteq> None"
proof -
  from assms obtain t bb e where t: "tree_inv h s t" "inorder t = bb # (xs @ a # ys) @ [e]"
    "s_before_begin s = Some bb" "s_end s = Some e" "distinct (bb # (xs @ a # ys) @ [e])"
    by (rule stump_invE)
  obtain i zs where i: "ys @ [e] = i # zs" "first_of ys s = Some i" using t(4) by (cases ys) auto
  from t(2) i(1) have io: "inorder t = (bb # xs) @ a # i # zs" "inorder t = (bb # xs @ [a]) @ i # zs"
    by simp_all
  show "forward dbg h s (Some a) = Some (first_of ys s)"
    using forward_spec [OF t(1) io(1)] i(2) by simp
  show "backward dbg h s (first_of ys s) = Some (Some a)"
    using backward_spec [OF t(1) io(2)] i(2) by (simp add: ptr_last_def)
  show "Some a \<noteq> s_end s" "Some a \<noteq> s_before_begin s" "first_of ys s \<noteq> None"
    using t(3,4,5) i(2) by auto
  show "first_of ys s \<noteq> first_of (xs @ a # ys) s"
    using t(4,5) by (cases xs; cases ys) auto
qed

lemma increment_spec:
  "ral_inv h l (xs @ a # ys) \<Longrightarrow> iterator_increment dbg h l (position (a # ys) l) = Some (position ys l)"
  using stump_neighbours [of h "ral_impl l" xs a ys]
  by (auto simp: iterator_increment_def stump_gets position_update)

lemma decrement_spec:
  "ral_inv h l (xs @ a # ys) \<Longrightarrow> iterator_decrement dbg h l (position ys l) = Some (position (a # ys) l)"
  using stump_neighbours [of h "ral_impl l" xs a ys] position_update [of ys l "a # ys"]
  by (auto simp: iterator_decrement_def stump_gets)

lemma dereference_spec:
  assumes "ral_inv h l (xs @ a # ys)"
  shows "iterator_dereference dbg h l (position (a # ys) l) = Some (vals h (xs @ a # ys) ! length xs)"
proof -
  from assms obtain v where v: "val_at h a = Some (Some v)" by (elim stump_invE) auto
  then obtain n where "h a = Some n" "nd_value n = Some v" by (auto simp: val_at_def)
  with v stump_neighbours [OF assms] stump_gets [OF assms] show ?thesis
    by (simp add: iterator_dereference_def nth_append)
qed

end
