(* ===== verification/Ral_Container.thy ===== *)
theory Ral_Container
  imports Ral_Iterator
begin

section \<open>The operations of random_access_list\<close>

text \<open>
  The container operations as the header composes them out of the tree object. The three
  things the code takes from its surroundings are collected in \<open>env\<close>: whether assertions are
  compiled in, whether an exception is already propagating when the operation is called (what
  \<open>std::uncaught_exception()\<close> then reports), and the node allocator, which returns an
  address or throws \<open>std::bad_alloc\<close>. Constructing an element may throw, so an element
  argument is the outcome of its constructor. An operation that may throw returns the heap,
  the list and a sum; the outer \<open>option\<close> is undefined behaviour, a failed assertion or a loop
  that never ends.
\<close>

subsection \<open>Exceptions and allocation\<close>

record 'a env =
  e_dbg :: bool
  e_unwinding :: bool
  e_alloc :: "'a heap \<Rightarrow> addr option"

type_synonym ('a, 'r) outcome = "('a heap \<times> random_access_list \<times> (cpp_exception + 'r)) option"

text \<open>What the code relies on: a returned address is not in use.\<close>

definition alloc_ok :: "'a env \<Rightarrow> bool" where
  "alloc_ok env \<longleftrightarrow> (\<forall>h a. e_alloc env h = Some a \<longrightarrow> h a = None)"

text \<open>\<open>makeNode\<close>: the scope exit gives the storage back when \<open>uncaught_exception()\<close> holds.\<close>

definition makeNode :: "'a env \<Rightarrow> 'a heap \<Rightarrow> 'a made \<Rightarrow> 'a heap \<times> (cpp_exception + addr)" where
  "makeNode env h v = (case e_alloc env h of
       None \<Rightarrow> (h, Inl Bad_alloc)
     | Some a \<Rightarrow> (case v of
           Inl ex \<Rightarrow> (h(a := None), Inl ex)
         | Inr x \<Rightarrow> ((if e_unwinding env then h(a := None) else h(a \<mapsto> TAvlTreeNode_construct x)), Inr a)))"

definition makeEmptyNode :: "'a env \<Rightarrow> 'a heap \<Rightarrow> 'a heap \<times> (cpp_exception + addr)" where
  "makeEmptyNode env h = (case e_alloc env h of
       None \<Rightarrow> (h, Inl Bad_alloc)
     | Some a \<Rightarrow> ((if e_unwinding env then h(a := None) else h(a \<mapsto> TAvlTreeNode_new)), Inr a))"

text \<open>\<open>deleteEmptyNode\<close>: destroying an object that is not alive is undefined behaviour.\<close>

definition deleteEmptyNode :: "'a heap \<Rightarrow> ptr \<Rightarrow> 'a heap option" where
  "deleteEmptyNode h node = (if node = None then Some h else destroy_node h node False)"

text \<open>The constructor of \<open>TCacheAndAllocator\<close> followed by the one of \<open>avl_tree_stump\<close>.\<close>

definition make_stump :: "'a env \<Rightarrow> 'a heap \<Rightarrow> ('a heap \<times> (cpp_exception + avl_tree_stump)) option" where
  "make_stump env h = (case makeEmptyNode env h of
       (h, Inl ex) \<Rightarrow> Some (h, Inl ex)
     | (h, Inr bb) \<Rightarrow> (case makeEmptyNode env h of
           (h, Inl ex) \<Rightarrow> do { h \<leftarrow> deleteEmptyNode h (Some bb); Some (h, Inl ex) }
         | (h, Inr e) \<Rightarrow> do {
             h \<leftarrow> (if e_unwinding env then deleteEmptyNode h (Some bb) else Some h);
             (h, s) \<leftarrow> stump_resetInvariant (e_dbg env) h
               \<lparr>s_root = None, s_before_begin = Some bb, s_begin = None, s_end = Some e\<rparr>;
             Some (h, Inr s) }))"

text \<open>\<open>makeImplementation\<close> first allocates a block for the tree object: \<open>place\<close> is what the allocator
  answers, nothing when it throws, and then nothing has happened. It hands the block to the owning pointer
  before the object is constructed, so an exception out of the constructor makes the pointer's deleter destroy an
  object that does not exist.\<close>

definition implementation_at :: "'a env \<Rightarrow> addr \<Rightarrow> 'a heap \<Rightarrow> ('a heap \<times> random_access_list) option" where
  "implementation_at env place h = do {
     (h, r) \<leftarrow> make_stump env h;
     (case r of Inl ex \<Rightarrow> None | Inr s \<Rightarrow> Some (h, \<lparr>ral_at = place, ral_impl = s\<rparr>)) }"

definition makeImplementation :: "'a env \<Rightarrow> addr option \<Rightarrow> 'a heap \<Rightarrow> ('a heap \<times> (cpp_exception + random_access_list)) option" where
  "makeImplementation env place h = (case place of
       None \<Rightarrow> Some (h, Inl Bad_alloc)
     | Some p \<Rightarrow> do { (h, l) \<leftarrow> implementation_at env p h; Some (h, Inr l) })"

text \<open>The destructor: elements, then the gap nodes.\<close>

definition destroy_stump :: "bool \<Rightarrow> 'a heap \<Rightarrow> avl_tree_stump \<Rightarrow> 'a heap option" where
  "destroy_stump dbg h s = do {
     (h, s) \<leftarrow> destruct_value_and_delete_node_since_begin_to_before_end dbg h s;
     h \<leftarrow> deleteEmptyNode h (s_before_begin s);
     deleteEmptyNode h (s_end s) }"

subsection \<open>Inserting nodes\<close>

definition insertNode :: "bool \<Rightarrow> 'a heap \<Rightarrow> random_access_list \<Rightarrow> TRandomAccessIterator \<Rightarrow> addr \<Rightarrow>
    ('a heap \<times> random_access_list \<times> TRandomAccessIterator) option" where
  "insertNode dbg h l it node = do {
     checkIteratorBelongsToCoollection dbg it l;
     (h, s, q) \<leftarrow> insert_before dbg h (ral_impl l) (it_current it) (Some node);
     let l = l\<lparr>ral_impl := s\<rparr>;
     Some (h, l, iterator_at q l) }"

fun insert_nodes_loop :: "bool \<Rightarrow> 'a heap \<Rightarrow> random_access_list \<Rightarrow> addr list \<Rightarrow> TRandomAccessIterator \<Rightarrow>
    TRandomAccessIterator \<Rightarrow> bool \<Rightarrow> ('a heap \<times> random_access_list \<times> TRandomAccessIterator) option" where
  "insert_nodes_loop dbg h l [] pos firstInserted firstInsertedAlready = Some (h, l, firstInserted)"
| "insert_nodes_loop dbg h l (node # nodes) pos firstInserted firstInsertedAlready = do {
     (h, l, lastInserted) \<leftarrow> insertNode dbg h l pos node;
     insert_nodes_loop dbg h l nodes pos
       (if firstInsertedAlready then firstInserted else lastInserted) True }"

definition insertNodesFromListAndReturnFirstInserted :: "bool \<Rightarrow> 'a heap \<Rightarrow> random_access_list \<Rightarrow>
    addr list \<Rightarrow> TRandomAccessIterator \<Rightarrow> ('a heap \<times> random_access_list \<times> TRandomAccessIterator) option" where
  "insertNodesFromListAndReturnFirstInserted dbg h l nodes pos = do {
     checkIteratorBelongsToCoollection dbg pos l;
     insert_nodes_loop dbg h l nodes pos pos False }"

definition emplace :: "'a env \<Rightarrow> 'a heap \<Rightarrow> random_access_list \<Rightarrow> TRandomAccessIterator \<Rightarrow> 'a made \<Rightarrow>
    ('a, TRandomAccessIterator) outcome" where
  "emplace env h l it v = do {
     checkIteratorBelongsToCoollection (e_dbg env) it l;
     (case makeNode env h v of
        (h, Inl ex) \<Rightarrow> Some (h, l, Inl ex)
      | (h, Inr node) \<Rightarrow> do {
          (h, l, i) \<leftarrow> insertNode (e_dbg env) h l it node;
          Some (h, l, Inr i) }) }"

definition emplace_back :: "'a env \<Rightarrow> 'a heap \<Rightarrow> random_access_list \<Rightarrow> 'a made \<Rightarrow>
    ('a, TRandomAccessIterator) outcome" where
  "emplace_back env h l v = do { it \<leftarrow> ral_end (e_dbg env) l; emplace env h l it v }"

definition emplace_front :: "'a env \<Rightarrow> 'a heap \<Rightarrow> random_access_list \<Rightarrow> 'a made \<Rightarrow>
    ('a, TRandomAccessIterator) outcome" where
  "emplace_front env h l v = do { it \<leftarrow> ral_begin (e_dbg env) l; emplace env h l it v }"

text \<open>The nodes of a multiple insertion are all built first; an exception disposes of them.\<close>

fun make_nodes :: "'a env \<Rightarrow> 'a heap \<Rightarrow> 'a made list \<Rightarrow> addr list \<Rightarrow> 'a heap \<times> addr list \<times> cpp_exception option" where
  "make_nodes env h [] nodes = (h, nodes, None)"
| "make_nodes env h (v # vs) nodes = (case makeNode env h v of
       (h, Inl ex) \<Rightarrow> (h, nodes, Some ex)
     | (h, Inr a) \<Rightarrow> make_nodes env h vs (nodes @ [a]))"

fun clear_and_dispose :: "'a heap \<Rightarrow> addr list \<Rightarrow> 'a heap option" where
  "clear_and_dispose h [] = Some h"
| "clear_and_dispose h (a # as) = do { h \<leftarrow> destroy_node h (Some a) True; clear_and_dispose h as }"

definition insert_range :: "'a env \<Rightarrow> 'a heap \<Rightarrow> random_access_list \<Rightarrow> TRandomAccessIterator \<Rightarrow> 'a made list \<Rightarrow>
    ('a, TRandomAccessIterator) outcome" where
  "insert_range env h l pos vs = do {
     checkIteratorBelongsToCoollection (e_dbg env) pos l;
     (case make_nodes env h vs [] of (h, nodes, ex) \<Rightarrow> do {
        (h, nodes) \<leftarrow> (if ex \<noteq> None \<or> e_unwinding env
          then do { h \<leftarrow> clear_and_dispose h nodes; Some (h, []) } else Some (h, nodes));
        (case ex of Some ex \<Rightarrow> Some (h, l, Inl ex)
         | None \<Rightarrow> do {
             (h, l, i) \<leftarrow> insertNodesFromListAndReturnFirstInserted (e_dbg env) h l nodes pos;
             Some (h, l, Inr i) }) }) }"

text \<open>\<open>insert(pos, count, value)\<close>; \<open>copies i\<close> is the outcome of the copy number \<open>i\<close>.\<close>

definition insert_count :: "'a env \<Rightarrow> 'a heap \<Rightarrow> random_access_list \<Rightarrow> TRandomAccessIterator \<Rightarrow> size_t \<Rightarrow>
    (nat \<Rightarrow> 'a made) \<Rightarrow> ('a, TRandomAccessIterator) outcome" where
  "insert_count env h l pos count copies = insert_range env h l pos (map copies [0..<unat count])"

subsection \<open>Reading\<close>

definition ral_size :: "bool \<Rightarrow> 'a heap \<Rightarrow> random_access_list \<Rightarrow> size_t option" where
  "ral_size dbg h l = do {
     avl_tree_size \<leftarrow> stump_size h (ral_impl l);
     ASSERT dbg (avl_tree_size \<ge> 2);
     Some (avl_tree_size - 2) }"

definition ral_empty :: "bool \<Rightarrow> 'a heap \<Rightarrow> random_access_list \<Rightarrow> bool option" where
  "ral_empty dbg h l = do { n \<leftarrow> ral_size dbg h l; Some (n = 0) }"

definition ral_front :: "bool \<Rightarrow> 'a heap \<Rightarrow> random_access_list \<Rightarrow> 'a option" where
  "ral_front dbg h l = do {
     (if dbg then do { b \<leftarrow> ral_empty dbg h l; ASSERT dbg (\<not> b) } else Some ());
     it \<leftarrow> ral_begin dbg l;
     iterator_dereference dbg h l it }"

definition ral_back :: "bool \<Rightarrow> 'a heap \<Rightarrow> random_access_list \<Rightarrow> 'a option" where
  "ral_back dbg h l = do {
     (if dbg then do { b \<leftarrow> ral_empty dbg h l; ASSERT dbg (\<not> b) } else Some ());
     it \<leftarrow> ral_end dbg l;
     it \<leftarrow> iterator_decrement dbg h l it;
     iterator_dereference dbg h l it }"

definition operator_index :: "bool \<Rightarrow> 'a heap \<Rightarrow> random_access_list \<Rightarrow> size_t \<Rightarrow> 'a option" where
  "operator_index dbg h l pos = do {
     (if dbg then do { n \<leftarrow> ral_size dbg h l; ASSERT dbg (pos < n) } else Some ());
     result \<leftarrow> getByIndex dbg h (ral_impl l) (pos + 1);
     ASSERT dbg (result \<noteq> None);
     (if dbg then do { b \<leftarrow> isNotEmptyNode dbg (ral_impl l) result; ASSERT dbg b } else Some ());
     n \<leftarrow> deref h result;
     nd_value n }"

text \<open>\<open>throw ::std::out_of_range()\<close> lacks the argument of the constructor and would not compile when instantiated; it is read as raising
  that exception.\<close>

definition at_checked :: "bool \<Rightarrow> 'a heap \<Rightarrow> random_access_list \<Rightarrow> size_t \<Rightarrow> (cpp_exception + 'a) option" where
  "at_checked dbg h l pos = do {
     n \<leftarrow> ral_size dbg h l;
     if pos < n then Some (Inl Out_of_range)
     else do { v \<leftarrow> operator_index dbg h l pos; Some (Inr v) } }"

subsection \<open>Erasing\<close>

definition erase :: "bool \<Rightarrow> 'a heap \<Rightarrow> random_access_list \<Rightarrow> TRandomAccessIterator \<Rightarrow>
    ('a heap \<times> random_access_list \<times> TRandomAccessIterator) option" where
  "erase dbg h l pos = do {
     checkIteratorBelongsToCoollection dbg pos l;
     e \<leftarrow> ral_end dbg l;
     ASSERT dbg (it_current pos \<noteq> it_current e);
     bb \<leftarrow> getBeforeBegin dbg (ral_impl l);
     ASSERT dbg (it_current pos \<noteq> bb);
     (h, s, nxt) \<leftarrow> delete_and_get_next dbg h (ral_impl l) (it_current pos) True True;
     let l = l\<lparr>ral_impl := s\<rparr>;
     Some (h, l, iterator_at nxt l) }"

partial_function (option) erase_range :: "bool \<Rightarrow> 'a heap \<Rightarrow> random_access_list \<Rightarrow>
    TRandomAccessIterator \<Rightarrow> TRandomAccessIterator \<Rightarrow>
    ('a heap \<times> random_access_list \<times> TRandomAccessIterator) option" where
  "erase_range dbg h l first last_it = do {
     eq \<leftarrow> iterator_equal dbg first last_it;
     if eq then Some (h, l, iterator_at (it_current first) l) else do {
       (h, l, first) \<leftarrow> erase dbg h l first;
       erase_range dbg h l first last_it } }"

definition pop_back :: "bool \<Rightarrow> 'a heap \<Rightarrow> random_access_list \<Rightarrow> ('a heap \<times> random_access_list) option" where
  "pop_back dbg h l = do {
     (if dbg then do { b \<leftarrow> ral_empty dbg h l; ASSERT dbg (\<not> b) } else Some ());
     it \<leftarrow> ral_end dbg l;
     it \<leftarrow> iterator_decrement dbg h l it;
     (h, l, _) \<leftarrow> erase dbg h l it;
     Some (h, l) }"

definition pop_front :: "bool \<Rightarrow> 'a heap \<Rightarrow> random_access_list \<Rightarrow> ('a heap \<times> random_access_list) option" where
  "pop_front dbg h l = do {
     (if dbg then do { b \<leftarrow> ral_empty dbg h l; ASSERT dbg (\<not> b) } else Some ());
     it \<leftarrow> ral_begin dbg l;
     (h, l, _) \<leftarrow> erase dbg h l it;
     Some (h, l) }"

definition ral_clear :: "bool \<Rightarrow> 'a heap \<Rightarrow> random_access_list \<Rightarrow> ('a heap \<times> random_access_list) option" where
  "ral_clear dbg h l = do {
     (h, s) \<leftarrow> destruct_value_and_delete_node_since_begin_to_before_end dbg h (ral_impl l);
     Some (h, l\<lparr>ral_impl := s\<rparr>) }"

fun pop_back_times :: "bool \<Rightarrow> 'a heap \<Rightarrow> random_access_list \<Rightarrow> nat \<Rightarrow> ('a heap \<times> random_access_list) option" where
  "pop_back_times dbg h l 0 = Some (h, l)"
| "pop_back_times dbg h l (Suc goingToDelete) = do {
     (h, l) \<leftarrow> pop_back dbg h l;
     pop_back_times dbg h l goingToDelete }"

text \<open>Both \<open>resize\<close> overloads: the new elements go in front of \<open>cbegin()\<close>. The one without a value makes
  \<open>value_type()\<close> first (\<open>dflt\<close> is the outcome), also when the count does not change, and copies it.\<close>

definition resize :: "'a env \<Rightarrow> 'a heap \<Rightarrow> random_access_list \<Rightarrow> size_t \<Rightarrow> (nat \<Rightarrow> 'a made) \<Rightarrow> ('a, unit) outcome" where
  "resize env h l count copies = do {
     container_size \<leftarrow> ral_size (e_dbg env) h l;
     if count \<ge> container_size then do {
       it \<leftarrow> ral_begin (e_dbg env) l;
       (h, l, r) \<leftarrow> insert_count env h l it (count - container_size) copies;
       Some (h, l, map_sum id (\<lambda>_. ()) r) }
     else do {
       (h, l) \<leftarrow> pop_back_times (e_dbg env) h l (unat (container_size - count));
       Some (h, l, Inr ()) } }"

definition resize_default :: "'a env \<Rightarrow> 'a heap \<Rightarrow> random_access_list \<Rightarrow> size_t \<Rightarrow> 'a made \<Rightarrow> ('a \<Rightarrow> nat \<Rightarrow> 'a made) \<Rightarrow>
    ('a, unit) outcome" where
  "resize_default env h l count dflt copy = do {
     container_size \<leftarrow> ral_size (e_dbg env) h l;
     if count \<ge> container_size then do {
       it \<leftarrow> ral_begin (e_dbg env) l;
       (case dflt of
          Inl ex \<Rightarrow> Some (h, l, Inl ex)
        | Inr v \<Rightarrow> do {
            (h, l, r) \<leftarrow> insert_count env h l it (count - container_size) (copy v);
            Some (h, l, map_sum id (\<lambda>_. ()) r) }) }
     else do {
       (h, l) \<leftarrow> pop_back_times (e_dbg env) h l (unat (container_size - count));
       Some (h, l, Inr ()) } }"

text \<open>The loop of \<open>remove_if\<close> has no step for an element the predicate rejects.\<close>

partial_function (option) remove_if_loop :: "bool \<Rightarrow> 'a heap \<Rightarrow> random_access_list \<Rightarrow> ('a \<Rightarrow> bool) \<Rightarrow>
    TRandomAccessIterator \<Rightarrow> TRandomAccessIterator \<Rightarrow> ('a heap \<times> random_access_list) option" where
  "remove_if_loop dbg h l p current end_it = do {
     eq \<leftarrow> iterator_equal dbg current end_it;
     if eq then Some (h, l) else do {
       v \<leftarrow> iterator_dereference dbg h l current;
       if p v then do {
         (h, l, current) \<leftarrow> erase dbg h l current;
         remove_if_loop dbg h l p current end_it }
       else remove_if_loop dbg h l p current end_it } }"

definition remove_if :: "bool \<Rightarrow> 'a heap \<Rightarrow> random_access_list \<Rightarrow> ('a \<Rightarrow> bool) \<Rightarrow> ('a heap \<times> random_access_list) option" where
  "remove_if dbg h l p = do {
     b \<leftarrow> ral_begin dbg l;
     e \<leftarrow> ral_end dbg l;
     remove_if_loop dbg h l p b e }"

definition remove_value :: "bool \<Rightarrow> 'a heap \<Rightarrow> random_access_list \<Rightarrow> 'a \<Rightarrow> ('a heap \<times> random_access_list) option" where
  "remove_value dbg h l v = remove_if dbg h l (\<lambda>x. x = v)"

partial_function (option) unique_loop :: "bool \<Rightarrow> 'a heap \<Rightarrow> random_access_list \<Rightarrow> ('a \<Rightarrow> 'a \<Rightarrow> bool) \<Rightarrow>
    TRandomAccessIterator \<Rightarrow> TRandomAccessIterator \<Rightarrow> TRandomAccessIterator \<Rightarrow>
    ('a heap \<times> random_access_list) option" where
  "unique_loop dbg h l p current checked last_it = do {
     eq \<leftarrow> iterator_equal dbg checked last_it;
     (if dbg then do { b \<leftarrow> iterator_equal dbg current last_it; ASSERT dbg (\<not> b) } else Some ());
     (if dbg then do { b \<leftarrow> iterator_equal dbg current checked; ASSERT dbg (\<not> b) } else Some ());
     if eq then Some (h, l) else do {
       x \<leftarrow> iterator_dereference dbg h l checked;
       y \<leftarrow> iterator_dereference dbg h l current;
       if p x y then do {
         (h, l, checked) \<leftarrow> erase dbg h l checked;
         unique_loop dbg h l p current checked last_it }
       else do {
         checked \<leftarrow> iterator_increment dbg h l checked;
         current \<leftarrow> iterator_increment dbg h l current;
         unique_loop dbg h l p current checked last_it } } }"

definition unique :: "bool \<Rightarrow> 'a heap \<Rightarrow> random_access_list \<Rightarrow> ('a \<Rightarrow> 'a \<Rightarrow> bool) \<Rightarrow> ('a heap \<times> random_access_list) option" where
  "unique dbg h l p = do {
     current \<leftarrow> ral_begin dbg l;
     checked \<leftarrow> ral_begin dbg l;
     last_it \<leftarrow> ral_end dbg l;
     eq \<leftarrow> iterator_equal dbg checked last_it;
     if eq then Some (h, l) else do {
       checked \<leftarrow> iterator_increment dbg h l checked;
       unique_loop dbg h l p current checked last_it } }"

subsection \<open>Moving nodes between lists\<close>

definition assert_empty :: "bool \<Rightarrow> 'a heap \<Rightarrow> random_access_list \<Rightarrow> unit option" where
  "assert_empty dbg h l = (if dbg then do { b \<leftarrow> ral_empty dbg h l; ASSERT dbg b } else Some ())"

text \<open>The tail \<open>reverse\<close> and \<open>sort\<close> share: take all nodes out, rearrange them, put them back.\<close>

definition rearrange :: "bool \<Rightarrow> 'a heap \<Rightarrow> random_access_list \<Rightarrow> ('a heap \<Rightarrow> addr list \<Rightarrow> addr list) \<Rightarrow>
    ('a heap \<times> random_access_list) option" where
  "rearrange dbg h l f = do {
     (h, s, nodes) \<leftarrow> moveNodes dbg h (ral_impl l);
     let l = l\<lparr>ral_impl := s\<rparr>;
     assert_empty dbg h l;
     it \<leftarrow> ral_begin dbg l;
     (h, l, _) \<leftarrow> insertNodesFromListAndReturnFirstInserted dbg h l (f h nodes) it;
     Some (h, l) }"

definition reverse_list :: "bool \<Rightarrow> 'a heap \<Rightarrow> random_access_list \<Rightarrow> ('a heap \<times> random_access_list) option" where
  "reverse_list dbg h l = rearrange dbg h l (\<lambda>h nodes. rev nodes)"

text \<open>\<open>list_sort\<close> is \<open>boost::intrusive::list::sort\<close> with the comparator on node values.\<close>

definition sort_list :: "(('a heap \<Rightarrow> addr list \<Rightarrow> addr list)) \<Rightarrow> bool \<Rightarrow> 'a heap \<Rightarrow> random_access_list \<Rightarrow>
    ('a heap \<times> random_access_list) option" where
  "sort_list list_sort dbg h l = rearrange dbg h l list_sort"

fun merge_nodes :: "('b \<Rightarrow> 'b \<Rightarrow> bool) \<Rightarrow> 'b list \<Rightarrow> 'b list \<Rightarrow> 'b list" where
  "merge_nodes less_comp [] ys = ys"
| "merge_nodes less_comp (x # xs) [] = x # xs"
| "merge_nodes less_comp (x # xs) (y # ys) =
     (if less_comp y x then y # merge_nodes less_comp (x # xs) ys else x # merge_nodes less_comp xs (y # ys))"

definition node_less :: "('a \<Rightarrow> 'a \<Rightarrow> bool) \<Rightarrow> 'a heap \<Rightarrow> addr \<Rightarrow> addr \<Rightarrow> bool" where
  "node_less less_comp h a b = less_comp (the (the (val_at h a))) (the (the (val_at h b)))"

text \<open>Two lists with equal allocators share the heap. \<open>merge_private\<close> on the list itself returns at once.\<close>

definition merge_private :: "bool \<Rightarrow> 'a heap \<Rightarrow> random_access_list \<Rightarrow> random_access_list \<Rightarrow> ('a \<Rightarrow> 'a \<Rightarrow> bool) \<Rightarrow>
    ('a heap \<times> random_access_list \<times> random_access_list) option" where
  "merge_private dbg h l other less_comp = (if ral_at l = ral_at other then Some (h, l, other) else do {
     (h, s, nodes0) \<leftarrow> moveNodes dbg h (ral_impl l);
     (h, s', nodes1) \<leftarrow> moveNodes dbg h (ral_impl other);
     let l = l\<lparr>ral_impl := s\<rparr>;
     let other = other\<lparr>ral_impl := s'\<rparr>;
     let nodesMerged = merge_nodes (node_less less_comp h) nodes0 nodes1;
     assert_empty dbg h l;
     assert_empty dbg h other;
     it \<leftarrow> ral_begin dbg l;
     (h, l, _) \<leftarrow> insertNodesFromListAndReturnFirstInserted dbg h l nodesMerged it;
     Some (h, l, other) })"

definition splice_all :: "bool \<Rightarrow> 'a heap \<Rightarrow> random_access_list \<Rightarrow> TRandomAccessIterator \<Rightarrow> random_access_list \<Rightarrow>
    ('a heap \<times> random_access_list \<times> random_access_list) option" where
  "splice_all dbg h l pos other = do {
     ASSERT dbg (ral_at l \<noteq> ral_at other);
     checkIteratorBelongsToCoollection dbg pos l;
     (h, s, nodes) \<leftarrow> moveNodes dbg h (ral_impl other);
     let other = other\<lparr>ral_impl := s\<rparr>;
     assert_empty dbg h other;
     (h, l, _) \<leftarrow> insertNodesFromListAndReturnFirstInserted dbg h l nodes pos;
     Some (h, l, other) }"

definition splice_range :: "bool \<Rightarrow> 'a heap \<Rightarrow> random_access_list \<Rightarrow> TRandomAccessIterator \<Rightarrow> random_access_list \<Rightarrow>
    TRandomAccessIterator \<Rightarrow> TRandomAccessIterator \<Rightarrow>
    ('a heap \<times> random_access_list \<times> random_access_list) option" where
  "splice_range dbg h l pos other first last_it = do {
     ASSERT dbg (ral_at l \<noteq> ral_at other);
     checkIteratorBelongsToCoollection dbg pos l;
     checkIteratorBelongsToCoollection dbg first other;
     checkIteratorBelongsToCoollection dbg last_it other;
     (h, s, nodes) \<leftarrow> moveNodes_range dbg h (ral_impl other) (it_current first) (it_current last_it) [];
     let other = other\<lparr>ral_impl := s\<rparr>;
     (h, l, _) \<leftarrow> insertNodesFromListAndReturnFirstInserted dbg h l nodes pos;
     Some (h, l, other) }"

definition splice_one :: "bool \<Rightarrow> 'a heap \<Rightarrow> random_access_list \<Rightarrow> TRandomAccessIterator \<Rightarrow> random_access_list \<Rightarrow>
    TRandomAccessIterator \<Rightarrow> ('a heap \<times> random_access_list \<times> random_access_list) option" where
  "splice_one dbg h l pos other it = do {
     ASSERT dbg (ral_at l \<noteq> ral_at other);
     checkIteratorBelongsToCoollection dbg pos l;
     checkIteratorBelongsToCoollection dbg it other;
     e \<leftarrow> ral_end dbg other;
     splice_range dbg h l pos other it e }"

definition ral_swap :: "random_access_list \<times> random_access_list \<Rightarrow> random_access_list \<times> random_access_list" where
  "ral_swap p = (case p of (l, other) \<Rightarrow> (other, l))"

text \<open>The \<open>assign\<close> overloads build a temporary list (at \<open>place\<close>) and swap; the temporary's
  destructor then frees the old elements, or, after an exception, the new ones.\<close>

definition assign :: "'a env \<Rightarrow> addr option \<Rightarrow> 'a heap \<Rightarrow> random_access_list \<Rightarrow> 'a made list \<Rightarrow> ('a, unit) outcome" where
  "assign env place h l vs = do {
     (h, made) \<leftarrow> makeImplementation env place h;
     (case made of
        Inl ex \<Rightarrow> Some (h, l, Inl ex)
      | Inr tmp \<Rightarrow> do {
          it \<leftarrow> ral_end (e_dbg env) tmp;
          (h, tmp, r) \<leftarrow> insert_range env h tmp it vs;
          (case r of
             Inl ex \<Rightarrow> do {
               h \<leftarrow> destroy_stump (e_dbg env) h (ral_impl tmp);
               Some (h, l, Inl ex) }
           | Inr _ \<Rightarrow> (case ral_swap (tmp, l) of (tmp, l) \<Rightarrow> do {
               h \<leftarrow> destroy_stump (e_dbg env) h (ral_impl tmp);
               Some (h, l, Inr ()) })) }) }"

end
