(* ===== verification/Ral_Correct.thy ===== *)
theory Ral_Correct
  imports Ral_Container
begin

section \<open>Correctness of random_access_list\<close>

text \<open>
  Every operation of the container read on the list of element addresses (and through
  \<open>vals\<close> on the list of values): insertion with its exception guarantee, erasing,
  rearranging, merging, splicing and indexed access.
\<close>

subsection \<open>Insertion\<close>

definition same_object :: "random_access_list \<Rightarrow> random_access_list \<Rightarrow> bool" where
  "same_object l l' \<longleftrightarrow> ral_at l' = ral_at l \<and> same_gaps (ral_impl l) (ral_impl l')"

lemma same_object_refl [simp]: "same_object l l"
  by (simp add: same_object_def)

lemma same_object_trans: "same_object l l' \<Longrightarrow> same_object l' l'' \<Longrightarrow> same_object l l''"
  by (auto simp: same_object_def intro: same_gaps_trans)

lemma position_same: "same_object l l' \<Longrightarrow> position ys l' = position ys l"
  by (simp add: same_object_def position_def iterator_at_def first_of_gaps)

lemma owned_same: "same_object l l' \<Longrightarrow> owned (ral_impl l') xs = owned (ral_impl l) xs"
  by (simp add: same_object_def owned_gaps)

text \<open>What an operation does to the rest of the heap: it may write the nodes the list owns before or after, takes new
  nodes from free addresses, and frees those it no longer owns.\<close>

definition reshapes :: "'a heap \<Rightarrow> addr set \<Rightarrow> 'a heap \<Rightarrow> addr set \<Rightarrow> bool" where
  "reshapes h A h' B \<longleftrightarrow> (\<forall>a. a \<notin> A \<union> B \<longrightarrow> h' a = h a) \<and> (\<forall>a\<in>B - A. h a = None) \<and> (\<forall>a\<in>A - B. h' a = None)"

definition evolves :: "'a heap \<Rightarrow> random_access_list \<Rightarrow> addr list \<Rightarrow> 'a heap \<Rightarrow> random_access_list \<Rightarrow> addr list \<Rightarrow> bool" where
  "evolves h l xs h' l' ys \<longleftrightarrow> same_object l l' \<and> reshapes h (owned (ral_impl l) xs) h' (owned (ral_impl l') ys)"

lemma reshapes_trans: "reshapes h A k B \<Longrightarrow> reshapes k B h' C \<Longrightarrow> reshapes h A h' C"
  unfolding reshapes_def by (metis DiffI Diff_iff UnCI UnE)

lemma evolves_refl [simp]: "evolves h l xs h l xs"
  by (simp add: evolves_def reshapes_def)

lemma evolves_same: "evolves h l xs h' l' ys \<Longrightarrow> same_object l l'"
  by (simp add: evolves_def)

lemma evolves_trans: "evolves h l xs k m ys \<Longrightarrow> evolves k m ys h' l' zs \<Longrightarrow> evolves h l xs h' l' zs"
  unfolding evolves_def using same_object_trans reshapes_trans by blast

lemma position_evolves: "evolves h l xs h' l' ys \<Longrightarrow> position zs l' = position zs l"
  by (simp add: evolves_def position_same)

lemma owned_set: "set xs = set ys \<Longrightarrow> owned s xs = owned s ys"
  by (simp add: owned_def)

text \<open>An operation that only adds nodes, or only rearranges.\<close>

lemma evolves_grow:
  assumes "same_object l l'" "\<forall>a. a \<notin> owned (ral_impl l) ys \<longrightarrow> h' a = h a" "set xs \<subseteq> set ys" "\<forall>a\<in>set ys - set xs. h a = None"
  shows "evolves h l xs h' l' ys"
  using assms owned_same [OF assms(1), of ys] unfolding evolves_def reshapes_def by (auto simp: owned_def)

lemma check_position [simp]: "checkIteratorBelongsToCoollection dbg (position ys l) l = Some ()"
  by (simp add: checkIteratorBelongsToCoollection_def)

lemma insertNode_spec:
  assumes inv: "ral_inv h l (xs @ ys)" and x: "fresh_node h x" "x \<notin> owned (ral_impl l) (xs @ ys)"
    and sz: "length (xs @ ys) + 3 < 2 ^ 32"
  obtains h' l' where "insertNode dbg h l (position ys l) x = Some (h', l', position (x # ys) l')"
    "ral_inv h' l' (xs @ x # ys)" "same_object l l'" "val_at h' = val_at h"
    "\<forall>a. a \<notin> owned (ral_impl l) (xs @ x # ys) \<longrightarrow> h' a = h a"
proof -
  obtain h' s' where h': "insert_before dbg h (ral_impl l) (first_of ys (ral_impl l)) (Some x) = Some (h', s', Some x)"
    "stump_inv h' s' (xs @ x # ys)" "same_gaps (ral_impl l) s'" "val_at h' = val_at h"
    "\<forall>a. a \<notin> owned (ral_impl l) (xs @ x # ys) \<longrightarrow> h' a = h a"
    using insert_before_stump [OF inv x sz, of dbg] by blast
  then show ?thesis
    by (intro that [of h' "l\<lparr>ral_impl := s'\<rparr>"])
      (auto simp: insertNode_def same_object_def position_def [of "x # ys"] Let_def)
qed

lemma insert_nodes_loop_spec:
  assumes "ral_inv h l (xs @ ys)" "\<forall>x\<in>set ns. fresh_node h x" "distinct ns"
    "set ns \<inter> owned (ral_impl l) (xs @ ys) = {}" "length (xs @ ns @ ys) + 2 < 2 ^ 32"
  shows "\<exists>h' l'. insert_nodes_loop dbg h l ns (position ys l) fst_it already =
      Some (h', l', if already \<or> ns = [] then fst_it else position (ns @ ys) l') \<and>
      ral_inv h' l' (xs @ ns @ ys) \<and> same_object l l' \<and> val_at h' = val_at h \<and>
      (\<forall>a. a \<notin> owned (ral_impl l) (xs @ ns @ ys) \<longrightarrow> h' a = h a)"
  using assms
proof (induction ns arbitrary: h l xs fst_it already)
  case Nil
  then show ?case by simp
next
  case (Cons x ns)
  obtain k l1 where k: "insertNode dbg h l (position ys l) x = Some (k, l1, position (x # ys) l1)"
    "ral_inv k l1 (xs @ x # ys)" "same_object l l1" "val_at k = val_at h"
    "\<forall>a. a \<notin> owned (ral_impl l) (xs @ x # ys) \<longrightarrow> k a = h a"
    by (rule insertNode_spec [OF Cons.prems(1), of x dbg]) (use Cons.prems(2,4,5) in auto)
  have fr: "\<forall>x\<in>set ns. fresh_node k x"
  proof
    fix z assume z: "z \<in> set ns"
    with Cons.prems(3,4) have "z \<notin> owned (ral_impl l) (xs @ x # ys)" by (auto simp: owned_Cons)
    with k(5) have "k z = h z" by blast
    moreover have "fresh_node h z" using Cons.prems(2) z by simp
    ultimately show "fresh_node k z" by (simp add: fresh_node_def)
  qed
  have "ral_inv k l1 ((xs @ [x]) @ ys)" using k(2) by simp
  moreover have "set ns \<inter> owned (ral_impl l1) ((xs @ [x]) @ ys) = {}"
    using Cons.prems(3,4) by (auto simp: owned_same [OF k(3)] owned_Cons)
  ultimately obtain h' l' where h': "insert_nodes_loop dbg k l1 ns (position ys l1)
        (if already then fst_it else position (x # ys) l1) True =
        Some (h', l', if already then fst_it else position (x # ys) l1)"
      "ral_inv h' l' (xs @ x # ns @ ys)" "same_object l1 l'" "val_at h' = val_at k"
      "\<forall>a. a \<notin> owned (ral_impl l) (xs @ x # ns @ ys) \<longrightarrow> h' a = k a"
    using Cons.IH [of k l1 "xs @ [x]" "if already then fst_it else position (x # ys) l1" True]
      fr Cons.prems(3,5) by (auto simp: owned_same [OF k(3)])
  have "position (x # ys) l1 = position (x # ns @ ys) l'"
    using position_same [OF h'(3), of "x # ys"] by (simp add: position_def)
  moreover have "h' a = h a" if "a \<notin> owned (ral_impl l) (xs @ x # ns @ ys)" for a
    using that h'(5) k(5) by (auto simp: owned_def)
  ultimately show ?case
    using k(1,4) h' same_object_trans [OF k(3) h'(3)] position_same [OF k(3)] by auto
qed

lemma insertNodesFromList_spec:
  assumes "ral_inv h l (xs @ ys)" "\<forall>x\<in>set ns. fresh_node h x" "distinct ns"
    "set ns \<inter> owned (ral_impl l) (xs @ ys) = {}" "length (xs @ ns @ ys) + 2 < 2 ^ 32"
  obtains h' l' where "insertNodesFromListAndReturnFirstInserted dbg h l ns (position ys l) =
      Some (h', l', position (ns @ ys) l')" "ral_inv h' l' (xs @ ns @ ys)" "same_object l l'"
    "val_at h' = val_at h" "\<forall>a. a \<notin> owned (ral_impl l) (xs @ ns @ ys) \<longrightarrow> h' a = h a"
proof -
  from insert_nodes_loop_spec [OF assms, of dbg "position ys l" False] obtain h' l' where h':
    "insert_nodes_loop dbg h l ns (position ys l) (position ys l) False =
      Some (h', l', if ns = [] then position ys l else position (ns @ ys) l')"
    "ral_inv h' l' (xs @ ns @ ys)" "same_object l l'" "val_at h' = val_at h"
    "\<forall>a. a \<notin> owned (ral_impl l) (xs @ ns @ ys) \<longrightarrow> h' a = h a" by auto
  moreover have "(if ns = [] then position ys l else position (ns @ ys) l') = position (ns @ ys) l'"
    using position_same [OF h'(3), of ys] by simp
  ultimately show ?thesis
    using that by (simp add: insertNodesFromListAndReturnFirstInserted_def)
qed

text \<open>Making one node: a fresh address with the value in it, or an unchanged heap.\<close>

lemma makeNode_ok:
  assumes "alloc_ok env" "\<not> e_unwinding env" "makeNode env h v = (h', Inr a)"
  obtains x where "v = Inr x" "h a = None" "h' = h(a \<mapsto> TAvlTreeNode_construct x)" "fresh_node h' a"
    "val_at h' a = Some (Some x)"
  using assms
  by (auto simp: makeNode_def alloc_ok_def fresh_node_def TAvlTreeNode_construct_def
      TAvlTreeNode_new_def val_at_def split: option.splits sum.splits)

text \<open>While another exception is in flight \<open>uncaught_exception()\<close> holds although nothing failed here: the storage
  of the new node is given back and its address is returned all the same. Inserting it is then undefined.\<close>

lemma makeNode_unwinding:
  assumes "e_unwinding env" "e_alloc env h = Some a"
  shows "makeNode env h (Inr x) = (h(a := None), Inr a)"
  using assms by (simp add: makeNode_def)

lemma makeNode_throw:
  assumes "alloc_ok env" "makeNode env h v = (h', Inl ex)"
  shows "h' = h"
  using assms by (auto simp: makeNode_def alloc_ok_def fun_upd_idem split: option.splits sum.splits)

lemma owned_dom: "stump_inv h s xs \<Longrightarrow> a \<in> owned s xs \<Longrightarrow> h a \<noteq> None"
  by (elim stump_invE) (auto simp: tree_inv_def dest: tree_at_dom)

lemma emplace_unwinding:
  assumes "e_unwinding env" "e_alloc env h = Some a"
  shows "emplace env h l it (Inr x) = None"
  using makeNode_unwinding [OF assms]
  by (simp add: emplace_def insertNode_def insert_before_def deref_def checkIteratorBelongsToCoollection_def ASSERT_def)

theorem emplace_spec:
  assumes env: "alloc_ok env" "\<not> e_unwinding env" and inv: "ral_inv h l (xs @ ys)"
    and sz: "length (xs @ ys) + 3 < 2 ^ 32"
  shows "(\<exists>ex. emplace env h l (position ys l) v = Some (h, l, Inl ex) \<and> (e_alloc env h = None \<or> v = Inl ex)) \<or>
    (\<exists>x a h' l'. v = Inr x \<and> e_alloc env h = Some a \<and> emplace env h l (position ys l) v = Some (h', l', Inr (position (a # ys) l')) \<and>
      h a = None \<and> ral_inv h' l' (xs @ a # ys) \<and> same_object l l' \<and>
      vals h' (xs @ a # ys) = vals h xs @ x # vals h ys \<and>
      (\<forall>b. b \<notin> owned (ral_impl l) (xs @ a # ys) \<longrightarrow> h' b = h b))"
proof (cases "makeNode env h v")
  case (Pair k r)
  show ?thesis
  proof (cases r)
    case (Inl ex)
    moreover have "e_alloc env h = None \<or> v = Inl ex"
      using Pair Inl by (auto simp: makeNode_def split: option.splits sum.splits)
    ultimately show ?thesis using Pair makeNode_throw [OF env(1)] by (auto simp: emplace_def)
  next
    case (Inr a)
    from makeNode_ok [OF env] Pair Inr obtain x where x: "v = Inr x" "h a = None"
      "k = h(a \<mapsto> TAvlTreeNode_construct x)" "fresh_node k a" "val_at k a = Some (Some x)" by metis
    have na: "a \<notin> owned (ral_impl l) (xs @ ys)" using owned_dom [OF inv] x(2) by blast
    have eq: "k b = h b" if "b \<in> owned (ral_impl l) (xs @ ys)" for b using that na x(3) by auto
    note k = stump_inv_off [OF inv eq]
    obtain h' l' where h': "insertNode (e_dbg env) k l (position ys l) a = Some (h', l', position (a # ys) l')"
      "ral_inv h' l' (xs @ a # ys)" "same_object l l'" "val_at h' = val_at k"
      "\<forall>b. b \<notin> owned (ral_impl l) (xs @ a # ys) \<longrightarrow> h' b = k b"
      using insertNode_spec [OF k(1) x(4) na sz, of "e_dbg env"] by blast
    have "\<forall>b. b \<notin> owned (ral_impl l) (xs @ a # ys) \<longrightarrow> h' b = h b"
      using h'(5) x(3) by (auto simp: owned_def)
    moreover
    have "vals h' (xs @ a # ys) = vals k xs @ x # vals k ys"
      using h'(4) x(5) by (simp add: vals_def)
    with k(2) have "vals h' (xs @ a # ys) = vals h xs @ x # vals h ys" by simp
    moreover have "e_alloc env h = Some a"
      using Pair Inr by (auto simp: makeNode_def split: option.splits sum.splits)
    ultimately show ?thesis using h' x Pair Inr by (auto simp: emplace_def)
  qed
qed

text \<open>Several nodes: all of them fresh and distinct, or the first exception with the nodes made
  before it.\<close>

lemma make_nodes_acc:
  "make_nodes env h vs nodes = (case make_nodes env h vs [] of (h', ns, ex) \<Rightarrow> (h', nodes @ ns, ex))"
proof (induction vs arbitrary: h nodes)
  case Nil
  then show ?case by simp
next
  case (Cons v vs)
  show ?case
  proof (cases "makeNode env h v")
    case (Pair k r)
    then show ?thesis
      using Cons.IH [of k "nodes @ [projr r]"] Cons.IH [of k "[projr r]"]
      by (cases r) (auto split: prod.splits)
  qed
qed

lemma make_nodes_spec:
  assumes env: "alloc_ok env" "\<not> e_unwinding env" and m: "make_nodes env h vs [] = (h', ns, ex)"
  shows "distinct ns \<and> (\<forall>a\<in>set ns. h a = None \<and> fresh_node h' a) \<and>
    (\<forall>a. a \<notin> set ns \<longrightarrow> h' a = h a) \<and> map Inr (vals h' ns) = take (length ns) vs \<and>
    (ex = None \<longrightarrow> length ns = length vs)"
  using m
proof (induction vs arbitrary: h h' ns ex)
  case Nil
  then show ?case by simp
next
  case (Cons v vs)
  show ?case
  proof (cases "makeNode env h v")
    case (Pair k r)
    show ?thesis
    proof (cases r)
      case (Inl e)
      with Cons.prems Pair makeNode_throw [OF env(1)] show ?thesis by auto
    next
      case (Inr a)
      obtain ns' where ns: "ns = a # ns'" "make_nodes env k vs [] = (h', ns', ex)"
        using Cons.prems Pair Inr make_nodes_acc [of env k vs "[a]"] by (auto split: prod.splits)
      from makeNode_ok [OF env] Pair Inr obtain x where x: "v = Inr x" "h a = None"
        "k = h(a \<mapsto> TAvlTreeNode_construct x)" "fresh_node k a" "val_at k a = Some (Some x)" by metis
      note IH = Cons.IH [OF ns(2)]
      have na: "a \<notin> set ns'" using IH x(3) by auto
      then have ha: "h' a = k a" using IH by blast
      have "fresh_node h' a" using ha x(4) by (simp add: fresh_node_def)
      moreover have "val_at h' a = Some (Some x)" using ha x(5) by (simp add: val_at_def)
      moreover have "\<forall>b\<in>set ns'. h b = None"
      proof
        fix b assume "b \<in> set ns'"
        then have "k b = None" "b \<noteq> a" using IH na by auto
        then show "h b = None" using x(3) by simp
      qed
      ultimately show ?thesis using IH na ns(1) x(1,2,3) by auto
    qed
  qed
qed

lemma dispose_fresh:
  "distinct ns \<Longrightarrow> \<forall>a\<in>set ns. fresh_node h a \<Longrightarrow>
   clear_and_dispose h ns = Some (\<lambda>a. if a \<in> set ns then None else h a)"
proof (induction ns arbitrary: h)
  case (Cons a ns)
  then obtain n v where n: "h a = Some n" "nd_value n = Some v" by (auto simp: fresh_node_def)
  have fr: "\<forall>b\<in>set ns. fresh_node (h(a := None)) b"
    using Cons.prems by (auto simp: fresh_node_def)
  have "clear_and_dispose (h(a := None)) ns = Some (\<lambda>b. if b \<in> set ns then None else (h(a := None)) b)"
    by (rule Cons.IH [OF _ fr]) (use Cons.prems(1) in simp)
  moreover have "(\<lambda>b. if b \<in> set ns then None else (h(a := None)) b) =
      (\<lambda>b. if b \<in> set (a # ns) then None else h b)" by auto
  ultimately show ?case using n by (simp add: destroy_node_def)
qed simp

text \<open>The exception that creating the nodes of a range raises, if any.\<close>

definition creation_error :: "'a env \<Rightarrow> 'a heap \<Rightarrow> 'a made list \<Rightarrow> cpp_exception option" where
  "creation_error env h vs = snd (snd (make_nodes env h vs []))"

theorem insert_range_spec:
  assumes env: "alloc_ok env" "\<not> e_unwinding env" and inv: "ral_inv h l (xs @ ys)"
    and sz: "length (xs @ ys) + length vs + 2 < 2 ^ 32"
  shows "(\<exists>ex. creation_error env h vs = Some ex \<and> insert_range env h l (position ys l) vs = Some (h, l, Inl ex)) \<or>
    (\<exists>us ns h' l'. creation_error env h vs = None \<and> vs = map Inr us \<and>
      insert_range env h l (position ys l) vs = Some (h', l', Inr (position (ns @ ys) l')) \<and>
      ral_inv h' l' (xs @ ns @ ys) \<and> same_object l l' \<and>
      vals h' (xs @ ns @ ys) = vals h xs @ us @ vals h ys \<and> (\<forall>a\<in>set ns. h a = None) \<and>
      (\<forall>a. a \<notin> owned (ral_impl l) (xs @ ns @ ys) \<longrightarrow> h' a = h a))"
proof -
  obtain k ns ex where m: "make_nodes env h vs [] = (k, ns, ex)" by (metis prod_cases3)
  note ms = make_nodes_spec [OF env m]
  show ?thesis
  proof (cases ex)
    case (Some e)
    have "(\<lambda>a. if a \<in> set ns then None else k a) = h" using ms by (auto simp: fun_eq_iff)
    with dispose_fresh [of ns k] ms have "clear_and_dispose k ns = Some h" by simp
    with m Some show ?thesis by (auto simp: insert_range_def creation_error_def)
  next
    case None
    have off: "set ns \<inter> owned (ral_impl l) (xs @ ys) = {}" using owned_dom [OF inv] ms by fastforce
    have eq: "k b = h b" if "b \<in> owned (ral_impl l) (xs @ ys)" for b using off that ms by blast
    note k = stump_inv_off [OF inv eq]
    obtain h' l' where h': "insertNodesFromListAndReturnFirstInserted (e_dbg env) k l ns (position ys l) =
        Some (h', l', position (ns @ ys) l')" "ral_inv h' l' (xs @ ns @ ys)" "same_object l l'"
      "val_at h' = val_at k" "\<forall>a. a \<notin> owned (ral_impl l) (xs @ ns @ ys) \<longrightarrow> h' a = k a"
      by (rule insertNodesFromList_spec [OF k(1), of ns "e_dbg env"]) (use ms off sz None in auto)
    have fr: "h' a = h a" if "a \<notin> owned (ral_impl l) (xs @ ns @ ys)" for a
      using that h'(5) ms by (auto simp: owned_def)
    have "vals h' (xs @ ns @ ys) = vals k xs @ vals k ns @ vals k ys" using h'(4) by (simp add: vals_def)
    also have "\<dots> = vals h xs @ vals k ns @ vals h ys" using k(2) by simp
    finally have "vals h' (xs @ ns @ ys) = vals h xs @ vals k ns @ vals h ys" .
    moreover have "vs = map Inr (vals k ns)" using ms None by simp
    moreover have "\<forall>a\<in>set ns. h a = None" using ms by blast
    moreover have "insert_range env h l (position ys l) vs = Some (h', l', Inr (position (ns @ ys) l'))"
      using m None env(2) h'(1) by (simp add: insert_range_def)
    moreover have "creation_error env h vs = None" using m None by (simp add: creation_error_def)
    ultimately show ?thesis using h'(2,3) fr by blast
  qed
qed

subsection \<open>Reading\<close>

lemma ral_size_spec:
  assumes "ral_inv h l xs"
  shows "ral_size dbg h l = Some (of_nat (length xs))"
proof -
  have "(2 :: size_t) \<le> of_nat (length xs + 2)"
    using of_nat_le_size_t [of 2 "length xs + 2"] stump_inv_bound [OF assms] by simp
  then show ?thesis using stump_size_spec [OF assms] by (simp add: ral_size_def)
qed

lemma ral_empty_spec:
  assumes "ral_inv h l xs"
  shows "ral_empty dbg h l = Some (xs = [])"
  using ral_size_spec [OF assms] of_nat_eq_size_t [of "length xs" 0] stump_inv_bound [OF assms]
  by (simp add: ral_empty_def)

lemma stump_nth:
  assumes "stump_inv h s xs" "i < length xs"
  shows "getByIndex dbg h s (of_nat i + 1) = Some (Some (xs ! i))"
proof -
  from assms(1) obtain t bb e where t: "tree_inv h s t" "inorder t = bb # xs @ [e]"
    "size t = length xs + 2" by (rule stump_invE)
  have "t \<noteq> Leaf" using t(3) by auto
  with getByIndex_spec [OF t(1), of "i + 1" dbg] t(2,3) assms(2) stump_inv_bound [OF assms(1)]
  show ?thesis by (simp add: nth_append add.commute)
qed

lemma operator_index_spec:
  assumes inv: "ral_inv h l xs" and i: "i < length xs"
  shows "operator_index dbg h l (of_nat i) = Some (vals h xs ! i)"
proof -
  from inv obtain bb e where g: "s_before_begin (ral_impl l) = Some bb" "s_end (ral_impl l) = Some e"
    "\<forall>a\<in>set xs. \<exists>v. val_at h a = Some (Some v)" "distinct (bb # xs @ [e])" by (rule stump_invE)
  have x: "xs ! i \<in> set xs" using i by simp
  with g(3) obtain v where v: "val_at h (xs ! i) = Some (Some v)" by blast
  then obtain n where n: "h (xs ! i) = Some n" "nd_value n = Some v" by (auto simp: val_at_def)
  obtain b where b: "s_begin (ral_impl l) = Some b" using stump_gets [OF inv] by auto
  have "isNotEmptyNode dbg (ral_impl l) (Some (xs ! i)) = Some True"
    by (rule gap_asserts [OF g(1,2) b]) (use x g(4) in auto)
  moreover have "(of_nat i :: size_t) < of_nat (length xs)"
    using of_nat_less_size_t [of i "length xs"] stump_inv_bound [OF inv] i by simp
  moreover have "vals h xs ! i = v" using v i by (simp add: vals_def)
  ultimately show ?thesis
    using stump_nth [OF inv i, of dbg] ral_size_spec [OF inv, of dbg] n by (cases dbg) (simp_all add: operator_index_def)
qed

lemma at_spec:
  assumes inv: "ral_inv h l xs" and i: "i < length xs"
  shows "at_checked dbg h l (of_nat i) = Some (Inl Out_of_range)"
  using ral_size_spec [OF inv, of dbg] of_nat_less_size_t [of i "length xs"] stump_inv_bound [OF inv] i
  by (simp add: at_checked_def)

lemma front_spec:
  assumes "ral_inv h l (a # xs)"
  shows "ral_front dbg h l = Some (hd (vals h (a # xs)))"
  using dereference_spec [of h l "[]" a xs dbg] assms ral_empty_spec [OF assms] ral_begin_spec [OF assms]
  by (simp add: ral_front_def)

lemma back_spec:
  assumes "ral_inv h l (xs @ [a])"
  shows "ral_back dbg h l = Some (last (vals h (xs @ [a])))"
  using dereference_spec [OF assms, of dbg] decrement_spec [OF assms, of dbg] ral_empty_spec [OF assms]
    ral_end_spec [OF assms] by (simp add: ral_back_def nth_append)

end
