(* ===== verification/Ral_Rearrange.thy ===== *)
theory Ral_Rearrange
  imports Ral_Correct "HOL-Library.Multiset"
begin

section \<open>Erasing and rearranging\<close>

text \<open>
  Erasing one element, a range, the last element; the loops of \<open>remove_if\<close>, \<open>unique\<close> and
  \<open>resize\<close>; and the operations that take nodes out and put them back: \<open>reverse\<close>,
  \<open>sort\<close>, \<open>merge\<close> and \<open>splice\<close>.
\<close>

subsection \<open>Erasing\<close>

lemma erase_spec:
  assumes inv: "ral_inv h l (xs @ a # ys)"
  obtains h' l' where "erase dbg h l (position (a # ys) l) = Some (h', l', position ys l')"
    "ral_inv h' l' (xs @ ys)" "same_object l l'" "val_at h' = (val_at h)(a := None)"
    "\<forall>b. b \<notin> owned (ral_impl l) (xs @ a # ys) \<longrightarrow> h' b = h b"
proof -
  obtain h' s' where h': "delete_and_get_next dbg h (ral_impl l) (Some a) True True =
      Some (h', s', first_of ys (ral_impl l))" "stump_inv h' s' (xs @ ys)" "same_gaps (ral_impl l) s'"
    "val_at h' = (val_at h)(a := None)" "\<forall>b. b \<notin> owned (ral_impl l) (xs @ a # ys) \<longrightarrow> h' b = h b"
    using delete_and_get_next_stump [OF inv, of dbg True True] by auto
  have "erase dbg h l (position (a # ys) l) = Some (h', l\<lparr>ral_impl := s'\<rparr>, position ys (l\<lparr>ral_impl := s'\<rparr>))"
    using h'(1) stump_neighbours(2,3) [OF inv] stump_gets [OF inv] ral_end_spec [OF inv]
      first_of_gaps [OF h'(3)]
    by (simp add: erase_def Let_def position_def [of ys])
  then show ?thesis
    by (intro that [of h' "l\<lparr>ral_impl := s'\<rparr>"]) (use h' in \<open>auto simp: same_object_def\<close>)
qed

lemma vals_erased:
  assumes "val_at h' = (val_at h)(a := None)" "a \<notin> set xs"
  shows "vals h' xs = vals h xs"
  using assms by (auto simp: vals_def)

lemma erase_vals:
  assumes inv: "ral_inv h l (xs @ a # ys)"
  obtains h' l' where "erase dbg h l (position (a # ys) l) = Some (h', l', position ys l')"
    "ral_inv h' l' (xs @ ys)" "evolves h l (xs @ a # ys) h' l' (xs @ ys)" "vals h' (xs @ ys) = vals h xs @ vals h ys" "h' a = None"
proof -
  obtain h' l' where h': "erase dbg h l (position (a # ys) l) = Some (h', l', position ys l')"
    "ral_inv h' l' (xs @ ys)" "same_object l l'" "val_at h' = (val_at h)(a := None)"
    "\<forall>b. b \<notin> owned (ral_impl l) (xs @ a # ys) \<longrightarrow> h' b = h b"
    using erase_spec [OF inv, of dbg] by blast
  have "a \<notin> set (xs @ ys)" using stump_inv_distinct [OF inv] by auto
  then have "vals h' (xs @ ys) = vals h (xs @ ys)" using vals_erased [OF h'(4)] by blast
  moreover have "h' a = None" using fun_cong [OF h'(4), of a] by (simp add: val_at_def)
  moreover from this have "evolves h l (xs @ a # ys) h' l' (xs @ ys)"
    using h'(3,5) owned_same [OF h'(3), of "xs @ ys"] unfolding evolves_def reshapes_def by (auto simp: owned_def)
  ultimately show ?thesis using that h' by simp
qed

lemma equal_position:
  assumes "ral_inv h l (xs @ ys @ zs)"
  shows "iterator_equal dbg (position (ys @ zs) l) (position zs l) = Some (ys = [])"
proof (cases ys)
  case (Cons a as)
  from assms obtain bb e where "s_end (ral_impl l) = Some e" "distinct (bb # (xs @ ys @ zs) @ [e])"
    by (rule stump_invE)
  with Cons show ?thesis by (cases zs) (auto simp: iterator_equal_def)
qed (simp add: iterator_equal_def)

lemma erase_range_spec:
  assumes "ral_inv h l (xs @ ys @ zs)"
  shows "\<exists>h' l'. erase_range dbg h l (position (ys @ zs) l) (position zs l) = Some (h', l', position zs l') \<and>
    ral_inv h' l' (xs @ zs) \<and> evolves h l (xs @ ys @ zs) h' l' (xs @ zs) \<and> vals h' (xs @ zs) = vals h xs @ vals h zs"
  using assms
proof (induction ys arbitrary: h l)
  case Nil
  then show ?case
    using equal_position [of h l xs "[]" zs dbg]
    by (subst erase_range.simps) (auto simp: position_def iterator_at_def)
next
  case (Cons a ys)
  obtain k l1 where k: "erase dbg h l (position (a # ys @ zs) l) = Some (k, l1, position (ys @ zs) l1)"
    "ral_inv k l1 (xs @ ys @ zs)" "evolves h l (xs @ a # ys @ zs) k l1 (xs @ ys @ zs)" "vals k (xs @ ys @ zs) = vals h xs @ vals h (ys @ zs)"
    by (rule erase_vals [of h l xs a "ys @ zs" dbg]) (use Cons.prems that in simp_all)
  from Cons.IH [OF k(2)] obtain h' l' where h':
    "erase_range dbg k l1 (position (ys @ zs) l1) (position zs l1) = Some (h', l', position zs l')"
    "ral_inv h' l' (xs @ zs)" "evolves k l1 (xs @ ys @ zs) h' l' (xs @ zs)" "vals h' (xs @ zs) = vals k xs @ vals k zs" by blast
  have "erase_range dbg h l (position (a # ys @ zs) l) (position zs l) = Some (h', l', position zs l')"
    using equal_position [of h l xs "a # ys" zs dbg] Cons.prems k(1) h'(1) position_evolves [OF k(3)]
    by (subst erase_range.simps) simp
  moreover have "vals k xs = vals h xs" "vals k zs = vals h zs"
    using k(4) by (auto simp: append_eq_append_conv)
  ultimately show ?case using h' evolves_trans [OF k(3) h'(3)] by auto
qed

lemma pop_back_spec:
  assumes inv: "ral_inv h l (xs @ [a])"
  obtains h' l' where "pop_back dbg h l = Some (h', l')" "ral_inv h' l' xs" "evolves h l (xs @ [a]) h' l' xs"
    "vals h' xs = vals h xs"
proof -
  obtain h' l' where "erase dbg h l (position [a] l) = Some (h', l', position [] l')"
    "ral_inv h' l' xs" "evolves h l (xs @ [a]) h' l' xs" "vals h' xs = vals h xs"
    by (rule erase_vals [OF inv, of dbg]) (use that in simp)
  moreover have "pop_back dbg h l = do { (h, l, _) \<leftarrow> erase dbg h l (position [a] l); Some (h, l) }"
    using ral_empty_spec [OF inv] ral_end_spec [OF inv] decrement_spec [OF inv, of dbg]
    by (simp add: pop_back_def)
  ultimately show ?thesis using that by simp
qed

lemma pop_back_times_spec:
  assumes "ral_inv h l (xs @ ys)"
  shows "\<exists>h' l'. pop_back_times dbg h l (length ys) = Some (h', l') \<and> ral_inv h' l' xs \<and>
    evolves h l (xs @ ys) h' l' xs \<and> vals h' xs = vals h xs"
  using assms
proof (induction ys arbitrary: h l rule: rev_induct)
  case (snoc a ys)
  obtain k l1 where k: "pop_back dbg h l = Some (k, l1)" "ral_inv k l1 (xs @ ys)" "evolves h l (xs @ ys @ [a]) k l1 (xs @ ys)"
    "vals k (xs @ ys) = vals h (xs @ ys)"
    by (rule pop_back_spec [of h l "xs @ ys" a dbg]) (use snoc.prems that in simp_all)
  from snoc.IH [OF k(2)] obtain h' l' where h': "pop_back_times dbg k l1 (length ys) = Some (h', l')"
    "ral_inv h' l' xs" "evolves k l1 (xs @ ys) h' l' xs" "vals h' xs = vals k xs" by blast
  then show ?case using k evolves_trans [OF k(3)] by auto
qed simp

subsection \<open>resize\<close>

theorem resize_shrink:
  assumes inv: "ral_inv h l (xs @ ys)" and ne: "ys \<noteq> []"
  shows "\<exists>h' l'. resize env h l (of_nat (length xs)) copies = Some (h', l', Inr ()) \<and>
    ral_inv h' l' xs \<and> evolves h l (xs @ ys) h' l' xs \<and> vals h' xs = vals h xs"
proof -
  have b: "length xs + length ys + 2 < 2 ^ 32" using stump_inv_bound [OF inv] by simp
  have "\<not> (of_nat (length (xs @ ys)) :: size_t) \<le> of_nat (length xs)"
    using of_nat_le_size_t [of "length (xs @ ys)" "length xs"] b ne by simp
  moreover have "unat (of_nat (length (xs @ ys)) - of_nat (length xs) :: size_t) = length ys"
    using unat_of_nat_size_t [of "length ys"] b by simp
  ultimately show ?thesis
    using ral_size_spec [OF inv, of "e_dbg env"] pop_back_times_spec [OF inv, of "e_dbg env"]
    by (auto simp: resize_def)
qed

text \<open>The overload without a value: like \<open>resize\<close> with the copies of the default value, except that making the
  default value may throw, and then nothing has changed, not even when nothing is inserted.\<close>

lemma resize_default_eq:
  "resize_default env h l cnt (Inr v) copy = resize env h l cnt (copy v)"
  unfolding resize_default_def resize_def sum.case by (rule refl)

lemma resize_default_throws:
  assumes inv: "ral_inv h l xs" and n: "length xs \<le> n" "n + 2 < 2 ^ 32"
  shows "resize_default env h l (of_nat n) (Inl ex) copy = Some (h, l, Inl ex)"
proof -
  have "(of_nat (length xs) :: size_t) \<le> of_nat n"
    using of_nat_le_size_t [of "length xs" n] n by simp
  then show ?thesis using ral_size_spec [OF inv, of "e_dbg env"] ral_begin_spec [OF inv, of "e_dbg env"]
    by (simp add: resize_default_def)
qed

theorem resize_grow:
  assumes env: "alloc_ok env" "\<not> e_unwinding env" and inv: "ral_inv h l xs"
    and n: "length xs \<le> n" "n + 2 < 2 ^ 32"
  shows "(\<exists>ex. creation_error env h (map copies [0..<n - length xs]) = Some ex \<and>
      resize env h l (of_nat n) copies = Some (h, l, Inl ex)) \<or>
    (\<exists>us ns h' l'. creation_error env h (map copies [0..<n - length xs]) = None \<and>
      map copies [0..<n - length xs] = map Inr us \<and>
      resize env h l (of_nat n) copies = Some (h', l', Inr ()) \<and> ral_inv h' l' (ns @ xs) \<and>
      evolves h l xs h' l' (ns @ xs) \<and> vals h' (ns @ xs) = us @ vals h xs)"
proof -
  have "(of_nat (length xs) :: size_t) \<le> of_nat n"
    using of_nat_le_size_t [of "length xs" n] n by simp
  moreover have "unat (of_nat n - of_nat (length xs) :: size_t) = n - length xs"
    using unat_of_nat_size_t [of "n - length xs"] n by (simp add: of_nat_diff)
  ultimately have run: "resize env h l (of_nat n) copies = do {
      (h, l, r) \<leftarrow> insert_range env h l (position xs l) (map copies [0..<n - length xs]);
      Some (h, l, map_sum id (\<lambda>_. ()) r) }"
    using ral_size_spec [OF inv, of "e_dbg env"] ral_begin_spec [OF inv, of "e_dbg env"]
    by (simp add: resize_def insert_count_def)
  have "length ([] @ xs) + length (map copies [0..<n - length xs]) + 2 < 2 ^ 32" "ral_inv h l ([] @ xs)"
    using n inv by simp_all
  from insert_range_spec [OF env this(2,1)] show ?thesis
  proof (elim disjE exE conjE)
    fix us ns h' l'
    assume "insert_range env h l (position xs l) (map copies [0..<n - length xs]) = Some (h', l', Inr (position (ns @ xs) l'))"
      "creation_error env h (map copies [0..<n - length xs]) = None" "map copies [0..<n - length xs] = map Inr us"
      "ral_inv h' l' ([] @ ns @ xs)" "same_object l l'" "vals h' ([] @ ns @ xs) = vals h [] @ us @ vals h xs"
      "\<forall>a\<in>set ns. h a = None" "\<forall>a. a \<notin> owned (ral_impl l) ([] @ ns @ xs) \<longrightarrow> h' a = h a"
    moreover from this have "evolves h l xs h' l' (ns @ xs)" by (intro evolves_grow) auto
    ultimately show ?thesis using run
      by (intro disjI2 exI [of _ us] exI [of _ ns] exI [of _ h'] exI [of _ l']) simp
  qed (use run in simp)
qed

subsection \<open>remove_if\<close>

lemma remove_if_loop_all:
  assumes "ral_inv h l ys" "\<forall>v\<in>set (vals h ys). p v"
  shows "\<exists>h' l'. remove_if_loop dbg h l p (position ys l) (position [] l) = Some (h', l') \<and>
    ral_inv h' l' [] \<and> evolves h l ys h' l' []"
  using assms
proof (induction ys arbitrary: h l)
  case Nil
  then show ?case
    using equal_position [of h l "[]" "[]" "[]" dbg] by (subst remove_if_loop.simps) auto
next
  case (Cons a ys)
  obtain k l1 where k: "erase dbg h l (position (a # ys) l) = Some (k, l1, position ys l1)"
    "ral_inv k l1 ys" "evolves h l (a # ys) k l1 ys" "vals k ys = vals h ys"
    by (rule erase_vals [of h l "[]" a ys dbg]) (use Cons.prems(1) that in simp_all)
  have "\<forall>v\<in>set (vals k ys). p v" using Cons.prems(2) k(4) by simp
  from Cons.IH [OF k(2) this] obtain h' l' where h':
    "remove_if_loop dbg k l1 p (position ys l1) (position [] l1) = Some (h', l')"
    "ral_inv h' l' []" "evolves k l1 ys h' l' []" by blast
  have "remove_if_loop dbg h l p (position (a # ys) l) (position [] l) = Some (h', l')"
    using equal_position [of h l "[]" "a # ys" "[]" dbg] dereference_spec [of h l "[]" a ys dbg]
      Cons.prems k(1) h'(1) position_evolves [OF k(3)]
    by (subst remove_if_loop.simps) simp
  then show ?case using h' evolves_trans [OF k(3) h'(3)] by auto
qed

text \<open>At an element the predicate rejects the loop runs forever.\<close>

lemma remove_if_loop_stuck:
  assumes inv: "ral_inv h l (xs @ a # ys)" and v: "\<not> p (vals h (xs @ a # ys) ! length xs)"
  shows "remove_if_loop dbg h l p (position (a # ys) l) (position [] l) = None"
proof (rule ccontr)
  let ?it = "position (a # ys) l" let ?e = "position [] l"
  assume "remove_if_loop dbg h l p ?it ?e \<noteq> None"
  then obtain y where "remove_if_loop dbg h l p ?it ?e = Some y" by auto
  then have "\<not> (h = h \<and> l = l \<and> p = p \<and> ?it = ?it \<and> ?e = ?e \<and> dbg = dbg)"
  proof (rule remove_if_loop.raw_induct [rotated, where P = "\<lambda>d h' l' p' c e y.
      \<not> (h' = h \<and> l' = l \<and> p' = p \<and> c = ?it \<and> e = ?e \<and> d = dbg)"], goal_cases)
    case (1 f d h' l' p' c e y)
    show ?case
    proof
      assume eq: "h' = h \<and> l' = l \<and> p' = p \<and> c = ?it \<and> e = ?e \<and> d = dbg"
      then have "f dbg h l p ?it ?e = Some y"
        using 1(2) equal_position [of h l xs "a # ys" "[]" dbg] inv dereference_spec [OF inv, of dbg] v
        by simp
      from 1(1) [OF this] show False by simp
    qed
  qed
  then show False by simp
qed

theorem remove_if_spec:
  assumes inv: "ral_inv h l xs"
  shows "(\<exists>h' l'. remove_if dbg h l p = Some (h', l')) \<longleftrightarrow> (\<forall>v\<in>set (vals h xs). p v)"
proof -
  have run: "remove_if dbg h l p = remove_if_loop dbg h l p (position xs l) (position [] l)"
    using ral_begin_spec [OF inv] ral_end_spec [OF inv] by (simp add: remove_if_def)
  have stuck: "remove_if_loop dbg h l p (position (us @ a # ys) l) (position [] l) = None"
    if "ral_inv h l (us @ a # ys)" "\<forall>v\<in>set (vals h us). p v" "\<not> p (the (the (val_at h a)))"
    for us a ys and h :: "'a heap" and l
    using that
  proof (induction us arbitrary: h l)
    case Nil
    with remove_if_loop_stuck [of h l "[]" a ys p dbg] show ?case by simp
  next
    case (Cons u us)
    obtain k l1 where k: "erase dbg h l (position (u # us @ a # ys) l) = Some (k, l1, position (us @ a # ys) l1)"
      "ral_inv k l1 (us @ a # ys)" "evolves h l (u # us @ a # ys) k l1 (us @ a # ys)" "vals k (us @ a # ys) = vals h (us @ a # ys)"
      by (rule erase_vals [of h l "[]" u "us @ a # ys" dbg]) (use Cons.prems(1) that in simp_all)
    have "remove_if_loop dbg k l1 p (position (us @ a # ys) l1) (position [] l1) = None"
      using k(4) Cons.prems(2,3) by (intro Cons.IH [OF k(2)]) simp_all
    then show ?case
      using equal_position [of h l "[]" "u # us @ a # ys" "[]" dbg] Cons.prems k(1) position_evolves [OF k(3)]
        dereference_spec [of h l "[]" u "us @ a # ys" dbg]
      by (subst remove_if_loop.simps) simp
  qed
  show ?thesis
  proof (cases "\<forall>v\<in>set (vals h xs). p v")
    case True
    with remove_if_loop_all [OF inv True, of dbg] run show ?thesis by auto
  next
    case False
    then obtain a where "a \<in> set xs" "\<not> p (the (the (val_at h a)))" by (auto simp: vals_def)
    then obtain us a ys where xs: "xs = us @ a # ys" "\<not> p (the (the (val_at h a)))"
      "\<forall>u\<in>set us. p (the (the (val_at h u)))"
      using split_list_first_prop [of xs "\<lambda>a. \<not> p (the (the (val_at h a)))"] by blast
    with stuck [where us = us and a = a and ys = ys and h = h and l = l] inv run False show ?thesis by (simp add: vals_def)
  qed
qed

subsection \<open>unique\<close>

text \<open>An element goes when the predicate relates it to the last element that stayed.\<close>

fun unique_after :: "('a \<Rightarrow> 'a \<Rightarrow> bool) \<Rightarrow> 'a \<Rightarrow> 'a list \<Rightarrow> 'a list" where
  "unique_after p y [] = []"
| "unique_after p y (x # xs) = (if p x y then unique_after p y xs else x # unique_after p x xs)"

lemma position_Cons: "position (a # xs) l = position (a # ys) l"
  by (simp add: position_def)

lemma unique_loop_spec:
  assumes "ral_inv h l (ws @ c # ys)"
  shows "\<exists>h' l' zs. unique_loop dbg h l p (position (c # ys) l) (position ys l) (position [] l) = Some (h', l') \<and>
    ral_inv h' l' zs \<and> evolves h l (ws @ c # ys) h' l' zs \<and>
    vals h' zs = vals h (ws @ [c]) @ unique_after p (the (the (val_at h c))) (vals h ys)"
  using assms
proof (induction ys arbitrary: h l ws c)
  case Nil
  then show ?case
    using equal_position [of h l ws "[c]" "[]" dbg] equal_position [of h l "ws @ [c]" "[]" "[]" dbg]
    by (intro exI [of _ h] exI [of _ l] exI [of _ "ws @ [c]"], subst unique_loop.simps) auto
next
  case (Cons y ys)
  let ?x = "the (the (val_at h y))" let ?c = "the (the (val_at h c))"
  have inv: "ral_inv h l ((ws @ [c]) @ y # ys)" using Cons.prems by simp
  have d: "iterator_dereference dbg h l (position (y # ys) l) = Some ?x"
    "iterator_dereference dbg h l (position (c # y # ys) l) = Some ?c"
    using dereference_spec [OF inv, of dbg] dereference_spec [OF Cons.prems, of dbg]
    by (simp_all add: nth_append)
  have e: "iterator_equal dbg (position (y # ys) l) (position [] l) = Some False"
    "iterator_equal dbg (position (c # y # ys) l) (position [] l) = Some False"
    "iterator_equal dbg (position (c # y # ys) l) (position (y # ys) l) = Some False"
    using equal_position [of h l "ws @ [c]" "y # ys" "[]" dbg] equal_position [of h l ws "c # y # ys" "[]" dbg]
      equal_position [of h l ws "[c]" "y # ys" dbg] Cons.prems by simp_all
  have run: "unique_loop dbg h l p (position (c # y # ys) l) (position (y # ys) l) (position [] l) =
    (if p ?x ?c then do {
       (h, l, checked) \<leftarrow> erase dbg h l (position (y # ys) l);
       unique_loop dbg h l p (position (c # y # ys) (l :: random_access_list)) checked (position [] l) }
     else unique_loop dbg h l p (position (y # ys) l) (position ys l) (position [] l))"
    if "\<And>k l1 it. erase dbg h l (position (y # ys) l) = Some (k, l1, it) \<Longrightarrow> same_object l l1"
    using d e increment_spec [OF inv, of dbg] increment_spec [OF Cons.prems, of dbg] that
    by (subst unique_loop.simps) (cases dbg; auto simp: position_same split: bind_splits)
  obtain k l1 where k: "erase dbg h l (position (y # ys) l) = Some (k, l1, position ys l1)"
    "ral_inv k l1 ((ws @ [c]) @ ys)" "evolves h l ((ws @ [c]) @ y # ys) k l1 ((ws @ [c]) @ ys)" "vals k ((ws @ [c]) @ ys) = vals h (ws @ [c]) @ vals h ys"
    using erase_vals [OF inv, of dbg] by blast
  show ?case
  proof (cases "p ?x ?c")
    case True
    have "vals k (ws @ [c]) = vals h (ws @ [c])" "vals k ys = vals h ys"
      using k(4) by (simp_all add: append_eq_append_conv)
    moreover from Cons.IH [of k l1 ws c] k(2) obtain h' l' zs where
      "unique_loop dbg k l1 p (position (c # ys) l1) (position ys l1) (position [] l1) = Some (h', l')"
      "ral_inv h' l' zs" "evolves k l1 ((ws @ [c]) @ ys) h' l' zs"
      "vals h' zs = vals k (ws @ [c]) @ unique_after p (the (the (val_at k c))) (vals k ys)" by auto
    ultimately show ?thesis
      using run k True evolves_trans [OF k(3)] evolves_same [OF k(3)] position_Cons [of c "y # ys" l1 ys] by auto
  next
    case False
    with run k evolves_same [OF k(3)] Cons.IH [of h l "ws @ [c]" y] inv show ?thesis by auto
  qed
qed

theorem unique_spec:
  assumes inv: "ral_inv h l xs"
  shows "\<exists>h' l' zs. unique dbg h l p = Some (h', l') \<and> ral_inv h' l' zs \<and> evolves h l xs h' l' zs \<and>
    vals h' zs = (case vals h xs of [] \<Rightarrow> [] | v # vs \<Rightarrow> v # unique_after p v vs)"
proof (cases xs)
  case Nil
  with inv show ?thesis
    using equal_position [of h l "[]" "[]" "[]" dbg] ral_begin_spec [OF inv] ral_end_spec [OF inv]
    by (intro exI [of _ h] exI [of _ l] exI [of _ "[]"]) (simp add: unique_def)
next
  case (Cons c ys)
  with inv equal_position [of h l "[]" "c # ys" "[]" dbg] ral_begin_spec [OF inv, of dbg]
    ral_end_spec [OF inv, of dbg] increment_spec [of h l "[]" c ys dbg]
  have "unique dbg h l p = unique_loop dbg h l p (position (c # ys) l) (position ys l) (position [] l)"
    by (simp add: unique_def)
  with unique_loop_spec [of h l "[]" c ys dbg p] inv Cons show ?thesis by auto
qed

subsection \<open>Taking nodes out and putting them back\<close>

lemma assert_empty_spec: "ral_inv h l [] \<Longrightarrow> assert_empty dbg h l = Some ()"
  by (simp add: assert_empty_def ral_empty_spec)

lemma moveNodes_ral:
  assumes inv: "ral_inv h l xs"
  obtains k l1 where "moveNodes dbg h (ral_impl l) = Some (k, ral_impl l1, xs)"
    "l1 = l\<lparr>ral_impl := ral_impl l1\<rparr>" "ral_inv k l1 []" "same_object l l1" "val_at k = val_at h"
    "\<forall>a\<in>set xs. fresh_node k a" "\<forall>a. a \<notin> owned (ral_impl l) xs \<longrightarrow> k a = h a"
    "set xs \<inter> owned (ral_impl l1) [] = {}"
proof -
  obtain k s where k: "moveNodes dbg h (ral_impl l) = Some (k, s, xs)" "stump_inv k s []"
    "same_gaps (ral_impl l) s" "val_at k = val_at h" "\<forall>a\<in>set xs. fresh_node k a"
    "\<forall>a. a \<notin> owned (ral_impl l) xs \<longrightarrow> k a = h a"
    using moveNodes_stump [OF inv, of dbg] by blast
  from inv obtain bb e where "s_before_begin (ral_impl l) = Some bb" "s_end (ral_impl l) = Some e"
    "distinct (bb # xs @ [e])" by (rule stump_invE)
  then have "set xs \<inter> owned s [] = {}" using k(3) by (auto simp: same_gaps_def owned_def)
  then show ?thesis
    by (intro that [of k "l\<lparr>ral_impl := s\<rparr>"]) (use k in \<open>auto simp: same_object_def\<close>)
qed

lemma vals_mset: "mset ns = mset xs \<Longrightarrow> mset (vals h ns) = mset (vals h xs)"
  by (simp add: vals_def)

theorem rearrange_spec:
  assumes inv: "ral_inv h l xs" and perm: "\<And>k. val_at k = val_at h \<Longrightarrow> mset (f k xs) = mset xs"
  shows "\<exists>k h' l'. rearrange dbg h l f = Some (h', l') \<and> val_at k = val_at h \<and> ral_inv h' l' (f k xs) \<and>
    evolves h l xs h' l' (f k xs) \<and> val_at h' = val_at h"
proof -
  obtain k l1 where k: "moveNodes dbg h (ral_impl l) = Some (k, ral_impl l1, xs)"
    "l1 = l\<lparr>ral_impl := ral_impl l1\<rparr>" "ral_inv k l1 []" "same_object l l1" "val_at k = val_at h"
    "\<forall>a\<in>set xs. fresh_node k a" "set xs \<inter> owned (ral_impl l1) [] = {}"
    "\<forall>a. a \<notin> owned (ral_impl l) xs \<longrightarrow> k a = h a"
    using moveNodes_ral [OF inv, of dbg] .
  have m: "mset (f k xs) = mset xs" using perm k(5) by simp
  then have st: "set (f k xs) = set xs" "length (f k xs) = length xs"
    by (auto dest: mset_eq_setD mset_eq_length)
  have "distinct (f k xs)"
    using m stump_inv_distinct [OF inv] by (metis mset_eq_imp_distinct_iff)
  then have pre: "\<forall>a\<in>set (f k xs). fresh_node k a" "distinct (f k xs)"
    "set (f k xs) \<inter> owned (ral_impl l1) ([] @ []) = {}" "length ([] @ f k xs @ []) + 2 < 2 ^ 32"
    using st k(6,7) stump_inv_bound [OF inv] by simp_all
  obtain h' l' where h': "insertNodesFromListAndReturnFirstInserted dbg k l1 (f k xs) (position [] l1) =
      Some (h', l', position (f k xs @ []) l')" "ral_inv h' l' ([] @ f k xs @ [])" "same_object l1 l'"
    "val_at h' = val_at k" "\<forall>a. a \<notin> owned (ral_impl l1) ([] @ f k xs @ []) \<longrightarrow> h' a = k a"
    by (rule insertNodesFromList_spec [of k l1 "[]" "[]" "f k xs" dbg]) (use k(3) pre in auto)
  have "rearrange dbg h l f = Some (h', l')"
    using k(1,2) assert_empty_spec [OF k(3), of dbg] ral_begin_spec [OF k(3), of dbg] h'(1)
    by (simp add: rearrange_def Let_def)
  moreover have "evolves h l xs h' l' (f k xs)"
    using h'(5) k(8) owned_same [OF k(4), of "f k xs"] owned_set [OF st(1), of "ral_impl l"] st(1) same_object_trans [OF k(4) h'(3)]
    by (intro evolves_grow) auto
  ultimately show ?thesis using k(5) h' by auto
qed

theorem reverse_spec:
  assumes "ral_inv h l xs"
  shows "\<exists>h' l'. reverse_list dbg h l = Some (h', l') \<and> ral_inv h' l' (rev xs) \<and> evolves h l xs h' l' (rev xs) \<and>
    vals h' (rev xs) = rev (vals h xs)"
  using rearrange_spec [OF assms, of "\<lambda>_ ns. rev ns" dbg]
  by (auto simp: reverse_list_def vals_def rev_map)

text \<open>What the code relies on in \<open>boost::intrusive::list::sort\<close>: it permutes the nodes and no
  later value precedes an earlier one in the order.\<close>

definition list_sort_ok :: "('a heap \<Rightarrow> addr list \<Rightarrow> addr list) \<Rightarrow> ('a \<Rightarrow> 'a \<Rightarrow> bool) \<Rightarrow> bool" where
  "list_sort_ok list_sort less_comp \<longleftrightarrow> (\<forall>h xs. mset (list_sort h xs) = mset xs \<and>
     sorted_wrt (\<lambda>x y. \<not> less_comp y x) (vals h (list_sort h xs)))"

theorem sort_spec:
  assumes inv: "ral_inv h l xs" and srt: "list_sort_ok list_sort less_comp"
  shows "\<exists>h' l' ns. sort_list list_sort dbg h l = Some (h', l') \<and> ral_inv h' l' ns \<and> evolves h l xs h' l' ns \<and>
    mset (vals h' ns) = mset (vals h xs) \<and> sorted_wrt (\<lambda>x y. \<not> less_comp y x) (vals h' ns)"
proof -
  have p: "mset (list_sort k xs) = mset xs" for k using srt by (simp add: list_sort_ok_def)
  obtain k h' l' where h': "rearrange dbg h l list_sort = Some (h', l')" "val_at k = val_at h"
    "ral_inv h' l' (list_sort k xs)" "evolves h l xs h' l' (list_sort k xs)" "val_at h' = val_at h"
    using rearrange_spec [OF inv, of list_sort dbg] p by blast
  have v: "vals h' ns = vals k ns" "vals h ns = vals k ns" for ns using h'(2,5) by (simp_all add: vals_def)
  show ?thesis
    using h' srt vals_mset [OF p, of k k] unfolding v(1) [symmetric] list_sort_ok_def
    by (intro exI [of _ h'] exI [of _ l'] exI [of _ "list_sort k xs"]) (auto simp: v sort_list_def)
qed

subsection \<open>Two lists\<close>

text \<open>Two different lists over one heap own different nodes.\<close>

definition apart :: "random_access_list \<Rightarrow> addr list \<Rightarrow> random_access_list \<Rightarrow> addr list \<Rightarrow> bool" where
  "apart l xs m ys \<longleftrightarrow> ral_at l \<noteq> ral_at m \<and> owned (ral_impl l) xs \<inter> owned (ral_impl m) ys = {}"

lemma set_merge_nodes: "mset (merge_nodes c xs ys) = mset xs + mset ys"
  by (induction c xs ys rule: merge_nodes.induct) auto

lemma vals_merge_nodes:
  "vals h (merge_nodes (node_less c h) xs ys) = merge_nodes c (vals h xs) (vals h ys)"
  by (induction "node_less c h" xs ys rule: merge_nodes.induct) (auto simp: node_less_def)

lemma sorted_merge_nodes:
  assumes "transp (\<lambda>x y. \<not> c y x)" "\<And>x y. c x y \<Longrightarrow> \<not> c y x"
    "sorted_wrt (\<lambda>x y. \<not> c y x) xs" "sorted_wrt (\<lambda>x y. \<not> c y x) ys"
  shows "sorted_wrt (\<lambda>x y. \<not> c y x) (merge_nodes c xs ys)"
  using assms
proof (induction c xs ys rule: merge_nodes.induct)
  case (3 c x xs y ys)
  have s: "set (merge_nodes c us ws) = set us \<union> set ws" for us ws :: "'a list"
    using arg_cong [OF set_merge_nodes [of c us ws], of set_mset] by simp
  have tr: "\<not> c z u" if "\<not> c z w" "\<not> c w u" for u w z
    using 3(3) that by (auto simp: transp_def)
  show ?case
  proof (cases "c y x")
    case True
    have "sorted_wrt (\<lambda>x y. \<not> c y x) (merge_nodes c (x # xs) ys)"
      using 3(1) [OF True] 3(3-6) by simp
    moreover have "\<not> c z y" if "z \<in> set (x # xs) \<union> set ys" for z
      using that 3(4) [OF True] 3(5,6) tr by auto
    ultimately show ?thesis using True by (simp add: s)
  next
    case False
    have "sorted_wrt (\<lambda>x y. \<not> c y x) (merge_nodes c xs (y # ys))"
      using 3(2) [OF False] 3(3-6) by simp
    moreover have "\<not> c z x" if "z \<in> set xs \<union> set (y # ys)" for z
      using that False 3(5,6) tr by auto
    ultimately show ?thesis using False by (simp add: s)
  qed
qed simp_all

lemma apart_off: "apart l xs m ys \<Longrightarrow> a \<in> owned (ral_impl m) ys \<Longrightarrow> a \<notin> owned (ral_impl l) xs"
  by (auto simp: apart_def)

theorem merge_spec:
  assumes inv: "ral_inv h l xs" "ral_inv h m ys" and ap: "apart l xs m ys"
    and sz: "length xs + length ys + 2 < 2 ^ 32"
  shows "\<exists>h' l' m' ns. merge_private dbg h l m less_comp = Some (h', l', m') \<and> ral_inv h' l' ns \<and>
    ral_inv h' m' [] \<and> same_object l l' \<and> same_object m m' \<and> set ns = set xs \<union> set ys \<and>
    (\<forall>a. a \<notin> owned (ral_impl l) xs \<union> owned (ral_impl m) ys \<longrightarrow> h' a = h a) \<and>
    vals h' ns = merge_nodes less_comp (vals h xs) (vals h ys)"
proof -
  obtain k l1 where k: "moveNodes dbg h (ral_impl l) = Some (k, ral_impl l1, xs)"
    "l1 = l\<lparr>ral_impl := ral_impl l1\<rparr>" "ral_inv k l1 []" "same_object l l1" "val_at k = val_at h"
    "\<forall>a\<in>set xs. fresh_node k a" "\<forall>a. a \<notin> owned (ral_impl l) xs \<longrightarrow> k a = h a"
    "set xs \<inter> owned (ral_impl l1) [] = {}"
    using moveNodes_ral [OF inv(1), of dbg] by blast
  have invm: "ral_inv k m ys"
    by (rule stump_inv_off [OF inv(2)]) (use k(7) apart_off [OF ap] in blast)
  obtain k2 m1 where m: "moveNodes dbg k (ral_impl m) = Some (k2, ral_impl m1, ys)"
    "m1 = m\<lparr>ral_impl := ral_impl m1\<rparr>" "ral_inv k2 m1 []" "same_object m m1" "val_at k2 = val_at k"
    "\<forall>a\<in>set ys. fresh_node k2 a" "\<forall>a. a \<notin> owned (ral_impl m) ys \<longrightarrow> k2 a = k a"
    "set ys \<inter> owned (ral_impl m1) [] = {}"
    using moveNodes_ral [OF invm, of dbg] by blast
  have off: "a \<notin> owned (ral_impl m) ys" if "a \<in> set xs \<or> a \<in> owned (ral_impl l1) []" for a
    using that ap owned_same [OF k(4), of "[]"] by (auto simp: apart_def owned_def)
  have inv1: "ral_inv k2 l1 []"
    by (rule stump_inv_off [OF k(3)]) (use m(7) off in blast)
  have frx: "fresh_node k2 a" if "a \<in> set xs" for a
    using k(6) m(7) off that by (simp add: fresh_node_def)
  let ?ns = "merge_nodes (node_less less_comp k2) xs ys"
  have ms: "mset ?ns = mset xs + mset ys" by (rule set_merge_nodes)
  have sn: "set ?ns = set xs \<union> set ys" using arg_cong [OF ms, of set_mset] by simp
  have len: "length ?ns = length xs + length ys" using arg_cong [OF ms, of size] by simp
  have "set xs \<inter> set ys = {}" using ap by (auto simp: apart_def owned_def)
  then have "distinct (xs @ ys)"
    using stump_inv_distinct [OF inv(1)] stump_inv_distinct [OF inv(2)] by simp
  then have dn: "distinct ?ns" using ms by (metis mset_append mset_eq_imp_distinct_iff)
  have "set ys \<inter> owned (ral_impl l1) [] = {}" using off by (auto simp: owned_def)
  then have dis: "set ?ns \<inter> owned (ral_impl l1) ([] @ []) = {}" using sn k(8) by auto
  obtain h' l' where h': "insertNodesFromListAndReturnFirstInserted dbg k2 l1 ?ns (position [] l1) =
      Some (h', l', position (?ns @ []) l')" "ral_inv h' l' ([] @ ?ns @ [])" "same_object l1 l'"
    "val_at h' = val_at k2" "\<forall>a. a \<notin> owned (ral_impl l1) ([] @ ?ns @ []) \<longrightarrow> h' a = k2 a"
    by (rule insertNodesFromList_spec [of k2 l1 "[]" "[]" ?ns dbg])
      (use inv1 frx m(6) sn dn dis len sz in auto)
  have "ral_inv h' m1 []"
  proof (rule stump_inv_off [OF m(3)])
    fix a assume a: "a \<in> owned (ral_impl m1) []"
    then have "a \<in> owned (ral_impl m) ys" using owned_same [OF m(4), of "[]"] by (auto simp: owned_def)
    then have "a \<notin> owned (ral_impl l1) ?ns" using off a m(8) sn by (auto simp: owned_def)
    with h'(5) show "h' a = k2 a" by simp
  qed
  moreover have "vals h' ?ns = merge_nodes less_comp (vals h xs) (vals h ys)"
    using vals_merge_nodes [of k2 less_comp xs ys] h'(4) m(5) k(5) by (simp add: vals_def)
  moreover have "merge_private dbg h l m less_comp = Some (h', l', m1)"
    using ap k(1,2) m(1,2) h'(1) assert_empty_spec [OF inv1, of dbg] assert_empty_spec [OF m(3), of dbg]
      ral_begin_spec [OF inv1, of dbg]
    by (simp add: merge_private_def apart_def Let_def)
  moreover have "h' a = h a" if "a \<notin> owned (ral_impl l) xs \<union> owned (ral_impl m) ys" for a
  proof -
    have "a \<notin> owned (ral_impl l1) ?ns" using that sn owned_same [OF k(4), of ?ns] by (auto simp: owned_def)
    with h'(5) m(7) k(7) that show ?thesis by simp
  qed
  ultimately show ?thesis using h'(2) m(4) sn same_object_trans [OF k(4) h'(3)]
    by (intro exI [of _ h'] exI [of _ l'] exI [of _ m1] exI [of _ ?ns]) auto
qed

end
