(* ===== verification/Ral_Lifecycle.thy ===== *)
theory Ral_Lifecycle
  imports Ral_Rearrange
begin

section \<open>Splicing, construction, destruction and assignment\<close>

text \<open>
  The operations that involve two lists or the birth and death of one: \<open>splice\<close> in its three
  forms, the constructors, the destructor and \<open>assign\<close> with its exception guarantee.
\<close>

subsection \<open>splice\<close>

lemma splice_insert:
  assumes inv: "ral_inv h l (xs @ zs)" "ral_inv h m us" and ap: "apart l (xs @ zs) m us"
    and fr: "\<forall>a\<in>set ns. fresh_node h a" "distinct ns" "set ns \<inter> owned (ral_impl l) (xs @ zs) = {}"
      "set ns \<inter> owned (ral_impl m) us = {}"
    and sz: "length (xs @ ns @ zs) + 2 < 2 ^ 32"
  obtains h' l' where "insertNodesFromListAndReturnFirstInserted dbg h l ns (position zs l) =
      Some (h', l', position (ns @ zs) l')" "ral_inv h' l' (xs @ ns @ zs)" "ral_inv h' m us"
    "same_object l l'" "val_at h' = val_at h" "\<forall>a. a \<notin> owned (ral_impl l) (xs @ ns @ zs) \<longrightarrow> h' a = h a"
proof -
  obtain h' l' where h': "insertNodesFromListAndReturnFirstInserted dbg h l ns (position zs l) =
      Some (h', l', position (ns @ zs) l')" "ral_inv h' l' (xs @ ns @ zs)" "same_object l l'"
    "val_at h' = val_at h" "\<forall>a. a \<notin> owned (ral_impl l) (xs @ ns @ zs) \<longrightarrow> h' a = h a"
    using insertNodesFromList_spec [OF inv(1) fr(1,2,3) sz, of dbg] by blast
  have "ral_inv h' m us"
  proof (rule stump_inv_off [OF inv(2)])
    fix a assume "a \<in> owned (ral_impl m) us"
    then have "a \<notin> owned (ral_impl l) (xs @ ns @ zs)"
      using ap fr(4) by (auto simp: apart_def owned_def)
    with h'(5) show "h' a = h a" by simp
  qed
  with that h' show ?thesis by blast
qed

theorem splice_all_spec:
  assumes inv: "ral_inv h l (xs @ zs)" "ral_inv h m ys" and ap: "apart l (xs @ zs) m ys"
    and sz: "length (xs @ ys @ zs) + 2 < 2 ^ 32"
  shows "\<exists>h' l' m'. splice_all dbg h l (position zs l) m = Some (h', l', m') \<and>
    ral_inv h' l' (xs @ ys @ zs) \<and> ral_inv h' m' [] \<and> same_object l l' \<and> same_object m m' \<and>
    (\<forall>a. a \<notin> owned (ral_impl l) (xs @ zs) \<union> owned (ral_impl m) ys \<longrightarrow> h' a = h a) \<and>
    vals h' (xs @ ys @ zs) = vals h xs @ vals h ys @ vals h zs"
proof -
  obtain k m1 where k: "moveNodes dbg h (ral_impl m) = Some (k, ral_impl m1, ys)"
    "m1 = m\<lparr>ral_impl := ral_impl m1\<rparr>" "ral_inv k m1 []" "same_object m m1" "val_at k = val_at h"
    "\<forall>a\<in>set ys. fresh_node k a" "\<forall>a. a \<notin> owned (ral_impl m) ys \<longrightarrow> k a = h a"
    "set ys \<inter> owned (ral_impl m1) [] = {}"
    using moveNodes_ral [OF inv(2), of dbg] by blast
  have inv1: "ral_inv k l (xs @ zs)"
    by (rule stump_inv_off [OF inv(1)]) (use k(7) ap in \<open>auto simp: apart_def\<close>)
  have ap1: "apart l (xs @ zs) m1 []" "set ys \<inter> owned (ral_impl l) (xs @ zs) = {}"
    using ap k(4) owned_same [OF k(4), of "[]"] by (auto simp: apart_def same_object_def owned_def)
  obtain h' l' where h': "insertNodesFromListAndReturnFirstInserted dbg k l ys (position zs l) =
      Some (h', l', position (ys @ zs) l')" "ral_inv h' l' (xs @ ys @ zs)" "ral_inv h' m1 []"
    "same_object l l'" "val_at h' = val_at k" "\<forall>a. a \<notin> owned (ral_impl l) (xs @ ys @ zs) \<longrightarrow> h' a = k a"
    using splice_insert [OF inv1 k(3) ap1(1) k(6) stump_inv_distinct [OF inv(2)] ap1(2) k(8) sz, of dbg] by blast
  have "splice_all dbg h l (position zs l) m = Some (h', l', m1)"
    using ap k(1,2) assert_empty_spec [OF k(3), of dbg] h'(1) by (simp add: splice_all_def apart_def Let_def)
  moreover have "h' a = h a" if "a \<notin> owned (ral_impl l) (xs @ zs) \<union> owned (ral_impl m) ys" for a
    using that h'(6) k(7) by (auto simp: owned_def)
  ultimately show ?thesis using h' k(4,5)
    by (intro exI [of _ h'] exI [of _ l'] exI [of _ m1] conjI allI impI) (auto simp: vals_def)
qed

text \<open>A range: with assertions only an empty one gets through.\<close>

theorem splice_range_evolves:
  assumes inv: "ral_inv h l (xs @ zs)" "ral_inv h m (us @ ys @ ws)" and ap: "apart l (xs @ zs) m (us @ ys @ ws)"
    and sz: "length (xs @ ys @ zs) + 2 < 2 ^ 32" and dbg: "dbg \<Longrightarrow> ys = []"
  shows "\<exists>h' l' m'. splice_range dbg h l (position zs l) m (position (ys @ ws) m) (position ws m) = Some (h', l', m') \<and>
    ral_inv h' l' (xs @ ys @ zs) \<and> ral_inv h' m' (us @ ws) \<and> same_object l l' \<and> same_object m m' \<and>
    (\<forall>a. a \<notin> owned (ral_impl l) (xs @ zs) \<union> owned (ral_impl m) (us @ ys @ ws) \<longrightarrow> h' a = h a) \<and>
    vals h' (xs @ ys @ zs) = vals h xs @ vals h ys @ vals h zs \<and> vals h' (us @ ws) = vals h (us @ ws)"
proof -
  obtain k s where k: "moveNodes_range dbg h (ral_impl m) (first_of (ys @ ws) (ral_impl m)) (first_of ws (ral_impl m)) [] =
      Some (k, s, ys)" "stump_inv k s (us @ ws)" "same_gaps (ral_impl m) s" "val_at k = val_at h"
    "\<forall>a\<in>set ys. fresh_node k a" "\<forall>b. b \<notin> owned (ral_impl m) (us @ ys @ ws) \<longrightarrow> k b = h b"
  proof (cases dbg)
    case True
    then have "ys = []" by (rule dbg)
    then show ?thesis using that [of h "ral_impl m"] inv(2) by (simp add: moveNodes_range.simps)
  next
    case False
    then show ?thesis using that moveNodes_range_stump [OF inv(2), of "[]"] by auto
  qed
  let ?m = "m\<lparr>ral_impl := s\<rparr>"
  have inv1: "ral_inv k l (xs @ zs)"
    by (rule stump_inv_off [OF inv(1)]) (use k(6) ap in \<open>auto simp: apart_def\<close>)
  have invm: "ral_inv k ?m (us @ ws)" using k(2) by simp
  have gm: "same_object m ?m" using k(3) by (simp add: same_object_def)
  from inv(2) obtain bb e where g: "s_before_begin (ral_impl m) = Some bb" "s_end (ral_impl m) = Some e"
    "distinct (bb # (us @ ys @ ws) @ [e])" by (rule stump_invE)
  have own: "owned s (us @ ws) \<subseteq> owned (ral_impl m) (us @ ys @ ws)"
    using owned_gaps [OF k(3), of "us @ ws"] by (auto simp: owned_def)
  have dy: "distinct ys" "set ys \<inter> owned (ral_impl ?m) (us @ ws) = {}"
    using g owned_gaps [OF k(3), of "us @ ws"] by (auto simp: owned_def)
  have ap1: "apart l (xs @ zs) ?m (us @ ws)" using ap own by (auto simp: apart_def)
  have ny: "set ys \<inter> owned (ral_impl l) (xs @ zs) = {}" using ap by (auto simp: apart_def owned_def)
  obtain h' l' where h': "insertNodesFromListAndReturnFirstInserted dbg k l ys (position zs l) =
      Some (h', l', position (ys @ zs) l')" "ral_inv h' l' (xs @ ys @ zs)" "ral_inv h' ?m (us @ ws)"
    "same_object l l'" "val_at h' = val_at k" "\<forall>a. a \<notin> owned (ral_impl l) (xs @ ys @ zs) \<longrightarrow> h' a = k a"
    using splice_insert [OF inv1 invm ap1 k(5) dy(1) ny dy(2) sz, of dbg] by blast
  have "splice_range dbg h l (position zs l) m (position (ys @ ws) m) (position ws m) = Some (h', l', ?m)"
    using k(1) h'(1) ap by (simp add: splice_range_def Let_def apart_def)
  moreover have "h' a = h a" if "a \<notin> owned (ral_impl l) (xs @ zs) \<union> owned (ral_impl m) (us @ ys @ ws)" for a
    using that h'(6) k(6) by (auto simp: owned_def)
  ultimately show ?thesis using h' k(4) gm
    by (intro exI [of _ h'] exI [of _ l'] exI [of _ ?m] conjI allI impI) (auto simp: vals_def)
qed

text \<open>In a build without assertions.\<close>

theorem splice_range_spec:
  assumes "ral_inv h l (xs @ zs)" "ral_inv h m (us @ ys @ ws)" "apart l (xs @ zs) m (us @ ys @ ws)"
    "length (xs @ ys @ zs) + 2 < 2 ^ 32"
  shows "\<exists>h' l' m'. splice_range False h l (position zs l) m (position (ys @ ws) m) (position ws m) = Some (h', l', m') \<and>
    ral_inv h' l' (xs @ ys @ zs) \<and> ral_inv h' m' (us @ ws) \<and> same_object l l' \<and> same_object m m' \<and>
    vals h' (xs @ ys @ zs) = vals h xs @ vals h ys @ vals h zs \<and> vals h' (us @ ws) = vals h (us @ ws)"
  using splice_range_evolves [OF assms, of False] by blast

text \<open>With assertions a range that is not empty crashes.\<close>

lemma splice_range_debug:
  "it_current first \<noteq> it_current last_it \<Longrightarrow> splice_range True h l pos m first last_it = None"
  by (simp add: splice_range_def moveNodes_range_debug checkIteratorBelongsToCoollection_def ASSERT_def)

text \<open>The one-element form moves the element and everything behind it.\<close>

theorem splice_one_spec:
  assumes inv: "ral_inv h l (xs @ zs)" "ral_inv h m (us @ a # ws)" and ap: "apart l (xs @ zs) m (us @ a # ws)"
    and sz: "length (xs @ zs) + length ws + 3 < 2 ^ 32"
  shows "\<exists>h' l' m'. splice_one False h l (position zs l) m (position (a # ws) m) = Some (h', l', m') \<and>
    ral_inv h' l' (xs @ a # ws @ zs) \<and> ral_inv h' m' us"
  using splice_range_spec [of h l xs zs m us "a # ws" "[]"] ral_end_spec [OF inv(2), of False] inv ap sz
  by (auto simp: splice_one_def)

subsection \<open>Construction and destruction\<close>

lemma makeEmptyNode_ok:
  assumes "alloc_ok env" "\<not> e_unwinding env" "makeEmptyNode env h = (k, Inr a)"
  shows "h a = None" "k = h(a \<mapsto> TAvlTreeNode_new)"
  using assms by (auto simp: makeEmptyNode_def alloc_ok_def split: option.splits)

theorem make_stump_spec:
  assumes env: "alloc_ok env" "\<not> e_unwinding env"
  shows "(\<exists>ex. make_stump env h = Some (h, Inl ex) \<and>
      (\<forall>a. e_alloc env h = Some a \<longrightarrow> e_alloc env (h(a \<mapsto> TAvlTreeNode_new)) = None)) \<or>
    (\<exists>h' s. make_stump env h = Some (h', Inr s) \<and> stump_inv h' s [] \<and>
      (\<forall>a\<in>owned s []. h a = None) \<and> (\<forall>a. a \<notin> owned s [] \<longrightarrow> h' a = h a))"
proof (cases "makeEmptyNode env h")
  case (Pair k r)
  show ?thesis
  proof (cases r)
    case (Inl ex)
    with Pair show ?thesis
      by (auto simp: make_stump_def makeEmptyNode_def split: option.splits)
  next
    case (Inr bb)
    note bb = makeEmptyNode_ok [OF env Pair [unfolded Inr]]
    show ?thesis
    proof (cases "makeEmptyNode env k")
      case (Pair k2 r2)
      show ?thesis
      proof (cases r2)
        case (Inl ex)
        with Pair have "k2 = k" by (auto simp: makeEmptyNode_def split: option.splits)
        then have "deleteEmptyNode k2 (Some bb) = Some h"
          using bb by (auto simp: deleteEmptyNode_def destroy_node_def)
        moreover have "e_alloc env h = Some bb" "e_alloc env k = None"
          using Inl Pair Inr \<open>makeEmptyNode env h = (k, r)\<close> by (auto simp: makeEmptyNode_def split: option.splits)
        ultimately show ?thesis
          using Inl Pair Inr \<open>makeEmptyNode env h = (k, r)\<close> bb(2) by (auto simp: make_stump_def)
      next
        case e: (Inr e)
        note en = makeEmptyNode_ok [OF env Pair [unfolded e]]
        have ne: "bb \<noteq> e" using bb en by auto
        let ?s = "\<lparr>s_root = None, s_before_begin = Some bb, s_begin = None, s_end = Some e\<rparr>"
        have k2: "k2 bb = Some TAvlTreeNode_new" "k2 e = Some TAvlTreeNode_new" using bb en ne by auto
        obtain h' s' where h': "stump_resetInvariant (e_dbg env) k2 ?s = Some (h', s')" "stump_inv h' s' []"
          "same_gaps ?s s'" "\<forall>a. a \<notin> {bb, e} \<longrightarrow> h' a = k2 a"
          by (rule resetInvariant_stump [of ?s bb e k2 _ _ "e_dbg env"]) (use ne k2 that in \<open>auto simp: TAvlTreeNode_new_def\<close>)
        have ow: "owned s' [] = {bb, e}" using h'(3) by (auto simp: same_gaps_def owned_def)
        have "h e = None" using en(1) bb(2) ne by simp
        moreover have "make_stump env h = Some (h', Inr s')"
          using Inr \<open>makeEmptyNode env h = (k, r)\<close> Pair e env(2) h'(1) by (simp add: make_stump_def)
        moreover have "h' a = h a" if "a \<notin> {bb, e}" for a using that h'(4) bb(2) en(2) by simp
        ultimately show ?thesis using h'(2) bb(1) by (auto simp: ow)
      qed
    qed
  qed
qed

text \<open>Whether the allocator can serve the two gap nodes one after the other.\<close>

definition gaps_available :: "'a env \<Rightarrow> 'a heap \<Rightarrow> bool" where
  "gaps_available env h \<longleftrightarrow> (case e_alloc env h of None \<Rightarrow> False
     | Some a \<Rightarrow> e_alloc env (h(a \<mapsto> TAvlTreeNode_new)) \<noteq> None)"

lemma make_stump_fails:
  assumes "alloc_ok env" "\<not> e_unwinding env" "\<not> gaps_available env h"
  shows "make_stump env h = Some (h, Inl Bad_alloc)"
proof (cases "e_alloc env h")
  case None
  then show ?thesis by (simp add: make_stump_def makeEmptyNode_def)
next
  case (Some a)
  have "h a = None" using assms(1) Some by (auto simp: alloc_ok_def)
  then have "deleteEmptyNode (h(a \<mapsto> TAvlTreeNode_new)) (Some a) = Some h"
    by (auto simp: deleteEmptyNode_def destroy_node_def)
  moreover have "e_alloc env (h(a \<mapsto> TAvlTreeNode_new)) = None" using assms(3) Some by (auto simp: gaps_available_def)
  ultimately show ?thesis using Some assms(2) by (simp add: make_stump_def makeEmptyNode_def)
qed

lemma make_stump_succeeds:
  assumes env: "alloc_ok env" "\<not> e_unwinding env" and gaps: "gaps_available env h"
  shows "\<exists>h' s. make_stump env h = Some (h', Inr s) \<and> stump_inv h' s [] \<and>
    (\<forall>a\<in>owned s []. h a = None) \<and> (\<forall>a. a \<notin> owned s [] \<longrightarrow> h' a = h a)"
  using make_stump_spec [OF env, of h] gaps by (auto simp: gaps_available_def split: option.splits)

theorem destroy_stump_spec:
  assumes inv: "stump_inv h s xs"
  shows "destroy_stump dbg h s = Some (\<lambda>a. if a \<in> owned s xs then None else h a)"
proof -
  obtain k s' where k: "destruct_value_and_delete_node_since_begin_to_before_end dbg h s = Some (k, s')"
    "stump_inv k s' []" "same_gaps s s'" "\<forall>a\<in>set xs. k a = None" "\<forall>b. b \<notin> owned s xs \<longrightarrow> k b = h b"
    using clear_stump [OF inv, of dbg] by blast
  from k(2) obtain t bb e where g: "tree_inv k s' t" "s_before_begin s' = Some bb" "s_end s' = Some e"
    "distinct (bb # [] @ [e])" "set_tree t = owned s' []" by (rule stump_invE)
  then have ow: "bb \<in> owned s' []" "e \<in> owned s' []" by (auto simp: owned_def)
  then obtain nb ne where n: "k bb = Some nb" "k e = Some ne"
    using owned_dom [OF k(2), of bb] owned_dom [OF k(2), of e] by auto
  have run: "destroy_stump dbg h s = Some (k(bb := None, e := None))"
    using k(1) g(2,3,4) n by (simp add: destroy_stump_def deleteEmptyNode_def destroy_node_def)
  have ow': "owned s xs = set xs \<union> {bb, e}" using g(2,3) k(3) by (auto simp: same_gaps_def owned_def)
  have "(k(bb := None, e := None)) a = (if a \<in> owned s xs then None else h a)" for a
    using k(4,5) by (auto simp: ow')
  then show ?thesis using run by (simp add: fun_eq_iff)
qed

subsection \<open>assign\<close>

lemma makeImplementation_spec:
  assumes env: "alloc_ok env" "\<not> e_unwinding env" and m: "makeImplementation env (Some place) h = Some (h', Inr l)"
  shows "ral_at l = place \<and> ral_inv h' l [] \<and> (\<forall>a\<in>owned (ral_impl l) []. h a = None) \<and>
    (\<forall>a. a \<notin> owned (ral_impl l) [] \<longrightarrow> h' a = h a)"
  using make_stump_spec [OF env, of h] m by (auto simp: makeImplementation_def implementation_at_def)

lemma makeImplementation_made:
  "makeImplementation env (Some place) h \<noteq> None \<Longrightarrow> \<exists>k l. makeImplementation env (Some place) h = Some (k, Inr l)"
  by (cases "implementation_at env place h") (auto simp: makeImplementation_def)

lemma makeImplementation_gaps:
  assumes env: "alloc_ok env" "\<not> e_unwinding env"
  shows "makeImplementation env (Some place) h \<noteq> None \<longleftrightarrow> gaps_available env h"
  using make_stump_fails [OF env, of h] make_stump_succeeds [OF env, of h]
  by (cases "gaps_available env h") (auto simp: makeImplementation_def implementation_at_def)

lemma makeImplementation_none [simp]: "makeImplementation env None h = Some (h, Inl Bad_alloc)"
  by (simp add: makeImplementation_def)

theorem assign_spec:
  assumes env: "alloc_ok env" "\<not> e_unwinding env" and inv: "ral_inv h l xs"
    and m: "makeImplementation env (Some place) h \<noteq> None" and sz: "length vs + 2 < 2 ^ 32"
  shows "\<exists>k tmp. makeImplementation env (Some place) h = Some (k, Inr tmp) \<and>
   ((\<exists>ex. creation_error env k vs = Some ex \<and> assign env (Some place) h l vs = Some (h, l, Inl ex)) \<or>
    (\<exists>us ns h' l'. creation_error env k vs = None \<and> vs = map Inr us \<and> assign env (Some place) h l vs = Some (h', l', Inr ()) \<and>
      ral_at l' = place \<and> ral_inv h' l' ns \<and> vals h' ns = us \<and>
      (\<forall>a\<in>owned (ral_impl l) xs. h' a = None) \<and> reshapes h (owned (ral_impl l) xs) h' (owned (ral_impl l') ns) \<and>
      (\<forall>a. h a \<noteq> None \<longrightarrow> a \<notin> owned (ral_impl l) xs \<longrightarrow> h' a = h a)))"
proof -
  from makeImplementation_made [OF m] obtain k tmp where k: "makeImplementation env (Some place) h = Some (k, Inr tmp)" by blast
  note t = makeImplementation_spec [OF env k]
  have ap: "owned (ral_impl tmp) [] \<inter> owned (ral_impl l) xs = {}" using t owned_dom [OF inv] by fastforce
  have invl: "ral_inv k l xs" by (rule stump_inv_off [OF inv]) (use t ap in blast)
  have e: "ral_end (e_dbg env) tmp = Some (position [] tmp)" using ral_end_spec t by blast
  have "ral_inv k tmp ([] @ [])" "length ([] @ [] :: addr list) + length vs + 2 < 2 ^ 32"
    using t sz by simp_all
  from insert_range_spec [OF env this] consider
    (throw) ex where "creation_error env k vs = Some ex" "insert_range env k tmp (position [] tmp) vs = Some (k, tmp, Inl ex)"
  | (ok) us ns h' l' it where "creation_error env k vs = None" "vs = map Inr us" "insert_range env k tmp (position [] tmp) vs = Some (h', l', Inr it)"
      "ral_inv h' l' ns" "same_object tmp l'" "vals h' ns = us" "\<forall>a\<in>set ns. k a = None"
      "\<forall>a. a \<notin> owned (ral_impl tmp) ns \<longrightarrow> h' a = k a"
    by fastforce
  then show ?thesis
  proof cases
    case throw
    have "(\<lambda>a. if a \<in> owned (ral_impl tmp) [] then None else k a) = h" using t by (auto simp: fun_eq_iff)
    then have "destroy_stump (e_dbg env) k (ral_impl tmp) = Some h"
      using destroy_stump_spec [of k "ral_impl tmp" "[]"] t by simp
    with k e throw show ?thesis by (auto simp: assign_def)
  next
    case ok
    have own: "owned (ral_impl l') ns = set ns \<union> owned (ral_impl tmp) []"
      using owned_same [OF ok(5), of ns] by (auto simp: owned_def)
    have dis: "owned (ral_impl l') ns \<inter> owned (ral_impl l) xs = {}"
      using ap ok(7) owned_dom [OF invl] unfolding own by fastforce
    have "ral_inv h' l xs"
    proof (rule stump_inv_off [OF invl])
      fix a assume "a \<in> owned (ral_impl l) xs"
      then show "h' a = k a" using ok(8) dis owned_same [OF ok(5), of ns] by blast
    qed
    from destroy_stump_spec [OF this, of "e_dbg env"]
    have ds: "destroy_stump (e_dbg env) h' (ral_impl l) = Some (\<lambda>a. if a \<in> owned (ral_impl l) xs then None else h' a)"
      (is "_ = Some ?h") .
    have eq: "?h a = h' a" if "a \<in> owned (ral_impl l') ns" for a using that dis by auto
    note fin = stump_inv_off [OF ok(4), of ?h, OF eq]
    have kept: "?h a = h a" if "h a \<noteq> None" "a \<notin> owned (ral_impl l) xs" for a
    proof -
      have "a \<notin> owned (ral_impl tmp) []" using t that(1) by auto
      moreover from this have "k a = h a" using t by blast
      ultimately have "a \<notin> owned (ral_impl tmp) ns" using ok(7) that(1) by (auto simp: owned_def)
      with \<open>k a = h a\<close> ok(8) that(2) show ?thesis by simp
    qed
    have new: "h a = None" if "a \<in> owned (ral_impl l') ns" for a
      using that t ok(7) unfolding own by (metis UnE)
    have "?h a = h a" if "a \<notin> owned (ral_impl l) xs \<union> owned (ral_impl l') ns" for a
      using that t ok(8) owned_same [OF ok(5), of ns] own by auto
    then have sh: "reshapes h (owned (ral_impl l) xs) ?h (owned (ral_impl l') ns)"
      using new unfolding reshapes_def by auto
    have "ral_at l' = place" using ok(5) t by (simp add: same_object_def)
    with kept k e ok ds fin sh show ?thesis
      by (intro exI [of _ k] exI [of _ tmp] conjI disjI2 exI [of _ us] exI [of _ ns] exI [of _ ?h] exI [of _ l'])
        (auto simp: assign_def ral_swap_def)
  qed
qed

end
