(* ===== verification/Sequence_Interface.thy ===== *)
theory Sequence_Interface
  imports Cpp_Prelude
begin

section \<open>The contracts the containers share\<close>

text \<open>
  Both containers of the repository, \<open>random_access_list\<close> and \<open>inplace_fixed_deque\<close>, present a
  sequence that can be read by index. The locales state what a client may rely on; the
  lemmas inside them are proved once and hold for every container that provides the laws. The
  abstraction \<open>inv st xs\<close> says that state \<open>st\<close> is well formed and holds the values \<open>xs\<close>.
\<close>

locale indexed_sequence =
  fixes inv :: "'st \<Rightarrow> 'v list \<Rightarrow> bool"
    and len :: "'st \<Rightarrow> nat option"
    and get :: "nat \<Rightarrow> 'st \<Rightarrow> 'v option"
  assumes len_law: "inv st xs \<Longrightarrow> len st = Some (length xs)"
    and get_law: "inv st xs \<Longrightarrow> i < length xs \<Longrightarrow> get i st = Some (xs ! i)"
begin

text \<open>A client that reads every index sees exactly the values, so the abstraction is unique.\<close>

lemma read_all: "inv st xs \<Longrightarrow> map (\<lambda>i. get i st) [0..<length xs] = map Some xs"
  by (rule nth_equalityI) (simp_all add: get_law)

lemma abstraction_unique:
  assumes "inv st xs" "inv st ys"
  shows "xs = ys"
proof (rule nth_equalityI)
  show len: "length xs = length ys" using len_law [OF assms(1)] len_law [OF assms(2)] by simp
  show "xs ! i = ys ! i" if "i < length xs" for i
    using get_law [OF assms(1) that] get_law [OF assms(2), of i] that len by simp
qed

end

text \<open>Editing scripts: what a client of a list does.\<close>

datatype 'v edit = Ins nat 'v | Del nat

text \<open>Their meaning on a plain list; \<open>ok\<close> says which insertions the allocator served.\<close>

fun edit_list :: "'v edit \<Rightarrow> bool \<Rightarrow> 'v list \<Rightarrow> 'v list" where
  "edit_list (Ins i v) ok xs = (if ok then take i xs @ v # drop i xs else xs)"
| "edit_list (Del i) ok xs = take i xs @ drop (Suc i) xs"

fun edit_valid :: "nat \<Rightarrow> 'v edit \<Rightarrow> 'v list \<Rightarrow> bool" where
  "edit_valid cap (Ins i v) xs \<longleftrightarrow> i \<le> length xs \<and> length xs < cap"
| "edit_valid cap (Del i) xs \<longleftrightarrow> i < length xs"

locale editable_sequence = indexed_sequence inv len get
  for inv :: "'st \<Rightarrow> 'v list \<Rightarrow> bool" and len :: "'st \<Rightarrow> nat option" and get :: "nat \<Rightarrow> 'st \<Rightarrow> 'v option" +
  fixes ins :: "nat \<Rightarrow> 'v \<Rightarrow> 'st \<Rightarrow> ('st \<times> bool) option"
    and del :: "nat \<Rightarrow> 'st \<Rightarrow> 'st option"
    and avail :: "'st \<Rightarrow> bool"
    and cap :: nat
  assumes ins_law: "inv st xs \<Longrightarrow> i \<le> length xs \<Longrightarrow> length xs < cap \<Longrightarrow>
      \<exists>st'. ins i v st = Some (st', avail st) \<and> inv st' (edit_list (Ins i v) (avail st) xs)"
    and del_law: "inv st xs \<Longrightarrow> i < length xs \<Longrightarrow>
      \<exists>st'. del i st = Some st' \<and> inv st' (take i xs @ drop (Suc i) xs)"
begin

fun apply_edit :: "'v edit \<Rightarrow> 'st \<Rightarrow> ('st \<times> bool) option" where
  "apply_edit (Ins i v) st = ins i v st"
| "apply_edit (Del i) st = do { st' \<leftarrow> del i st; Some (st', True) }"

fun run_script :: "'v edit list \<Rightarrow> 'st \<Rightarrow> ('st \<times> bool list) option" where
  "run_script [] st = Some (st, [])"
| "run_script (e # es) st = do {
     (st', ok) \<leftarrow> apply_edit e st;
     (st'', oks) \<leftarrow> run_script es st';
     Some (st'', ok # oks) }"

text \<open>An insertion succeeds exactly when the allocator can serve it at that moment.\<close>

fun serves :: "'v edit \<Rightarrow> 'st \<Rightarrow> bool" where
  "serves (Ins i v) st \<longleftrightarrow> avail st"
| "serves (Del i) st \<longleftrightarrow> True"

fun served :: "'v edit list \<Rightarrow> 'st \<Rightarrow> bool list" where
  "served [] st = []"
| "served (e # es) st = serves e st # (case apply_edit e st of None \<Rightarrow> [] | Some (st', ok) \<Rightarrow> served es st')"

lemma apply_edit_refines:
  assumes "inv st xs" "edit_valid cap e xs"
  shows "\<exists>st'. apply_edit e st = Some (st', serves e st) \<and> inv st' (edit_list e (serves e st) xs)"
proof (cases e)
  case (Ins i v)
  with assms ins_law [of st xs i v] show ?thesis by auto
next
  case (Del i)
  with assms del_law [of st xs i] show ?thesis by auto
qed

end

text \<open>A script is valid when every step is, whatever the allocator answers.\<close>

fun script_valid :: "nat \<Rightarrow> 'v edit list \<Rightarrow> 'v list \<Rightarrow> bool" where
  "script_valid cap [] xs \<longleftrightarrow> True"
| "script_valid cap (e # es) xs \<longleftrightarrow> edit_valid cap e xs \<and> (\<forall>ok. script_valid cap es (edit_list e ok xs))"

fun script_list :: "'v edit list \<Rightarrow> bool list \<Rightarrow> 'v list \<Rightarrow> 'v list" where
  "script_list (e # es) (ok # oks) xs = script_list es oks (edit_list e ok xs)"
| "script_list es oks xs = xs"

context editable_sequence
begin

text \<open>Refinement: a valid script runs to its end and leaves what the list semantics says.\<close>

lemma run_script_refines:
  assumes "inv st xs" "script_valid cap es xs"
  shows "\<exists>st'. run_script es st = Some (st', served es st) \<and> length (served es st) = length es \<and>
    inv st' (script_list es (served es st) xs)"
  using assms
proof (induction es arbitrary: st xs)
  case Nil
  then show ?case by simp
next
  case (Cons e es)
  from Cons.prems apply_edit_refines [of st xs e] obtain st1 where
    1: "apply_edit e st = Some (st1, serves e st)" "inv st1 (edit_list e (serves e st) xs)" by auto
  with Cons.IH [OF 1(2)] Cons.prems(2) obtain st' where
    "run_script es st1 = Some (st', served es st1)" "length (served es st1) = length es"
    "inv st' (script_list es (served es st1) (edit_list e (serves e st) xs))" by auto
  with 1 show ?case by (intro exI [of _ st']) simp
qed

end

subsection \<open>Double-ended queues\<close>

datatype 'v queue_op = Push_back 'v | Push_front 'v | Pop_back | Pop_front

fun queue_list :: "'v queue_op \<Rightarrow> 'v list \<Rightarrow> 'v list" where
  "queue_list (Push_back v) xs = xs @ [v]"
| "queue_list (Push_front v) xs = v # xs"
| "queue_list Pop_back xs = butlast xs"
| "queue_list Pop_front xs = tl xs"

fun queue_valid :: "nat \<Rightarrow> 'v queue_op \<Rightarrow> 'v list \<Rightarrow> bool" where
  "queue_valid cap (Push_back v) xs \<longleftrightarrow> length xs < cap"
| "queue_valid cap (Push_front v) xs \<longleftrightarrow> length xs < cap"
| "queue_valid cap Pop_back xs \<longleftrightarrow> xs \<noteq> []"
| "queue_valid cap Pop_front xs \<longleftrightarrow> xs \<noteq> []"

fun queue_script_valid :: "nat \<Rightarrow> 'v queue_op list \<Rightarrow> 'v list \<Rightarrow> bool" where
  "queue_script_valid cap [] xs \<longleftrightarrow> True"
| "queue_script_valid cap (q # qs) xs \<longleftrightarrow> queue_valid cap q xs \<and> queue_script_valid cap qs (queue_list q xs)"

locale bounded_deque = indexed_sequence inv len get
  for inv :: "'st \<Rightarrow> 'v list \<Rightarrow> bool" and len :: "'st \<Rightarrow> nat option" and get :: "nat \<Rightarrow> 'st \<Rightarrow> 'v option" +
  fixes step :: "'v queue_op \<Rightarrow> 'st \<Rightarrow> 'st option"
    and cap :: nat
  assumes step_law: "inv st xs \<Longrightarrow> queue_valid cap q xs \<Longrightarrow> \<exists>st'. step q st = Some st' \<and> inv st' (queue_list q xs)"
begin

fun run_queue :: "'v queue_op list \<Rightarrow> 'st \<Rightarrow> 'st option" where
  "run_queue [] st = Some st"
| "run_queue (q # qs) st = do { st' \<leftarrow> step q st; run_queue qs st' }"

lemma run_queue_refines:
  "inv st xs \<Longrightarrow> queue_script_valid cap qs xs \<Longrightarrow>
   \<exists>st'. run_queue qs st = Some st' \<and> inv st' (fold queue_list qs xs)"
proof (induction qs arbitrary: st xs)
  case (Cons q qs)
  then show ?case using step_law [of st xs q] by fastforce
qed simp

text \<open>First in, first out: what was pushed at the back is read from the front, in order.\<close>

lemma fifo_script: "fold queue_list (map Push_back vs) xs = xs @ vs"
  by (induction vs arbitrary: xs) simp_all

lemma fifo_valid: "length xs + length vs \<le> cap \<Longrightarrow> queue_script_valid cap (map Push_back vs) xs"
  by (induction vs arbitrary: xs) simp_all

lemma fifo:
  assumes "inv st []" "length vs \<le> cap"
  shows "\<exists>st'. run_queue (map Push_back vs) st = Some st' \<and> map (\<lambda>i. get i st') [0..<length vs] = map Some vs"
  using run_queue_refines [OF assms(1) fifo_valid, of vs] assms(2) fifo_script [of vs "[]"] read_all by fastforce

end

end
