(* ===== verification/Ral_Sequence.thy ===== *)
theory Ral_Sequence
  imports Ral_Lifecycle Sequence_Interface
begin

section \<open>random_access_list provides the sequence contracts\<close>

text \<open>
  A client edits a list through iterators: \<open>begin() + i\<close> and then \<open>emplace\<close> or
  \<open>erase\<close>. These client calls, composed of the container's operations, satisfy the laws of
  \<open>editable_sequence\<close>; scripts of edits therefore behave as on plain lists, for every
  allocator and with assertions compiled in or not.
\<close>

type_synonym 'a ral_state = "'a heap \<times> random_access_list"

definition iterator_plus :: "bool \<Rightarrow> 'a heap \<Rightarrow> random_access_list \<Rightarrow> nat \<Rightarrow> TRandomAccessIterator option" where
  "iterator_plus dbg h l i = do { it \<leftarrow> ral_begin dbg l; iterator_advance dbg h l it (of_nat i) }"

definition insert_nth :: "'a env \<Rightarrow> nat \<Rightarrow> 'a \<Rightarrow> 'a ral_state \<Rightarrow> ('a ral_state \<times> bool) option" where
  "insert_nth env i v st = (case st of (h, l) \<Rightarrow> do {
     it \<leftarrow> iterator_plus (e_dbg env) h l i;
     (h, l, r) \<leftarrow> emplace env h l it (Inr v);
     Some ((h, l), \<not> isl r) })"

definition erase_nth :: "'a env \<Rightarrow> nat \<Rightarrow> 'a ral_state \<Rightarrow> 'a ral_state option" where
  "erase_nth env i st = (case st of (h, l) \<Rightarrow> do {
     it \<leftarrow> iterator_plus (e_dbg env) h l i;
     (h, l, _) \<leftarrow> erase (e_dbg env) h l it;
     Some (h, l) })"

definition ral_get :: "'a env \<Rightarrow> nat \<Rightarrow> 'a ral_state \<Rightarrow> 'a option" where
  "ral_get env i st = (case st of (h, l) \<Rightarrow> operator_index (e_dbg env) h l (of_nat i))"

definition ral_len :: "'a env \<Rightarrow> 'a ral_state \<Rightarrow> nat option" where
  "ral_len env st = (case st of (h, l) \<Rightarrow> map_option unat (ral_size (e_dbg env) h l))"

text \<open>Jumps use the signed \<open>difference_type\<close>, so the client keeps below half the address range.\<close>

definition ral_cap :: nat where "ral_cap = 2 ^ 31 - 3"

definition ral_avail :: "'a env \<Rightarrow> 'a ral_state \<Rightarrow> bool" where
  "ral_avail env st \<longleftrightarrow> e_alloc env (fst st) \<noteq> None"

definition ral_holds :: "'a env \<Rightarrow> 'a ral_state \<Rightarrow> 'a list \<Rightarrow> bool" where
  "ral_holds env st vs \<longleftrightarrow> alloc_ok env \<and> \<not> e_unwinding env \<and> length vs \<le> ral_cap \<and>
     (\<exists>xs. ral_inv (fst st) (snd st) xs \<and> vals (fst st) xs = vs)"

lemma iterator_plus_spec:
  assumes inv: "ral_inv h l xs" and i: "i \<le> length xs" and sz: "length xs \<le> ral_cap"
  shows "iterator_plus dbg h l i = Some (position (drop i xs) l)"
proof -
  let ?s = "ral_impl l"
  from inv obtain t bb e where t: "tree_inv h ?s t" "inorder t = bb # xs @ [e]" "s_end ?s = Some e"
    "distinct (bb # xs @ [e])" "size t = length xs + 2" by (rule stump_invE)
  have i31: "int i < 2 ^ 31" using i sz by (simp add: ral_cap_def)
  then have si: "sint (of_nat i :: size_t) = int i"
    using sint_sbintrunc' [where 'a = 32, of "int i"] by (simp add: signed_take_bit_int_eq_self)
  have nth: "first_of (drop j xs) ?s = Some (inorder t ! Suc j)" if "j \<le> length xs" for j
    using t(2,3) that by (cases "drop j xs") (auto simp: nth_append drop_eq_Nil2 nth_via_drop)
  have "go_to dbg h ?s (Some (inorder t ! Suc 0)) (of_nat i) = Some (Some (inorder t ! Suc i))"
    by (rule go_to_spec [OF t(1)]) (use t(5) i sz si in \<open>auto simp: ral_cap_def\<close>)
  then have g: "go_to dbg h ?s (first_of xs ?s) (of_nat i) = Some (first_of (drop i xs) ?s)"
    using nth [of 0] nth [OF i] by simp
  have ne: "first_of xs ?s \<noteq> s_end ?s" if "i \<noteq> 0"
    using that i t(3,4) by (cases xs) auto
  show ?thesis
    using stump_gets [OF inv] ral_begin_spec [OF inv, of dbg] g si ne nth [OF i] position_update [of xs l "drop i xs"]
    by (cases "i = 0") (auto simp: iterator_plus_def iterator_advance_def)
qed

lemma ral_holds_index:
  "ral_holds env st vs \<Longrightarrow> ral_len env st = Some (length vs)"
  "ral_holds env st vs \<Longrightarrow> i < length vs \<Longrightarrow> ral_get env i st = Some (vs ! i)"
  by (auto simp: ral_holds_def ral_len_def ral_get_def ral_cap_def ral_size_spec operator_index_spec
      unat_of_nat_size_t split: prod.splits)

lemma ral_holds_insert:
  assumes "ral_holds env st vs" "i \<le> length vs" "length vs < ral_cap"
  shows "\<exists>st'. insert_nth env i v st = Some (st', ral_avail env st) \<and>
    ral_holds env st' (edit_list (Ins i v) (ral_avail env st) vs)"
proof -
  from assms obtain h l xs where st: "st = (h, l)" "ral_inv h l xs" "vals h xs = vs" "alloc_ok env"
    "\<not> e_unwinding env" by (cases st) (auto simp: ral_holds_def)
  have len: "length xs = length vs" using st(3) by auto
  have it: "iterator_plus (e_dbg env) h l i = Some (position (drop i xs) l)"
    using iterator_plus_spec [OF st(2)] assms(2,3) len by simp
  have inv: "ral_inv h l (take i xs @ drop i xs)" using st(2) by simp
  have vv: "vals h (take i xs) = take i vs" "vals h (drop i xs) = drop i vs"
    using st(3) by (auto simp: vals_def take_map drop_map)
  have "length (take i xs @ drop i xs) + 3 < 2 ^ 32" using assms(3) len by (simp add: ral_cap_def)
  from emplace_spec [OF st(4,5) inv this, of "Inr v"] show ?thesis
  proof (elim disjE exE conjE)
    fix ex assume "emplace env h l (position (drop i xs) l) (Inr v) = Some (h, l, Inl ex)" "e_alloc env h = None"
    then show ?thesis using it st assms(1) by (auto simp: insert_nth_def ral_avail_def)
  next
    fix x a h' l'
    assume "Inr v = (Inr x :: cpp_exception + 'a)" "e_alloc env h = Some a"
      "emplace env h l (position (drop i xs) l) (Inr v) = Some (h', l', Inr (position (a # drop i xs) l'))"
      "ral_inv h' l' (take i xs @ a # drop i xs)"
      "vals h' (take i xs @ a # drop i xs) = vals h (take i xs) @ x # vals h (drop i xs)"
    then show ?thesis using it st vv assms(3) unfolding ral_holds_def
      by (intro exI [of _ "(h', l')"] conjI) (auto simp: insert_nth_def ral_avail_def)
  qed simp
qed

lemma ral_holds_erase:
  assumes "ral_holds env st vs" "i < length vs"
  shows "\<exists>st'. erase_nth env i st = Some st' \<and> ral_holds env st' (take i vs @ drop (Suc i) vs)"
proof -
  from assms obtain h l xs where st: "st = (h, l)" "ral_inv h l xs" "vals h xs = vs" "alloc_ok env"
    "\<not> e_unwinding env" "length vs \<le> ral_cap" by (cases st) (auto simp: ral_holds_def)
  have len: "length xs = length vs" using st(3) by auto
  have it: "iterator_plus (e_dbg env) h l i = Some (position (xs ! i # drop (Suc i) xs) l)"
    using iterator_plus_spec [OF st(2)] assms(2) st(6) len by (simp add: Cons_nth_drop_Suc)
  have "ral_inv h l (take i xs @ xs ! i # drop (Suc i) xs)"
    using st(2) assms(2) len by (metis id_take_nth_drop)
  then obtain h' l' where h': "erase (e_dbg env) h l (position (xs ! i # drop (Suc i) xs) l) =
      Some (h', l', position (drop (Suc i) xs) l')" "ral_inv h' l' (take i xs @ drop (Suc i) xs)"
    "vals h' (take i xs @ drop (Suc i) xs) = vals h (take i xs) @ vals h (drop (Suc i) xs)"
    by (rule erase_vals)
  have "vals h (take i xs) = take i vs" "vals h (drop (Suc i) xs) = drop (Suc i) vs"
    using st(3) by (auto simp: vals_def take_map drop_map)
  with h' it st assms(2) show ?thesis unfolding ral_holds_def
    by (intro exI [of _ "(h', l')"] conjI) (auto simp: erase_nth_def)
qed

interpretation ral: editable_sequence "ral_holds env" "ral_len env" "ral_get env" "insert_nth env"
  "erase_nth env" "ral_avail env" ral_cap for env
proof unfold_locales
qed (fact ral_holds_index ral_holds_insert ral_holds_erase)+

end
