(* ===== verification/Ral_Demo.thy ===== *)
theory Ral_Demo
  imports Ral_Sequence
begin

section \<open>A concrete list\<close>

text \<open>
  A heap that holds a list with the three values 10, 20 and 30 (element nodes 1, 2 and 3 between
  the gap nodes 0 and 4), a second empty list (gap nodes 5 and 6) and one node (9) that is ready
  to be inserted. It instantiates the general theorems.
\<close>

definition mk_node :: "nat option \<Rightarrow> ptr \<Rightarrow> nat \<Rightarrow> nat \<Rightarrow> ptr \<Rightarrow> ptr \<Rightarrow> nat TAvlTreeNode" where
  "mk_node v p ht sz l r = \<lparr>nd_value = v, nd_parent = p, nd_height = of_nat ht, nd_size = of_nat sz,
     nd_left = l, nd_right = r\<rparr>"

definition demo_heap :: "nat heap" where
  "demo_heap = [0 \<mapsto> mk_node None (Some 1) 1 1 None None,
     1 \<mapsto> mk_node (Some 10) (Some 2) 2 2 (Some 0) None,
     2 \<mapsto> mk_node (Some 20) None 3 5 (Some 1) (Some 4),
     3 \<mapsto> mk_node (Some 30) (Some 4) 1 1 None None,
     4 \<mapsto> mk_node None (Some 2) 2 2 (Some 3) None,
     5 \<mapsto> mk_node None (Some 6) 1 1 None None,
     6 \<mapsto> mk_node None None 2 2 (Some 5) None,
     9 \<mapsto> mk_node (Some 99) None 1 1 None None]"

definition demo_stump :: avl_tree_stump where
  "demo_stump = \<lparr>s_root = Some 2, s_before_begin = Some 0, s_begin = Some 1, s_end = Some 4\<rparr>"

definition demo_other :: avl_tree_stump where
  "demo_other = \<lparr>s_root = Some 6, s_before_begin = Some 5, s_begin = Some 6, s_end = Some 6\<rparr>"

definition demo_list :: random_access_list where
  "demo_list = \<lparr>ral_at = 100, ral_impl = demo_stump\<rparr>"

definition demo_empty :: random_access_list where
  "demo_empty = \<lparr>ral_at = 101, ral_impl = demo_other\<rparr>"

lemmas demo_defs = demo_heap_def demo_stump_def demo_other_def demo_list_def demo_empty_def mk_node_def

definition demo_tree :: "addr tree" where
  "demo_tree = Node (Node (Node Leaf 0 Leaf) 1 Leaf) 2 (Node (Node Leaf 3 Leaf) 4 Leaf)"

lemma demo_tree_inv: "tree_inv demo_heap demo_stump demo_tree"
  by (simp add: tree_inv_def demo_defs demo_tree_def annot.simps(2) marks_def)

lemma demo_inv: "stump_inv demo_heap demo_stump [1, 2, 3]"
  by (rule stump_invI [OF demo_tree_inv, of 0 _ 4]) (simp_all add: demo_tree_def demo_defs val_at_def)

lemma demo_other_inv: "stump_inv demo_heap demo_other []"
  by (rule stump_invI [of _ _ "Node (Node Leaf 5 Leaf) 6 Leaf" 5 _ 6])
    (simp_all add: tree_inv_def demo_defs annot.simps(2) marks_def val_at_def)

lemma demo_ral_inv: "ral_inv demo_heap demo_list [1, 2, 3]"
  using demo_inv by (simp add: demo_list_def)

lemma demo_empty_inv: "ral_inv demo_heap demo_empty []"
  using demo_other_inv by (simp add: demo_empty_def)

lemma demo_fresh: "fresh_node demo_heap 9"
  by (simp add: fresh_node_def demo_defs)

lemma demo_owned: "owned demo_stump [1, 2, 3] = {0, 1, 2, 3, 4}"
  by (auto simp: owned_def demo_stump_def)

lemma demo_vals: "vals demo_heap [1, 2, 3] = [10, 20, 30]"
  by (simp add: vals_def val_at_def demo_defs)

text \<open>An allocator with four free nodes, addresses 20 to 23, that fails when they are used up.\<close>

definition demo_env :: "nat env" where
  "demo_env = \<lparr>e_dbg = True, e_unwinding = False, e_alloc = (\<lambda>h. find (\<lambda>a. h a = None) [20, 21, 22, 23])\<rparr>"

lemma demo_alloc_ok: "alloc_ok demo_env" "\<not> e_unwinding demo_env"
  by (auto simp: alloc_ok_def demo_env_def find_Some_iff)

lemma demo_free: "e_alloc demo_env demo_heap = Some 20" "e_alloc demo_env (demo_heap(20 \<mapsto> n)) = Some 21"
  "creation_error demo_env demo_heap [Inr 7, Inr 8] = None"
  by (simp_all add: demo_env_def demo_defs creation_error_def makeNode_def)

lemma demo_apart: "apart demo_list [1, 2, 3] demo_empty []" "apart demo_empty [] demo_list [1, 2, 3]"
  by (auto simp: apart_def owned_def demo_defs)

end
