(* ===== verification/Ral_Construct.thy ===== *)
theory Ral_Construct
  imports Ral_Lifecycle
begin

section \<open>Constructors, counted assignment, copies and comparisons\<close>

text \<open>
  The members of \<open>random_access_list\<close> that build a list from a count, from a range or from
  another list, and the comparisons. An argument that is constructed inside the call (a default value,
  a copy) is the outcome of its constructor: \<open>value i\<close> is the outcome of the \<open>i\<close>-th construction, \<open>copy v\<close> that of
  copying \<open>v\<close>. Reading another list goes through its iterators. Moving
  element by element, between lists whose allocators differ, is left out: what it leaves in the source depends
  on the element type.
\<close>

subsection \<open>The code\<close>

definition ral_insert :: "'a env \<Rightarrow> 'a heap \<Rightarrow> random_access_list \<Rightarrow> TRandomAccessIterator \<Rightarrow> 'a made \<Rightarrow>
    ('a, TRandomAccessIterator) outcome" where
  "ral_insert env h l pos v = emplace env h l pos v"

definition push_back :: "'a env \<Rightarrow> 'a heap \<Rightarrow> random_access_list \<Rightarrow> 'a made \<Rightarrow> ('a, TRandomAccessIterator) outcome" where
  "push_back env h l v = emplace_back env h l v"

definition push_front :: "'a env \<Rightarrow> 'a heap \<Rightarrow> random_access_list \<Rightarrow> 'a made \<Rightarrow> ('a, TRandomAccessIterator) outcome" where
  "push_front env h l v = emplace_front env h l v"

fun push_back_each :: "'a env \<Rightarrow> 'a heap \<Rightarrow> random_access_list \<Rightarrow> 'a made list \<Rightarrow> ('a, unit) outcome" where
  "push_back_each env h l [] = Some (h, l, Inr ())"
| "push_back_each env h l (v # vs) = do {
     (h, l, r) \<leftarrow> push_back env h l v;
     (case r of Inl ex \<Rightarrow> Some (h, l, Inl ex) | Inr _ \<Rightarrow> push_back_each env h l vs) }"

definition assign_count :: "'a env \<Rightarrow> addr option \<Rightarrow> 'a heap \<Rightarrow> random_access_list \<Rightarrow> size_t \<Rightarrow> (nat \<Rightarrow> 'a made) \<Rightarrow> ('a, unit) outcome" where
  "assign_count env place h l cnt v = do {
     (h, made) \<leftarrow> makeImplementation env place h;
     (case made of
        Inl ex \<Rightarrow> Some (h, l, Inl ex)
      | Inr tmp \<Rightarrow> do {
          (h, tmp, r) \<leftarrow> push_back_each env h tmp (map v [0..<unat cnt]);
          (case r of
             Inl ex \<Rightarrow> do {
               h \<leftarrow> destroy_stump (e_dbg env) h (ral_impl tmp);
               Some (h, l, Inl ex) }
           | Inr _ \<Rightarrow> (case ral_swap (tmp, l) of (tmp, l) \<Rightarrow> do {
               h \<leftarrow> destroy_stump (e_dbg env) h (ral_impl tmp);
               Some (h, l, Inr ()) })) }) }"

partial_function (option) read_range :: "bool \<Rightarrow> 'a heap \<Rightarrow> random_access_list \<Rightarrow> TRandomAccessIterator \<Rightarrow>
    TRandomAccessIterator \<Rightarrow> 'a list \<Rightarrow> 'a list option" where
  "read_range dbg h l it last_it acc = do {
     stop \<leftarrow> iterator_equal dbg it last_it;
     if stop then Some acc
     else do {
       v \<leftarrow> iterator_dereference dbg h l it;
       it \<leftarrow> iterator_increment dbg h l it;
       read_range dbg h l it last_it (acc @ [v]) } }"

definition read_all :: "bool \<Rightarrow> 'a heap \<Rightarrow> random_access_list \<Rightarrow> 'a list option" where
  "read_all dbg h l = do {
     first_it \<leftarrow> ral_begin dbg l;
     last_it \<leftarrow> ral_end dbg l;
     read_range dbg h l first_it last_it [] }"

text \<open>An exception out of a constructor's body destroys the member that was already built.\<close>

definition finish_construction :: "bool \<Rightarrow> ('a, unit) outcome \<Rightarrow> ('a heap \<times> (cpp_exception + random_access_list)) option" where
  "finish_construction dbg built = do {
     (h, l, r) \<leftarrow> built;
     (case r of
        Inl ex \<Rightarrow> do { h \<leftarrow> destroy_stump dbg h (ral_impl l); Some (h, Inl ex) }
      | Inr _ \<Rightarrow> Some (h, Inr l)) }"

definition construct_count :: "'a env \<Rightarrow> addr option \<Rightarrow> addr option \<Rightarrow> 'a heap \<Rightarrow> size_t \<Rightarrow> (nat \<Rightarrow> 'a made) \<Rightarrow>
    ('a heap \<times> (cpp_exception + random_access_list)) option" where
  "construct_count env place tmp_place h cnt v = do {
     (h, made) \<leftarrow> makeImplementation env place h;
     (case made of
        Inl ex \<Rightarrow> Some (h, Inl ex)
      | Inr l \<Rightarrow> finish_construction (e_dbg env) (assign_count env tmp_place h l cnt v)) }"

definition construct_range :: "'a env \<Rightarrow> addr option \<Rightarrow> addr option \<Rightarrow> 'a heap \<Rightarrow> 'a made list \<Rightarrow>
    ('a heap \<times> (cpp_exception + random_access_list)) option" where
  "construct_range env place tmp_place h vs = do {
     (h, made) \<leftarrow> makeImplementation env place h;
     (case made of
        Inl ex \<Rightarrow> Some (h, Inl ex)
      | Inr l \<Rightarrow> finish_construction (e_dbg env) (assign env tmp_place h l vs)) }"

definition construct_copy :: "'a env \<Rightarrow> addr option \<Rightarrow> addr option \<Rightarrow> ('a \<Rightarrow> 'a made) \<Rightarrow> 'a heap \<Rightarrow> random_access_list \<Rightarrow>
    ('a heap \<times> (cpp_exception + random_access_list)) option" where
  "construct_copy env place tmp_place copy h other = do {
     (h, made) \<leftarrow> makeImplementation env place h;
     (case made of
        Inl ex \<Rightarrow> Some (h, Inl ex)
      | Inr l \<Rightarrow> do {
          vs \<leftarrow> read_all (e_dbg env) h other;
          finish_construction (e_dbg env) (assign env tmp_place h l (map copy vs)) }) }"

text \<open>Moving: the new list and the old one exchange their contents.\<close>

definition construct_move :: "'a env \<Rightarrow> addr option \<Rightarrow> 'a heap \<Rightarrow> random_access_list \<Rightarrow>
    ('a heap \<times> (cpp_exception + random_access_list \<times> random_access_list)) option" where
  "construct_move env place h other = do {
     (h, made) \<leftarrow> makeImplementation env place h;
     (case made of
        Inl ex \<Rightarrow> Some (h, Inl ex)
      | Inr l \<Rightarrow> (case ral_swap (l, other) of (l, other) \<Rightarrow> Some (h, Inr (l, other)))) }"

definition copy_assign :: "'a env \<Rightarrow> addr option \<Rightarrow> ('a \<Rightarrow> 'a made) \<Rightarrow> 'a heap \<Rightarrow> random_access_list \<Rightarrow> random_access_list \<Rightarrow>
    ('a, unit) outcome" where
  "copy_assign env place copy h l other = do {
     vs \<leftarrow> read_all (e_dbg env) h other;
     assign env place h l (map copy vs) }"

fun lexicographical_compare :: "('a \<Rightarrow> 'a \<Rightarrow> bool) \<Rightarrow> 'a list \<Rightarrow> 'a list \<Rightarrow> bool" where
  "lexicographical_compare lt xs [] = False"
| "lexicographical_compare lt [] (y # ys) = True"
| "lexicographical_compare lt (x # xs) (y # ys) =
     (if lt x y then True else if lt y x then False else lexicographical_compare lt xs ys)"

definition operator_equal :: "bool \<Rightarrow> ('a \<Rightarrow> 'a \<Rightarrow> bool) \<Rightarrow> 'a heap \<Rightarrow> random_access_list \<Rightarrow> random_access_list \<Rightarrow> bool option" where
  "operator_equal dbg eq h l r = do {
     xs \<leftarrow> read_all dbg h l;
     ys \<leftarrow> read_all dbg h r;
     Some (list_all2 eq xs ys) }"

definition operator_less :: "bool \<Rightarrow> ('a \<Rightarrow> 'a \<Rightarrow> bool) \<Rightarrow> 'a heap \<Rightarrow> random_access_list \<Rightarrow> random_access_list \<Rightarrow> bool option" where
  "operator_less dbg lt h l r = do {
     xs \<leftarrow> read_all dbg h l;
     ys \<leftarrow> read_all dbg h r;
     Some (lexicographical_compare lt xs ys) }"

subsection \<open>Reading and comparing\<close>

lemma read_range_spec:
  "ral_inv h l (xs @ ys) \<Longrightarrow> read_range dbg h l (position ys l) (position [] l) acc = Some (acc @ vals h ys)"
proof (induction ys arbitrary: xs acc)
  case Nil
  then show ?case using equal_position [of h l xs "[]" "[]" dbg] by (subst read_range.simps) (simp add: vals_def)
next
  case (Cons a ys)
  have v: "vals h (xs @ a # ys) ! length xs = hd (vals h (a # ys))" by (simp add: vals_def nth_append)
  show ?case
    using Cons.prems equal_position [of h l xs "a # ys" "[]" dbg] dereference_spec [OF Cons.prems, of dbg]
      increment_spec [OF Cons.prems, of dbg] Cons.IH [of "xs @ [a]" "acc @ [hd (vals h (a # ys))]"] v
    by (subst read_range.simps) (simp add: vals_def)
qed

theorem read_all_spec: "ral_inv h l xs \<Longrightarrow> read_all dbg h l = Some (vals h xs)"
  using read_range_spec [of h l "[]" xs dbg "[]"] by (simp add: read_all_def ral_begin_spec ral_end_spec)

theorem operator_equal_spec:
  "ral_inv h l xs \<Longrightarrow> ral_inv h r ys \<Longrightarrow> operator_equal dbg (=) h l r = Some (vals h xs = vals h ys)"
  by (simp add: operator_equal_def read_all_spec list.rel_eq)

lemma lexicographical_compare_total:
  fixes xs ys :: "'a :: linorder list"
  shows "lexicographical_compare (<) xs ys \<longleftrightarrow> \<not> lexicographical_compare (<) ys xs \<and> xs \<noteq> ys"
proof (induction xs arbitrary: ys)
  case Nil
  then show ?case by (cases ys) simp_all
next
  case (Cons x xs)
  show ?case
  proof (cases ys)
    case (Cons y zs)
    with Cons.IH [of zs] show ?thesis by (cases x y rule: linorder_cases) auto
  qed simp
qed

subsection \<open>Copying and moving\<close>

text \<open>The copy constructor: a list of its own with the same values; the original keeps its nodes.
  If a copy throws, everything that was made is given back.\<close>

theorem construct_copy_spec:
  assumes env: "alloc_ok env" "\<not> e_unwinding env" and inv: "ral_inv h other xs"
    and m: "makeImplementation env (Some place) h = Some (k, Inr l)" "makeImplementation env (Some tmp_place) k \<noteq> None"
    and sz: "length xs + 2 < 2 ^ 32"
  shows "(\<exists>ex. construct_copy env (Some place) (Some tmp_place) copy h other = Some (h, Inl ex)) \<or>
    (\<exists>us ns h' l'. map copy (vals h xs) = map Inr us \<and>
      construct_copy env (Some place) (Some tmp_place) copy h other = Some (h', Inr l') \<and>
      ral_inv h' l' ns \<and> vals h' ns = us \<and> ral_inv h' other xs \<and> vals h' xs = vals h xs)"
proof -
  note t = makeImplementation_spec [OF env m(1)]
  have ap: "owned (ral_impl l) [] \<inter> owned (ral_impl other) xs = {}" using t owned_dom [OF inv] by fastforce
  have eq: "k a = h a" if "a \<in> owned (ral_impl other) xs" for a using that t ap by blast
  note o = stump_inv_off [OF inv eq]
  have rd: "read_all (e_dbg env) k other = Some (vals h xs)" using read_all_spec [OF o(1)] o(2) by simp
  have len: "length (map copy (vals h xs)) + 2 < 2 ^ 32" using sz by (simp add: vals_def)
  have emp: "ral_inv k l []" using t by blast
  from assign_spec [OF env emp m(2) len] consider
    (throw) ex where "assign env (Some tmp_place) k l (map copy (vals h xs)) = Some (k, l, Inl ex)"
  | (ok) us ns h' l' where "map copy (vals h xs) = map Inr us" "assign env (Some tmp_place) k l (map copy (vals h xs)) = Some (h', l', Inr ())"
      "ral_inv h' l' ns" "vals h' ns = us" "\<forall>a. k a \<noteq> None \<longrightarrow> a \<notin> owned (ral_impl l) [] \<longrightarrow> h' a = k a"
    by blast
  then show ?thesis
  proof cases
    case throw
    have "(\<lambda>a. if a \<in> owned (ral_impl l) [] then None else k a) = h" using t by (auto simp: fun_eq_iff)
    then have "destroy_stump (e_dbg env) k (ral_impl l) = Some h" using destroy_stump_spec [OF emp] by simp
    with throw m(1) rd show ?thesis by (auto simp: construct_copy_def finish_construction_def)
  next
    case ok
    have "h' a = k a" if "a \<in> owned (ral_impl other) xs" for a
      using ok(5) that ap owned_dom [OF o(1) that] by blast
    note fin = stump_inv_off [OF o(1) this]
    with ok m(1) rd o(2) show ?thesis
      by (intro disjI2 exI [of _ us] exI [of _ ns] exI [of _ h'] exI [of _ l'])
        (simp add: construct_copy_def finish_construction_def)
  qed
qed

text \<open>Moving allocates only the two gap nodes of the new list; no element is copied.\<close>

theorem construct_move_spec:
  assumes env: "alloc_ok env" "\<not> e_unwinding env" and inv: "ral_inv h other xs"
    and m: "makeImplementation env (Some place) h \<noteq> None"
  shows "\<exists>h' l' other'. construct_move env (Some place) h other = Some (h', Inr (l', other')) \<and> ral_inv h' l' xs \<and>
    vals h' xs = vals h xs \<and> ral_inv h' other' [] \<and> (\<forall>a. h a \<noteq> None \<longrightarrow> h' a = h a)"
proof -
  from makeImplementation_made [OF m] obtain k l where k: "makeImplementation env (Some place) h = Some (k, Inr l)" by blast
  note t = makeImplementation_spec [OF env k]
  have kept: "k a = h a" if "h a \<noteq> None" for a
    using t that by (cases "a \<in> owned (ral_impl l) []") auto
  have "k a = h a" if "a \<in> owned (ral_impl other) xs" for a by (rule kept) (rule owned_dom [OF inv that])
  note o = stump_inv_off [OF inv this]
  show ?thesis using k t o kept by (auto simp: construct_move_def ral_swap_def)
qed

subsection \<open>Counted assignment\<close>

text \<open>Appending one value after the other: the nodes made so far are owned by the list also when a
  later value throws.\<close>

lemma push_back_each_spec:
  assumes env: "alloc_ok env" "\<not> e_unwinding env"
  shows "ral_inv h l xs \<Longrightarrow> length xs + length vs + 2 < 2 ^ 32 \<Longrightarrow>
    \<exists>h' l' r ns. push_back_each env h l vs = Some (h', l', r) \<and> ral_inv h' l' (xs @ ns) \<and> same_object l l' \<and>
      (\<forall>a\<in>set ns. h a = None) \<and> (\<forall>a. a \<notin> owned (ral_impl l) (xs @ ns) \<longrightarrow> h' a = h a) \<and>
      (\<exists>us. vals h' (xs @ ns) = vals h xs @ us \<and> (r = Inr () \<longrightarrow> vs = map Inr us))"
proof (induction vs arbitrary: h l xs)
  case Nil
  then show ?case by (auto simp: same_object_def same_gaps_def vals_def intro!: exI [of _ "[]"])
next
  case (Cons v vs)
  have inv: "ral_inv h l (xs @ [])" and sz: "length (xs @ [] :: addr list) + 3 < 2 ^ 32" using Cons.prems by simp_all
  have e: "ral_end (e_dbg env) l = Some (position [] l)" using ral_end_spec Cons.prems(1) by blast
  from emplace_spec [OF env inv sz, of v] consider
    (throw) ex where "emplace env h l (position [] l) v = Some (h, l, Inl ex)"
  | (ok) x a k m where "v = Inr x" "emplace env h l (position [] l) v = Some (k, m, Inr (position [a] m))"
      "h a = None" "ral_inv k m (xs @ [a])" "same_object l m" "vals k (xs @ [a]) = vals h xs @ [x]"
      "\<forall>b. b \<notin> owned (ral_impl l) (xs @ [a]) \<longrightarrow> k b = h b"
    by (auto simp: vals_def)
  then show ?case
  proof cases
    case throw
    then show ?thesis using Cons.prems e
      by (auto simp: push_back_def emplace_back_def same_object_def same_gaps_def intro!: exI [of _ "[]"])
  next
    case ok
    have "length (xs @ [a]) + length vs + 2 < 2 ^ 32" using Cons.prems(2) by simp
    from Cons.IH [OF ok(4) this] obtain h' l' r ns where h': "push_back_each env k m vs = Some (h', l', r)"
      "ral_inv h' l' ((xs @ [a]) @ ns)" "same_object m l'" "\<forall>b\<in>set ns. k b = None"
      "\<forall>b. b \<notin> owned (ral_impl m) ((xs @ [a]) @ ns) \<longrightarrow> h' b = k b" "\<exists>us. vals h' ((xs @ [a]) @ ns) = vals k (xs @ [a]) @ us \<and> (r = Inr () \<longrightarrow> vs = map Inr us)"
      by blast
    have own: "owned (ral_impl m) ys = owned (ral_impl l) ys" for ys using owned_same [OF ok(5)] by simp
    have "h b = None" if "b \<in> set ns" for b
      using that h'(4) ok(7) owned_dom [OF ok(4), of b] own by (metis (no_types, lifting))
    moreover have "h' b = h b" if "b \<notin> owned (ral_impl l) (xs @ a # ns)" for b
    proof -
      have "b \<notin> owned (ral_impl m) ((xs @ [a]) @ ns)" "b \<notin> owned (ral_impl l) (xs @ [a])"
        using that unfolding own by (auto simp: owned_def)
      with h'(5) ok(7) show ?thesis by simp
    qed
    moreover have "push_back_each env h l (v # vs) = Some (h', l', r)"
      using ok(2) h'(1) e by (simp add: push_back_def emplace_back_def)
    moreover have "\<exists>us. vals h' (xs @ a # ns) = vals h xs @ us \<and> (r = Inr () \<longrightarrow> v # vs = map Inr us)"
      using h'(6) ok(1,6) by (auto intro!: exI [of _ "x # _"])
    ultimately show ?thesis
      using h'(2) ok(3) same_object_trans [OF ok(5) h'(3)]
      by (intro exI [of _ h'] exI [of _ l'] exI [of _ r] exI [of _ "a # ns"]) auto
  qed
qed

text \<open>\<open>assign(count)\<close> and \<open>assign(count, value)\<close> have the strong guarantee: an exception
  leaves heap and list as they were; otherwise the list holds the \<open>count\<close> values.\<close>

theorem assign_count_spec:
  assumes env: "alloc_ok env" "\<not> e_unwinding env" and inv: "ral_inv h l xs"
    and m: "makeImplementation env (Some place) h \<noteq> None" and sz: "unat cnt + 2 < 2 ^ 32"
  shows "(\<exists>ex. assign_count env (Some place) h l cnt v = Some (h, l, Inl ex)) \<or>
    (\<exists>us ns h' l'. map v [0..<unat cnt] = map Inr us \<and> assign_count env (Some place) h l cnt v = Some (h', l', Inr ()) \<and>
      ral_inv h' l' ns \<and> vals h' ns = us \<and> (\<forall>a\<in>owned (ral_impl l) xs. h' a = None) \<and>
      ral_at l' = place \<and> reshapes h (owned (ral_impl l) xs) h' (owned (ral_impl l') ns))"
proof -
  from makeImplementation_made [OF m] obtain k tmp where k: "makeImplementation env (Some place) h = Some (k, Inr tmp)" by blast
  note t = makeImplementation_spec [OF env k]
  have emp: "ral_inv k tmp []" and len: "length ([] :: addr list) + length (map v [0..<unat cnt]) + 2 < 2 ^ 32"
    using t sz by simp_all
  from push_back_each_spec [OF env emp len] obtain h' l' r ns us where h':
    "push_back_each env k tmp (map v [0..<unat cnt]) = Some (h', l', r)" "ral_inv h' l' ns" "same_object tmp l'"
    "\<forall>a\<in>set ns. k a = None" "\<forall>a. a \<notin> owned (ral_impl tmp) ns \<longrightarrow> h' a = k a"
    "vals h' ns = us" "r = Inr () \<longrightarrow> map v [0..<unat cnt] = map Inr us"
    by (auto simp: vals_def)
  have own: "owned (ral_impl l') ns = set ns \<union> owned (ral_impl tmp) []"
    using owned_same [OF h'(3), of ns] by (auto simp: owned_def)
  have fr: "h a = None" if "a \<in> owned (ral_impl l') ns" for a
    using that t h'(4) unfolding own by (metis UnE)
  have kept: "h' a = h a" if "a \<notin> owned (ral_impl l') ns" for a
    using that t h'(5) owned_same [OF h'(3), of ns] own by auto
  show ?thesis
  proof (cases r)
    case (Inl ex)
    have "(\<lambda>a. if a \<in> owned (ral_impl l') ns then None else h' a) = h" using fr kept by (auto simp: fun_eq_iff)
    then have "destroy_stump (e_dbg env) h' (ral_impl l') = Some h" using destroy_stump_spec [OF h'(2)] by simp
    with Inl k h'(1) show ?thesis by (auto simp: assign_count_def)
  next
    case (Inr u)
    have dis: "owned (ral_impl l') ns \<inter> owned (ral_impl l) xs = {}" using fr owned_dom [OF inv] by blast
    have "ral_inv h' l xs" by (rule stump_inv_off [OF inv]) (use kept dis in blast)
    from destroy_stump_spec [OF this, of "e_dbg env"]
    have ds: "destroy_stump (e_dbg env) h' (ral_impl l) = Some (\<lambda>a. if a \<in> owned (ral_impl l) xs then None else h' a)"
      (is "_ = Some ?h") .
    have "?h a = h' a" if "a \<in> owned (ral_impl l') ns" for a using that dis by auto
    note fin = stump_inv_off [OF h'(2), of ?h, OF this]
    have "?h a = h a" if "a \<notin> owned (ral_impl l) xs \<union> owned (ral_impl l') ns" for a using that kept by auto
    then have sh: "reshapes h (owned (ral_impl l) xs) ?h (owned (ral_impl l') ns)"
      using fr unfolding reshapes_def by auto
    have "ral_at l' = place" using h'(3) t by (simp add: same_object_def)
    moreover have "assign_count env (Some place) h l cnt v = Some (?h, l', Inr ())"
      using k h'(1) Inr ds by (simp add: assign_count_def ral_swap_def)
    ultimately show ?thesis using fin h'(6,7) Inr sh
      by (intro disjI2 exI [of _ us] exI [of _ ns] exI [of _ ?h] exI [of _ l']) auto
  qed
qed

end
