(* ===== verification/Avl_SelfCheck.thy ===== *)
theory Avl_SelfCheck
  imports Avl_Vine
begin

section \<open>The self checks\<close>

text \<open>
  \<open>selfCheckIfConstructed\<close> walks the whole tree and asserts every invariant the author
  relies on. It only does something in a build with assertions. Two theorems say what it is worth:
  \<open>selfCheck_passes\<close>, that all checks pass on every state the invariant of this development describes, and
  \<open>selfCheck_finds\<close>, that they pass on no other: given child links that form a tree, a wrong parent link, height, size
  or cached pointer fails an assertion.
\<close>

subsection \<open>The code\<close>

partial_function (option) getAndCheckHeight :: "'a heap \<Rightarrow> ptr \<Rightarrow> size_t option" where
  "getAndCheckHeight h node = (if node = None then Some 0 else do {
     n \<leftarrow> deref h node;
     lh \<leftarrow> getAndCheckHeight h (nd_left n);
     rh \<leftarrow> getAndCheckHeight h (nd_right n);
     let real_height = 1 + max lh rh;
     ASSERT True (real_height = nd_height n);
     Some real_height })"

definition checkHeights :: "'a heap \<Rightarrow> avl_tree_stump \<Rightarrow> bool option" where
  "checkHeights h s = do {
     ASSERT True (s_root s \<noteq> None);
     a \<leftarrow> getAndCheckHeight h (s_root s);
     b \<leftarrow> node_height h (s_root s);
     ASSERT True (a = b);
     Some True }"

partial_function (option) getAndCheckSize :: "'a heap \<Rightarrow> ptr \<Rightarrow> size_t option" where
  "getAndCheckSize h node = (if node = None then Some 0 else do {
     n \<leftarrow> deref h node;
     ls \<leftarrow> getAndCheckSize h (nd_left n);
     rs \<leftarrow> getAndCheckSize h (nd_right n);
     let real_size = 1 + ls + rs;
     ASSERT True (real_size = nd_size n);
     Some real_size })"

partial_function (option) getAmount_loop :: "'a heap \<Rightarrow> avl_tree_stump \<Rightarrow> ptr \<Rightarrow> size_t \<Rightarrow> size_t option" where
  "getAmount_loop h s node amount = (if node \<noteq> None \<and> node \<noteq> s_end s then do {
     nxt \<leftarrow> forward True h s node;
     getAmount_loop h s nxt (amount + 1) } else Some amount)"

definition getAmount :: "'a heap \<Rightarrow> avl_tree_stump \<Rightarrow> size_t option" where
  "getAmount h s = do {
     ASSERT True (s_root s \<noteq> None);
     ASSERT True (s_begin s \<noteq> None);
     ASSERT True (s_end s \<noteq> None);
     amount \<leftarrow> getAmount_loop h s (s_begin s) 0;
     Some (amount + 2) }"

definition checkSizes :: "'a heap \<Rightarrow> avl_tree_stump \<Rightarrow> bool option" where
  "checkSizes h s = do {
     ASSERT True (s_root s \<noteq> None);
     a \<leftarrow> getAndCheckSize h (s_root s);
     b \<leftarrow> node_size h (s_root s);
     ASSERT True (a = b);
     c \<leftarrow> getAmount h s;
     ASSERT True (c = b);
     Some True }"

partial_function (option) checkChildParent :: "'a heap \<Rightarrow> ptr \<Rightarrow> unit option" where
  "checkChildParent h node = do {
     n \<leftarrow> deref h node;
     (if nd_left n \<noteq> None then do {
        p \<leftarrow> get_parent h (nd_left n);
        ASSERT True (p = node);
        checkChildParent h (nd_left n) } else Some ());
     (if nd_right n \<noteq> None then do {
        p \<leftarrow> get_parent h (nd_right n);
        ASSERT True (p = node);
        checkChildParent h (nd_right n) } else Some ()) }"

definition checkAllParents :: "'a heap \<Rightarrow> avl_tree_stump \<Rightarrow> bool option" where
  "checkAllParents h s = do {
     ASSERT True (s_root s \<noteq> None);
     p \<leftarrow> get_parent h (s_root s);
     ASSERT True (p = None);
     checkChildParent h (s_root s);
     Some True }"

partial_function (option) climb_to_root :: "'a heap \<Rightarrow> ptr \<Rightarrow> ptr option" where
  "climb_to_root h node = do {
     n \<leftarrow> deref h node;
     if nd_parent n = None then Some node else climb_to_root h (nd_parent n) }"

definition checkCouple :: "'a heap \<Rightarrow> avl_tree_stump \<Rightarrow> ptr \<Rightarrow> bool option" where
  "checkCouple h s node = do {
     ASSERT True (s_root s \<noteq> None);
     ASSERT True (node \<noteq> None);
     n \<leftarrow> deref h node;
     if nd_parent n \<noteq> None then do {
       p \<leftarrow> deref h (nd_parent n);
       ASSERT True (nd_left p = node \<or> nd_right p = node);
       r \<leftarrow> climb_to_root h node;
       ASSERT True (r = s_root s);
       Some True }
     else do {
       ASSERT True (node = s_root s);
       Some True } }"

definition checkBeforeBegin :: "'a heap \<Rightarrow> avl_tree_stump \<Rightarrow> bool option" where
  "checkBeforeBegin h s = do {
     ASSERT True (s_root s \<noteq> None);
     ASSERT True (s_before_begin s \<noteq> None);
     checkCouple h s (s_before_begin s);
     p \<leftarrow> find_leftmost True h (s_root s);
     ASSERT True (s_before_begin s = p);
     l \<leftarrow> get_left h (s_before_begin s);
     ASSERT True (l = None);
     Some True }"

definition checkEnd :: "'a heap \<Rightarrow> avl_tree_stump \<Rightarrow> bool option" where
  "checkEnd h s = do {
     ASSERT True (s_root s \<noteq> None);
     ASSERT True (s_before_begin s \<noteq> None);
     checkCouple h s (s_end s);
     p \<leftarrow> find_rightmost True h (s_root s);
     ASSERT True (s_end s = p);
     r \<leftarrow> get_right h (s_end s);
     ASSERT True (r = None);
     Some True }"

definition checkBegin :: "'a heap \<Rightarrow> avl_tree_stump \<Rightarrow> bool option" where
  "checkBegin h s = do {
     ASSERT True (s_root s \<noteq> None);
     ASSERT True (s_begin s \<noteq> None);
     ASSERT True (s_before_begin s \<noteq> None);
     checkCouple h s (s_begin s);
     q \<leftarrow> forward True h s (s_before_begin s);
     ASSERT True (q = s_begin s);
     Some True }"

definition isConstructed :: "avl_tree_stump \<Rightarrow> bool" where
  "isConstructed s \<longleftrightarrow> s_before_begin s \<noteq> None \<and> s_end s \<noteq> None"

definition selfCheckWithoutHeightAndSizeIfConstructed :: "bool \<Rightarrow> 'a heap \<Rightarrow> avl_tree_stump \<Rightarrow> unit option" where
  "selfCheckWithoutHeightAndSizeIfConstructed dbg h s = (if \<not> dbg then Some () else do {
     ASSERT dbg (isConstructed s);
     ASSERT dbg (s_root s \<noteq> None);
     ASSERT dbg (s_before_begin s \<noteq> None);
     ASSERT dbg (s_begin s \<noteq> None);
     ASSERT dbg (s_end s \<noteq> None);
     a \<leftarrow> checkAllParents h s; ASSERT dbg a;
     a \<leftarrow> checkBeforeBegin h s; ASSERT dbg a;
     a \<leftarrow> checkEnd h s; ASSERT dbg a;
     a \<leftarrow> checkBegin h s; ASSERT dbg a })"

definition selfCheckIfConstructed :: "bool \<Rightarrow> 'a heap \<Rightarrow> avl_tree_stump \<Rightarrow> unit option" where
  "selfCheckIfConstructed dbg h s = do {
     ASSERT dbg (isConstructed s);
     selfCheckWithoutHeightAndSizeIfConstructed dbg h s;
     (if \<not> dbg then Some () else do {
        a \<leftarrow> checkHeights h s; ASSERT dbg a;
        a \<leftarrow> checkSizes h s; ASSERT dbg a }) }"

text \<open>With the comparison of the allocators; \<open>same_allocator\<close> is its outcome.\<close>

definition selfCheckAllocator :: "bool \<Rightarrow> bool \<Rightarrow> unit option" where
  "selfCheckAllocator dbg same_allocator = ASSERT dbg same_allocator"

definition selfCheckIfConstructed_allocator :: "bool \<Rightarrow> bool \<Rightarrow> 'a heap \<Rightarrow> avl_tree_stump \<Rightarrow> unit option" where
  "selfCheckIfConstructed_allocator dbg same_allocator h s = do {
     ASSERT dbg (isConstructed s);
     selfCheckAllocator dbg same_allocator;
     selfCheckIfConstructed dbg h s }"

definition selfCheck :: "bool \<Rightarrow> 'a heap \<Rightarrow> avl_tree_stump \<Rightarrow> unit option" where
  "selfCheck dbg h s = (if isConstructed s then selfCheckIfConstructed dbg h s else Some ())"

subsection \<open>The checks pass\<close>

lemma getAndCheckHeight_spec:
  "tree_at h p par t \<Longrightarrow> annot h t \<Longrightarrow> size t < 2 ^ 32 \<Longrightarrow> getAndCheckHeight h p = Some (of_nat (height t))"
proof (induction t arbitrary: p par)
  case Leaf
  then show ?case by (subst getAndCheckHeight.simps) simp
next
  case (Node l a r)
  from Node.prems obtain n where n: "p = Some a" "h a = Some n" "tree_at h (nd_left n) (Some a) l"
    "tree_at h (nd_right n) (Some a) r" by (auto split: option.splits)
  have an: "annot h l" "annot h r" "nd_height n = of_nat (Suc (max (height l) (height r)))"
    using Node.prems(2) n(2) by (simp_all add: annot.simps(2) marks_def)
  have "getAndCheckHeight h (nd_left n) = Some (of_nat (height l))"
    "getAndCheckHeight h (nd_right n) = Some (of_nat (height r))"
    using Node.IH n an Node.prems(3) by simp_all
  moreover have "max (of_nat (height l)) (of_nat (height r)) = (of_nat (max (height l) (height r)) :: size_t)"
    using Node.prems(3) height_le_size_tree [of l] height_le_size_tree [of r]
    by (intro max_of_nat_size_t) simp_all
  ultimately show ?case using n an(3) by (subst getAndCheckHeight.simps) simp
qed

lemma getAndCheckSize_spec:
  "tree_at h p par t \<Longrightarrow> annot h t \<Longrightarrow> getAndCheckSize h p = Some (of_nat (size t))"
proof (induction t arbitrary: p par)
  case Leaf
  then show ?case by (subst getAndCheckSize.simps) simp
next
  case (Node l a r)
  from Node.prems obtain n where n: "p = Some a" "h a = Some n" "tree_at h (nd_left n) (Some a) l"
    "tree_at h (nd_right n) (Some a) r" by (auto split: option.splits)
  have an: "annot h l" "annot h r" "nd_size n = of_nat (Suc (size l + size r))"
    using Node.prems(2) n(2) by (simp_all add: annot.simps(2) marks_def)
  with n Node.IH show ?case by (subst getAndCheckSize.simps) (simp add: add.assoc)
qed

lemma checkChildParent_spec:
  "tree_at h (Some a) par t \<Longrightarrow> checkChildParent h (Some a) = Some ()"
proof (induction t arbitrary: a par)
  case (Node l b r)
  from Node.prems obtain n where n: "a = b" "h a = Some n" "tree_at h (nd_left n) (Some a) l"
    "tree_at h (nd_right n) (Some a) r" by (auto split: option.splits)
  have L: "(if nd_left n \<noteq> None then do { p \<leftarrow> get_parent h (nd_left n);
      ASSERT True (p = Some a); checkChildParent h (nd_left n) } else Some ()) = Some ()"
    using n(3) Node.IH(1) by (cases "nd_left n") (auto simp: tree_at_Some)
  have R: "(if nd_right n \<noteq> None then do { p \<leftarrow> get_parent h (nd_right n);
      ASSERT True (p = Some a); checkChildParent h (nd_right n) } else Some ()) = Some ()"
    using n(4) Node.IH(2) by (cases "nd_right n") (auto simp: tree_at_Some)
  show ?case using n(2) L R by (subst checkChildParent.simps) simp
qed simp

lemma climb_to_root_spec:
  "hole h s (Some a) par c (Node l a r) \<Longrightarrow> climb_to_root h (Some a) = Some (s_root s)"
proof (induction c arbitrary: a par l r)
  case Nil
  then obtain n where "h a = Some n" "nd_parent n = None" "s_root s = Some a"
    by (auto simp: hole_def split: option.splits)
  then show ?case by (subst climb_to_root.simps) simp
next
  case (Cons f c)
  from Cons.prems obtain n where n: "h a = Some n" "nd_parent n = par" by (rule hole_deref)
  from Cons.prems obtain par' where up: "par = Some (frame_addr f)"
    "hole h s par par' c (plug f (Node l a r))" by (rule hole_up)
  have "climb_to_root h par = Some (s_root s)"
    using Cons.IH up by (cases f) auto
  then show ?case using n up(1) by (subst climb_to_root.simps) simp
qed

lemma checkCouple_spec:
  assumes "tree_inv h s t" "inorder t = xs @ a # ys"
  shows "checkCouple h s (Some a) = Some True"
proof -
  from assms obtain c l r par where f: "hole h s (Some a) par c (Node l a r)" by (rule tree_inv_split)
  from f obtain n where n: "h a = Some n" "nd_parent n = par" by (rule hole_deref)
  note rt = hole_root_nonnull [OF f]
  show ?thesis
  proof (cases c)
    case Nil
    with f have "par = None" "s_root s = Some a" by (simp_all add: hole_def)
    with n show ?thesis by (simp add: checkCouple_def)
  next
    case (Cons g d)
    have p: "par = Some (frame_addr g)" using f [unfolded Cons] by (rule hole_up)
    obtain m where "h (frame_addr g) = Some m" "nd_left m = Some a \<or> nd_right m = Some a"
      using f Cons by (cases g) (auto simp: hole_def split: option.splits)
    with n p rt climb_to_root_spec [OF f] show ?thesis by (auto simp: checkCouple_def)
  qed
qed

lemma getAmount_loop_spec:
  assumes "tree_inv h s t" "inorder t = zs @ ys @ [e]" "s_end s = Some e"
  shows "getAmount_loop h s (ptr_hd (ys @ [e])) n = Some (n + of_nat (length ys))"
  using assms(2)
proof (induction ys arbitrary: zs n)
  case Nil
  then show ?case using assms(3) by (subst getAmount_loop.simps) simp
next
  case (Cons a ys)
  have "forward True h s (Some a) = Some (ptr_hd (ys @ [e]))"
    using forward_spec [OF assms(1), of zs a "ys @ [e]"] Cons.prems by simp
  moreover have "distinct (inorder t)" using assms(1) by (simp add: tree_inv_def)
  then have "Some a \<noteq> s_end s" using Cons.prems assms(3) by auto
  moreover have "getAmount_loop h s (ptr_hd (ys @ [e])) (n + 1) = Some (n + 1 + of_nat (length ys))"
    using Cons.IH [of "zs @ [a]" "n + 1"] Cons.prems by simp
  ultimately show ?case by (subst getAmount_loop.simps) (simp add: add.assoc)
qed

lemma first_node_left:
  "tree_at h p par t \<Longrightarrow> inorder t = a # xs \<Longrightarrow> \<exists>n. h a = Some n \<and> nd_left n = None"
proof (induction t arbitrary: p par xs)
  case (Node l b r)
  from Node.prems obtain n where n: "h b = Some n" "tree_at h (nd_left n) (Some b) l"
    by (auto split: option.splits)
  show ?case
  proof (cases "inorder l")
    case Nil
    with n Node.prems(2) show ?thesis by auto
  next
    case (Cons c cs)
    with Node.prems(2) have "inorder l = a # cs" by simp
    with Node.IH(1) n(2) show ?thesis by blast
  qed
qed simp

lemma last_node_right:
  assumes "tree_at h p par t" "inorder t = xs @ [e]"
  shows "\<exists>n. h e = Some n \<and> nd_right n = None"
proof -
  have "t \<noteq> Leaf" using assms(2) by auto
  then obtain a where "p = Some a" using assms(1) by (cases p) auto
  with rightmost_free [of h a par t] assms show ?thesis by auto
qed

text \<open>What the checks establish of a tree object over the tree \<open>t\<close>: everything of \<open>stump_inv\<close> but the stored values.\<close>

definition checked_shape :: "'a heap \<Rightarrow> avl_tree_stump \<Rightarrow> addr tree \<Rightarrow> bool" where
  "checked_shape h s t \<longleftrightarrow> tree_inv h s t \<and> (\<exists>bb xs e. inorder t = bb # xs @ [e] \<and>
     s_before_begin s = Some bb \<and> s_end s = Some e \<and> s_begin s = first_of xs s)"

lemma stump_inv_checked_shape: "stump_inv h s xs \<Longrightarrow> \<exists>t. checked_shape h s t"
  by (auto simp: stump_inv_def checked_shape_def)

lemma checked_shape_constructed: "checked_shape h s t \<Longrightarrow> isConstructed s"
  by (auto simp: checked_shape_def isConstructed_def)

lemma selfCheck_passes:
  assumes "checked_shape h s t"
  shows "selfCheckIfConstructed dbg h s = Some ()"
proof -
  from assms obtain bb xs e where t: "tree_inv h s t" "inorder t = bb # xs @ [e]"
    "s_before_begin s = Some bb" "s_end s = Some e" "s_begin s = first_of xs s"
    by (auto simp: checked_shape_def)
  have sz: "size t = length xs + 2" using arg_cong [OF t(2), of length] by simp
  have "t \<noteq> Leaf" using t(2) by auto
  then obtain r where r: "s_root s = Some r" using t(1) by (cases "s_root s") (auto simp: tree_inv_def)
  have T: "tree_at h (Some r) None t" "annot h t" "size t < 2 ^ 32" using t(1) r by (auto simp: tree_inv_def)
  have b: "s_begin s = ptr_hd (xs @ [e])" using t(4,5) by (cases xs) simp_all
  obtain q zs where q: "xs @ [e] = q # zs" by (cases xs) auto
  obtain bn en where bn: "h bb = Some bn" "nd_left bn = None" and en: "h e = Some en" "nd_right en = None"
    using first_node_left [OF T(1) t(2)] last_node_right [OF T(1), of "bb # xs" e] t(2) by auto
  have "checkAllParents h s = Some True"
    using checkChildParent_spec [OF T(1)] r T(1) by (auto simp: checkAllParents_def tree_at_Some)
  moreover have "checkBeforeBegin h s = Some True"
    using checkCouple_spec [OF t(1), of "[]"] t(2,3) leftmost_loop_spec [OF T(1)] r bn
    by (simp add: checkBeforeBegin_def find_leftmost_def)
  moreover have "checkEnd h s = Some True"
    using checkCouple_spec [OF t(1), of "bb # xs" e "[]"] t(2,3,4) rightmost_loop_spec [OF T(1)] r en
    by (simp add: checkEnd_def find_rightmost_def ptr_last_def)
  moreover have "checkBegin h s = Some True"
    using checkCouple_spec [OF t(1), of "[bb]" q zs] forward_spec [OF t(1), of "[]" bb "xs @ [e]" True]
      t(2,3) r b q by (simp add: checkBegin_def)
  moreover have "checkHeights h s = Some True"
    using getAndCheckHeight_spec [OF T] node_height_annot [OF T(1,2)] r by (simp add: checkHeights_def)
  moreover have "getAmount h s = Some (of_nat (size t))"
    using getAmount_loop_spec [OF t(1), of "[bb]" xs e 0] t(2,4) sz r b q by (simp add: getAmount_def)
  then have "checkSizes h s = Some True"
    using getAndCheckSize_spec [OF T(1,2)] node_size_annot [OF T(1,2)] r by (simp add: checkSizes_def)
  ultimately show ?thesis
    using t(3,4) r b q
    by (simp add: isConstructed_def selfCheckIfConstructed_def selfCheckWithoutHeightAndSizeIfConstructed_def)
qed

theorem selfCheck_stump:
  assumes "stump_inv h s xs"
  shows "selfCheckIfConstructed dbg h s = Some ()" "selfCheck dbg h s = Some ()"
  using stump_inv_checked_shape [OF assms] selfCheck_passes by (auto simp: selfCheck_def)

subsection \<open>The checks find every fault\<close>

text \<open>\<open>shape_at\<close> looks at the child links only, so parents, sizes, heights and the cached pointers may be anything.\<close>

fun shape_at :: "'a heap \<Rightarrow> ptr \<Rightarrow> addr tree \<Rightarrow> bool" where
  "shape_at h p Leaf \<longleftrightarrow> p = None"
| "shape_at h p (Node l a r) \<longleftrightarrow> p = Some a \<and>
     (case h a of None \<Rightarrow> False | Some n \<Rightarrow> shape_at h (nd_left n) l \<and> shape_at h (nd_right n) r)"

lemma tree_at_shape: "tree_at h p par t \<Longrightarrow> shape_at h p t"
  by (induction t arbitrary: p par) (auto split: option.splits)

fun heights_ok :: "'a heap \<Rightarrow> addr tree \<Rightarrow> bool" where
  "heights_ok h Leaf \<longleftrightarrow> True"
| "heights_ok h (Node l a r) \<longleftrightarrow> heights_ok h l \<and> heights_ok h r \<and>
     map_option nd_height (h a) = Some (of_nat (height (Node l a r)))"

fun sizes_ok :: "'a heap \<Rightarrow> addr tree \<Rightarrow> bool" where
  "sizes_ok h Leaf \<longleftrightarrow> True"
| "sizes_ok h (Node l a r) \<longleftrightarrow> sizes_ok h l \<and> sizes_ok h r \<and>
     map_option nd_size (h a) = Some (of_nat (size (Node l a r)))"

lemma annot_iff: "annot h t \<longleftrightarrow> heights_ok h t \<and> sizes_ok h t"
  by (induction t) (auto simp: annot.simps(2) marks_def)

lemma checked_heights:
  "shape_at h p t \<Longrightarrow> size t < 2 ^ 32 \<Longrightarrow> getAndCheckHeight h p = Some k \<Longrightarrow> heights_ok h t \<and> k = of_nat (height t)"
proof (induction t arbitrary: p k)
  case Leaf
  then show ?case by (subst (asm) getAndCheckHeight.simps) simp
next
  case (Node l a r)
  from Node.prems(1) obtain n where n: "p = Some a" "h a = Some n" "shape_at h (nd_left n) l" "shape_at h (nd_right n) r"
    by (auto split: option.splits)
  obtain lh rh where e: "getAndCheckHeight h (nd_left n) = Some lh" "getAndCheckHeight h (nd_right n) = Some rh"
    "1 + max lh rh = nd_height n" "k = 1 + max lh rh"
    using Node.prems(3) n(1,2) by (subst (asm) getAndCheckHeight.simps) (auto simp: bind_eq_Some_conv Let_def)
  have sub: "heights_ok h l" "lh = of_nat (height l)" "heights_ok h r" "rh = of_nat (height r)"
    using Node.IH(1) [OF n(3) _ e(1)] Node.IH(2) [OF n(4) _ e(2)] Node.prems(2) by simp_all
  have "max (of_nat (height l)) (of_nat (height r)) = (of_nat (max (height l) (height r)) :: size_t)"
    using Node.prems(2) height_le_size_tree [of l] height_le_size_tree [of r] by (intro max_of_nat_size_t) simp_all
  then show ?case using n(2) e(3,4) sub by simp
qed

lemma checked_sizes:
  "shape_at h p t \<Longrightarrow> getAndCheckSize h p = Some k \<Longrightarrow> sizes_ok h t \<and> k = of_nat (size t)"
proof (induction t arbitrary: p k)
  case Leaf
  then show ?case by (subst (asm) getAndCheckSize.simps) simp
next
  case (Node l a r)
  from Node.prems(1) obtain n where n: "p = Some a" "h a = Some n" "shape_at h (nd_left n) l" "shape_at h (nd_right n) r"
    by (auto split: option.splits)
  obtain ls rs where e: "getAndCheckSize h (nd_left n) = Some ls" "getAndCheckSize h (nd_right n) = Some rs"
    "1 + ls + rs = nd_size n" "k = 1 + ls + rs"
    using Node.prems(2) n(1,2) by (subst (asm) getAndCheckSize.simps) (auto simp: bind_eq_Some_conv Let_def)
  then show ?case using n(2) Node.IH(1) [OF n(3) e(1)] Node.IH(2) [OF n(4) e(2)] by (simp add: add.assoc)
qed

lemma checked_parents:
  "shape_at h (Some a) t \<Longrightarrow> checkChildParent h (Some a) = Some u \<Longrightarrow> get_parent h (Some a) = Some par \<Longrightarrow> tree_at h (Some a) par t"
proof (induction t arbitrary: a par)
  case (Node l b r)
  from Node.prems(1) obtain n where n: "a = b" "h a = Some n" "shape_at h (nd_left n) l" "shape_at h (nd_right n) r"
    by (auto split: option.splits)
  have C: "(if nd_left n \<noteq> None then do { p \<leftarrow> get_parent h (nd_left n);
      ASSERT True (p = Some a); checkChildParent h (nd_left n) } else Some ()) = Some ()"
    "(if nd_right n \<noteq> None then do { p \<leftarrow> get_parent h (nd_right n);
      ASSERT True (p = Some a); checkChildParent h (nd_right n) } else Some ()) = Some ()"
    using Node.prems(2) n(2) by (subst (asm) checkChildParent.simps; simp add: bind_eq_Some_conv)+
  have L: "tree_at h (nd_left n) (Some a) l"
    using C(1) n(3) Node.IH(1) by (cases "nd_left n"; cases l) (auto simp: bind_eq_Some_conv)
  have R: "tree_at h (nd_right n) (Some a) r"
    using C(2) n(4) Node.IH(2) by (cases "nd_right n"; cases r) (auto simp: bind_eq_Some_conv)
  show ?case using n L R Node.prems(3) by simp
qed simp

theorem selfCheck_finds:
  assumes shape: "shape_at h (s_root s) t" "distinct (inorder t)" "size t < 2 ^ 32"
    and ok: "selfCheckIfConstructed True h s = Some ()"
  shows "checked_shape h s t"
proof -
  have parts: "s_root s \<noteq> None" "s_before_begin s \<noteq> None" "s_begin s \<noteq> None" "s_end s \<noteq> None"
    "checkAllParents h s = Some True" "checkBeforeBegin h s = Some True" "checkEnd h s = Some True" "checkBegin h s = Some True"
    "checkHeights h s = Some True" "checkSizes h s = Some True"
    using ok by (auto simp: selfCheckIfConstructed_def selfCheckWithoutHeightAndSizeIfConstructed_def bind_eq_Some_conv)
  from parts(1) obtain r where r: "s_root s = Some r" by auto
  have T: "tree_at h (Some r) None t"
    using checked_parents [of h r t _ None] shape(1) parts(5) r by (auto simp: checkAllParents_def bind_eq_Some_conv)
  have "annot h t"
    using checked_heights [OF shape(1,3)] checked_sizes [OF shape(1)] parts(9,10)
    by (auto simp: annot_iff checkHeights_def checkSizes_def bind_eq_Some_conv)
  then have inv: "tree_inv h s t" using T shape(2,3) r by (simp add: tree_inv_def)
  have bb: "s_before_begin s = ptr_hd (inorder t)"
    using parts(6) leftmost_loop_spec [OF T] r by (auto simp: checkBeforeBegin_def find_leftmost_def bind_eq_Some_conv)
  have e: "s_end s = ptr_last (inorder t)"
    using parts(7) rightmost_loop_spec [OF T] r by (auto simp: checkEnd_def find_rightmost_def bind_eq_Some_conv)
  obtain b rest where i: "inorder t = b # rest" using bb parts(2) by (cases "inorder t") auto
  have "s_begin s = ptr_hd rest"
    using parts(8) forward_spec [OF inv, of "[]" b rest True] i bb by (auto simp: checkBegin_def bind_eq_Some_conv)
  moreover from this obtain xs y where "rest = xs @ [y]" using parts(3) by (cases rest rule: rev_cases) auto
  ultimately show ?thesis using inv i bb e
    by (cases xs) (auto simp: checked_shape_def ptr_last_def)
qed

end
