(* ===== verification/Ral_Store.thy ===== *)
theory Ral_Store
  imports Ral_Construct Ral_Sequence Avl_SelfCheck
begin

section \<open>Several lists in one heap\<close>

text \<open>
  Lists whose allocators are equal share the heap their nodes live in. This theory has the invariant of such a store: every list
  satisfies its own invariant, no node belongs to two lists, and every object of the heap belongs to one of them, so that nothing has leaked.
  An operation that \<open>reshapes\<close> what one list owns keeps the invariant. The number of objects in the heap and the number
  of values alive follow from the lengths alone, so it can be said in advance which operations an allocator of limited size can serve.
\<close>

subsection \<open>The self check of a list\<close>

text \<open>\<open>random_access_list::selfCheck\<close>, which also compares the allocators of the tree and of the owning pointer.\<close>

definition ral_selfCheck :: "bool \<Rightarrow> bool \<Rightarrow> 'a heap \<Rightarrow> random_access_list \<Rightarrow> unit option" where
  "ral_selfCheck dbg same_allocator h l = selfCheckIfConstructed_allocator dbg same_allocator h (ral_impl l)"

lemma ral_selfCheck_spec: "ral_inv h l xs \<Longrightarrow> ral_selfCheck dbg True h l = Some ()"
  using stump_inv_checked_shape [of h "ral_impl l" xs] checked_shape_constructed selfCheck_stump(1) [of h "ral_impl l" xs dbg]
  by (auto simp: ral_selfCheck_def selfCheckIfConstructed_allocator_def selfCheckAllocator_def)

subsection \<open>The invariant\<close>

type_synonym 'a held = "random_access_list \<times> addr list \<times> 'a list"

definition held_own :: "'a held \<Rightarrow> addr set" where
  "held_own t = (case t of (l, xs, vs) \<Rightarrow> owned (ral_impl l) xs)"

definition held_ok :: "'a heap \<Rightarrow> 'a held \<Rightarrow> bool" where
  "held_ok h t = (case t of (l, xs, vs) \<Rightarrow> ral_inv h l xs \<and> vals h xs = vs)"

definition held_at :: "'a held \<Rightarrow> addr" where
  "held_at t = ral_at (fst t)"

definition store_inv :: "'a heap \<Rightarrow> 'a held list \<Rightarrow> bool" where
  "store_inv h ts \<longleftrightarrow> (\<forall>i<length ts. held_ok h (ts ! i)) \<and> distinct (map held_at ts) \<and>
     (\<forall>a. a \<in> dom h \<longleftrightarrow> (\<exists>i<length ts. a \<in> held_own (ts ! i))) \<and>
     (\<forall>i<length ts. \<forall>j<length ts. i \<noteq> j \<longrightarrow> held_own (ts ! i) \<inter> held_own (ts ! j) = {})"

lemma held_simps [simp]:
  "held_own (l, xs, vs) = owned (ral_impl l) xs" "held_ok h (l, xs, vs) \<longleftrightarrow> ral_inv h l xs \<and> vals h xs = vs"
  "held_at (l, xs, vs) = ral_at l"
  by (simp_all add: held_own_def held_ok_def held_at_def)

lemma held_dom: "held_ok h t \<Longrightarrow> held_own t \<subseteq> dom h"
  using owned_dom by (cases t) fastforce

lemma held_off:
  assumes "held_ok h t" "\<And>a. a \<in> held_own t \<Longrightarrow> h' a = h a"
  shows "held_ok h' t"
  using assms stump_inv_off [of h "ral_impl (fst t)" "fst (snd t)" h'] by (cases t) simp

lemma reshapes_frame: "reshapes h A h' B \<Longrightarrow> a \<notin> A \<Longrightarrow> a \<notin> B \<Longrightarrow> h' a = h a"
  by (simp add: reshapes_def)

lemma reshapes_new: "reshapes h A h' B \<Longrightarrow> a \<in> B \<Longrightarrow> a \<notin> A \<Longrightarrow> h a = None"
  by (simp add: reshapes_def)

lemma reshapes_gone: "reshapes h A h' B \<Longrightarrow> a \<in> A \<Longrightarrow> a \<notin> B \<Longrightarrow> h' a = None"
  by (simp add: reshapes_def)

lemma store_nth: "store_inv h ts \<Longrightarrow> i < length ts \<Longrightarrow> held_ok h (ts ! i)"
  by (simp add: store_inv_def)

lemma store_empty: "store_inv Map.empty []"
  by (simp add: store_inv_def)

lemma store_apart:
  "store_inv h ts \<Longrightarrow> i < length ts \<Longrightarrow> j < length ts \<Longrightarrow> i \<noteq> j \<Longrightarrow> held_own (ts ! i) \<inter> held_own (ts ! j) = {}"
  by (simp add: store_inv_def)

lemma store_dom: "store_inv h ts \<Longrightarrow> a \<in> dom h \<longleftrightarrow> (\<exists>i<length ts. a \<in> held_own (ts ! i))"
  by (simp add: store_inv_def)

lemma store_places: "store_inv h ts \<Longrightarrow> i < length ts \<Longrightarrow> j < length ts \<Longrightarrow> i \<noteq> j \<Longrightarrow> held_at (ts ! i) \<noteq> held_at (ts ! j)"
  by (simp add: store_inv_def distinct_conv_nth)

lemma store_invI:
  assumes "\<And>i. i < length ts \<Longrightarrow> held_ok h (ts ! i)" "distinct (map held_at ts)"
    "\<And>a. a \<in> dom h \<longleftrightarrow> (\<exists>i<length ts. a \<in> held_own (ts ! i))"
    "\<And>i j. i < length ts \<Longrightarrow> j < length ts \<Longrightarrow> i \<noteq> j \<Longrightarrow> held_own (ts ! i) \<inter> held_own (ts ! j) = {}"
  shows "store_inv h ts"
  using assms unfolding store_inv_def by blast

lemma own_nth: "(\<exists>k<length ts. a \<in> held_own (ts ! k)) \<longleftrightarrow> (\<exists>t\<in>set ts. a \<in> held_own t)"
  by (metis in_set_conv_nth)

subsection \<open>What keeps it\<close>

text \<open>Two lists change at once.\<close>

lemma store_update2:
  assumes inv: "store_inv h ts" and ij: "i < length ts" "j < length ts" "i \<noteq> j"
    and ok: "held_ok h' t" "held_ok h' u" and dis: "held_own t \<inter> held_own u = {}"
    and sh: "reshapes h (held_own (ts ! i) \<union> held_own (ts ! j)) h' (held_own t \<union> held_own u)"
    and at: "distinct (map held_at (ts[i := t, j := u]))"
  shows "store_inv h' (ts[i := t, j := u])"
proof (rule store_invI [OF _ at])
  let ?A = "held_own (ts ! i) \<union> held_own (ts ! j)" and ?B = "held_own t \<union> held_own u"
  have oA: "held_own (ts ! k) \<inter> ?A = {}" if "k < length ts" "k \<noteq> i" "k \<noteq> j" for k
    using store_apart [OF inv that(1) ij(1) that(2)] store_apart [OF inv that(1) ij(2) that(3)] by blast
  have oB: "held_own (ts ! k) \<inter> ?B = {}" if "k < length ts" "k \<noteq> i" "k \<noteq> j" for k
  proof (rule ccontr)
    assume "held_own (ts ! k) \<inter> ?B \<noteq> {}"
    then obtain a where a: "a \<in> held_own (ts ! k)" "a \<in> ?B" by blast
    then have "a \<notin> ?A" using oA [OF that] by blast
    then have "h a = None" by (rule reshapes_new [OF sh a(2)])
    then show False using held_dom [OF store_nth [OF inv that(1)]] a(1) by blast
  qed
  have nth: "ts[i := t, j := u] ! k = (if k = j then u else if k = i then t else ts ! k)" if "k < length ts" for k
    using that ij by (simp add: nth_list_update)
  show "held_ok h' (ts[i := t, j := u] ! k)" if "k < length (ts[i := t, j := u])" for k
  proof (cases "k = i \<or> k = j")
    case False
    have k: "k < length ts" using that by simp
    have "h' a = h a" if "a \<in> held_own (ts ! k)" for a
      using oA [OF k] oB [OF k] False that by (intro reshapes_frame [OF sh]) blast+
    from held_off [OF store_nth [OF inv k] this] show ?thesis using False nth [OF k] by simp
  qed (use ok nth that in auto)
  show "held_own (ts[i := t, j := u] ! k) \<inter> held_own (ts[i := t, j := u] ! m) = {}"
    if "k < length (ts[i := t, j := u])" "m < length (ts[i := t, j := u])" "k \<noteq> m" for k m
  proof -
    have km: "k < length ts" "m < length ts" using that by simp_all
    show ?thesis
      unfolding nth [OF km(1)] nth [OF km(2)]
      using oB [OF km(1)] oB [OF km(2)] dis store_apart [OF inv km that(3)] that(3) by (simp split: if_split) blast
  qed
  have own: "(\<exists>k<length (ts[i := t, j := u]). a \<in> held_own (ts[i := t, j := u] ! k)) \<longleftrightarrow>
      a \<in> ?B \<or> (\<exists>k<length ts. k \<noteq> i \<and> k \<noteq> j \<and> a \<in> held_own (ts ! k))" (is "?l \<longleftrightarrow> ?r") for a
  proof
    assume ?l then show ?r using nth by (auto split: if_splits)
  next
    assume ?r
    then show ?l using nth ij by (metis UnE length_list_update)
  qed
  show "a \<in> dom h' \<longleftrightarrow> (\<exists>k<length (ts[i := t, j := u]). a \<in> held_own (ts[i := t, j := u] ! k))" for a
  proof -
    consider "a \<in> ?B" | "a \<in> ?A" "a \<notin> ?B" | "a \<notin> ?A" "a \<notin> ?B" by blast
    then show ?thesis unfolding own
    proof cases
      case 1
      then show "a \<in> dom h' \<longleftrightarrow> a \<in> ?B \<or> (\<exists>k<length ts. k \<noteq> i \<and> k \<noteq> j \<and> a \<in> held_own (ts ! k))"
        using held_dom [OF ok(1)] held_dom [OF ok(2)] by blast
    next
      case 2
      have "h' a = None" by (rule reshapes_gone [OF sh 2])
      then show "a \<in> dom h' \<longleftrightarrow> a \<in> ?B \<or> (\<exists>k<length ts. k \<noteq> i \<and> k \<noteq> j \<and> a \<in> held_own (ts ! k))"
        using 2 oA by blast
    next
      case 3
      have "h' a = h a" by (rule reshapes_frame [OF sh 3])
      then have "a \<in> dom h' \<longleftrightarrow> a \<in> dom h" by (simp add: dom_def)
      then show "a \<in> dom h' \<longleftrightarrow> a \<in> ?B \<or> (\<exists>k<length ts. k \<noteq> i \<and> k \<noteq> j \<and> a \<in> held_own (ts ! k))"
        using 3 store_dom [OF inv, of a] by blast
    qed
  qed
qed

lemma store_append:
  assumes inv: "store_inv h ts" and ok: "held_ok h' t" and sh: "reshapes h {} h' (held_own t)"
    and at: "held_at t \<notin> held_at ` set ts"
  shows "store_inv h' (ts @ [t])"
proof (rule store_invI)
  have off: "held_own (ts ! k) \<inter> held_own t = {}" if "k < length ts" for k
    using held_dom [OF store_nth [OF inv that]] reshapes_new [OF sh] by blast
  show "held_ok h' ((ts @ [t]) ! k)" if k: "k < length (ts @ [t])" for k
  proof (cases "k < length ts")
    case True
    have "h' a = h a" if "a \<in> held_own (ts ! k)" for a
      using off [OF True] that by (intro reshapes_frame [OF sh]) blast+
    from held_off [OF store_nth [OF inv True] this] True show ?thesis by (simp add: nth_append)
  qed (use ok k in \<open>simp add: nth_append\<close>)
  show "distinct (map held_at (ts @ [t]))" using inv at by (simp add: store_inv_def)
  show "held_own ((ts @ [t]) ! k) \<inter> held_own ((ts @ [t]) ! m) = {}"
    if "k < length (ts @ [t])" "m < length (ts @ [t])" "k \<noteq> m" for k m
    using that off [of k] off [of m] store_apart [OF inv, of k m] by (auto simp: nth_append less_Suc_eq)
  show "a \<in> dom h' \<longleftrightarrow> (\<exists>k<length (ts @ [t]). a \<in> held_own ((ts @ [t]) ! k))" for a
  proof -
    have "(\<exists>k<length (ts @ [t]). a \<in> held_own ((ts @ [t]) ! k)) \<longleftrightarrow> a \<in> dom h \<or> a \<in> held_own t"
      unfolding store_dom [OF inv] own_nth by auto
    moreover have "a \<in> dom h' \<longleftrightarrow> a \<in> dom h" if "a \<notin> held_own t"
      using reshapes_frame [OF sh _ that] by (simp add: dom_def)
    ultimately show ?thesis using held_dom [OF ok] by blast
  qed
qed

lemma store_update:
  assumes inv: "store_inv h ts" and i: "i < length ts" and ok: "held_ok h' t"
    and sh: "reshapes h (held_own (ts ! i)) h' (held_own t)" and at: "held_at t = held_at (ts ! i) \<or> held_at t \<notin> held_at ` set ts"
  shows "store_inv h' (ts[i := t])"
proof (rule store_invI)
  have oA: "held_own (ts ! k) \<inter> held_own (ts ! i) = {}" if "k < length ts" "k \<noteq> i" for k
    using store_apart [OF inv that(1) i that(2)] .
  have oB: "held_own (ts ! k) \<inter> held_own t = {}" if "k < length ts" "k \<noteq> i" for k
    using oA [OF that] held_dom [OF store_nth [OF inv that(1)]] reshapes_new [OF sh] by blast
  show "held_ok h' (ts[i := t] ! k)" if "k < length (ts[i := t])" for k
  proof (cases "k = i")
    case False
    have k: "k < length ts" using that by simp
    have "h' a = h a" if "a \<in> held_own (ts ! k)" for a
      using oA [OF k] oB [OF k] False that by (intro reshapes_frame [OF sh]) blast+
    from held_off [OF store_nth [OF inv k] this] show ?thesis using False by simp
  qed (use ok i in simp)
  have "distinct (map held_at ts)" using inv by (simp add: store_inv_def)
  then show "distinct (map held_at (ts[i := t]))"
    using at i by (auto simp: map_update distinct_list_update list_update_same_conv)
  show "held_own (ts[i := t] ! k) \<inter> held_own (ts[i := t] ! m) = {}"
    if "k < length (ts[i := t])" "m < length (ts[i := t])" "k \<noteq> m" for k m
    using that oB [of k] oB [of m] store_apart [OF inv, of k m] i by (auto simp: nth_list_update)
  show "a \<in> dom h' \<longleftrightarrow> (\<exists>k<length (ts[i := t]). a \<in> held_own (ts[i := t] ! k))" for a
  proof -
    have own: "(\<exists>k<length (ts[i := t]). a \<in> held_own (ts[i := t] ! k)) \<longleftrightarrow>
        a \<in> held_own t \<or> (\<exists>k<length ts. k \<noteq> i \<and> a \<in> held_own (ts ! k))"
      using i by (auto simp: nth_list_update split: if_splits)
    consider "a \<in> held_own t" | "a \<in> held_own (ts ! i)" "a \<notin> held_own t" | "a \<notin> held_own (ts ! i)" "a \<notin> held_own t"
      by blast
    then show ?thesis unfolding own
    proof cases
      case 1
      then show "a \<in> dom h' \<longleftrightarrow> a \<in> held_own t \<or> (\<exists>k<length ts. k \<noteq> i \<and> a \<in> held_own (ts ! k))"
        using held_dom [OF ok] by blast
    next
      case 2
      have "h' a = None" by (rule reshapes_gone [OF sh 2])
      then show "a \<in> dom h' \<longleftrightarrow> a \<in> held_own t \<or> (\<exists>k<length ts. k \<noteq> i \<and> a \<in> held_own (ts ! k))"
        using 2 oA by blast
    next
      case 3
      have "h' a = h a" by (rule reshapes_frame [OF sh 3])
      then have "a \<in> dom h' \<longleftrightarrow> a \<in> dom h" by (simp add: dom_def)
      then show "a \<in> dom h' \<longleftrightarrow> a \<in> held_own t \<or> (\<exists>k<length ts. k \<noteq> i \<and> a \<in> held_own (ts ! k))"
        using 3 store_dom [OF inv, of a] by blast
    qed
  qed
qed

text \<open>The last list goes.\<close>

lemma store_butlast:
  assumes inv: "store_inv h (ts @ [t])"
  shows "store_inv (\<lambda>a. if a \<in> held_own t then None else h a) ts"
proof (rule store_invI)
  have off: "held_own (ts ! k) \<inter> held_own t = {}" if "k < length ts" for k
    using store_apart [OF inv, of k "length ts"] that by (simp add: nth_append)
  show "held_ok (\<lambda>a. if a \<in> held_own t then None else h a) (ts ! k)" if "k < length ts" for k
  proof (rule held_off)
    show "held_ok h (ts ! k)" using store_nth [OF inv, of k] that by (simp add: nth_append)
    show "(if a \<in> held_own t then None else h a) = h a" if "a \<in> held_own (ts ! k)" for a
      using off [OF \<open>k < length ts\<close>] that by auto
  qed
  show "distinct (map held_at ts)" using inv by (simp add: store_inv_def)
  show "held_own (ts ! k) \<inter> held_own (ts ! m) = {}" if "k < length ts" "m < length ts" "k \<noteq> m" for k m
    using store_apart [OF inv, of k m] that by (simp add: nth_append)
  show "a \<in> dom (\<lambda>a. if a \<in> held_own t then None else h a) \<longleftrightarrow> (\<exists>k<length ts. a \<in> held_own (ts ! k))" for a
  proof -
    have "(\<exists>k<length (ts @ [t]). a \<in> held_own ((ts @ [t]) ! k)) \<longleftrightarrow>
        (\<exists>k<length ts. a \<in> held_own (ts ! k)) \<or> a \<in> held_own t"
      unfolding own_nth by auto
    then show ?thesis using store_dom [OF inv, of a] off by (auto simp: dom_def)
  qed
qed

lemma map_swap:
  "i < length xs \<Longrightarrow> j < length xs \<Longrightarrow> map f (xs[i := xs ! j, j := xs ! i]) = (map f xs)[i := map f xs ! j, j := map f xs ! i]"
  by (simp add: map_update)

lemma store_swap:
  assumes inv: "store_inv h ts" and ij: "i < length ts" "j < length ts"
  shows "store_inv h (ts[i := ts ! j, j := ts ! i])"
proof (cases "i = j")
  case False
  have "distinct (map held_at ts)" using inv by (simp add: store_inv_def)
  moreover have "map held_at (ts[i := ts ! j, j := ts ! i]) = (map held_at ts)[i := map held_at ts ! j, j := map held_at ts ! i]"
    using ij by (simp add: map_update)
  ultimately have at: "distinct (map held_at (ts[i := ts ! j, j := ts ! i]))" using ij by (simp only: distinct_swap length_map)
  show ?thesis
    by (rule store_update2 [OF inv ij False store_nth [OF inv ij(2)] store_nth [OF inv ij(1)] store_apart [OF inv ij(2,1)] _ at])
      (use False in \<open>auto simp: reshapes_def\<close>)
qed (use inv in simp)

subsection \<open>Counting\<close>

text \<open>The number of values alive: what \<open>instanceAmount\<close> of the mock objects counts.\<close>

definition instances :: "'a heap \<Rightarrow> nat" where
  "instances h = card {a. \<exists>v. val_at h a = Some (Some v)}"

definition node_amount :: "'a list list \<Rightarrow> nat" where
  "node_amount vss = sum_list (map (\<lambda>vs. length vs + 2) vss)"

definition held_vals :: "'a held \<Rightarrow> 'a list" where
  "held_vals t = snd (snd t)"

lemma held_vals_simp [simp]: "held_vals (l, xs, vs) = vs"
  by (simp add: held_vals_def)

lemma held_card: "held_ok h t \<Longrightarrow> finite (held_own t) \<and> card (held_own t) = length (held_vals t) + 2"
proof (cases t)
  case (fields l xs vs)
  assume "held_ok h t"
  then have ok: "ral_inv h l xs" "vals h xs = vs" using fields by simp_all
  from ok(1) obtain bb e where g: "s_before_begin (ral_impl l) = Some bb" "s_end (ral_impl l) = Some e"
    "distinct (bb # xs @ [e])" by (rule stump_invE)
  then have "held_own t = set (bb # xs @ [e])" using fields by (auto simp: owned_def)
  moreover have "card (set (bb # xs @ [e])) = length (bb # xs @ [e])" by (rule distinct_card [OF g(3)])
  ultimately show ?thesis using ok(2) fields by auto
qed

lemma store_card:
  assumes "store_inv h ts"
  shows "finite (dom h)" "card (dom h) = node_amount (map held_vals ts)"
proof -
  have d: "dom h = (\<Union>i\<in>{0..<length ts}. held_own (ts ! i))" using store_dom [OF assms] by fastforce
  have c: "finite (held_own (ts ! i)) \<and> card (held_own (ts ! i)) = length (held_vals (ts ! i)) + 2" if "i < length ts" for i
    by (rule held_card [OF store_nth [OF assms that]])
  then show "finite (dom h)" unfolding d by simp
  have "card (dom h) = (\<Sum>i = 0..<length ts. card (held_own (ts ! i)))"
    unfolding d using c store_apart [OF assms] by (intro card_UN_disjoint) auto
  then show "card (dom h) = node_amount (map held_vals ts)"
    using c by (simp add: node_amount_def sum_list_sum_nth)
qed

lemma store_instances:
  assumes "store_inv h ts"
  shows "instances h = length (concat (map held_vals ts))"
proof -
  let ?E = "\<lambda>t. set (fst (snd t)) :: addr set"
  have e: "(\<exists>v. val_at h a = Some (Some v)) \<longleftrightarrow> a \<in> ?E (ts ! i)" if "i < length ts" "a \<in> held_own (ts ! i)" for a i
  proof (cases "ts ! i")
    case (fields l xs vs)
    then have inv: "ral_inv h l xs" using store_nth [OF assms that(1)] by simp
    obtain bb e where g: "s_before_begin (ral_impl l) = Some bb" "s_end (ral_impl l) = Some e"
      "\<forall>a\<in>set xs. \<exists>v. val_at h a = Some (Some v)" "val_at h bb = Some None" "val_at h e = Some None"
      using inv by (elim stump_invE) blast
    then show ?thesis using that(2) fields by (auto simp: owned_def)
  qed
  have sub: "?E (ts ! i) \<subseteq> held_own (ts ! i)" for i by (cases "ts ! i") (auto simp: owned_def)
  have "{a. \<exists>v. val_at h a = Some (Some v)} = (\<Union>i\<in>{0..<length ts}. ?E (ts ! i))"
  proof (rule set_eqI)
    fix a
    have "val_at h a \<noteq> None \<longleftrightarrow> a \<in> dom h" by (auto simp: val_at_def)
    then show "a \<in> {a. \<exists>v. val_at h a = Some (Some v)} \<longleftrightarrow> a \<in> (\<Union>i\<in>{0..<length ts}. ?E (ts ! i))"
      using e [of _ a] sub store_dom [OF assms, of a] by fastforce
  qed
  also have "card (\<Union>i\<in>{0..<length ts}. ?E (ts ! i)) = (\<Sum>i = 0..<length ts. card (?E (ts ! i)))"
    using sub store_apart [OF assms] by (intro card_UN_disjoint) (auto, blast)
  also have "\<dots> = (\<Sum>i = 0..<length ts. length (held_vals (ts ! i)))"
  proof (rule sum.cong)
    show "card (?E (ts ! i)) = length (held_vals (ts ! i))" if "i \<in> {0..<length ts}" for i
      using store_nth [OF assms, of i] that
      by (cases "ts ! i") (auto simp: distinct_card [OF stump_inv_distinct])
  qed simp
  finally show ?thesis by (simp add: instances_def length_concat sum_list_sum_nth)
qed

end
