(* ===== verification/Ral_Properties.thy ===== *)
theory Ral_Properties
  imports Ral_Demo Ral_Store
begin

section \<open>Properties of random_access_list.hpp\<close>

text \<open>
  The statements a user of the list and of its tree relies on, each instantiated on the
  concrete list of \<^verbatim>\<open>Ral_Demo\<close>. In every statement \<open>dbg\<close> tells whether assertions are compiled
  in, and a result \<open>Some\<close> excludes undefined behaviour, a failed assertion and a loop without end.
\<close>

subsection \<open>The tree\<close>

text \<open>
  C1. \<open>avl_tree_stump::insert_before\<close>: on a live tree whose elements are \<open>xs @ ys\<close>, inserting a
  fresh node in front of \<open>ys\<close> returns without undefined behaviour or failed assertion, with
  assertions compiled in or not; afterwards the elements are \<open>xs\<close>, the node, \<open>ys\<close>, all
  structure, annotation and cache invariants hold again, no stored value changes, and no node
  outside the tree is written.
\<close>
theorem insert_before_correct:
  assumes "stump_inv h s (xs @ ys)" "fresh_node h x" "x \<notin> owned s (xs @ ys)"
    "length (xs @ ys) + 3 < 2 ^ 32"
  shows "\<exists>h' s'. insert_before dbg h s (first_of ys s) (Some x) = Some (h', s', Some x) \<and>
    stump_inv h' s' (xs @ x # ys) \<and> same_gaps s s' \<and> val_at h' = val_at h \<and>
    (\<forall>a. a \<notin> owned s (xs @ x # ys) \<longrightarrow> h' a = h a)"
  using insert_before_stump [OF assms] by metis

theorem insert_before_correct_witness:
  "\<exists>h' s'. insert_before True demo_heap demo_stump (Some 2) (Some 9) = Some (h', s', Some 9) \<and>
    stump_inv h' s' [1, 9, 2, 3]"
  using insert_before_correct [of demo_heap demo_stump "[1]" "[2, 3]" 9 True]
    demo_inv demo_fresh demo_owned by auto

text \<open>
  C2. \<open>avl_tree_stump::delete_and_get_next\<close>: removing an element returns the node that
  followed it (or \<open>end\<close>), the remaining elements keep their order and every invariant, the
  removed node is freed when asked for and otherwise keeps its value, and nothing outside the
  tree is written.
\<close>
theorem delete_and_get_next_correct:
  assumes "stump_inv h s (xs @ a # ys)" "dbg \<Longrightarrow> needNode \<or> \<not> needValue"
  shows "\<exists>h' s'. delete_and_get_next dbg h s (Some a) needNode needValue = Some (h', s', first_of ys s) \<and>
    stump_inv h' s' (xs @ ys) \<and> same_gaps s s' \<and>
    val_at h' = (if needNode then (val_at h)(a := None) else val_at h) \<and>
    (\<forall>b. b \<notin> owned s (xs @ a # ys) \<longrightarrow> h' b = h b)"
  using delete_and_get_next_stump [OF assms] by metis

theorem delete_and_get_next_correct_witness:
  "\<exists>h' s'. delete_and_get_next True demo_heap demo_stump (Some 2) True True = Some (h', s', Some 3) \<and>
    stump_inv h' s' [1, 3]"
  using delete_and_get_next_correct [of demo_heap demo_stump "[1]" 2 "[3]" True True True] demo_inv by auto

text \<open>
  C3. Scripts of client edits, while no exception is in flight: any valid sequence of insertions at an index and deletions at an
  index (\<open>begin() + i\<close> followed by \<open>emplace\<close> or \<open>erase\<close>) runs to its end, an insertion takes
  effect exactly when the allocator can serve it at that moment, and the list then holds what
  the same edits leave of a plain list.
\<close>
theorem scripts_refine_lists:
  assumes "alloc_ok env" "\<not> e_unwinding env" "ral_inv h l xs" "length xs \<le> ral_cap"
    "script_valid ral_cap es (vals h xs)"
  shows "\<exists>h' l' ys. ral.run_script env es (h, l) = Some ((h', l'), ral.served env es (h, l)) \<and>
    length (ral.served env es (h, l)) = length es \<and> ral_inv h' l' ys \<and>
    vals h' ys = script_list es (ral.served env es (h, l)) (vals h xs)"
  using ral.run_script_refines [of env "(h, l)" "vals h xs" es] assms by (auto simp: ral_holds_def)

theorem scripts_refine_lists_witness:
  "\<exists>h' l' ys. ral.run_script demo_env [Ins 1 7, Del 2] (demo_heap, demo_list) =
      Some ((h', l'), ral.served demo_env [Ins 1 7, Del 2] (demo_heap, demo_list)) \<and>
    ral_inv h' l' ys \<and> vals h' ys = [10, 7, 30]"
proof -
  define es where "es = ([Ins 1 7, Del 2] :: nat edit list)"
  have "script_valid ral_cap es (vals demo_heap [1, 2, 3])" by (simp only: demo_vals) (simp add: ral_cap_def es_def)
  moreover have "length [1, 2, 3 :: nat] \<le> ral_cap" by (simp add: ral_cap_def)
  ultimately obtain h' l' ys where r: "ral.run_script demo_env es (demo_heap, demo_list) =
      Some ((h', l'), ral.served demo_env es (demo_heap, demo_list))"
    "length (ral.served demo_env es (demo_heap, demo_list)) = length es" "ral_inv h' l' ys"
    "vals h' ys = script_list es (ral.served demo_env es (demo_heap, demo_list)) [10, 20, 30]"
    using scripts_refine_lists [OF demo_alloc_ok demo_ral_inv, of es] unfolding demo_vals by blast
  have "ral_avail demo_env (demo_heap, demo_list)" using demo_free(1) by (simp add: ral_avail_def)
  then obtain ok where "ral.served demo_env es (demo_heap, demo_list) = [True, ok]"
    using r(2) by (auto simp: es_def split: option.splits prod.splits)
  with r show ?thesis unfolding es_def by auto
qed

text \<open>
  C4. Index and element are inverse: \<open>getByIndex\<close> finds element number \<open>i\<close> at tree index \<open>i + 1\<close>
  (index 0 is the node before the first element) and \<open>getIndex\<close> of that node is \<open>i + 1\<close>.
\<close>
theorem index_round_trip:
  assumes "stump_inv h s xs" "i < length xs"
  shows "getByIndex dbg h s (of_nat (Suc i)) = Some (Some (xs ! i)) \<and>
    getIndex dbg h s (Some (xs ! i)) = Some (of_nat (Suc i))"
proof -
  from assms(1) obtain t bb e where t: "tree_inv h s t" "inorder t = bb # xs @ [e]" by (rule stump_invE)
  have "inorder t = (bb # take i xs) @ xs ! i # (drop (Suc i) xs @ [e])"
    using t(2) id_take_nth_drop [OF assms(2)] by simp
  from getIndex_spec [OF t(1) this] stump_nth [OF assms, of dbg] assms(2) show ?thesis
    by (simp add: add.commute min_absorb2)
qed

theorem index_round_trip_witness:
  "getByIndex True demo_heap demo_stump 2 = Some (Some 2) \<and> getIndex True demo_heap demo_stump (Some 2) = Some 2"
  using index_round_trip [OF demo_inv, of 1 True] by simp

text \<open>
  C5. Jumps and distances agree: on a tree below half the address range, \<open>distance\<close> between two
  elements is the signed difference of their positions, and \<open>go_to\<close> by that distance leads from
  the first to the second, forwards or backwards.
\<close>
theorem distance_then_go_to:
  assumes "stump_inv h s xs" "length xs + 2 < 2 ^ 31" "i < length xs" "j < length xs"
  shows "\<exists>k. distance dbg h s (Some (xs ! i)) (Some (xs ! j)) = Some k \<and> sint k = int j - int i \<and>
    go_to dbg h s (Some (xs ! i)) k = Some (Some (xs ! j))"
proof -
  from assms(1) obtain t bb e where t: "tree_inv h s t" "inorder t = bb # xs @ [e]" "size t = length xs + 2"
    by (rule stump_invE)
  have nth: "inorder t ! Suc m = xs ! m" if "m < length xs" for m using t(2) that by (simp add: nth_append)
  have sz: "size t < 2 ^ 31" "Suc i < size t" "Suc j < size t" using t(3) assms by auto
  obtain k where k: "distance dbg h s (Some (xs ! i)) (Some (xs ! j)) = Some k" "sint k = int j - int i"
    using distance_spec [OF t(1) sz, of dbg] nth assms(3,4) by auto
  have "int (Suc i) + sint k = int (Suc j)" using k(2) by simp
  from go_to_spec [OF t(1) sz this] k nth assms(3,4) show ?thesis by auto
qed

theorem distance_then_go_to_witness:
  "\<exists>k. distance True demo_heap demo_stump (Some 3) (Some 1) = Some k \<and> sint k = - 2 \<and>
    go_to True demo_heap demo_stump (Some 3) k = Some (Some 1)"
  using distance_then_go_to [OF demo_inv, of 2 0 True] by simp

text \<open>
  \<open>moveNodes\<close> empties the tree: it returns exactly the element nodes in order, each reset to a
  single node ready for insertion with its value intact, and leaves a valid empty tree.
\<close>
theorem moveNodes_correct:
  assumes "stump_inv h s xs"
  shows "\<exists>h' s'. moveNodes dbg h s = Some (h', s', xs) \<and> stump_inv h' s' [] \<and> same_gaps s s' \<and>
    val_at h' = val_at h \<and> (\<forall>a\<in>set xs. fresh_node h' a) \<and> (\<forall>a. a \<notin> owned s xs \<longrightarrow> h' a = h a)"
  using moveNodes_stump [OF assms] by metis

theorem moveNodes_correct_witness:
  "\<exists>h' s'. moveNodes True demo_heap demo_stump = Some (h', s', [1, 2, 3]) \<and> stump_inv h' s' []"
  using moveNodes_correct [OF demo_inv, of True] by auto

text \<open>
  C6. The built-in self check of a list is exact. Take any list whose child links form a tree of distinct nodes, whatever
  its parent links, stored heights, stored sizes and cached pointers are. In a build with assertions \<open>selfCheck\<close> passes if and
  only if the two allocators agree and all of these are right: every parent link, every height, every size, and
  the three cached pointers. It passes on every valid list, and in a build without assertions always.
\<close>
theorem selfCheck_exact:
  assumes "shape_at h (s_root (ral_impl l)) t" "distinct (inorder t)" "size t < 2 ^ 32"
  shows "(ral_selfCheck True same_allocator h l = Some () \<longleftrightarrow> same_allocator \<and> checked_shape h (ral_impl l) t) \<and>
    ral_selfCheck False same_allocator h l = Some () \<and>
    (\<forall>xs. ral_inv h l xs \<longrightarrow> ral_selfCheck True True h l = Some ())"
proof -
  have "ral_selfCheck True same_allocator h l = Some () \<longleftrightarrow> same_allocator \<and> checked_shape h (ral_impl l) t"
    using selfCheck_finds [OF assms] selfCheck_passes [of h "ral_impl l" t True] checked_shape_constructed [of h "ral_impl l" t]
    by (auto simp: ral_selfCheck_def selfCheckIfConstructed_allocator_def selfCheckAllocator_def bind_eq_Some_conv)
  moreover have "ral_selfCheck False same_allocator h l = Some ()"
    by (simp add: ral_selfCheck_def selfCheckIfConstructed_allocator_def selfCheckAllocator_def
        selfCheckIfConstructed_def selfCheckWithoutHeightAndSizeIfConstructed_def)
  ultimately show ?thesis using ral_selfCheck_spec [of h l] by blast
qed

definition demo_broken :: "nat heap" where
  "demo_broken = demo_heap(3 \<mapsto> mk_node (Some 30) (Some 4) 7 1 None None)"

theorem selfCheck_exact_witness:
  "ral_selfCheck True True demo_heap demo_list = Some () \<and> ral_selfCheck True True demo_broken demo_list \<noteq> Some ()"
proof -
  have "shape_at demo_heap (s_root (ral_impl demo_list)) demo_tree" "shape_at demo_broken (s_root (ral_impl demo_list)) demo_tree"
    by (simp_all add: demo_tree_def demo_broken_def demo_defs)
  moreover have "distinct (inorder demo_tree)" "size demo_tree < 2 ^ 32" by (simp_all add: demo_tree_def)
  ultimately have "ral_selfCheck True True h demo_list = Some () \<longleftrightarrow> checked_shape h (ral_impl demo_list) demo_tree"
    if "h = demo_heap \<or> h = demo_broken" for h
    using that selfCheck_exact [of h demo_list demo_tree True] by blast
  moreover have "checked_shape demo_heap (ral_impl demo_list) demo_tree"
    using demo_tree_inv by (simp add: checked_shape_def demo_list_def) (simp add: demo_tree_def demo_stump_def)
  moreover have "\<not> annot demo_broken demo_tree"
    by (simp add: demo_tree_def demo_broken_def demo_defs annot.simps(2) marks_def)
  then have "\<not> checked_shape demo_broken (ral_impl demo_list) demo_tree"
    by (simp add: checked_shape_def tree_inv_def)
  ultimately show ?thesis by blast
qed

text \<open>
  C7. The rebalancing is not AVL rebalancing. For every valid empty list, the first element inserted, which can only go in
  front of \<open>end\<close>, leaves a valid tree whose root has a subtree of height two beside an empty one: a level is repaired by one
  rotation where the shape needs two, so the tree is out of balance from the first element on.
\<close>
theorem first_insertion_unbalanced:
  assumes "stump_inv h s []" "fresh_node h x" "x \<notin> owned s []"
  shows "\<exists>h' s' l a r. insert_before dbg h s (first_of [] s) (Some x) = Some (h', s', Some x) \<and>
     stump_inv h' s' [x] \<and> tree_inv h' s' (Node l a r) \<and>
     (height l > height r + 1 \<or> height r > height l + 1)"
proof -
  obtain h' s' l a r where i: "insert_before dbg h s (s_end s) (Some x) = Some (h', s', Some x)" "tree_inv h' s' (Node l a r)"
    "height r = 2 \<and> height l = 0 \<or> height l = 2 \<and> height r = 0"
    using first_insertion [OF assms] by blast
  moreover have "stump_inv h' s' [x]"
    using insert_before_stump [of h s "[]" "[]" x dbg] assms i(1) by auto
  ultimately show ?thesis by (intro exI conjI) auto
qed

theorem first_insertion_unbalanced_witness:
  "\<exists>h' s' l a r. insert_before True demo_heap demo_other (Some 6) (Some 9) = Some (h', s', Some 9) \<and>
     stump_inv h' s' [9] \<and> tree_inv h' s' (Node l a r) \<and>
     (height l > height r + 1 \<or> height r > height l + 1)"
proof -
  have "9 \<notin> owned demo_other []" by (simp add: owned_def demo_other_def)
  from first_insertion_unbalanced [OF demo_other_inv demo_fresh this, of True] show ?thesis
    by (simp add: demo_other_def)
qed

subsection \<open>The container\<close>

text \<open>
  C8. \<open>emplace\<close> has the strong guarantee, while no other exception is in flight: when the allocator has no node or the constructor of
  the value throws, heap and list are exactly as before; otherwise the new node stands in front
  of the position, the returned iterator points to it, the other values are untouched and
  nothing outside the list is written.
\<close>
theorem emplace_strong_guarantee:
  assumes "alloc_ok env" "\<not> e_unwinding env" "ral_inv h l (xs @ ys)" "length (xs @ ys) + 3 < 2 ^ 32"
  shows "(\<exists>ex. emplace env h l (position ys l) v = Some (h, l, Inl ex) \<and> (e_alloc env h = None \<or> v = Inl ex)) \<or>
    (\<exists>x a h' l'. v = Inr x \<and> e_alloc env h = Some a \<and>
      emplace env h l (position ys l) v = Some (h', l', Inr (position (a # ys) l')) \<and>
      h a = None \<and> ral_inv h' l' (xs @ a # ys) \<and> same_object l l' \<and>
      vals h' (xs @ a # ys) = vals h xs @ x # vals h ys \<and>
      (\<forall>b. b \<notin> owned (ral_impl l) (xs @ a # ys) \<longrightarrow> h' b = h b))"
  by (rule emplace_spec [OF assms])

theorem emplace_strong_guarantee_witness:
  "\<exists>h' l'. emplace demo_env demo_heap demo_list (position [2, 3] demo_list) (Inr 7) =
      Some (h', l', Inr (position [20, 2, 3] l')) \<and> ral_inv h' l' [1, 20, 2, 3] \<and>
    vals h' [1, 20, 2, 3] = [10, 7, 20, 30]"
  using emplace_strong_guarantee [OF demo_alloc_ok, of demo_heap demo_list "[1]" "[2, 3]" "Inr 7"]
    demo_ral_inv demo_vals demo_free(1) by auto

text \<open>
  C9. \<open>insert(pos, first, last)\<close>, while no other exception is in flight: either creating one of the nodes raises an exception, which is
  passed on with heap and list exactly as before, or all values are inserted in their order in
  front of the position and nothing else is written.
\<close>
theorem insert_range_all_or_nothing:
  assumes "alloc_ok env" "\<not> e_unwinding env" "ral_inv h l (xs @ ys)" "length (xs @ ys) + length vs + 2 < 2 ^ 32"
  shows "case creation_error env h vs of
      Some ex \<Rightarrow> insert_range env h l (position ys l) vs = Some (h, l, Inl ex)
    | None \<Rightarrow> (\<exists>us ns h' l'. vs = map Inr us \<and>
        insert_range env h l (position ys l) vs = Some (h', l', Inr (position (ns @ ys) l')) \<and>
        ral_inv h' l' (xs @ ns @ ys) \<and> same_object l l' \<and>
        vals h' (xs @ ns @ ys) = vals h xs @ us @ vals h ys \<and>
        (\<forall>a. a \<notin> owned (ral_impl l) (xs @ ns @ ys) \<longrightarrow> h' a = h a))"
  using insert_range_spec [OF assms] by (auto split: option.split)

theorem insert_range_all_or_nothing_witness:
  "\<exists>ns h' l'. insert_range demo_env demo_heap demo_list (position [3] demo_list) [Inr 7, Inr 8] =
      Some (h', l', Inr (position (ns @ [3]) l')) \<and> ral_inv h' l' ([1, 2] @ ns @ [3]) \<and>
    vals h' ([1, 2] @ ns @ [3]) = [10, 20, 7, 8, 30]"
proof -
  have inv: "ral_inv demo_heap demo_list ([1, 2] @ [3])" using demo_ral_inv by simp
  have "length ([1, 2] @ [3 :: nat]) + length [Inr 7, Inr 8 :: nat made] + 2 < 2 ^ 32" by simp
  from insert_range_all_or_nothing [OF demo_alloc_ok inv this] obtain us ns h' l' where
    r: "[Inr 7, Inr 8] = (map Inr us :: nat made list)"
    "insert_range demo_env demo_heap demo_list (position [3] demo_list) [Inr 7, Inr 8] =
          Some (h', l', Inr (position (ns @ [3]) l'))" "ral_inv h' l' ([1, 2] @ ns @ [3])"
    "vals h' ([1, 2] @ ns @ [3]) = vals demo_heap [1, 2] @ us @ vals demo_heap [3]"
    unfolding demo_free(3) option.case by (elim exE conjE) (rule that)
  have "us = [7, 8]" using r(1) by (auto simp: Cons_eq_map_conv)
  moreover have "vals demo_heap [1, 2] = [10, 20]" "vals demo_heap [3] = [30]" using demo_vals by simp_all
  ultimately have "vals h' ([1, 2] @ ns @ [3]) = [10, 20, 7, 8, 30]" using r(4) by simp
  with r(2,3) show ?thesis by blast
qed

text \<open>
  C10. Reading by index: \<open>operator[]\<close> returns element number \<open>i\<close>; \<open>at\<close>, whose range check is
  inverted, raises \<open>out_of_range\<close> for every valid index.
\<close>
theorem index_access:
  assumes "ral_inv h l xs" "i < length xs"
  shows "operator_index dbg h l (of_nat i) = Some (vals h xs ! i) \<and>
    at_checked dbg h l (of_nat i) = Some (Inl Out_of_range)"
  using operator_index_spec [OF assms] at_spec [OF assms] by simp

theorem index_access_witness:
  "operator_index True demo_heap demo_list 2 = Some 30 \<and> at_checked True demo_heap demo_list 2 = Some (Inl Out_of_range)"
  using index_access [OF demo_ral_inv, of 2 True] demo_vals by simp

text \<open>
  \<open>erase(first, last)\<close> removes exactly the elements between the two iterators and returns the
  iterator behind them.
\<close>
theorem erase_range_correct:
  assumes "ral_inv h l (xs @ ys @ zs)"
  shows "\<exists>h' l'. erase_range dbg h l (position (ys @ zs) l) (position zs l) = Some (h', l', position zs l') \<and>
    ral_inv h' l' (xs @ zs) \<and> same_object l l' \<and> vals h' (xs @ zs) = vals h xs @ vals h zs"
  using erase_range_spec [OF assms, of dbg] evolves_same by blast

theorem erase_range_correct_witness:
  "\<exists>h' l'. erase_range True demo_heap demo_list (position [1, 2, 3] demo_list) (position [3] demo_list) =
      Some (h', l', position [3] l') \<and> ral_inv h' l' [3]"
  using erase_range_correct [of demo_heap demo_list "[]" "[1, 2]" "[3]" True] demo_ral_inv by auto

text \<open>
  C11. \<open>resize\<close> to a smaller count drops elements from the end. To a larger count it has the
  strong guarantee, but puts the new elements in front of the old ones, not behind them.
\<close>
theorem resize_behaviour:
  assumes "alloc_ok env" "\<not> e_unwinding env" "ral_inv h l xs" "n + 2 < 2 ^ 32"
  shows "if n < length xs
    then (\<exists>h' l'. resize env h l (of_nat n) copies = Some (h', l', Inr ()) \<and> ral_inv h' l' (take n xs) \<and>
      vals h' (take n xs) = take n (vals h xs))
    else (case creation_error env h (map copies [0..<n - length xs]) of
        Some ex \<Rightarrow> resize env h l (of_nat n) copies = Some (h, l, Inl ex)
      | None \<Rightarrow> (\<exists>us ns h' l'. map copies [0..<n - length xs] = map Inr us \<and>
          resize env h l (of_nat n) copies = Some (h', l', Inr ()) \<and> ral_inv h' l' (ns @ xs) \<and>
          vals h' (ns @ xs) = us @ vals h xs))"
proof (cases "n < length xs")
  case True
  have "ral_inv h l (take n xs @ drop n xs)" "drop n xs \<noteq> []" using assms(3) True by simp_all
  from resize_shrink [OF this, of env copies] True show ?thesis
    by (auto simp: min_absorb2 vals_def take_map)
next
  case False
  with resize_grow [OF assms(1-3), of n copies] assms(4) show ?thesis by (auto split: option.split)
qed

theorem resize_behaviour_witness:
  "\<exists>h' l'. resize demo_env demo_heap demo_list 1 (\<lambda>_. Inr 7) = Some (h', l', Inr ()) \<and> ral_inv h' l' [1] \<and>
    vals h' [1] = [10]"
proof -
  have "(1 :: nat) + 2 < 2 ^ 32" by simp
  from resize_behaviour [OF demo_alloc_ok demo_ral_inv this, of "\<lambda>_. Inr 7"] show ?thesis
    by (simp only: demo_vals) simp
qed

text \<open>
  C12. \<open>remove_if\<close> returns only when every element satisfies the predicate (and then empties the
  list): its loop does not step over an element that stays.
\<close>
theorem remove_if_returns_iff:
  assumes "ral_inv h l xs"
  shows "(\<exists>h' l'. remove_if dbg h l p = Some (h', l')) \<longleftrightarrow> (\<forall>v\<in>set (vals h xs). p v)"
  by (rule remove_if_spec [OF assms])

theorem remove_if_returns_iff_witness: "remove_if True demo_heap demo_list (\<lambda>v. v = 20) = None"
proof (rule ccontr)
  assume "remove_if True demo_heap demo_list (\<lambda>v. v = 20) \<noteq> None"
  then have "\<forall>v\<in>set (vals demo_heap [1, 2, 3]). v = 20"
    using remove_if_returns_iff [OF demo_ral_inv, of True "\<lambda>v. v = 20"] by auto
  then show False by (simp only: demo_vals) simp
qed

lemma unique_after_eq: "v # unique_after (=) v vs = remdups_adj (v # vs)"
  by (induction vs arbitrary: v) auto

text \<open>
  \<open>unique\<close> returns and keeps an element exactly when the predicate does not relate it to the
  last element that stayed; with equality the values that remain are those of the list
  without adjacent duplicates.
\<close>
theorem unique_correct:
  assumes "ral_inv h l xs"
  shows "\<exists>h' l' zs. unique dbg h l p = Some (h', l') \<and> ral_inv h' l' zs \<and> same_object l l' \<and>
    vals h' zs = (case vals h xs of [] \<Rightarrow> [] | v # vs \<Rightarrow> v # unique_after p v vs) \<and>
    (p = (=) \<longrightarrow> vals h' zs = remdups_adj (vals h xs))"
proof -
  from unique_spec [OF assms, of dbg p] obtain h' l' zs where u: "unique dbg h l p = Some (h', l')"
    "ral_inv h' l' zs" "same_object l l'"
    "vals h' zs = (case vals h xs of [] \<Rightarrow> [] | v # vs \<Rightarrow> v # unique_after p v vs)"
    using evolves_same by blast
  moreover have "p = (=) \<Longrightarrow> vals h' zs = remdups_adj (vals h xs)"
    using u(4) by (cases "vals h xs") (simp_all only: list.case remdups_adj.simps(1) unique_after_eq)
  ultimately show ?thesis by blast
qed

theorem unique_correct_witness:
  "\<exists>h' l' zs. unique True demo_heap demo_list (\<lambda>x y. x = y + 10) = Some (h', l') \<and> ral_inv h' l' zs \<and>
    vals h' zs = [10, 30]"
proof -
  from unique_correct [OF demo_ral_inv, of True "\<lambda>x y. x = y + 10"] obtain h' l' zs where
    "unique True demo_heap demo_list (\<lambda>x y. x = y + 10) = Some (h', l')" "ral_inv h' l' zs"
    "vals h' zs = (case [10, 20, 30] of [] \<Rightarrow> [] | v # vs \<Rightarrow> v # unique_after (\<lambda>x y. x = y + 10) v vs)"
    unfolding demo_vals by blast
  then show ?thesis by auto
qed

text \<open>
  \<open>reverse\<close> reverses the values; the nodes are moved, not copied.
\<close>
theorem reverse_correct:
  assumes "ral_inv h l xs"
  shows "\<exists>h' l'. reverse_list dbg h l = Some (h', l') \<and> ral_inv h' l' (rev xs) \<and> same_object l l' \<and>
    vals h' (rev xs) = rev (vals h xs)"
  using reverse_spec [OF assms, of dbg] evolves_same by blast

theorem reverse_correct_witness:
  "\<exists>h' l'. reverse_list True demo_heap demo_list = Some (h', l') \<and> ral_inv h' l' [3, 2, 1]"
  using reverse_correct [OF demo_ral_inv, of True] by auto

text \<open>
  \<open>sort\<close>: for every node list sort that permutes and orders, the list afterwards holds a
  permutation of its values in which no value precedes, in the given order, one before it.
\<close>
theorem sort_correct:
  assumes "ral_inv h l xs" "list_sort_ok list_sort less_comp"
  shows "\<exists>h' l' ns. sort_list list_sort dbg h l = Some (h', l') \<and> ral_inv h' l' ns \<and> same_object l l' \<and>
    mset (vals h' ns) = mset (vals h xs) \<and> sorted_wrt (\<lambda>x y. \<not> less_comp y x) (vals h' ns)"
  using sort_spec [OF assms, of dbg] evolves_same by blast

definition demo_sort :: "nat heap \<Rightarrow> addr list \<Rightarrow> addr list" where
  "demo_sort h = sort_key (\<lambda>a. the (the (val_at h a)))"

lemma demo_sort_ok: "list_sort_ok demo_sort (<)"
proof -
  have "sorted (vals h (demo_sort h xs))" for h xs by (simp add: demo_sort_def vals_def)
  then show ?thesis by (simp add: list_sort_ok_def demo_sort_def not_less)
qed

theorem sort_correct_witness:
  "\<exists>h' l' ns. sort_list demo_sort True demo_heap demo_list = Some (h', l') \<and> ral_inv h' l' ns \<and>
    mset (vals h' ns) = mset [10, 20, 30] \<and> sorted_wrt (\<lambda>x y. \<not> y < x) (vals h' ns)"
  using sort_correct [OF demo_ral_inv demo_sort_ok, of True] unfolding demo_vals by blast

text \<open>
  \<open>merge\<close>: the other list is emptied and this one holds the merge of both value sequences, a
  permutation of all values; when both are sorted by a strict weak order, so is the result.
\<close>
theorem merge_correct:
  assumes "ral_inv h l xs" "ral_inv h m ys" "apart l xs m ys" "length xs + length ys + 2 < 2 ^ 32"
    "transp (\<lambda>x y. \<not> less_comp y x)" "\<And>x y. less_comp x y \<Longrightarrow> \<not> less_comp y x"
    "sorted_wrt (\<lambda>x y. \<not> less_comp y x) (vals h xs)" "sorted_wrt (\<lambda>x y. \<not> less_comp y x) (vals h ys)"
  shows "\<exists>h' l' m' ns. merge_private dbg h l m less_comp = Some (h', l', m') \<and> ral_inv h' l' ns \<and>
    ral_inv h' m' [] \<and> mset (vals h' ns) = mset (vals h xs) + mset (vals h ys) \<and>
    sorted_wrt (\<lambda>x y. \<not> less_comp y x) (vals h' ns)"
proof -
  from merge_spec [OF assms(1-4), of dbg less_comp] obtain h' l' m' ns where
    "merge_private dbg h l m less_comp = Some (h', l', m')" "ral_inv h' l' ns" "ral_inv h' m' []"
    "vals h' ns = merge_nodes less_comp (vals h xs) (vals h ys)" by blast
  moreover have "sorted_wrt (\<lambda>x y. \<not> less_comp y x) (merge_nodes less_comp (vals h xs) (vals h ys))"
    using assms(6) by (intro sorted_merge_nodes [OF assms(5) _ assms(7,8)]) blast
  ultimately show ?thesis by (metis set_merge_nodes)
qed

theorem merge_correct_witness:
  "\<exists>h' l' m' ns. merge_private True demo_heap demo_empty demo_list (<) = Some (h', l', m') \<and> ral_inv h' l' ns \<and>
    ral_inv h' m' [] \<and> mset (vals h' ns) = mset [10, 20, 30 :: nat]"
proof -
  have "sorted_wrt (\<lambda>x y. \<not> y < x) (vals demo_heap [1, 2, 3])" unfolding demo_vals by simp
  from merge_correct [OF demo_empty_inv demo_ral_inv demo_apart(2) _ _ _ _ this, of True]
  show ?thesis unfolding demo_vals by (auto simp: transp_def)
qed

text \<open>
  \<open>splice(pos, other)\<close> moves all nodes of the other list in front of the position, in order,
  and leaves the other list empty and valid.
\<close>
theorem splice_all_correct:
  assumes "ral_inv h l (xs @ zs)" "ral_inv h m ys" "apart l (xs @ zs) m ys" "length (xs @ ys @ zs) + 2 < 2 ^ 32"
  shows "\<exists>h' l' m'. splice_all dbg h l (position zs l) m = Some (h', l', m') \<and>
    ral_inv h' l' (xs @ ys @ zs) \<and> ral_inv h' m' [] \<and> same_object l l' \<and> same_object m m' \<and>
    vals h' (xs @ ys @ zs) = vals h xs @ vals h ys @ vals h zs"
  using splice_all_spec [OF assms, of dbg] by blast

theorem splice_all_correct_witness:
  "\<exists>h' l' m'. splice_all True demo_heap demo_empty (position [] demo_empty) demo_list = Some (h', l', m') \<and>
    ral_inv h' l' [1, 2, 3] \<and> ral_inv h' m' []"
  using splice_all_correct [of demo_heap demo_empty "[]" "[]" demo_list "[1, 2, 3]" True]
    demo_empty_inv demo_ral_inv demo_apart(2) by auto

text \<open>
  C15. \<open>splice(pos, other, it)\<close> does not move one element: without assertions it moves the element
  and everything behind it, with assertions it fails in \<open>getNextAndRemoveNode\<close>.
\<close>
theorem splice_one_moves_tail:
  assumes "ral_inv h l (xs @ zs)" "ral_inv h m (us @ a # ws)" "apart l (xs @ zs) m (us @ a # ws)"
    "length (xs @ zs) + length ws + 3 < 2 ^ 32"
  shows "(\<exists>h' l' m'. splice_one False h l (position zs l) m (position (a # ws) m) = Some (h', l', m') \<and>
      ral_inv h' l' (xs @ a # ws @ zs) \<and> ral_inv h' m' us) \<and>
    splice_one True h l (position zs l) m (position (a # ws) m) = None"
proof -
  from assms(2) obtain t bb e where "s_end (ral_impl m) = Some e" "distinct (bb # (us @ a # ws) @ [e])"
    by (rule stump_invE)
  then have "it_current (position (a # ws) m) \<noteq> it_current (position [] m)" by (auto simp: position_def iterator_at_def)
  then have "splice_one True h l (position zs l) m (position (a # ws) m) = None"
    using ral_end_spec [OF assms(2), of True] by (simp add: splice_one_def splice_range_debug)
  with splice_one_spec [OF assms] show ?thesis by blast
qed

theorem splice_one_moves_tail_witness:
  "\<exists>h' l' m'. splice_one False demo_heap demo_empty (position [] demo_empty) demo_list (position [2, 3] demo_list) =
      Some (h', l', m') \<and> ral_inv h' l' [2, 3] \<and> ral_inv h' m' [1]"
  using splice_one_moves_tail [of demo_heap demo_empty "[]" "[]" demo_list "[1]" 2 "[3]"]
    demo_empty_inv demo_ral_inv demo_apart(2) by auto

text \<open>
  C16. The life of a list, while no exception is in flight. If the block for the tree object cannot be allocated, constructing a list raises \<open>bad_alloc\<close> and nothing has
  changed. If the block is there but not both gap nodes, the constructor of the tree object cleans up and throws, but the
  list's constructor then destroys an object that was never built, which is undefined behaviour. Otherwise the list is
  valid and empty, the destructor gives back exactly the nodes it owns, and the heap is as before.
\<close>
theorem construct_destroy:
  assumes "alloc_ok env" "\<not> e_unwinding env"
  shows "case place of
      None \<Rightarrow> makeImplementation env place h = Some (h, Inl Bad_alloc)
    | Some p \<Rightarrow> (if gaps_available env h
        then \<exists>h' l. makeImplementation env place h = Some (h', Inr l) \<and> ral_at l = p \<and> ral_inv h' l [] \<and>
          (\<forall>a\<in>owned (ral_impl l) []. h a = None) \<and> destroy_stump dbg h' (ral_impl l) = Some h
        else make_stump env h = Some (h, Inl Bad_alloc) \<and> makeImplementation env place h = None)"
proof (cases place)
  case (Some p)
  show ?thesis
  proof (cases "gaps_available env h")
    case True
    obtain h' l where m: "makeImplementation env (Some p) h = Some (h', Inr l)"
      using makeImplementation_gaps [OF assms] makeImplementation_made True by blast
    note t = makeImplementation_spec [OF assms m]
    have "(\<lambda>a. if a \<in> owned (ral_impl l) [] then None else h' a) = h" using t by (auto simp: fun_eq_iff)
    then have "destroy_stump dbg h' (ral_impl l) = Some h" using destroy_stump_spec [of h' "ral_impl l" "[]" dbg] t by simp
    with m t True Some show ?thesis by simp
  next
    case False
    then have "makeImplementation env (Some p) h = None" using makeImplementation_gaps [OF assms, of p h] by blast
    with False Some show ?thesis using make_stump_fails [OF assms False] by simp
  qed
qed simp

lemma demo_gaps: "gaps_available demo_env demo_heap"
  using demo_free(1,2) by (simp add: gaps_available_def)

theorem construct_destroy_witness:
  "\<exists>h' l. makeImplementation demo_env (Some 102) demo_heap = Some (h', Inr l) \<and> ral_inv h' l [] \<and>
    destroy_stump True h' (ral_impl l) = Some demo_heap"
  using construct_destroy [OF demo_alloc_ok, of "Some 102" demo_heap True] demo_gaps by auto

text \<open>
  C17. \<open>assign(first, last)\<close> replaces the contents while no exception is in flight, with every outcome. If the block of the temporary list cannot be allocated, or
  copying a value throws, heap and list are exactly as before. If the gap nodes of the temporary cannot be allocated the call is undefined
  behaviour, as for every construction. Otherwise the list holds the new values, every node of the old
  contents has been freed, and no other object of the heap is written.
\<close>
theorem assign_correct:
  assumes "alloc_ok env" "\<not> e_unwinding env" "ral_inv h l xs" "length vs + 2 < 2 ^ 32"
  shows "case place of
      None \<Rightarrow> assign env place h l vs = Some (h, l, Inl Bad_alloc)
    | Some p \<Rightarrow> (if gaps_available env h
        then \<exists>k tmp. makeImplementation env place h = Some (k, Inr tmp) \<and> (case creation_error env k vs of
            Some ex \<Rightarrow> assign env place h l vs = Some (h, l, Inl ex)
          | None \<Rightarrow> (\<exists>us ns h' l'. vs = map Inr us \<and>
              assign env place h l vs = Some (h', l', Inr ()) \<and> ral_at l' = p \<and> ral_inv h' l' ns \<and>
              vals h' ns = us \<and> (\<forall>a\<in>owned (ral_impl l) xs. h' a = None) \<and>
              (\<forall>a. h a \<noteq> None \<longrightarrow> a \<notin> owned (ral_impl l) xs \<longrightarrow> h' a = h a)))
        else assign env place h l vs = None)"
proof (cases place)
  case (Some p)
  show ?thesis
  proof (cases "gaps_available env h")
    case True
    then have "makeImplementation env (Some p) h \<noteq> None" using makeImplementation_gaps [OF assms(1,2)] by blast
    from assign_spec [OF assms(1-3) this assms(4)] True Some show ?thesis by (fastforce split: option.split)
  next
    case False
    then have "makeImplementation env (Some p) h = None" using makeImplementation_gaps [OF assms(1,2), of p h] by blast
    with False Some show ?thesis by (simp add: assign_def)
  qed
qed (simp add: assign_def)

theorem assign_correct_witness:
  "\<exists>h' l' ns. assign demo_env (Some 102) demo_heap demo_list [Inr 7] = Some (h', l', Inr ()) \<and> ral_at l' = 102 \<and>
    ral_inv h' l' ns \<and> vals h' ns = [7] \<and> (\<forall>a\<in>{0, 1, 2, 3, 4}. h' a = None)"
proof -
  have "length [Inr 7 :: nat made] + 2 < 2 ^ 32" by simp
  from assign_correct [OF demo_alloc_ok demo_ral_inv this, of "Some 102"]
  obtain k tmp where k: "makeImplementation demo_env (Some 102) demo_heap = Some (k, Inr tmp)"
    and c: "case creation_error demo_env k [Inr 7] of
        Some ex \<Rightarrow> assign demo_env (Some 102) demo_heap demo_list [Inr 7] = Some (demo_heap, demo_list, Inl ex)
      | None \<Rightarrow> (\<exists>us ns h' l'. [Inr 7] = (map Inr us :: nat made list) \<and>
          assign demo_env (Some 102) demo_heap demo_list [Inr 7] = Some (h', l', Inr ()) \<and> ral_at l' = 102 \<and> ral_inv h' l' ns \<and>
          vals h' ns = us \<and> (\<forall>a\<in>owned (ral_impl demo_list) [1, 2, 3]. h' a = None) \<and>
          (\<forall>a. demo_heap a \<noteq> None \<longrightarrow> a \<notin> owned (ral_impl demo_list) [1, 2, 3] \<longrightarrow> h' a = demo_heap a))"
    unfolding option.case if_P [OF demo_gaps] by (elim exE conjE) (erule that)
  note t = makeImplementation_spec [OF demo_alloc_ok k]
  have "e_alloc demo_env k \<noteq> None"
  proof
    assume "e_alloc demo_env k = None"
    then have "k 20 \<noteq> None" "k 21 \<noteq> None" "k 22 \<noteq> None" by (auto simp: demo_env_def split: if_splits)
    moreover have "demo_heap 20 = None" "demo_heap 21 = None" "demo_heap 22 = None" by (simp_all add: demo_heap_def)
    ultimately have "{20, 21, 22} \<subseteq> owned (ral_impl tmp) []" using t by (metis empty_subsetI insert_subset)
    moreover obtain bb e where "owned (ral_impl tmp) [] = {bb, e}"
      using t by (auto elim!: stump_invE simp: owned_def)
    ultimately show False by auto
  qed
  then have "creation_error demo_env k [Inr 7] = None"
    using demo_alloc_ok(2) by (auto simp: creation_error_def makeNode_def)
  with c show ?thesis using demo_owned by (auto simp: demo_list_def Cons_eq_map_conv)
qed

end
