(* ===== verification/Ral_Scripts.thy ===== *)
theory Ral_Scripts
  imports Ral_Store
begin

section \<open>Scripts over the whole list interface\<close>

text \<open>
  RandomAccessListTest.cpp works on a few lists with equal allocators and compares them, after every step, with standard containers. A test is a
  list of commands that covers the public members of \<open>random_access_list\<close>: constructors, assignment, insertion, removal, rearranging,
  moving nodes between lists and the reading members. A command runs on the lists of one heap; the same command on plain lists says what it
  should do. An operation that throws ends the test.
\<close>

subsection \<open>Reading backwards\<close>

text \<open>A walk with \<open>std::reverse_iterator\<close> from \<open>rbegin()\<close> to \<open>rend()\<close>.\<close>

partial_function (option) read_reversed :: "bool \<Rightarrow> 'a heap \<Rightarrow> random_access_list \<Rightarrow> TRandomAccessIterator \<Rightarrow>
    TRandomAccessIterator \<Rightarrow> 'a list \<Rightarrow> 'a list option" where
  "read_reversed dbg h l it first_it acc = do {
     stop \<leftarrow> iterator_equal dbg it first_it;
     if stop then Some acc
     else do {
       it \<leftarrow> iterator_decrement dbg h l it;
       v \<leftarrow> iterator_dereference dbg h l it;
       read_reversed dbg h l it first_it (acc @ [v]) } }"

definition read_all_reversed :: "bool \<Rightarrow> 'a heap \<Rightarrow> random_access_list \<Rightarrow> 'a list option" where
  "read_all_reversed dbg h l = do {
     first_it \<leftarrow> ral_begin dbg l;
     last_it \<leftarrow> ral_end dbg l;
     read_reversed dbg h l last_it first_it [] }"

subsection \<open>Commands\<close>

text \<open>Lists are numbered in the order of their construction. The constructors and members that copy values are called with values
  whose copies do not throw. \<open>L_emplace\<close> and its kin check the returned iterator against the index the test expects.\<close>

datatype ral_command =
  L_new | L_new_count nat int | L_new_range "int list" | L_new_copy nat | L_new_move nat |
  L_assign_count nat nat int | L_assign_range nat "int list" | L_copy_assign nat nat | L_move_assign nat nat | L_swap nat nat |
  L_emplace nat nat int | L_emplace_back nat int nat | L_emplace_front nat int nat | L_push_back nat int | L_push_front nat int |
  L_insert_range nat nat "int list" | L_insert_count nat nat nat int |
  L_erase nat nat | L_erase_range nat nat nat | L_pop_back nat | L_pop_front nat | L_clear nat | L_resize nat nat int |
  L_remove nat int | L_remove_if nat "int \<Rightarrow> bool" | L_unique nat | L_reverse nat | L_sort nat |
  L_merge nat nat | L_splice nat nat nat | L_splice_range nat nat nat nat nat | L_splice_one nat nat nat nat |
  L_self_check nat | L_size nat nat | L_ends nat int int | L_walk nat "int list" | L_empty nat bool | L_front nat int | L_back nat int | L_index nat nat int |
  L_position nat nat int | L_distance nat nat nat int | L_values nat "int list" | L_values_reversed nat "int list" |
  L_equal nat nat bool | L_less nat nat bool | L_instances nat

type_synonym 'a lists = "'a heap \<times> random_access_list list"

text \<open>Implementation objects live apart from the nodes; a new one gets a place no list uses.\<close>

definition free_place :: "random_access_list list \<Rightarrow> addr" where
  "free_place ls = Suc (sum_list (map ral_at ls))"

definition no_throw :: "('a, 'r) outcome \<Rightarrow> ('a heap \<times> random_access_list \<times> 'r) option" where
  "no_throw m = do { (h, l, r) \<leftarrow> m; (case r of Inl ex \<Rightarrow> None | Inr x \<Rightarrow> Some (h, l, x)) }"

definition no_result :: "('a, 'r) outcome \<Rightarrow> ('a heap \<times> random_access_list) option" where
  "no_result m = do { (h, l, x) \<leftarrow> no_throw m; Some (h, l) }"

definition on_list :: "nat \<Rightarrow> ('a heap \<Rightarrow> random_access_list \<Rightarrow> ('a heap \<times> random_access_list) option) \<Rightarrow> 'a lists \<Rightarrow> 'a lists option" where
  "on_list i f st = (case st of (h, ls) \<Rightarrow>
     if i < length ls then do { (h, l) \<leftarrow> f h (ls ! i); Some (h, ls[i := l]) } else None)"

definition on_two :: "nat \<Rightarrow> nat \<Rightarrow> ('a heap \<Rightarrow> random_access_list \<Rightarrow> random_access_list \<Rightarrow>
    ('a heap \<times> random_access_list \<times> random_access_list) option) \<Rightarrow> 'a lists \<Rightarrow> 'a lists option" where
  "on_two i j f st = (case st of (h, ls) \<Rightarrow>
     if i < length ls \<and> j < length ls then do { (h, l, m) \<leftarrow> f h (ls ! i) (ls ! j); Some (h, ls[i := l, j := m]) } else None)"

definition on_built :: "('a heap \<times> (cpp_exception + random_access_list)) option \<Rightarrow> random_access_list list \<Rightarrow> 'a lists option" where
  "on_built m ls = do { (h, r) \<leftarrow> m; (case r of Inl ex \<Rightarrow> None | Inr l \<Rightarrow> Some (h, ls @ [l])) }"

definition check_list :: "nat \<Rightarrow> ('a heap \<Rightarrow> random_access_list \<Rightarrow> bool option) \<Rightarrow> 'a lists \<Rightarrow> 'a lists option" where
  "check_list i f st = (case st of (h, ls) \<Rightarrow>
     if i < length ls then do { b \<leftarrow> f h (ls ! i); ASSERT True b; Some st } else None)"

definition check_two :: "nat \<Rightarrow> nat \<Rightarrow> ('a heap \<Rightarrow> random_access_list \<Rightarrow> random_access_list \<Rightarrow> bool option) \<Rightarrow> 'a lists \<Rightarrow> 'a lists option" where
  "check_two i j f st = (case st of (h, ls) \<Rightarrow>
     if i < length ls \<and> j < length ls then do { b \<leftarrow> f h (ls ! i) (ls ! j); ASSERT True b; Some st } else None)"

text \<open>\<open>std::distance(cbegin(), it) == d\<close> and \<open>*it == v\<close>.\<close>

definition iterator_checked :: "bool \<Rightarrow> 'a heap \<Rightarrow> random_access_list \<Rightarrow> TRandomAccessIterator \<Rightarrow> nat \<Rightarrow> 'a \<Rightarrow> unit option" where
  "iterator_checked dbg h l it d v = do {
     first_it \<leftarrow> ral_begin dbg l;
     k \<leftarrow> iterator_distance_to dbg h l first_it it;
     ASSERT True (sint k = int d);
     x \<leftarrow> iterator_dereference dbg h l it;
     ASSERT True (x = v) }"

definition emplace_checked :: "'a env \<Rightarrow> ('a, TRandomAccessIterator) outcome \<Rightarrow> nat \<Rightarrow> 'a \<Rightarrow> ('a heap \<times> random_access_list) option" where
  "emplace_checked env m d v = do {
     (h, l, it) \<leftarrow> no_throw m;
     iterator_checked (e_dbg env) h l it d v;
     Some (h, l) }"

text \<open>\<open>eraseTest\<close>: the iterator behind the element, computed in two ways before, is the one \<open>erase\<close> returns.\<close>

definition erase_checked :: "bool \<Rightarrow> 'a heap \<Rightarrow> random_access_list \<Rightarrow> nat \<Rightarrow> ('a heap \<times> random_access_list) option" where
  "erase_checked dbg h l k = do {
     it \<leftarrow> iterator_plus dbg h l k;
     after1 \<leftarrow> iterator_plus dbg h l (k + 1);
     after2 \<leftarrow> iterator_increment dbg h l it;
     b \<leftarrow> iterator_equal dbg after1 after2;
     ASSERT True b;
     (h, l, r) \<leftarrow> erase dbg h l it;
     b \<leftarrow> iterator_equal dbg r after2;
     ASSERT True b;
     e \<leftarrow> ral_end dbg l;
     b \<leftarrow> iterator_equal dbg r e;
     (if b then Some () else do {
        x \<leftarrow> iterator_dereference dbg h l r;
        y \<leftarrow> iterator_dereference dbg h l after2;
        ASSERT True (x = y) });
     Some (h, l) }"

text \<open>\<open>checkIncreased\<close>: both ends through forward and reverse iterators (\<open>*begin()\<close>, \<open>*(end()-1)\<close>, \<open>*(rend()-1)\<close>,
  \<open>*rbegin()\<close>), the walk with \<open>++\<close>, and the element at an index, through an iterator and through \<open>operator[]\<close>.\<close>

definition ends_checked :: "bool \<Rightarrow> 'a heap \<Rightarrow> random_access_list \<Rightarrow> 'a \<Rightarrow> 'a \<Rightarrow> bool option" where
  "ends_checked dbg h l v w = do {
     first_it \<leftarrow> ral_begin dbg l;
     x \<leftarrow> iterator_dereference dbg h l first_it;
     ASSERT True (x = v);
     last_it \<leftarrow> ral_end dbg l;
     it \<leftarrow> iterator_advance dbg h l last_it (- 1);
     x \<leftarrow> iterator_dereference dbg h l it;
     ASSERT True (x = w);
     it \<leftarrow> iterator_advance dbg h l first_it 1;
     it \<leftarrow> iterator_decrement dbg h l it;
     x \<leftarrow> iterator_dereference dbg h l it;
     ASSERT True (x = v);
     it \<leftarrow> iterator_decrement dbg h l last_it;
     x \<leftarrow> iterator_dereference dbg h l it;
     Some (x = w) }"

fun walk_checked :: "bool \<Rightarrow> 'a heap \<Rightarrow> random_access_list \<Rightarrow> TRandomAccessIterator \<Rightarrow> nat \<Rightarrow> 'a list \<Rightarrow> bool option" where
  "walk_checked dbg h l it d [] = do {
     last_it \<leftarrow> ral_end dbg l;
     iterator_equal dbg it last_it }"
| "walk_checked dbg h l it d (v # vs) = do {
     last_it \<leftarrow> ral_end dbg l;
     stop \<leftarrow> iterator_equal dbg it last_it;
     ASSERT True (\<not> stop);
     iterator_checked dbg h l it d v;
     it \<leftarrow> iterator_increment dbg h l it;
     walk_checked dbg h l it (Suc d) vs }"

definition position_checked :: "bool \<Rightarrow> 'a heap \<Rightarrow> random_access_list \<Rightarrow> nat \<Rightarrow> 'a \<Rightarrow> bool option" where
  "position_checked dbg h l k v = do {
     it \<leftarrow> iterator_plus dbg h l k;
     last_it \<leftarrow> ral_end dbg l;
     stop \<leftarrow> iterator_equal dbg it last_it;
     ASSERT dbg (\<not> stop);
     iterator_checked dbg h l it k v;
     x \<leftarrow> operator_index dbg h l (of_nat k);
     Some (x = v) }"

definition distance_checked :: "bool \<Rightarrow> 'a heap \<Rightarrow> random_access_list \<Rightarrow> nat \<Rightarrow> nat \<Rightarrow> int \<Rightarrow> bool option" where
  "distance_checked dbg h l a b d = do {
     first_it \<leftarrow> iterator_plus dbg h l a;
     last_it \<leftarrow> iterator_plus dbg h l b;
     k \<leftarrow> iterator_distance_to dbg h l first_it last_it;
     Some (sint k = d) }"

fun ral_command_step :: "int env \<Rightarrow> (int heap \<Rightarrow> addr list \<Rightarrow> addr list) \<Rightarrow> ral_command \<Rightarrow> int lists \<Rightarrow> int lists option" where
  "ral_command_step env srt L_new (h, ls) =
     on_built (makeImplementation env (Some (free_place ls)) h) ls"
| "ral_command_step env srt (L_new_count n v) (h, ls) =
     on_built (construct_count env (Some (free_place ls)) (Some (Suc (free_place ls))) h (of_nat n) (\<lambda>_. Inr v)) ls"
| "ral_command_step env srt (L_new_range vs) (h, ls) =
     on_built (construct_range env (Some (free_place ls)) (Some (Suc (free_place ls))) h (map Inr vs)) ls"
| "ral_command_step env srt (L_new_copy j) (h, ls) = (if j < length ls
     then on_built (construct_copy env (Some (free_place ls)) (Some (Suc (free_place ls))) Inr h (ls ! j)) ls else None)"
| "ral_command_step env srt (L_new_move j) (h, ls) = (if j < length ls
     then do { (h, r) \<leftarrow> construct_move env (Some (free_place ls)) h (ls ! j);
       (case r of Inl ex \<Rightarrow> None | Inr (l, other) \<Rightarrow> Some (h, ls[j := other] @ [l])) } else None)"
| "ral_command_step env srt (L_assign_count i n v) (h, ls) =
     on_list i (\<lambda>h l. no_result (assign_count env (Some (free_place ls)) h l (of_nat n) (\<lambda>_. Inr v))) (h, ls)"
| "ral_command_step env srt (L_assign_range i vs) (h, ls) =
     on_list i (\<lambda>h l. no_result (assign env (Some (free_place ls)) h l (map Inr vs))) (h, ls)"
| "ral_command_step env srt (L_copy_assign i j) (h, ls) = (if j < length ls
     then on_list i (\<lambda>h l. no_result (copy_assign env (Some (free_place ls)) Inr h l (ls ! j))) (h, ls) else None)"
| "ral_command_step env srt (L_move_assign i j) st = on_two i j (\<lambda>h l m. case ral_swap (l, m) of (l, m) \<Rightarrow> Some (h, l, m)) st"
| "ral_command_step env srt (L_swap i j) st = on_two i j (\<lambda>h l m. case ral_swap (l, m) of (l, m) \<Rightarrow> Some (h, l, m)) st"
| "ral_command_step env srt (L_emplace i k v) st = on_list i (\<lambda>h l. do {
     it \<leftarrow> iterator_plus (e_dbg env) h l k; emplace_checked env (emplace env h l it (Inr v)) k v }) st"
| "ral_command_step env srt (L_emplace_back i v d) st = on_list i (\<lambda>h l. emplace_checked env (emplace_back env h l (Inr v)) d v) st"
| "ral_command_step env srt (L_emplace_front i v d) st = on_list i (\<lambda>h l. emplace_checked env (emplace_front env h l (Inr v)) d v) st"
| "ral_command_step env srt (L_push_back i v) st = on_list i (\<lambda>h l. no_result (push_back env h l (Inr v))) st"
| "ral_command_step env srt (L_push_front i v) st = on_list i (\<lambda>h l. no_result (push_front env h l (Inr v))) st"
| "ral_command_step env srt (L_insert_range i k vs) st = on_list i (\<lambda>h l. do {
     it \<leftarrow> iterator_plus (e_dbg env) h l k; no_result (insert_range env h l it (map Inr vs)) }) st"
| "ral_command_step env srt (L_insert_count i k n v) st = on_list i (\<lambda>h l. do {
     it \<leftarrow> iterator_plus (e_dbg env) h l k; no_result (insert_count env h l it (of_nat n) (\<lambda>_. Inr v)) }) st"
| "ral_command_step env srt (L_erase i k) st = on_list i (\<lambda>h l. erase_checked (e_dbg env) h l k) st"
| "ral_command_step env srt (L_erase_range i a b) st = on_list i (\<lambda>h l. do {
     first_it \<leftarrow> iterator_plus (e_dbg env) h l a; last_it \<leftarrow> iterator_plus (e_dbg env) h l b;
     (h, l, _) \<leftarrow> erase_range (e_dbg env) h l first_it last_it; Some (h, l) }) st"
| "ral_command_step env srt (L_pop_back i) st = on_list i (pop_back (e_dbg env)) st"
| "ral_command_step env srt (L_pop_front i) st = on_list i (pop_front (e_dbg env)) st"
| "ral_command_step env srt (L_clear i) st = on_list i (ral_clear (e_dbg env)) st"
| "ral_command_step env srt (L_resize i n v) st = on_list i (\<lambda>h l. no_result (resize env h l (of_nat n) (\<lambda>_. Inr v))) st"
| "ral_command_step env srt (L_remove i v) st = on_list i (\<lambda>h l. remove_value (e_dbg env) h l v) st"
| "ral_command_step env srt (L_remove_if i p) st = on_list i (\<lambda>h l. remove_if (e_dbg env) h l p) st"
| "ral_command_step env srt (L_unique i) st = on_list i (\<lambda>h l. unique (e_dbg env) h l (=)) st"
| "ral_command_step env srt (L_reverse i) st = on_list i (reverse_list (e_dbg env)) st"
| "ral_command_step env srt (L_sort i) st = on_list i (sort_list srt (e_dbg env)) st"
| "ral_command_step env srt (L_merge i j) st = on_two i j (\<lambda>h l m. merge_private (e_dbg env) h l m (<)) st"
| "ral_command_step env srt (L_splice i k j) st = on_two i j (\<lambda>h l m. do {
     pos \<leftarrow> iterator_plus (e_dbg env) h l k; splice_all (e_dbg env) h l pos m }) st"
| "ral_command_step env srt (L_splice_range i k j a b) st = on_two i j (\<lambda>h l m. do {
     pos \<leftarrow> iterator_plus (e_dbg env) h l k; first_it \<leftarrow> iterator_plus (e_dbg env) h m a; last_it \<leftarrow> iterator_plus (e_dbg env) h m b;
     splice_range (e_dbg env) h l pos m first_it last_it }) st"
| "ral_command_step env srt (L_splice_one i k j a) st = on_two i j (\<lambda>h l m. do {
     pos \<leftarrow> iterator_plus (e_dbg env) h l k; it \<leftarrow> iterator_plus (e_dbg env) h m a;
     splice_one (e_dbg env) h l pos m it }) st"
| "ral_command_step env srt (L_self_check i) st = check_list i (\<lambda>h l. do { ral_selfCheck (e_dbg env) True h l; Some True }) st"
| "ral_command_step env srt (L_size i n) st = check_list i (\<lambda>h l. map_option (\<lambda>s. unat s = n) (ral_size (e_dbg env) h l)) st"
| "ral_command_step env srt (L_ends i v w) st = check_list i (\<lambda>h l. ends_checked (e_dbg env) h l v w) st"
| "ral_command_step env srt (L_walk i vs) st = check_list i (\<lambda>h l. do {
     it \<leftarrow> ral_begin (e_dbg env) l; walk_checked (e_dbg env) h l it 0 vs }) st"
| "ral_command_step env srt (L_empty i b) st = check_list i (\<lambda>h l. map_option ((=) b) (ral_empty (e_dbg env) h l)) st"
| "ral_command_step env srt (L_front i v) st = check_list i (\<lambda>h l. map_option ((=) v) (ral_front (e_dbg env) h l)) st"
| "ral_command_step env srt (L_back i v) st = check_list i (\<lambda>h l. map_option ((=) v) (ral_back (e_dbg env) h l)) st"
| "ral_command_step env srt (L_index i k v) st = check_list i (\<lambda>h l. map_option ((=) v) (operator_index (e_dbg env) h l (of_nat k))) st"
| "ral_command_step env srt (L_position i k v) st = check_list i (\<lambda>h l. position_checked (e_dbg env) h l k v) st"
| "ral_command_step env srt (L_distance i a b d) st = check_list i (\<lambda>h l. distance_checked (e_dbg env) h l a b d) st"
| "ral_command_step env srt (L_values i vs) st = check_list i (\<lambda>h l. map_option ((=) vs) (read_all (e_dbg env) h l)) st"
| "ral_command_step env srt (L_values_reversed i vs) st = check_list i (\<lambda>h l. map_option ((=) vs) (read_all_reversed (e_dbg env) h l)) st"
| "ral_command_step env srt (L_equal i j b) st = check_two i j (\<lambda>h l m. map_option ((=) b) (operator_equal (e_dbg env) (=) h l m)) st"
| "ral_command_step env srt (L_less i j b) st = check_two i j (\<lambda>h l m. map_option ((=) b) (operator_less (e_dbg env) (<) h l m)) st"
| "ral_command_step env srt (L_instances n) st = do { ASSERT True (instances (fst st) = n); Some st }"

fun run_ral_test :: "int env \<Rightarrow> (int heap \<Rightarrow> addr list \<Rightarrow> addr list) \<Rightarrow> ral_command list \<Rightarrow> int lists \<Rightarrow> int lists option" where
  "run_ral_test env srt [] st = Some st"
| "run_ral_test env srt (c # cs) st = do { st \<leftarrow> ral_command_step env srt c st; run_ral_test env srt cs st }"

text \<open>The end of a block destroys its lists, the last one first.\<close>

fun destroy_lists :: "bool \<Rightarrow> 'a heap \<Rightarrow> random_access_list list \<Rightarrow> 'a heap option" where
  "destroy_lists dbg h [] = Some h"
| "destroy_lists dbg h (l # ls) = do { h \<leftarrow> destroy_lists dbg h ls; destroy_stump dbg h (ral_impl l) }"

definition run_ral_block :: "int env \<Rightarrow> (int heap \<Rightarrow> addr list \<Rightarrow> addr list) \<Rightarrow> ral_command list \<Rightarrow> int heap option" where
  "run_ral_block env srt cs = do { (h, ls) \<leftarrow> run_ral_test env srt cs (Map.empty, []); destroy_lists (e_dbg env) h ls }"

subsection \<open>The same on plain lists\<close>

definition on_values :: "nat \<Rightarrow> ('v list \<Rightarrow> 'v list option) \<Rightarrow> 'v list list \<Rightarrow> 'v list list option" where
  "on_values i f vss = (if i < length vss then do { vs \<leftarrow> f (vss ! i); Some (vss[i := vs]) } else None)"

definition check_values :: "nat \<Rightarrow> ('v list \<Rightarrow> bool) \<Rightarrow> 'v list list \<Rightarrow> 'v list list option" where
  "check_values i f vss = (if i < length vss \<and> f (vss ! i) then Some vss else None)"

definition insert_values :: "nat \<Rightarrow> 'v list \<Rightarrow> 'v list \<Rightarrow> 'v list" where
  "insert_values k us vs = take k vs @ us @ drop k vs"

text \<open>\<open>resize\<close> inserts in front, \<open>remove\<close> and \<open>remove_if\<close> end only when everything goes, \<open>splice\<close> of one element takes the tail.\<close>

fun model_step :: "ral_command \<Rightarrow> int list list \<Rightarrow> int list list option" where
  "model_step L_new vss = Some (vss @ [[]])"
| "model_step (L_new_count n v) vss = Some (vss @ [replicate n v])"
| "model_step (L_new_range vs) vss = Some (vss @ [vs])"
| "model_step (L_new_copy j) vss = (if j < length vss then Some (vss @ [vss ! j]) else None)"
| "model_step (L_new_move j) vss = (if j < length vss then Some (vss[j := []] @ [vss ! j]) else None)"
| "model_step (L_assign_count i n v) vss = on_values i (\<lambda>_. Some (replicate n v)) vss"
| "model_step (L_assign_range i us) vss = on_values i (\<lambda>_. Some us) vss"
| "model_step (L_copy_assign i j) vss = (if j < length vss then on_values i (\<lambda>_. Some (vss ! j)) vss else None)"
| "model_step (L_move_assign i j) vss = (if i < length vss \<and> j < length vss then Some (vss[i := vss ! j, j := vss ! i]) else None)"
| "model_step (L_swap i j) vss = (if i < length vss \<and> j < length vss then Some (vss[i := vss ! j, j := vss ! i]) else None)"
| "model_step (L_emplace i k v) vss = on_values i (\<lambda>vs. Some (insert_values k [v] vs)) vss"
| "model_step (L_emplace_back i v d) vss = on_values i (\<lambda>vs. if d = length vs then Some (vs @ [v]) else None) vss"
| "model_step (L_emplace_front i v d) vss = on_values i (\<lambda>vs. if d = 0 then Some (v # vs) else None) vss"
| "model_step (L_push_back i v) vss = on_values i (\<lambda>vs. Some (vs @ [v])) vss"
| "model_step (L_push_front i v) vss = on_values i (\<lambda>vs. Some (v # vs)) vss"
| "model_step (L_insert_range i k us) vss = on_values i (\<lambda>vs. Some (insert_values k us vs)) vss"
| "model_step (L_insert_count i k n v) vss = on_values i (\<lambda>vs. Some (insert_values k (replicate n v) vs)) vss"
| "model_step (L_erase i k) vss = on_values i (\<lambda>vs. Some (take k vs @ drop (Suc k) vs)) vss"
| "model_step (L_erase_range i a b) vss = on_values i (\<lambda>vs. Some (take a vs @ drop b vs)) vss"
| "model_step (L_pop_back i) vss = on_values i (\<lambda>vs. Some (butlast vs)) vss"
| "model_step (L_pop_front i) vss = on_values i (\<lambda>vs. Some (tl vs)) vss"
| "model_step (L_clear i) vss = on_values i (\<lambda>vs. Some []) vss"
| "model_step (L_resize i n v) vss = on_values i (\<lambda>vs. Some (if n < length vs then take n vs else replicate (n - length vs) v @ vs)) vss"
| "model_step (L_remove i v) vss = on_values i (\<lambda>vs. if list_all (\<lambda>x. x = v) vs then Some [] else None) vss"
| "model_step (L_remove_if i p) vss = on_values i (\<lambda>vs. if list_all p vs then Some [] else None) vss"
| "model_step (L_unique i) vss = on_values i (\<lambda>vs. Some (remdups_adj vs)) vss"
| "model_step (L_reverse i) vss = on_values i (\<lambda>vs. Some (rev vs)) vss"
| "model_step (L_sort i) vss = on_values i (\<lambda>vs. Some (sort vs)) vss"
| "model_step (L_merge i j) vss = (if i < length vss \<and> j < length vss
     then if i = j then Some vss else Some (vss[i := merge_nodes (<) (vss ! i) (vss ! j), j := []]) else None)"
| "model_step (L_splice i k j) vss = (if i < length vss \<and> j < length vss \<and> i \<noteq> j
     then Some (vss[i := insert_values k (vss ! j) (vss ! i), j := []]) else None)"
| "model_step (L_splice_range i k j a b) vss = (if i < length vss \<and> j < length vss \<and> i \<noteq> j
     then Some (vss[i := insert_values k (take (b - a) (drop a (vss ! j))) (vss ! i), j := take a (vss ! j) @ drop b (vss ! j)]) else None)"
| "model_step (L_splice_one i k j a) vss = (if i < length vss \<and> j < length vss \<and> i \<noteq> j
     then Some (vss[i := insert_values k (drop a (vss ! j)) (vss ! i), j := take a (vss ! j)]) else None)"
| "model_step (L_self_check i) vss = check_values i (\<lambda>vs. True) vss"
| "model_step (L_size i n) vss = check_values i (\<lambda>vs. length vs = n) vss"
| "model_step (L_ends i v w) vss = check_values i (\<lambda>vs. v = hd vs \<and> w = last vs) vss"
| "model_step (L_walk i us) vss = check_values i (\<lambda>vs. vs = us) vss"
| "model_step (L_empty i b) vss = check_values i (\<lambda>vs. b = (vs = [])) vss"
| "model_step (L_front i v) vss = check_values i (\<lambda>vs. v = hd vs) vss"
| "model_step (L_back i v) vss = check_values i (\<lambda>vs. v = last vs) vss"
| "model_step (L_index i k v) vss = check_values i (\<lambda>vs. v = vs ! k) vss"
| "model_step (L_position i k v) vss = check_values i (\<lambda>vs. v = vs ! k) vss"
| "model_step (L_distance i a b d) vss = check_values i (\<lambda>vs. d = int b - int a) vss"
| "model_step (L_values i us) vss = check_values i (\<lambda>vs. vs = us) vss"
| "model_step (L_values_reversed i us) vss = check_values i (\<lambda>vs. rev vs = us) vss"
| "model_step (L_equal i j b) vss = (if j < length vss then check_values i (\<lambda>vs. b = (vs = vss ! j)) vss else None)"
| "model_step (L_less i j b) vss = (if j < length vss then check_values i (\<lambda>vs. b = lexicographical_compare (<) vs (vss ! j)) vss else None)"
| "model_step (L_instances n) vss = (if length (concat vss) = n then Some vss else None)"

fun run_model :: "ral_command list \<Rightarrow> int list list \<Rightarrow> int list list option" where
  "run_model [] vss = Some vss"
| "run_model (c # cs) vss = do { vss \<leftarrow> model_step c vss; run_model cs vss }"

subsection \<open>Which calls are allowed\<close>

text \<open>The preconditions of the members, with room for the nodes they create: a list has two gap nodes, and assignment builds a second list
  before it gives up the first. With assertions compiled in, \<open>splice\<close> of a range that is not empty fails.\<close>

definition fits :: "nat \<Rightarrow> int list list \<Rightarrow> nat \<Rightarrow> bool" where
  "fits N vss n \<longleftrightarrow> node_amount vss + n \<le> N"

fun legal :: "bool \<Rightarrow> nat \<Rightarrow> ral_command \<Rightarrow> int list list \<Rightarrow> bool" where
  "legal dbg N L_new vss \<longleftrightarrow> fits N vss 2"
| "legal dbg N (L_new_count n v) vss \<longleftrightarrow> fits N vss (4 + n)"
| "legal dbg N (L_new_range vs) vss \<longleftrightarrow> fits N vss (4 + length vs)"
| "legal dbg N (L_new_copy j) vss \<longleftrightarrow> j < length vss \<longrightarrow> fits N vss (4 + length (vss ! j))"
| "legal dbg N (L_new_move j) vss \<longleftrightarrow> fits N vss 2"
| "legal dbg N (L_assign_count i n v) vss \<longleftrightarrow> fits N vss (2 + n)"
| "legal dbg N (L_assign_range i us) vss \<longleftrightarrow> fits N vss (2 + length us)"
| "legal dbg N (L_copy_assign i j) vss \<longleftrightarrow> j < length vss \<longrightarrow> fits N vss (2 + length (vss ! j))"
| "legal dbg N (L_emplace i k v) vss \<longleftrightarrow> i < length vss \<longrightarrow> k \<le> length (vss ! i) \<and> fits N vss 1"
| "legal dbg N (L_emplace_back i v d) vss \<longleftrightarrow> fits N vss 1"
| "legal dbg N (L_emplace_front i v d) vss \<longleftrightarrow> fits N vss 1"
| "legal dbg N (L_push_back i v) vss \<longleftrightarrow> fits N vss 1"
| "legal dbg N (L_push_front i v) vss \<longleftrightarrow> fits N vss 1"
| "legal dbg N (L_insert_range i k us) vss \<longleftrightarrow> i < length vss \<longrightarrow> k \<le> length (vss ! i) \<and> fits N vss (length us)"
| "legal dbg N (L_insert_count i k n v) vss \<longleftrightarrow> i < length vss \<longrightarrow> k \<le> length (vss ! i) \<and> fits N vss n"
| "legal dbg N (L_erase i k) vss \<longleftrightarrow> i < length vss \<longrightarrow> k < length (vss ! i)"
| "legal dbg N (L_erase_range i a b) vss \<longleftrightarrow> i < length vss \<longrightarrow> a \<le> b \<and> b \<le> length (vss ! i)"
| "legal dbg N (L_pop_back i) vss \<longleftrightarrow> i < length vss \<longrightarrow> vss ! i \<noteq> []"
| "legal dbg N (L_pop_front i) vss \<longleftrightarrow> i < length vss \<longrightarrow> vss ! i \<noteq> []"
| "legal dbg N (L_resize i n v) vss \<longleftrightarrow> i < length vss \<longrightarrow> fits N vss (n - length (vss ! i))"
| "legal dbg N (L_splice i k j) vss \<longleftrightarrow> i \<noteq> j \<and> (i < length vss \<longrightarrow> k \<le> length (vss ! i))"
| "legal dbg N (L_splice_range i k j a b) vss \<longleftrightarrow> i \<noteq> j \<and> (i < length vss \<longrightarrow> k \<le> length (vss ! i)) \<and>
     a \<le> b \<and> (j < length vss \<longrightarrow> b \<le> length (vss ! j)) \<and> (dbg \<longrightarrow> a = b)"
| "legal dbg N (L_splice_one i k j a) vss \<longleftrightarrow> i \<noteq> j \<and> (i < length vss \<longrightarrow> k \<le> length (vss ! i)) \<and>
     (j < length vss \<longrightarrow> a \<le> length (vss ! j) \<and> (dbg \<longrightarrow> a = length (vss ! j)))"
| "legal dbg N (L_ends i v w) vss \<longleftrightarrow> i < length vss \<longrightarrow> vss ! i \<noteq> []"
| "legal dbg N (L_front i v) vss \<longleftrightarrow> i < length vss \<longrightarrow> vss ! i \<noteq> []"
| "legal dbg N (L_back i v) vss \<longleftrightarrow> i < length vss \<longrightarrow> vss ! i \<noteq> []"
| "legal dbg N (L_index i k v) vss \<longleftrightarrow> i < length vss \<longrightarrow> k < length (vss ! i)"
| "legal dbg N (L_position i k v) vss \<longleftrightarrow> i < length vss \<longrightarrow> k < length (vss ! i)"
| "legal dbg N (L_distance i a b d) vss \<longleftrightarrow> i < length vss \<longrightarrow> a \<le> length (vss ! i) \<and> b \<le> length (vss ! i)"
| "legal dbg N c vss \<longleftrightarrow> True"

text \<open>Every command of a script is allowed where it is reached.\<close>

fun legal_script :: "bool \<Rightarrow> nat \<Rightarrow> ral_command list \<Rightarrow> int list list \<Rightarrow> bool" where
  "legal_script dbg N [] vss \<longleftrightarrow> True"
| "legal_script dbg N (c # cs) vss \<longleftrightarrow> legal dbg N c vss \<and>
     (case model_step c vss of None \<Rightarrow> True | Some vss \<Rightarrow> legal_script dbg N cs vss)"

end
