(* ===== verification/Ral_Script_Steps.thy ===== *)
theory Ral_Script_Steps
  imports Ral_Scripts
begin

section \<open>One command on one list\<close>

text \<open>
  What each operation does to a list when the allocator has room: the correctness theorems of the operations without their exceptional branches, with
  the effect on the rest of the heap.
\<close>

subsection \<open>Room\<close>

text \<open>The allocator serves every request as long as fewer than \<open>N\<close> nodes are in use.\<close>

definition alloc_serves :: "'a env \<Rightarrow> nat \<Rightarrow> bool" where
  "alloc_serves env N \<longleftrightarrow> alloc_ok env \<and> \<not> e_unwinding env \<and>
     (\<forall>h. finite (dom h) \<longrightarrow> card (dom h) < N \<longrightarrow> e_alloc env h \<noteq> None)"

definition room :: "'a env \<Rightarrow> nat \<Rightarrow> 'a heap \<Rightarrow> nat \<Rightarrow> bool" where
  "room env N h n \<longleftrightarrow> alloc_serves env N \<and> N < 2 ^ 31 \<and> finite (dom h) \<and> card (dom h) + n \<le> N"

lemma room_env: "room env N h n \<Longrightarrow> alloc_ok env" "room env N h n \<Longrightarrow> \<not> e_unwinding env"
  by (simp_all add: room_def alloc_serves_def)

lemma room_alloc: "room env N h (Suc n) \<Longrightarrow> e_alloc env h \<noteq> None"
  by (simp add: room_def alloc_serves_def)

lemma room_less: "room env N h m \<Longrightarrow> n \<le> m \<Longrightarrow> room env N h n"
  by (simp add: room_def)

lemma owned_finite: "finite (owned s xs)"
  by (simp add: owned_def)

lemma ral_length_room:
  assumes "ral_inv h l xs" "room env N h n"
  shows "length xs + 2 + n \<le> N" "length xs + 2 + n < 2 ^ 31"
proof -
  from assms(1) obtain bb e where g: "s_before_begin (ral_impl l) = Some bb" "s_end (ral_impl l) = Some e"
    "distinct (bb # xs @ [e])" by (rule stump_invE)
  have "set (bb # xs @ [e]) \<subseteq> dom h" using owned_dom [OF assms(1)] g(1,2) by (auto simp: owned_def)
  then have "card (set (bb # xs @ [e])) \<le> card (dom h)" using assms(2) by (intro card_mono) (auto simp: room_def)
  then have "length xs + 2 \<le> card (dom h)" unfolding distinct_card [OF g(3)] by simp
  then show "length xs + 2 + n \<le> N" "length xs + 2 + n < 2 ^ 31" using assms(2) by (simp_all add: room_def)
qed

text \<open>New nodes use up room.\<close>

lemma room_grow:
  assumes r: "room env N h (m + n)" and dom: "dom h' \<subseteq> dom h \<union> B" and B: "finite B" "card B \<le> m"
  shows "room env N h' n"
proof -
  have f: "finite (dom h \<union> B)" using r B(1) by (simp add: room_def)
  have "card (dom h') \<le> card (dom h \<union> B)" by (rule card_mono [OF f dom])
  also have "\<dots> \<le> card (dom h) + m" using card_Un_le [of "dom h" B] B(2) by simp
  finally show ?thesis using r finite_subset [OF dom f] by (simp add: room_def)
qed

lemma make_nodes_room:
  "room env N h (length us) \<Longrightarrow> snd (snd (make_nodes env h (map Inr us) ns)) = None"
proof (induction us arbitrary: h ns)
  case (Cons u us)
  have ra: "room env N h (Suc (length us))" using Cons.prems by simp
  then obtain a where a: "e_alloc env h = Some a" using room_alloc by blast
  have "room env N (h(a \<mapsto> TAvlTreeNode_construct u)) (length us)"
    by (rule room_grow [of _ _ h 1 _ _ "{a}"]) (use ra in auto)
  then show ?case using Cons.IH a room_env(2) [OF ra] by (simp add: makeNode_def)
qed simp

lemma creation_room: "room env N h (length us) \<Longrightarrow> creation_error env h (map Inr us) = None"
  using make_nodes_room [of env N h us "[]"] by (simp add: creation_error_def)

subsection \<open>Positions and distances\<close>

lemma plus_spec:
  assumes "ral_inv h l xs" "k \<le> length xs" "room env N h n"
  shows "iterator_plus dbg h l k = Some (position (drop k xs) l)"
  using iterator_plus_spec [OF assms(1,2)] ral_length_room [OF assms(1,3)] by (simp add: ral_cap_def)

lemma distance_positions:
  assumes inv: "ral_inv h l xs" and ij: "i \<le> length xs" "j \<le> length xs" and r: "room env N h n"
  obtains k where "iterator_distance_to dbg h l (position (drop i xs) l) (position (drop j xs) l) = Some k"
    "sint k = int j - int i"
proof -
  from inv obtain t bb e where t: "tree_inv h (ral_impl l) t" "inorder t = bb # xs @ [e]" "size t = length xs + 2"
    "s_end (ral_impl l) = Some e" by (rule stump_invE)
  have nth: "first_of (drop m xs) (ral_impl l) = Some (inorder t ! Suc m)" if "m \<le> length xs" for m
    using t(2,4) that by (cases "drop m xs") (auto simp: nth_append drop_eq_Nil2 nth_via_drop)
  have sz: "size t < 2 ^ 31" "Suc i < size t" "Suc j < size t" using t(3) ij ral_length_room [OF inv r] by auto
  obtain k where "distance dbg h (ral_impl l) (Some (inorder t ! Suc i)) (Some (inorder t ! Suc j)) = Some k"
    "sint k = int j - int i"
    using distance_spec [OF t(1) sz, of dbg] by auto
  then show ?thesis using that nth ij by (simp add: iterator_distance_to_def)
qed

lemma iterator_checked_spec:
  assumes inv: "ral_inv h l (xs @ a # ys)" and r: "room env N h n"
  shows "iterator_checked dbg h l (position (a # ys) l) d v =
    (if d = length xs \<and> v = the (the (val_at h a)) then Some () else None)"
proof -
  obtain k where k: "iterator_distance_to dbg h l (position (xs @ a # ys) l) (position (a # ys) l) = Some k"
    "sint k = int (length xs)"
    using distance_positions [OF inv, of 0 "length xs" env N n dbg] r by auto
  have v: "vals h (xs @ a # ys) ! length xs = the (the (val_at h a))" by (simp add: nth_append)
  show ?thesis
    using k ral_begin_spec [OF inv, of dbg] dereference_spec [OF inv, of dbg] unfolding v
    by (auto simp: iterator_checked_def ASSERT_def)
qed

subsection \<open>Insertion\<close>

lemma emplace_room:
  assumes inv: "ral_inv h l (xs @ ys)" and r: "room env N h 1"
  obtains a h' l' where "emplace env h l (position ys l) (Inr v) = Some (h', l', Inr (position (a # ys) l'))"
    "ral_inv h' l' (xs @ a # ys)" "evolves h l (xs @ ys) h' l' (xs @ a # ys)"
    "vals h' (xs @ a # ys) = vals h xs @ v # vals h ys" "room env N h' 0"
proof -
  have sz: "length (xs @ ys) + 3 < 2 ^ 32" using ral_length_room [OF inv r] by simp
  have "e_alloc env h \<noteq> None" using room_alloc [of env N h 0] r by simp
  with emplace_spec [OF room_env [OF r] inv sz, of "Inr v"] obtain a h' l' where
    e: "emplace env h l (position ys l) (Inr v) = Some (h', l', Inr (position (a # ys) l'))"
      "h a = None" "ral_inv h' l' (xs @ a # ys)" "same_object l l'"
      "vals h' (xs @ a # ys) = vals h xs @ v # vals h ys" "\<forall>b. b \<notin> owned (ral_impl l) (xs @ a # ys) \<longrightarrow> h' b = h b"
    by auto
  have ev: "evolves h l (xs @ ys) h' l' (xs @ a # ys)"
    using e(2,4,6) by (intro evolves_grow) auto
  have "dom h' \<subseteq> dom h \<union> {a}"
    using e(6) owned_dom [OF inv] by (auto simp: owned_Cons dom_def)
  with room_grow [of env N h 1 0 h' "{a}"] r have "room env N h' 0" by simp
  then show ?thesis using that e ev by blast
qed

lemma insert_range_room:
  assumes inv: "ral_inv h l (xs @ ys)" and r: "room env N h (length us)"
  obtains ns h' l' where "insert_range env h l (position ys l) (map Inr us) = Some (h', l', Inr (position (ns @ ys) l'))"
    "ral_inv h' l' (xs @ ns @ ys)" "evolves h l (xs @ ys) h' l' (xs @ ns @ ys)"
    "vals h' (xs @ ns @ ys) = vals h xs @ us @ vals h ys"
proof -
  have sz: "length (xs @ ys) + length (map Inr us :: 'a made list) + 2 < 2 ^ 32" using ral_length_room [OF inv r] by simp
  have "map Inr us = (map Inr ws :: 'a made list) \<Longrightarrow> us = ws" for ws by (simp add: map_injective)
  with insert_range_spec [OF room_env [OF r] inv sz] creation_room [OF r] obtain ns h' l' where
    e: "insert_range env h l (position ys l) (map Inr us) = Some (h', l', Inr (position (ns @ ys) l'))"
      "ral_inv h' l' (xs @ ns @ ys)" "same_object l l'" "vals h' (xs @ ns @ ys) = vals h xs @ us @ vals h ys"
      "\<forall>a\<in>set ns. h a = None" "\<forall>a. a \<notin> owned (ral_impl l) (xs @ ns @ ys) \<longrightarrow> h' a = h a"
    by (metis option.distinct(1))
  have "evolves h l (xs @ ys) h' l' (xs @ ns @ ys)" using e(3,5,6) by (intro evolves_grow) auto
  then show ?thesis using that e by blast
qed

lemma push_back_each_room:
  "ral_inv h l xs \<Longrightarrow> room env N h (length us) \<Longrightarrow> \<exists>h' l'. push_back_each env h l (map Inr us) = Some (h', l', Inr ())"
proof (induction us arbitrary: h l xs)
  case (Cons u us)
  have inv: "ral_inv h l (xs @ [])" and r: "room env N h (1 + length us)" using Cons.prems by simp_all
  obtain a k m where e: "emplace env h l (position [] l) (Inr u) = Some (k, m, Inr (position [a] m))"
    "ral_inv k m (xs @ [a])" "evolves h l (xs @ []) k m (xs @ [a])"
    by (rule emplace_room [OF inv room_less [OF r]]) (use that in auto)
  have "owned (ral_impl m) (xs @ [a]) = insert a (owned (ral_impl l) xs)"
    using e(3) owned_same [of l m "xs @ [a]"] owned_Cons [of "ral_impl l" xs a "[]"] by (simp add: evolves_def)
  then have "dom k \<subseteq> dom h \<union> {a}"
    using e(3) owned_dom [OF Cons.prems(1)] unfolding evolves_def reshapes_def by (auto simp: dom_def)
  then have "room env N k (length us)" by (rule room_grow [OF r]) simp_all
  from Cons.IH [OF e(2) this] show ?case
    using e(1) ral_end_spec [OF Cons.prems(1), of "e_dbg env"] by (auto simp: push_back_def emplace_back_def)
qed simp

subsection \<open>Construction and assignment\<close>

lemma makeImplementation_room:
  assumes r: "room env N h (2 + n)"
  obtains k l where "makeImplementation env (Some place) h = Some (k, Inr l)" "ral_inv k l []" "ral_at l = place"
    "reshapes h {} k (owned (ral_impl l) [])" "room env N k n"
proof -
  note env = room_env [OF r]
  have "make_stump env h \<noteq> Some (h, Inl ex)" for ex
  proof
    assume f: "make_stump env h = Some (h, Inl ex)"
    obtain a where a: "e_alloc env h = Some a" using room_alloc [of env N h "1 + n"] r by auto
    have "room env N (h(a \<mapsto> TAvlTreeNode_new)) (Suc n)"
      by (rule room_grow [of _ _ h 1 _ _ "{a}"]) (use r in auto)
    from room_alloc [OF this] a make_stump_spec [OF env, of h] f show False by auto
  qed
  then obtain k s where "make_stump env h = Some (k, Inr s)" using make_stump_spec [OF env, of h] by blast
  then have m: "makeImplementation env (Some place) h = Some (k, Inr \<lparr>ral_at = place, ral_impl = s\<rparr>)" (is "_ = Some (k, Inr ?l)")
    by (simp add: makeImplementation_def implementation_at_def)
  note t = makeImplementation_spec [OF env m]
  have sh: "reshapes h {} k (owned (ral_impl ?l) [])" using t by (simp add: reshapes_def)
  have "dom k \<subseteq> dom h \<union> owned (ral_impl ?l) []" using t by (auto simp: dom_def)
  moreover have "card (owned (ral_impl ?l) []) \<le> 2"
    using t by (elim conjE stump_invE) (auto simp: owned_def card_insert_if)
  ultimately have "room env N k n" using room_grow [OF r _ owned_finite] by blast
  with that m t sh show ?thesis by blast
qed

lemma assign_room:
  assumes inv: "ral_inv h l xs" and r: "room env N h (2 + length us)"
  obtains ns h' l' where "assign env (Some place) h l (map Inr us) = Some (h', l', Inr ())" "ral_inv h' l' ns" "vals h' ns = us"
    "ral_at l' = place" "reshapes h (owned (ral_impl l) xs) h' (owned (ral_impl l') ns)"
proof -
  obtain k m where k: "makeImplementation env (Some place) h = Some (k, Inr m)" "room env N k (length us)"
    by (rule makeImplementation_room [OF r])
  have sz: "length (map Inr us :: 'a made list) + 2 < 2 ^ 32" using ral_length_room [OF inv r] by simp
  have "map Inr us = (map Inr ws :: 'a made list) \<Longrightarrow> us = ws" for ws by (simp add: map_injective)
  with assign_spec [OF room_env [OF r] inv _ sz, of place] k creation_room [OF k(2)] that show ?thesis
    by (simp del: not_None_eq) (metis option.distinct(1))
qed

lemma assign_count_room:
  assumes inv: "ral_inv h l xs" and r: "room env N h (2 + n)"
  obtains ns h' l' where "assign_count env (Some place) h l (of_nat n) (\<lambda>_. Inr v) = Some (h', l', Inr ())" "ral_inv h' l' ns"
    "vals h' ns = replicate n v" "ral_at l' = place" "reshapes h (owned (ral_impl l) xs) h' (owned (ral_impl l') ns)"
proof -
  obtain k m where k: "makeImplementation env (Some place) h = Some (k, Inr m)" "ral_inv k m []" "room env N k n"
    by (rule makeImplementation_room [OF r])
  have n: "n < 2 ^ 32" "unat (of_nat n :: size_t) = n"
    using ral_length_room [OF inv r] unat_of_nat_size_t [of n] by simp_all
  have mp: "map (\<lambda>_. Inr v) [0..<n] = (map Inr (replicate n v) :: 'a made list)" by (simp add: map_replicate_const)
  obtain h1 l1 where p: "push_back_each env k m (map Inr (replicate n v)) = Some (h1, l1, Inr ())"
    using push_back_each_room [OF k(2), of env N "replicate n v"] k(3) by auto
  have "assign_count env (Some place) h l (of_nat n) (\<lambda>_. Inr v) \<noteq> Some (h, l, Inl ex)" for ex
    using k(1) p unfolding assign_count_def n(2) mp by (auto simp: ral_swap_def split: Option.bind_splits)
  moreover have "us = replicate n v" if "map (\<lambda>_. Inr v) [0..<n] = (map Inr us :: 'a made list)" for us
    using that unfolding mp by (rule map_injective [OF sym inj_Inr])
  moreover have "unat (of_nat n :: size_t) + 2 < 2 ^ 32" "makeImplementation env (Some place) h \<noteq> None"
    using ral_length_room [OF inv r] n k(1) by simp_all
  ultimately show ?thesis
    using assign_count_spec [OF room_env [OF r] inv, of place "of_nat n" "\<lambda>_. Inr v"] that unfolding n(2) by blast
qed

text \<open>Both constructors build the member first and then assign to it.\<close>

lemma construct_range_room:
  assumes r: "room env N h (4 + length us)"
  obtains ns h' l' where "construct_range env (Some p) (Some q) h (map Inr us) = Some (h', Inr l')" "ral_inv h' l' ns" "vals h' ns = us"
    "ral_at l' = q" "reshapes h {} h' (owned (ral_impl l') ns)"
proof -
  have r2: "room env N h (2 + (2 + length us))" by (rule room_less [OF r]) simp
  obtain k l where k: "makeImplementation env (Some p) h = Some (k, Inr l)" "ral_inv k l []" "reshapes h {} k (owned (ral_impl l) [])"
    "room env N k (2 + length us)" by (rule makeImplementation_room [OF r2])
  obtain ns h' l' where a: "assign env (Some q) k l (map Inr us) = Some (h', l', Inr ())" "ral_inv h' l' ns" "vals h' ns = us"
    "ral_at l' = q" "reshapes k (owned (ral_impl l) []) h' (owned (ral_impl l') ns)"
    by (rule assign_room [OF k(2,4)])
  then show ?thesis using that k(1) reshapes_trans [OF k(3) a(5)]
    by (simp add: construct_range_def finish_construction_def)
qed

lemma construct_count_room:
  assumes r: "room env N h (4 + n)"
  obtains ns h' l' where "construct_count env (Some p) (Some q) h (of_nat n) (\<lambda>_. Inr v) = Some (h', Inr l')" "ral_inv h' l' ns"
    "vals h' ns = replicate n v" "ral_at l' = q" "reshapes h {} h' (owned (ral_impl l') ns)"
proof -
  have r2: "room env N h (2 + (2 + n))" by (rule room_less [OF r]) simp
  obtain k l where k: "makeImplementation env (Some p) h = Some (k, Inr l)" "ral_inv k l []" "reshapes h {} k (owned (ral_impl l) [])"
    "room env N k (2 + n)" by (rule makeImplementation_room [OF r2])
  obtain ns h' l' where a: "assign_count env (Some q) k l (of_nat n) (\<lambda>_. Inr v) = Some (h', l', Inr ())" "ral_inv h' l' ns"
    "vals h' ns = replicate n v" "ral_at l' = q" "reshapes k (owned (ral_impl l) []) h' (owned (ral_impl l') ns)"
    by (rule assign_count_room [OF k(2,4)])
  then show ?thesis using that k(1) reshapes_trans [OF k(3) a(5)]
    by (simp add: construct_count_def finish_construction_def)
qed

lemma construct_copy_room:
  assumes inv: "ral_inv h other xs" and r: "room env N h (4 + length xs)"
  obtains ns h' l' where "construct_copy env (Some p) (Some q) Inr h other = Some (h', Inr l')" "ral_inv h' l' ns" "vals h' ns = vals h xs"
    "ral_at l' = q" "reshapes h {} h' (owned (ral_impl l') ns)"
proof -
  have r2: "room env N h (2 + (2 + length (vals h xs)))" by (rule room_less [OF r]) simp
  obtain k l where k: "makeImplementation env (Some p) h = Some (k, Inr l)" "ral_inv k l []" "reshapes h {} k (owned (ral_impl l) [])"
    "room env N k (2 + length (vals h xs))" by (rule makeImplementation_room [OF r2])
  have "k a = h a" if "a \<in> owned (ral_impl other) xs" for a
    using reshapes_new [OF k(3), of a] reshapes_frame [OF k(3), of a] owned_dom [OF inv that] by blast
  note o = stump_inv_off [OF inv this]
  have "map Inr (vals k xs) = (map Inr (vals h xs) :: 'a made list)" using o(2) by simp
  moreover obtain ns h' l' where a: "assign env (Some q) k l (map Inr (vals h xs)) = Some (h', l', Inr ())" "ral_inv h' l' ns"
    "vals h' ns = vals h xs" "ral_at l' = q" "reshapes k (owned (ral_impl l) []) h' (owned (ral_impl l') ns)"
    by (rule assign_room [OF k(2,4)])
  ultimately show ?thesis using that k(1) reshapes_trans [OF k(3) a(5)] read_all_spec [OF o(1), of "e_dbg env"]
    by (simp add: construct_copy_def finish_construction_def)
qed

subsection \<open>Reading backwards\<close>

lemma read_reversed_spec:
  "ral_inv h l (xs @ ys) \<Longrightarrow>
   read_reversed dbg h l (position ys l) (position (xs @ ys) l) acc = Some (acc @ rev (vals h xs))"
proof (induction xs arbitrary: ys acc rule: rev_induct)
  case Nil
  then show ?case using equal_position [of h l "[]" "[]" ys dbg] by (subst read_reversed.simps) simp
next
  case (snoc a xs)
  have inv: "ral_inv h l (xs @ a # ys)" using snoc.prems by simp
  obtain bb e where d: "s_end (ral_impl l) = Some e" "distinct (bb # (xs @ a # ys) @ [e])" using inv by (rule stump_invE)
  have ne: "iterator_equal dbg (position ys l) (position (xs @ a # ys) l) = Some False"
    using d by (cases ys; cases xs) (auto simp: iterator_equal_def)
  have v: "vals h (xs @ a # ys) ! length xs = the (the (val_at h a))" by (simp add: nth_append)
  show ?case
    using ne decrement_spec [OF inv, of dbg] dereference_spec [OF inv, of dbg] snoc.IH [OF inv] unfolding v
    by (subst read_reversed.simps) simp
qed

lemma read_all_reversed_spec: "ral_inv h l xs \<Longrightarrow> read_all_reversed dbg h l = Some (rev (vals h xs))"
  using read_reversed_spec [of h l xs "[]" dbg "[]"] by (simp add: read_all_reversed_def ral_begin_spec ral_end_spec)

subsection \<open>Erasing with the checks of the test\<close>

lemma erase_checked_spec:
  assumes inv: "ral_inv h l (xs @ a # ys)" and r: "room env N h n"
  obtains h' l' where "erase_checked dbg h l (length xs) = Some (h', l')" "ral_inv h' l' (xs @ ys)"
    "evolves h l (xs @ a # ys) h' l' (xs @ ys)" "vals h' (xs @ ys) = vals h xs @ vals h ys"
proof -
  obtain h' l' where e: "erase dbg h l (position (a # ys) l) = Some (h', l', position ys l')"
    "ral_inv h' l' (xs @ ys)" "evolves h l (xs @ a # ys) h' l' (xs @ ys)" "vals h' (xs @ ys) = vals h xs @ vals h ys"
    using erase_vals [OF inv, of dbg] .
  have it: "iterator_plus dbg h l (length xs) = Some (position (a # ys) l)"
    "iterator_plus dbg h l (length xs + 1) = Some (position ys l)"
    using plus_spec [OF inv _ r, of "length xs" dbg] plus_spec [OF inv _ r, of "length xs + 1" dbg] by simp_all
  have eq: "iterator_equal dbg (position ys l) (position ys l) = Some True" by (simp add: iterator_equal_def)
  have eq': "iterator_equal dbg (position ys l') (position [] l') = Some (ys = [])"
    using equal_position [of h' l' xs ys "[]" dbg] e(2) by simp
  have de: "ys \<noteq> [] \<Longrightarrow> \<exists>v. iterator_dereference dbg h' l' (position ys l') = Some v"
    using dereference_spec [of h' l' xs "hd ys" "tl ys" dbg] e(2) by (cases ys) auto
  have "erase_checked dbg h l (length xs) = Some (h', l')"
    using it increment_spec [OF inv, of dbg] e(1) eq eq' de ral_end_spec [OF e(2), of dbg] position_evolves [OF e(3), of ys]
    by (auto simp: erase_checked_def)
  then show ?thesis using that e by blast
qed

end
