(* ===== verification/Ral_Script_Agree.thy ===== *)
theory Ral_Script_Agree
  imports Ral_Script_Steps
begin

section \<open>Scripts on the lists and on their values agree\<close>

text \<open>
  The relation \<open>lists_hold\<close> between a heap with its lists and plain lists is kept by every allowed command: both sides make the step, or both
  fail. It follows for scripts and for whole blocks, which end with the destruction of the lists and an empty heap.
\<close>

subsection \<open>The relation\<close>

definition lists_hold :: "'a lists \<Rightarrow> 'a list list \<Rightarrow> bool" where
  "lists_hold st vss \<longleftrightarrow> (\<exists>ts. store_inv (fst st) ts \<and> map fst ts = snd st \<and> map held_vals ts = vss)"

lemma lists_holdE:
  assumes "lists_hold (h, ls) vss"
  obtains ts where "store_inv h ts" "map fst ts = ls" "map held_vals ts = vss"
  using assms by (auto simp: lists_hold_def)

lemma lists_hold_length: "lists_hold (h, ls) vss \<Longrightarrow> length ls = length vss"
  by (auto simp: lists_hold_def)

lemma lists_hold_nth:
  assumes "store_inv h ts" "i < length ts"
  obtains xs where "ts ! i = (map fst ts ! i, xs, map held_vals ts ! i)" "ral_inv h (map fst ts ! i) xs" "vals h xs = map held_vals ts ! i"
  using store_nth [OF assms] assms(2) that by (cases "ts ! i") auto

lemma lists_hold_room:
  "lists_hold (h, ls) vss \<Longrightarrow> alloc_serves env N \<Longrightarrow> N < 2 ^ 31 \<Longrightarrow> fits N vss n \<Longrightarrow> room env N h n"
  by (elim lists_holdE) (auto simp: room_def fits_def store_card)

lemma free_place_fresh: "p \<in> ral_at ` set ls \<Longrightarrow> p < free_place ls"
  by (auto simp: free_place_def less_Suc_eq_le member_le_sum_list)

text \<open>What an operation on one list has to deliver; \<open>P\<close> are the places in use.\<close>

definition turns_into :: "'a heap \<Rightarrow> random_access_list \<Rightarrow> addr list \<Rightarrow> addr set \<Rightarrow> ('a heap \<times> random_access_list) option \<Rightarrow> 'a list \<Rightarrow> bool" where
  "turns_into h l xs P m ws \<longleftrightarrow> (\<exists>h' l' ys. m = Some (h', l') \<and> ral_inv h' l' ys \<and> vals h' ys = ws \<and>
     reshapes h (owned (ral_impl l) xs) h' (owned (ral_impl l') ys) \<and> (ral_at l' = ral_at l \<or> ral_at l' \<notin> P))"

lemma turns_evolves:
  "m = Some (h', l') \<Longrightarrow> ral_inv h' l' ys \<Longrightarrow> vals h' ys = ws \<Longrightarrow> evolves h l xs h' l' ys \<Longrightarrow> turns_into h l xs P m ws"
  by (auto simp: turns_into_def evolves_def same_object_def)

lemma turns_placed:
  "m = Some (h', l') \<Longrightarrow> ral_inv h' l' ys \<Longrightarrow> vals h' ys = ws \<Longrightarrow> reshapes h (owned (ral_impl l) xs) h' (owned (ral_impl l') ys) \<Longrightarrow>
   ral_at l' = free_place ls \<Longrightarrow> turns_into h l xs (ral_at ` set ls) m ws"
  using free_place_fresh [of "free_place ls" ls] by (auto simp: turns_into_def)

lemma on_list_holds:
  assumes R: "lists_hold (h, ls) vss"
    and none: "\<And>xs. i < length vss \<Longrightarrow> ral_inv h (ls ! i) xs \<Longrightarrow> vals h xs = vss ! i \<Longrightarrow> g (vss ! i) = None \<Longrightarrow> f h (ls ! i) = None"
    and some: "\<And>xs ws. i < length vss \<Longrightarrow> ral_inv h (ls ! i) xs \<Longrightarrow> vals h xs = vss ! i \<Longrightarrow> g (vss ! i) = Some ws \<Longrightarrow>
      turns_into h (ls ! i) xs (ral_at ` set ls) (f h (ls ! i)) ws"
  shows "rel_option lists_hold (on_list i f (h, ls)) (on_values i g vss)"
proof (cases "i < length vss")
  case True
  from R obtain ts where ts: "store_inv h ts" "map fst ts = ls" "map held_vals ts = vss" by (rule lists_holdE)
  have i: "i < length ts" using True ts(3) by auto
  obtain xs where xs: "ts ! i = (ls ! i, xs, vss ! i)" "ral_inv h (ls ! i) xs" "vals h xs = vss ! i"
    using lists_hold_nth [OF ts(1) i] unfolding ts(2,3) .
  show ?thesis
  proof (cases "g (vss ! i)")
    case None
    then show ?thesis using none [OF True xs(2,3)] True lists_hold_length [OF R] by (simp add: on_list_def on_values_def)
  next
    case (Some ws)
    from some [OF True xs(2,3) Some] obtain h' l' ys where f: "f h (ls ! i) = Some (h', l')" "ral_inv h' l' ys" "vals h' ys = ws"
      "reshapes h (owned (ral_impl (ls ! i)) xs) h' (owned (ral_impl l') ys)"
      "ral_at l' = ral_at (ls ! i) \<or> ral_at l' \<notin> ral_at ` set ls"
      unfolding turns_into_def by blast
    have "held_at ` set ts = ral_at ` set ls" unfolding ts(2) [symmetric] by (auto simp: held_at_def)
    then have "store_inv h' (ts[i := (l', ys, ws)])"
      using f xs(1) by (intro store_update [OF ts(1) i]) (auto simp: held_at_def)
    then have "lists_hold (h', ls[i := l']) (vss[i := ws])"
      unfolding lists_hold_def using ts(2,3) by (intro exI [of _ "ts[i := (l', ys, ws)]"]) (auto simp: map_update)
    then show ?thesis using f(1) Some True lists_hold_length [OF R] by (simp add: on_list_def on_values_def)
  qed
next
  case False
  then show ?thesis using lists_hold_length [OF R] by (simp add: on_list_def on_values_def)
qed

lemma on_list_always:
  assumes "lists_hold (h, ls) vss"
    and "\<And>xs. i < length vss \<Longrightarrow> ral_inv h (ls ! i) xs \<Longrightarrow> vals h xs = vss ! i \<Longrightarrow>
      turns_into h (ls ! i) xs (ral_at ` set ls) (f h (ls ! i)) (g (vss ! i))"
  shows "rel_option lists_hold (on_list i f (h, ls)) (on_values i (\<lambda>vs. Some (g vs)) vss)"
  by (rule on_list_holds [OF assms(1)]) (use assms(2) in auto)

lemma check_list_holds:
  assumes R: "lists_hold (h, ls) vss"
    and f: "\<And>xs. i < length vss \<Longrightarrow> ral_inv h (ls ! i) xs \<Longrightarrow> vals h xs = vss ! i \<Longrightarrow>
      f h (ls ! i) = Some (p (vss ! i)) \<or> (\<not> p (vss ! i) \<and> f h (ls ! i) = None)"
  shows "rel_option lists_hold (check_list i f (h, ls)) (check_values i p vss)"
proof (cases "i < length vss")
  case True
  from R obtain ts where ts: "store_inv h ts" "map fst ts = ls" "map held_vals ts = vss" by (rule lists_holdE)
  have i: "i < length ts" using True ts(3) by auto
  obtain xs where xs: "ral_inv h (ls ! i) xs" "vals h xs = vss ! i"
    using lists_hold_nth [OF ts(1) i] unfolding ts(2,3) by blast
  show ?thesis using f [OF True xs] True R lists_hold_length [OF R]
    by (auto simp: check_list_def check_values_def ASSERT_def)
next
  case False
  then show ?thesis using lists_hold_length [OF R] by (simp add: check_list_def check_values_def)
qed

lemma on_built_holds:
  assumes R: "lists_hold (h, ls) vss"
    and m: "m = Some (h', Inr l)" "ral_inv h' l ys" "vals h' ys = ws" "reshapes h {} h' (owned (ral_impl l) ys)"
      "ral_at l = Suc (free_place ls)"
  shows "rel_option lists_hold (on_built m ls) (Some (vss @ [ws]))"
proof -
  from R obtain ts where ts: "store_inv h ts" "map fst ts = ls" "map held_vals ts = vss" by (rule lists_holdE)
  have "held_at ` set ts = ral_at ` set ls" unfolding ts(2) [symmetric] by (auto simp: held_at_def)
  then have "store_inv h' (ts @ [(l, ys, ws)])"
    using m free_place_fresh [of "Suc (free_place ls)" ls] by (intro store_append [OF ts(1)]) auto
  then have "lists_hold (h', ls @ [l]) (vss @ [ws])"
    unfolding lists_hold_def using ts(2,3) by (intro exI [of _ "ts @ [(l, ys, ws)]"]) auto
  then show ?thesis using m(1) by (simp add: on_built_def)
qed

lemma on_two_holds:
  assumes R: "lists_hold (h, ls) vss" and ij: "i < length vss" "j < length vss" "i \<noteq> j"
    and f: "\<And>xs ys. ral_inv h (ls ! i) xs \<Longrightarrow> vals h xs = vss ! i \<Longrightarrow> ral_inv h (ls ! j) ys \<Longrightarrow> vals h ys = vss ! j \<Longrightarrow>
      apart (ls ! i) xs (ls ! j) ys \<Longrightarrow>
      \<exists>h' l' m' us ws. f h (ls ! i) (ls ! j) = Some (h', l', m') \<and> ral_inv h' l' us \<and> ral_inv h' m' ws \<and>
        same_object (ls ! i) l' \<and> same_object (ls ! j) m' \<and> set us \<union> set ws = set xs \<union> set ys \<and> set us \<inter> set ws = {} \<and>
        (\<forall>a. a \<notin> owned (ral_impl (ls ! i)) xs \<union> owned (ral_impl (ls ! j)) ys \<longrightarrow> h' a = h a) \<and>
        vals h' us = vs1 \<and> vals h' ws = vs2"
  shows "rel_option lists_hold (on_two i j f (h, ls)) (Some (vss[i := vs1, j := vs2]))"
proof -
  from R obtain ts where ts: "store_inv h ts" "map fst ts = ls" "map held_vals ts = vss" by (rule lists_holdE)
  have l: "i < length ts" "j < length ts" using ij ts(3) by auto
  obtain xs where xs: "ts ! i = (ls ! i, xs, vss ! i)" "ral_inv h (ls ! i) xs" "vals h xs = vss ! i"
    using lists_hold_nth [OF ts(1) l(1)] unfolding ts(2,3) .
  obtain ys where ys: "ts ! j = (ls ! j, ys, vss ! j)" "ral_inv h (ls ! j) ys" "vals h ys = vss ! j"
    using lists_hold_nth [OF ts(1) l(2)] unfolding ts(2,3) .
  have own: "owned (ral_impl (ls ! i)) xs \<inter> owned (ral_impl (ls ! j)) ys = {}"
    using store_apart [OF ts(1) l ij(3)] xs(1) ys(1) by simp
  have "apart (ls ! i) xs (ls ! j) ys"
    using own store_places [OF ts(1) l ij(3)] xs(1) ys(1) by (simp add: apart_def)
  from f [OF xs(2,3) ys(2,3) this] obtain h' l' m' us ws where r: "f h (ls ! i) (ls ! j) = Some (h', l', m')"
    "ral_inv h' l' us" "ral_inv h' m' ws" "same_object (ls ! i) l'" "same_object (ls ! j) m'"
    "set us \<union> set ws = set xs \<union> set ys" "set us \<inter> set ws = {}"
    "\<forall>a. a \<notin> owned (ral_impl (ls ! i)) xs \<union> owned (ral_impl (ls ! j)) ys \<longrightarrow> h' a = h a" "vals h' us = vs1" "vals h' ws = vs2"
    by blast
  let ?t = "(l', us, vs1)" and ?u = "(m', ws, vs2)"
  have union: "owned (ral_impl l') us \<union> owned (ral_impl m') ws = owned (ral_impl (ls ! i)) xs \<union> owned (ral_impl (ls ! j)) ys"
    using r(6) owned_same [OF r(4), of us] owned_same [OF r(5), of ws] by (auto simp: owned_def)
  have gaps: "owned (ral_impl l') [] \<inter> set ws = {}" "owned (ral_impl m') [] \<inter> set us = {}"
    "owned (ral_impl l') [] \<inter> owned (ral_impl m') [] = {}"
  proof -
    have g: "owned (ral_impl l') [] = owned (ral_impl (ls ! i)) []" "owned (ral_impl m') [] = owned (ral_impl (ls ! j)) []"
      using owned_same [OF r(4)] owned_same [OF r(5)] by simp_all
    have n: "set xs \<inter> owned (ral_impl (ls ! i)) [] = {}" "set ys \<inter> owned (ral_impl (ls ! j)) [] = {}"
      using xs(2) ys(2) by (auto elim!: stump_invE simp: owned_def)
    then show "owned (ral_impl l') [] \<inter> set ws = {}" "owned (ral_impl m') [] \<inter> set us = {}"
      "owned (ral_impl l') [] \<inter> owned (ral_impl m') [] = {}"
      using own r(6) unfolding g by (auto simp: owned_def)
  qed
  have dis: "held_own ?t \<inter> held_own ?u = {}" using gaps r(7) by (auto simp: owned_def)
  have at: "map held_at (ts[i := ?t, j := ?u]) = map held_at ts"
    using r(4,5) xs(1) ys(1) ij(3) l
    by (intro nth_equalityI) (auto simp: same_object_def nth_list_update split: if_split)
  have "store_inv h' (ts[i := ?t, j := ?u])"
  proof (rule store_update2 [OF ts(1) l ij(3) _ _ dis])
    show "reshapes h (held_own (ts ! i) \<union> held_own (ts ! j)) h' (held_own ?t \<union> held_own ?u)"
      unfolding held_simps xs(1) ys(1) union using r(8) by (simp add: reshapes_def)
    show "distinct (map held_at (ts[i := ?t, j := ?u]))" unfolding at using ts(1) by (simp add: store_inv_def)
  qed (use r in simp_all)
  then have "lists_hold (h', ls[i := l', j := m']) (vss[i := vs1, j := vs2])"
    unfolding lists_hold_def using ts(2,3) by (intro exI [of _ "ts[i := ?t, j := ?u]"]) (auto simp: map_update)
  then show ?thesis using r(1) ij lists_hold_length [OF R] by (simp add: on_two_def)
qed

subsection \<open>The commands on one list\<close>

lemma split_at:
  assumes "ral_inv h l xs" "vals h xs = vs"
  shows "ral_inv h l (take k xs @ drop k xs)" "vals h (take k xs) = take k vs" "vals h (drop k xs) = drop k vs" "length xs = length vs"
  using assms by (auto simp: vals_def take_map drop_map)

lemma emplace_checked_room:
  assumes inv: "ral_inv h l (xs @ ys)" and r: "room env N h 1"
  shows "d = length xs \<Longrightarrow>
      turns_into h l (xs @ ys) P (emplace_checked env (emplace env h l (position ys l) (Inr v)) d v) (vals h xs @ v # vals h ys)"
    "d \<noteq> length xs \<Longrightarrow> emplace_checked env (emplace env h l (position ys l) (Inr v)) d v = None"
proof -
  obtain a h' l' where e: "emplace env h l (position ys l) (Inr v) = Some (h', l', Inr (position (a # ys) l'))"
    "ral_inv h' l' (xs @ a # ys)" "evolves h l (xs @ ys) h' l' (xs @ a # ys)"
    "vals h' (xs @ a # ys) = vals h xs @ v # vals h ys" "room env N h' 0"
    using emplace_room [OF inv r] .
  have "the (the (val_at h' a)) = v" using e(4) by (simp add: append_eq_append_conv)
  then have run: "emplace_checked env (emplace env h l (position ys l) (Inr v)) d v = (if d = length xs then Some (h', l') else None)"
    using iterator_checked_spec [OF e(2,5), of "e_dbg env" d v] e(1) by (simp add: emplace_checked_def no_throw_def)
  show "d = length xs \<Longrightarrow>
      turns_into h l (xs @ ys) P (emplace_checked env (emplace env h l (position ys l) (Inr v)) d v) (vals h xs @ v # vals h ys)"
    using run e by (intro turns_evolves) auto
  show "d \<noteq> length xs \<Longrightarrow> emplace_checked env (emplace env h l (position ys l) (Inr v)) d v = None" using run by simp
qed

lemma push_room:
  assumes inv: "ral_inv h l (xs @ ys)" and r: "room env N h 1"
  shows "turns_into h l (xs @ ys) P (no_result (emplace env h l (position ys l) (Inr v))) (vals h xs @ v # vals h ys)"
proof -
  obtain a h' l' where e: "emplace env h l (position ys l) (Inr v) = Some (h', l', Inr (position (a # ys) l'))"
    "ral_inv h' l' (xs @ a # ys)" "evolves h l (xs @ ys) h' l' (xs @ a # ys)"
    "vals h' (xs @ a # ys) = vals h xs @ v # vals h ys"
    using emplace_room [OF inv r] .
  have "no_result (emplace env h l (position ys l) (Inr v)) = Some (h', l')" using e(1) by (simp add: no_result_def no_throw_def)
  then show ?thesis by (rule turns_evolves [OF _ e(2,4,3)])
qed

lemma insert_range_turns:
  assumes inv: "ral_inv h l (xs @ ys)" and r: "room env N h (length us)"
  shows "turns_into h l (xs @ ys) P (no_result (insert_range env h l (position ys l) (map Inr us))) (vals h xs @ us @ vals h ys)"
proof -
  obtain ns h' l' where e: "insert_range env h l (position ys l) (map Inr us) = Some (h', l', Inr (position (ns @ ys) l'))"
    "ral_inv h' l' (xs @ ns @ ys)" "evolves h l (xs @ ys) h' l' (xs @ ns @ ys)"
    "vals h' (xs @ ns @ ys) = vals h xs @ us @ vals h ys"
    using insert_range_room [OF inv r] .
  have "no_result (insert_range env h l (position ys l) (map Inr us)) = Some (h', l')"
    using e(1) by (simp add: no_result_def no_throw_def)
  then show ?thesis by (rule turns_evolves [OF _ e(2,4,3)])
qed

lemma clear_turns:
  assumes inv: "ral_inv h l xs"
  shows "turns_into h l xs P (ral_clear dbg h l) []"
proof -
  obtain h' s' where c: "destruct_value_and_delete_node_since_begin_to_before_end dbg h (ral_impl l) = Some (h', s')"
    "stump_inv h' s' []" "same_gaps (ral_impl l) s'" "\<forall>a\<in>set xs. h' a = None"
    "\<forall>b. b \<notin> owned (ral_impl l) xs \<longrightarrow> h' b = h b"
    using clear_stump [OF inv, of dbg] .
  have "evolves h l xs h' (l\<lparr>ral_impl := s'\<rparr>) []"
    using c owned_gaps [OF c(3), of "[]"] by (auto simp: evolves_def same_object_def reshapes_def owned_def)
  then show ?thesis using c by (intro turns_evolves) (auto simp: ral_clear_def)
qed

lemma remove_if_turns:
  assumes inv: "ral_inv h l xs" and vs: "vals h xs = vs"
  shows "list_all p vs \<Longrightarrow> turns_into h l xs P (remove_if dbg h l p) []" "\<not> list_all p vs \<Longrightarrow> remove_if dbg h l p = None"
proof -
  show "list_all p vs \<Longrightarrow> turns_into h l xs P (remove_if dbg h l p) []"
    using remove_if_loop_all [OF inv, of p dbg] vs ral_begin_spec [OF inv, of dbg] ral_end_spec [OF inv, of dbg]
    by (auto simp: remove_if_def list_all_iff intro!: turns_evolves [where ys = "[]"])
  show "\<not> list_all p vs \<Longrightarrow> remove_if dbg h l p = None"
    using remove_if_spec [OF inv, of dbg p] vs by (auto simp: list_all_iff)
qed

lemma unique_after_remdups: "v # unique_after (=) v vs = remdups_adj (v # vs)"
  by (induction vs arbitrary: v) auto

lemma unique_turns:
  assumes inv: "ral_inv h l xs" and vs: "vals h xs = vs"
  shows "turns_into h l xs P (unique dbg h l (=)) (remdups_adj vs)"
proof -
  obtain h' l' zs where "unique dbg h l (=) = Some (h', l')" "ral_inv h' l' zs" "evolves h l xs h' l' zs"
    "vals h' zs = (case vals h xs of [] \<Rightarrow> [] | v # vs \<Rightarrow> v # unique_after (=) v vs)"
    using unique_spec [OF inv, of dbg "(=)"] by blast
  then show ?thesis using vs unique_after_remdups by (intro turns_evolves) (auto split: list.split)
qed

lemma reverse_turns: "ral_inv h l xs \<Longrightarrow> turns_into h l xs P (reverse_list dbg h l) (rev (vals h xs))"
  using reverse_spec [of h l xs dbg] by (auto intro: turns_evolves)

lemma sort_turns:
  assumes inv: "ral_inv h l xs" and srt: "list_sort_ok srt ((<) :: int \<Rightarrow> int \<Rightarrow> bool)"
  shows "turns_into h l xs P (sort_list srt dbg h l) (sort (vals h xs))"
proof -
  obtain h' l' ns where s: "sort_list srt dbg h l = Some (h', l')" "ral_inv h' l' ns" "evolves h l xs h' l' ns"
    "mset (vals h' ns) = mset (vals h xs)" "sorted_wrt (\<lambda>x y. \<not> y < x) (vals h' ns)"
    using sort_spec [OF inv srt, of dbg] by blast
  then have "vals h' ns = sort (vals h xs)" by (metis (mono_tags, lifting) linorder_not_less properties_for_sort sorted_wrt_mono_rel)
  with s show ?thesis by (intro turns_evolves)
qed

lemma pop_back_turns:
  assumes inv: "ral_inv h l xs" and ne: "vals h xs \<noteq> []"
  shows "turns_into h l xs P (pop_back dbg h l) (butlast (vals h xs))"
proof -
  from ne obtain ys a where xs: "xs = ys @ [a]" by (cases xs rule: rev_cases) auto
  obtain h' l' where "pop_back dbg h l = Some (h', l')" "ral_inv h' l' ys" "evolves h l (ys @ [a]) h' l' ys" "vals h' ys = vals h ys"
    by (rule pop_back_spec [of h l ys a dbg]) (use inv xs that in auto)
  then show ?thesis unfolding xs by (intro turns_evolves) auto
qed

lemma pop_front_turns:
  assumes inv: "ral_inv h l xs" and ne: "vals h xs \<noteq> []"
  shows "turns_into h l xs P (pop_front dbg h l) (tl (vals h xs))"
proof -
  from ne obtain a ys where xs: "xs = a # ys" by (cases xs) auto
  obtain h' l' where e: "erase dbg h l (position (a # ys) l) = Some (h', l', position ys l')" "ral_inv h' l' ([] @ ys)"
    "evolves h l ([] @ a # ys) h' l' ([] @ ys)" "vals h' ([] @ ys) = vals h [] @ vals h ys"
    by (rule erase_vals [of h l "[]" a ys dbg]) (use inv xs that in auto)
  have "pop_front dbg h l = Some (h', l')"
    using e(1) ral_empty_spec [OF inv, of dbg] ral_begin_spec [OF inv, of dbg] xs by (cases dbg) (auto simp: pop_front_def)
  then show ?thesis unfolding xs using e by (intro turns_evolves) auto
qed

lemma take_mid_drop:
  assumes "a \<le> b"
  shows "xs = take a xs @ drop a (take b xs) @ drop b xs" "drop a xs = drop a (take b xs) @ drop b xs"
    "drop a (take b xs) = take (b - a) (drop a xs)"
proof -
  have "take a xs @ drop a (take b xs) = take b xs" using assms by (metis append_take_drop_id min.absorb1 take_take)
  then show *: "xs = take a xs @ drop a (take b xs) @ drop b xs" by (metis append.assoc append_take_drop_id)
  then show "drop a xs = drop a (take b xs) @ drop b xs" by (metis append_take_drop_id same_append_eq)
  show "drop a (take b xs) = take (b - a) (drop a xs)" by (simp add: drop_take)
qed

lemma erase_range_turns:
  assumes inv: "ral_inv h l xs" and vs: "vals h xs = vs" and ab: "a \<le> b" "b \<le> length vs" and r: "room env N h n"
  shows "turns_into h l xs P (do { first_it \<leftarrow> iterator_plus dbg h l a; last_it \<leftarrow> iterator_plus dbg h l b;
     (h, l, _) \<leftarrow> erase_range dbg h l first_it last_it; Some (h, l) }) (take a vs @ drop b vs)"
proof -
  let ?us = "take a xs" and ?ms = "drop a (take b xs)" and ?ws = "drop b xs"
  note sp = take_mid_drop(1,2) [OF ab(1), of xs]
  have it: "iterator_plus dbg h l a = Some (position (?ms @ ?ws) l)" "iterator_plus dbg h l b = Some (position ?ws l)"
    using plus_spec [OF inv _ r] ab vs sp(2) by auto
  obtain h' l' where e: "erase_range dbg h l (position (?ms @ ?ws) l) (position ?ws l) = Some (h', l', position ?ws l')"
    "ral_inv h' l' (?us @ ?ws)" "evolves h l (?us @ ?ms @ ?ws) h' l' (?us @ ?ws)" "vals h' (?us @ ?ws) = vals h ?us @ vals h ?ws"
    using erase_range_spec [of h l ?us ?ms ?ws dbg] inv sp(1) by metis
  have "vals h ?us = take a vs" "vals h ?ws = drop b vs" using split_at [OF inv vs] by simp_all
  with e it sp(1) [symmetric] show ?thesis by (intro turns_evolves) auto
qed

lemma resize_turns:
  assumes inv: "ral_inv h l xs" and vs: "vals h xs = vs" and r: "room env N h (n - length vs)"
  shows "turns_into h l xs P (no_result (resize env h l (of_nat n) (\<lambda>_. Inr v)))
    (if n < length vs then take n vs else replicate (n - length vs) v @ vs)"
proof (cases "n < length vs")
  case True
  have len: "length xs = length vs" using vs by auto
  have "ral_inv h l (take n xs @ drop n xs)" "drop n xs \<noteq> []" using inv True len by simp_all
  from resize_shrink [OF this, of env "\<lambda>_. Inr v"] True len obtain h' l' where
    "resize env h l (of_nat n) (\<lambda>_. Inr v) = Some (h', l', Inr ())" "ral_inv h' l' (take n xs)" "evolves h l xs h' l' (take n xs)"
    "vals h' (take n xs) = vals h (take n xs)" by (auto simp: min_absorb2)
  then show ?thesis using True split_at(2) [OF inv vs, of n] by (intro turns_evolves) (auto simp: no_result_def no_throw_def)
next
  case False
  have len: "length xs = length vs" using vs by auto
  have n: "length xs \<le> n" "n + 2 < 2 ^ 32" using False len ral_length_room [OF inv r] by simp_all
  have mp: "map (\<lambda>_. Inr v) [0..<n - length xs] = (map Inr (replicate (n - length vs) v) :: 'a made list)"
    using len by (simp add: map_replicate_const)
  have ce: "creation_error env h (map (\<lambda>_. Inr v) [0..<n - length xs]) = None"
    unfolding mp by (rule creation_room) (use r in simp)
  have us: "us = replicate (n - length vs) v" if "map (\<lambda>_. Inr v) [0..<n - length xs] = (map Inr us :: 'a made list)" for us
    using that unfolding mp by (rule map_injective [OF sym inj_Inr])
  from resize_grow [OF room_env [OF r] inv n, of "\<lambda>_. Inr v"] ce us obtain ns h' l' where
    "resize env h l (of_nat n) (\<lambda>_. Inr v) = Some (h', l', Inr ())" "ral_inv h' l' (ns @ xs)" "evolves h l xs h' l' (ns @ xs)"
    "vals h' (ns @ xs) = replicate (n - length vs) v @ vals h xs" by (metis option.distinct(1))
  then show ?thesis using False vs by (intro turns_evolves) (auto simp: no_result_def no_throw_def)
qed

subsection \<open>Every command\<close>

text \<open>The situation in which a command is run.\<close>

definition ready :: "int env \<Rightarrow> nat \<Rightarrow> (int heap \<Rightarrow> addr list \<Rightarrow> addr list) \<Rightarrow> int lists \<Rightarrow> int list list \<Rightarrow> bool" where
  "ready env N srt st vss \<longleftrightarrow> lists_hold st vss \<and> alloc_serves env N \<and> N < 2 ^ 31 \<and> fits N vss 0 \<and> list_sort_ok srt (<)"

lemma ready_room: "ready env N srt (h, ls) vss \<Longrightarrow> fits N vss n \<Longrightarrow> room env N h n"
  by (auto simp: ready_def intro: lists_hold_room)

lemma ready_holds: "ready env N srt st vss \<Longrightarrow> lists_hold st vss"
  by (simp add: ready_def)

lemma ready_room0: "ready env N srt (h, ls) vss \<Longrightarrow> room env N h 0"
  by (auto simp: ready_def intro: lists_hold_room)

abbreviation agrees :: "int env \<Rightarrow> (int heap \<Rightarrow> addr list \<Rightarrow> addr list) \<Rightarrow> ral_command \<Rightarrow> int lists \<Rightarrow> int list list \<Rightarrow> bool" where
  "agrees env srt c st vss \<equiv> rel_option lists_hold (ral_command_step env srt c st) (model_step c vss)"

lemma construct_commands:
  assumes rd: "ready env N srt (h, ls) vss"
  shows "fits N vss 2 \<Longrightarrow> agrees env srt L_new (h, ls) vss"
    "fits N vss (4 + n) \<Longrightarrow> agrees env srt (L_new_count n v) (h, ls) vss"
    "fits N vss (4 + length us) \<Longrightarrow> agrees env srt (L_new_range us) (h, ls) vss"
    "(j < length vss \<longrightarrow> fits N vss (4 + length (vss ! j))) \<Longrightarrow> agrees env srt (L_new_copy j) (h, ls) vss"
proof -
  note R = ready_holds [OF rd]
  show "agrees env srt L_new (h, ls) vss" if "fits N vss 2"
  proof -
    have "room env N h (2 + 0)" using ready_room [OF rd that] by simp
    then obtain k l where k: "makeImplementation env (Some (free_place ls)) h = Some (k, Inr l)" "ral_inv k l []" "ral_at l = free_place ls"
      "reshapes h {} k (owned (ral_impl l) [])" by (rule makeImplementation_room)
    obtain ts where ts: "store_inv h ts" "map fst ts = ls" "map held_vals ts = vss" using R by (rule lists_holdE)
    have "held_at ` set ts = ral_at ` set ls" unfolding ts(2) [symmetric] by (auto simp: held_at_def)
    then have "store_inv k (ts @ [(l, [], [])])"
      using k free_place_fresh [of "free_place ls" ls] by (intro store_append [OF ts(1)]) auto
    then have "lists_hold (k, ls @ [l]) (vss @ [[]])"
      unfolding lists_hold_def using ts(2,3) by (intro exI [of _ "ts @ [(l, [], [])]"]) auto
    then show ?thesis using k(1) by (simp add: on_built_def)
  qed
  show "agrees env srt (L_new_count n v) (h, ls) vss" if f: "fits N vss (4 + n)"
  proof -
    obtain ns h' l' where "construct_count env (Some (free_place ls)) (Some (Suc (free_place ls))) h (of_nat n) (\<lambda>_. Inr v) = Some (h', Inr l')"
      "ral_inv h' l' ns" "vals h' ns = replicate n v" "ral_at l' = Suc (free_place ls)" "reshapes h {} h' (owned (ral_impl l') ns)"
      by (rule construct_count_room [OF ready_room [OF rd f]])
    then show ?thesis using on_built_holds [OF R] by simp
  qed
  show "agrees env srt (L_new_range us) (h, ls) vss" if f: "fits N vss (4 + length us)"
  proof -
    obtain ns h' l' where "construct_range env (Some (free_place ls)) (Some (Suc (free_place ls))) h (map Inr us) = Some (h', Inr l')"
      "ral_inv h' l' ns" "vals h' ns = us" "ral_at l' = Suc (free_place ls)" "reshapes h {} h' (owned (ral_impl l') ns)"
      by (rule construct_range_room [OF ready_room [OF rd f]])
    then show ?thesis using on_built_holds [OF R] by simp
  qed
  show "agrees env srt (L_new_copy j) (h, ls) vss" if "j < length vss \<longrightarrow> fits N vss (4 + length (vss ! j))"
  proof (cases "j < length vss")
    case True
    obtain ts where ts: "store_inv h ts" "map fst ts = ls" "map held_vals ts = vss" using R by (rule lists_holdE)
    have j: "j < length ts" using True ts(3) by auto
    obtain xs where xs: "ral_inv h (ls ! j) xs" "vals h xs = vss ! j" using lists_hold_nth [OF ts(1) j] unfolding ts(2,3) by blast
    have "room env N h (4 + length xs)" using ready_room [OF rd] that True xs(2) by (metis vals_simps(4))
    then obtain ns h' l' where "construct_copy env (Some (free_place ls)) (Some (Suc (free_place ls))) Inr h (ls ! j) = Some (h', Inr l')"
      "ral_inv h' l' ns" "vals h' ns = vals h xs" "ral_at l' = Suc (free_place ls)" "reshapes h {} h' (owned (ral_impl l') ns)"
      by (rule construct_copy_room [OF xs(1)])
    then show ?thesis using on_built_holds [OF R] True xs(2) lists_hold_length [OF R] by simp
  next
    case False
    then show ?thesis using lists_hold_length [OF R] by simp
  qed
qed

lemma assign_commands:
  assumes rd: "ready env N srt (h, ls) vss"
  shows "fits N vss (2 + n) \<Longrightarrow> agrees env srt (L_assign_count i n v) (h, ls) vss"
    "fits N vss (2 + length us) \<Longrightarrow> agrees env srt (L_assign_range i us) (h, ls) vss"
    "(j < length vss \<longrightarrow> fits N vss (2 + length (vss ! j))) \<Longrightarrow> agrees env srt (L_copy_assign i j) (h, ls) vss"
proof -
  note R = ready_holds [OF rd]
  have range: "turns_into h l xs (ral_at ` set ls) (no_result (assign env (Some (free_place ls)) h l (map Inr us))) us"
    if f: "ral_inv h l xs" "fits N vss (2 + length us)" for l xs us
  proof -
    obtain ns h' l' where e: "assign env (Some (free_place ls)) h l (map Inr us) = Some (h', l', Inr ())" "ral_inv h' l' ns" "vals h' ns = us"
      "ral_at l' = free_place ls" "reshapes h (owned (ral_impl l) xs) h' (owned (ral_impl l') ns)"
      by (rule assign_room [OF f(1) ready_room [OF rd f(2)]])
    have "no_result (assign env (Some (free_place ls)) h l (map Inr us)) = Some (h', l')" using e(1) by (simp add: no_result_def no_throw_def)
    then show ?thesis by (rule turns_placed [OF _ e(2,3,5,4)])
  qed
  show "agrees env srt (L_assign_count i n v) (h, ls) vss" if f: "fits N vss (2 + n)"
    unfolding ral_command_step.simps model_step.simps
  proof (rule on_list_always [OF R])
    fix xs assume inv: "ral_inv h (ls ! i) xs"
    obtain ns h' l' where e: "assign_count env (Some (free_place ls)) h (ls ! i) (of_nat n) (\<lambda>_. Inr v) = Some (h', l', Inr ())"
      "ral_inv h' l' ns" "vals h' ns = replicate n v" "ral_at l' = free_place ls"
      "reshapes h (owned (ral_impl (ls ! i)) xs) h' (owned (ral_impl l') ns)"
      by (rule assign_count_room [OF inv ready_room [OF rd f]])
    have "no_result (assign_count env (Some (free_place ls)) h (ls ! i) (of_nat n) (\<lambda>_. Inr v)) = Some (h', l')"
      using e(1) by (simp add: no_result_def no_throw_def)
    then show "turns_into h (ls ! i) xs (ral_at ` set ls)
        (no_result (assign_count env (Some (free_place ls)) h (ls ! i) (of_nat n) (\<lambda>_. Inr v))) (replicate n v)"
      by (rule turns_placed [OF _ e(2,3,5,4)])
  qed
  show "agrees env srt (L_assign_range i us) (h, ls) vss" if "fits N vss (2 + length us)"
    unfolding ral_command_step.simps model_step.simps by (rule on_list_always [OF R]) (rule range [OF _ that])
  show "agrees env srt (L_copy_assign i j) (h, ls) vss" if f: "j < length vss \<longrightarrow> fits N vss (2 + length (vss ! j))"
  proof (cases "j < length vss")
    case True
    obtain ts where ts: "store_inv h ts" "map fst ts = ls" "map held_vals ts = vss" using R by (rule lists_holdE)
    have j: "j < length ts" using True ts(3) by auto
    obtain ys where ys: "ral_inv h (ls ! j) ys" "vals h ys = vss ! j" using lists_hold_nth [OF ts(1) j] unfolding ts(2,3) by blast
    have run: "copy_assign env (Some (free_place ls)) Inr h l (ls ! j) = assign env (Some (free_place ls)) h l (map Inr (vss ! j))" for l
      using read_all_spec [OF ys(1), of "e_dbg env"] ys(2) by (simp add: copy_assign_def)
    have "rel_option lists_hold (on_list i (\<lambda>h' l. no_result (copy_assign env (Some (free_place ls)) Inr h' l (ls ! j))) (h, ls))
        (on_values i (\<lambda>vs. Some (vss ! j)) vss)"
      by (rule on_list_always [OF R]) (use range f True run in auto)
    then show ?thesis using True lists_hold_length [OF R] by simp
  next
    case False
    then show ?thesis using lists_hold_length [OF R] by simp
  qed
qed

lemma move_commands:
  assumes rd: "ready env N srt (h, ls) vss"
  shows "agrees env srt (L_swap i j) (h, ls) vss" "agrees env srt (L_move_assign i j) (h, ls) vss"
    "fits N vss 2 \<Longrightarrow> agrees env srt (L_new_move j) (h, ls) vss"
proof -
  note R = ready_holds [OF rd]
  obtain ts where ts: "store_inv h ts" "map fst ts = ls" "map held_vals ts = vss" using R by (rule lists_holdE)
  have len: "length ts = length vss" "length ls = length vss" using ts by auto
  have swap: "lists_hold (h, ls[i := ls ! j, j := ls ! i]) (vss[i := vss ! j, j := vss ! i])" if ij: "i < length vss" "j < length vss"
  proof -
    let ?ts = "ts[i := ts ! j, j := ts ! i]"
    have "store_inv h ?ts" using store_swap [OF ts(1), of i j] ij len(1) by simp
    moreover have "map fst ?ts = ls[i := ls ! j, j := ls ! i]" "map held_vals ?ts = vss[i := vss ! j, j := vss ! i]"
      using ij unfolding len(1) [symmetric] by (simp_all only: map_swap ts(2,3))
    ultimately show ?thesis unfolding lists_hold_def by auto
  qed
  have key: "rel_option lists_hold (on_two i j (\<lambda>h l m. case ral_swap (l, m) of (l, m) \<Rightarrow> Some (h, l, m)) (h, ls))
      (if i < length vss \<and> j < length vss then Some (vss[i := vss ! j, j := vss ! i]) else None)"
  proof (cases "i < length vss \<and> j < length vss")
    case True
    then have "lists_hold (h, ls[i := ls ! j, j := ls ! i]) (vss[i := vss ! j, j := vss ! i])" by (intro swap) simp_all
    then show ?thesis using True by (simp add: on_two_def ral_swap_def len(2))
  next
    case False
    then show ?thesis by (auto simp: on_two_def len(2))
  qed
  show "agrees env srt (L_swap i j) (h, ls) vss" "agrees env srt (L_move_assign i j) (h, ls) vss"
    unfolding ral_command_step.simps model_step.simps by (rule key)+
  show "agrees env srt (L_new_move j) (h, ls) vss" if "fits N vss 2"
  proof (cases "j < length vss")
    case True
    have "room env N h (2 + 0)" using ready_room [OF rd that] by simp
    then obtain k l where k: "makeImplementation env (Some (free_place ls)) h = Some (k, Inr l)" "ral_inv k l []" "ral_at l = free_place ls"
      "reshapes h {} k (owned (ral_impl l) [])" by (rule makeImplementation_room)
    have "held_at ` set ts = ral_at ` set ls" unfolding ts(2) [symmetric] by (auto simp: held_at_def)
    then have "store_inv k (ts @ [(l, [], [])])"
      using k free_place_fresh [of "free_place ls" ls] by (intro store_append [OF ts(1)]) auto
    from store_swap [OF this, of j "length ts"] True len have "store_inv k (ts[j := (l, [], [])] @ [ts ! j])"
      by (simp add: nth_append list_update_append)
    moreover have "map f (ts[j := x] @ [ts ! j]) = (map f ts)[j := f x] @ [map f ts ! j]" for f :: "int held \<Rightarrow> 'b" and x
      using True len(1) by (simp add: map_update)
    note this [of fst] this [of held_vals]
    then have "map fst (ts[j := (l, [], [])] @ [ts ! j]) = ls[j := l] @ [ls ! j]"
      "map held_vals (ts[j := (l, [], [])] @ [ts ! j]) = vss[j := []] @ [vss ! j]"
      unfolding ts(2,3) by simp_all
    ultimately have "lists_hold (k, ls[j := l] @ [ls ! j]) (vss[j := []] @ [vss ! j])"
      unfolding lists_hold_def by (metis fst_conv snd_conv)
    then show ?thesis using k(1) True len by (simp add: construct_move_def ral_swap_def)
  next
    case False
    then show ?thesis using len by simp
  qed
qed

lemma insert_commands:
  assumes rd: "ready env N srt (h, ls) vss" and f: "fits N vss 1"
  shows "(i < length vss \<longrightarrow> k \<le> length (vss ! i)) \<Longrightarrow> agrees env srt (L_emplace i k v) (h, ls) vss"
    "agrees env srt (L_emplace_back i v d) (h, ls) vss" "agrees env srt (L_emplace_front i v d) (h, ls) vss"
    "agrees env srt (L_push_back i v) (h, ls) vss" "agrees env srt (L_push_front i v) (h, ls) vss"
proof -
  note R = ready_holds [OF rd]
  note r = ready_room [OF rd f]
  note ends = ral_begin_spec ral_end_spec emplace_back_def emplace_front_def push_back_def push_front_def
  show "agrees env srt (L_emplace i k v) (h, ls) vss" if kk: "i < length vss \<longrightarrow> k \<le> length (vss ! i)"
    unfolding ral_command_step.simps model_step.simps
  proof (rule on_list_always [OF R])
    fix xs assume a: "i < length vss" "ral_inv h (ls ! i) xs" "vals h xs = vss ! i"
    note sp = split_at(1-3) [OF a(2,3), of k] split_at(4) [OF a(2,3)]
    have "iterator_plus (e_dbg env) h (ls ! i) k = Some (position (drop k xs) (ls ! i))"
      using plus_spec [OF a(2) _ r] kk a(1) sp(4) by simp
    then show "turns_into h (ls ! i) xs (ral_at ` set ls) (do { it \<leftarrow> iterator_plus (e_dbg env) h (ls ! i) k;
        emplace_checked env (emplace env h (ls ! i) it (Inr v)) k v }) (insert_values k [v] (vss ! i))"
      using emplace_checked_room(1) [OF sp(1) r, of k] sp kk a(1) by (simp add: insert_values_def min_absorb2)
  qed
  show "agrees env srt (L_emplace_back i v d) (h, ls) vss"
    unfolding ral_command_step.simps model_step.simps
  proof (rule on_list_holds [OF R], goal_cases)
    case (1 xs)
    then show ?case using emplace_checked_room(2) [of h "ls ! i" xs "[]" env N d v] split_at(4) [OF 1(2,3)] r
      by (auto simp: ends split: if_splits)
  next
    case (2 xs ws)
    then show ?case using emplace_checked_room(1) [of h "ls ! i" xs "[]" env N d "ral_at ` set ls" v] split_at(4) [OF 2(2,3)] r
      by (auto simp: ends split: if_splits)
  qed
  show "agrees env srt (L_emplace_front i v d) (h, ls) vss"
    unfolding ral_command_step.simps model_step.simps
  proof (rule on_list_holds [OF R], goal_cases)
    case (1 xs)
    then show ?case using emplace_checked_room(2) [of h "ls ! i" "[]" xs env N d v] r
      by (auto simp: ends split: if_splits)
  next
    case (2 xs ws)
    then show ?case using emplace_checked_room(1) [of h "ls ! i" "[]" xs env N d "ral_at ` set ls" v] r
      by (auto simp: ends split: if_splits)
  qed
  show "agrees env srt (L_push_back i v) (h, ls) vss"
    unfolding ral_command_step.simps model_step.simps
  proof (rule on_list_always [OF R])
    fix xs assume a: "i < length vss" "ral_inv h (ls ! i) xs" "vals h xs = vss ! i"
    show "turns_into h (ls ! i) xs (ral_at ` set ls) (no_result (push_back env h (ls ! i) (Inr v))) (vss ! i @ [v])"
      using push_room [of h "ls ! i" xs "[]" env N _ v] r a(2) unfolding a(3) [symmetric] by (simp add: ends)
  qed
  show "agrees env srt (L_push_front i v) (h, ls) vss"
    unfolding ral_command_step.simps model_step.simps
  proof (rule on_list_always [OF R])
    fix xs assume a: "i < length vss" "ral_inv h (ls ! i) xs" "vals h xs = vss ! i"
    show "turns_into h (ls ! i) xs (ral_at ` set ls) (no_result (push_front env h (ls ! i) (Inr v))) (v # vss ! i)"
      using push_room [of h "ls ! i" "[]" xs env N _ v] r a(2) unfolding a(3) [symmetric] by (simp add: ends)
  qed
qed

lemma insert_many_commands:
  assumes rd: "ready env N srt (h, ls) vss"
  shows "(i < length vss \<longrightarrow> k \<le> length (vss ! i) \<and> fits N vss (length us)) \<Longrightarrow> agrees env srt (L_insert_range i k us) (h, ls) vss"
    "(i < length vss \<longrightarrow> k \<le> length (vss ! i) \<and> fits N vss n) \<Longrightarrow> agrees env srt (L_insert_count i k n v) (h, ls) vss"
    "(i < length vss \<longrightarrow> fits N vss (n - length (vss ! i))) \<Longrightarrow> agrees env srt (L_resize i n v) (h, ls) vss"
proof -
  note R = ready_holds [OF rd]
  have many: "turns_into h (ls ! i) xs P (do { it \<leftarrow> iterator_plus (e_dbg env) h (ls ! i) k;
      no_result (insert_range env h (ls ! i) it (map Inr us)) }) (insert_values k us (vss ! i))"
    if a: "ral_inv h (ls ! i) xs" "vals h xs = vss ! i" and kk: "k \<le> length (vss ! i)" and r: "room env N h (length us)" for xs us P
  proof -
    note sp = split_at(1-3) [OF a, of k] split_at(4) [OF a]
    have "iterator_plus (e_dbg env) h (ls ! i) k = Some (position (drop k xs) (ls ! i))"
      using plus_spec [OF a(1) _ r] kk sp(4) by simp
    then show ?thesis using insert_range_turns [OF sp(1) r] sp by (simp add: insert_values_def)
  qed
  show "agrees env srt (L_insert_range i k us) (h, ls) vss" if f: "i < length vss \<longrightarrow> k \<le> length (vss ! i) \<and> fits N vss (length us)"
    unfolding ral_command_step.simps model_step.simps
    by (rule on_list_always [OF R]) (use many f ready_room [OF rd] in blast)
  show "agrees env srt (L_insert_count i k n v) (h, ls) vss" if f: "i < length vss \<longrightarrow> k \<le> length (vss ! i) \<and> fits N vss n"
    unfolding ral_command_step.simps model_step.simps
  proof (rule on_list_always [OF R])
    fix xs assume a: "i < length vss" "ral_inv h (ls ! i) xs" "vals h xs = vss ! i"
    have r: "room env N h (length (replicate n v))" using ready_room [OF rd] f a(1) by simp
    have n: "unat (of_nat n :: size_t) = n" using ral_length_room [OF a(2) r] unat_of_nat_size_t [of n] by simp
    have mp: "map (\<lambda>_. Inr v) [0..<n] = (map Inr (replicate n v) :: int made list)" by (simp add: map_replicate_const)
    show "turns_into h (ls ! i) xs (ral_at ` set ls) (do { it \<leftarrow> iterator_plus (e_dbg env) h (ls ! i) k;
        no_result (insert_count env h (ls ! i) it (of_nat n) (\<lambda>_. Inr v)) }) (insert_values k (replicate n v) (vss ! i))"
      unfolding insert_count_def n mp by (rule many [OF a(2,3) _ r]) (use f a(1) in blast)
  qed
  show "agrees env srt (L_resize i n v) (h, ls) vss" if f: "i < length vss \<longrightarrow> fits N vss (n - length (vss ! i))"
    unfolding ral_command_step.simps model_step.simps
  proof (rule on_list_always [OF R])
    fix xs assume a: "i < length vss" "ral_inv h (ls ! i) xs" "vals h xs = vss ! i"
    have "room env N h (n - length (vss ! i))" using ready_room [OF rd] f a(1) by blast
    then show "turns_into h (ls ! i) xs (ral_at ` set ls) (no_result (resize env h (ls ! i) (of_nat n) (\<lambda>_. Inr v)))
        (if n < length (vss ! i) then take n (vss ! i) else replicate (n - length (vss ! i)) v @ vss ! i)"
      by (rule resize_turns [OF a(2,3)])
  qed
qed

lemma remove_commands:
  assumes rd: "ready env N srt (h, ls) vss"
  shows "(i < length vss \<longrightarrow> k < length (vss ! i)) \<Longrightarrow> agrees env srt (L_erase i k) (h, ls) vss"
    "(i < length vss \<longrightarrow> a \<le> b \<and> b \<le> length (vss ! i)) \<Longrightarrow> agrees env srt (L_erase_range i a b) (h, ls) vss"
    "(i < length vss \<longrightarrow> vss ! i \<noteq> []) \<Longrightarrow> agrees env srt (L_pop_back i) (h, ls) vss"
    "(i < length vss \<longrightarrow> vss ! i \<noteq> []) \<Longrightarrow> agrees env srt (L_pop_front i) (h, ls) vss"
    "agrees env srt (L_clear i) (h, ls) vss" "agrees env srt (L_remove i v) (h, ls) vss" "agrees env srt (L_remove_if i p) (h, ls) vss"
proof -
  note R = ready_holds [OF rd]
  note r = ready_room0 [OF rd]
  note unf = ral_command_step.simps model_step.simps
  show "agrees env srt (L_erase i k) (h, ls) vss" if kk: "i < length vss \<longrightarrow> k < length (vss ! i)"
    unfolding unf
  proof (rule on_list_always [OF R])
    fix xs assume a: "i < length vss" "ral_inv h (ls ! i) xs" "vals h xs = vss ! i"
    have k: "k < length xs" using kk a(1) split_at(4) [OF a(2,3)] by simp
    then have inv: "ral_inv h (ls ! i) (take k xs @ xs ! k # drop (Suc k) xs)" using a(2) by (simp add: id_take_nth_drop [symmetric])
    obtain h' l' where e: "erase_checked (e_dbg env) h (ls ! i) (length (take k xs)) = Some (h', l')"
      "ral_inv h' l' (take k xs @ drop (Suc k) xs)"
      "evolves h (ls ! i) (take k xs @ xs ! k # drop (Suc k) xs) h' l' (take k xs @ drop (Suc k) xs)"
      "vals h' (take k xs @ drop (Suc k) xs) = vals h (take k xs) @ vals h (drop (Suc k) xs)"
      using erase_checked_spec [OF inv r] .
    have "erase_checked (e_dbg env) h (ls ! i) k = Some (h', l')" using e(1) k by simp
    moreover have "vals h' (take k xs @ drop (Suc k) xs) = take k (vss ! i) @ drop (Suc k) (vss ! i)"
      using e(4) split_at(2) [OF a(2,3), of k] split_at(3) [OF a(2,3), of "Suc k"] by simp
    moreover have "evolves h (ls ! i) xs h' l' (take k xs @ drop (Suc k) xs)"
      using e(3) k by (simp add: id_take_nth_drop [symmetric])
    ultimately show "turns_into h (ls ! i) xs (ral_at ` set ls) (erase_checked (e_dbg env) h (ls ! i) k)
        (take k (vss ! i) @ drop (Suc k) (vss ! i))"
      using e(2) by (intro turns_evolves)
  qed
  show "agrees env srt (L_erase_range i a b) (h, ls) vss" if f: "i < length vss \<longrightarrow> a \<le> b \<and> b \<le> length (vss ! i)"
    unfolding unf by (rule on_list_always [OF R]) (rule erase_range_turns [OF _ _ _ _ r], use f in simp_all)
  show "agrees env srt (L_pop_back i) (h, ls) vss" if f: "i < length vss \<longrightarrow> vss ! i \<noteq> []"
    unfolding unf
  proof (rule on_list_always [OF R])
    fix xs assume a: "i < length vss" "ral_inv h (ls ! i) xs" "vals h xs = vss ! i"
    show "turns_into h (ls ! i) xs (ral_at ` set ls) (pop_back (e_dbg env) h (ls ! i)) (butlast (vss ! i))"
      unfolding a(3) [symmetric] by (rule pop_back_turns [OF a(2)]) (use f a(1,3) in simp)
  qed
  show "agrees env srt (L_pop_front i) (h, ls) vss" if f: "i < length vss \<longrightarrow> vss ! i \<noteq> []"
    unfolding unf
  proof (rule on_list_always [OF R])
    fix xs assume a: "i < length vss" "ral_inv h (ls ! i) xs" "vals h xs = vss ! i"
    show "turns_into h (ls ! i) xs (ral_at ` set ls) (pop_front (e_dbg env) h (ls ! i)) (tl (vss ! i))"
      unfolding a(3) [symmetric] by (rule pop_front_turns [OF a(2)]) (use f a(1,3) in simp)
  qed
  show "agrees env srt (L_clear i) (h, ls) vss"
    unfolding unf by (rule on_list_always [OF R]) (rule clear_turns)
  show "agrees env srt (L_remove i v) (h, ls) vss"
    unfolding unf remove_value_def
    by (rule on_list_holds [OF R]) (use remove_if_turns [where p = "\<lambda>x. x = v"] in \<open>auto split: if_splits\<close>)
  show "agrees env srt (L_remove_if i p) (h, ls) vss"
    unfolding unf
    by (rule on_list_holds [OF R]) (use remove_if_turns [where p = p] in \<open>auto split: if_splits\<close>)
qed

lemma rearrange_commands:
  assumes rd: "ready env N srt (h, ls) vss"
  shows "agrees env srt (L_unique i) (h, ls) vss" "agrees env srt (L_reverse i) (h, ls) vss" "agrees env srt (L_sort i) (h, ls) vss"
proof -
  note R = ready_holds [OF rd]
  have srt: "list_sort_ok srt (<)" using rd by (simp add: ready_def)
  show "agrees env srt (L_unique i) (h, ls) vss"
    unfolding ral_command_step.simps model_step.simps by (rule on_list_always [OF R]) (rule unique_turns)
  show "agrees env srt (L_reverse i) (h, ls) vss"
    unfolding ral_command_step.simps model_step.simps
  proof (rule on_list_always [OF R])
    fix xs assume a: "i < length vss" "ral_inv h (ls ! i) xs" "vals h xs = vss ! i"
    show "turns_into h (ls ! i) xs (ral_at ` set ls) (reverse_list (e_dbg env) h (ls ! i)) (rev (vss ! i))"
      unfolding a(3) [symmetric] by (rule reverse_turns [OF a(2)])
  qed
  show "agrees env srt (L_sort i) (h, ls) vss"
    unfolding ral_command_step.simps model_step.simps
  proof (rule on_list_always [OF R])
    fix xs assume a: "i < length vss" "ral_inv h (ls ! i) xs" "vals h xs = vss ! i"
    show "turns_into h (ls ! i) xs (ral_at ` set ls) (sort_list srt (e_dbg env) h (ls ! i)) (sort (vss ! i))"
      unfolding a(3) [symmetric] by (rule sort_turns [OF a(2) srt])
  qed
qed

lemma two_commands:
  assumes rd: "ready env N srt (h, ls) vss"
  shows "agrees env srt (L_merge i j) (h, ls) vss"
    "i \<noteq> j \<Longrightarrow> (i < length vss \<longrightarrow> k \<le> length (vss ! i)) \<Longrightarrow> agrees env srt (L_splice i k j) (h, ls) vss"
proof -
  note R = ready_holds [OF rd]
  note r = ready_room0 [OF rd]
  note len = lists_hold_length [OF R]
  have bound: "length xs + length ys + 2 < 2 ^ 32" if "ral_inv h l xs" "ral_inv h m ys" for l m xs ys
    using ral_length_room(2) [OF that(1) r] ral_length_room(2) [OF that(2) r] by simp
  show "agrees env srt (L_merge i j) (h, ls) vss"
  proof (cases "i < length vss \<and> j < length vss \<and> i \<noteq> j")
    case True
    then have ij: "i < length vss" "j < length vss" "i \<noteq> j" by simp_all
    have "rel_option lists_hold (on_two i j (\<lambda>h l m. merge_private (e_dbg env) h l m (<)) (h, ls))
        (Some (vss[i := merge_nodes (<) (vss ! i) (vss ! j), j := []]))"
    proof (rule on_two_holds [OF R ij])
      fix xs ys
      assume a: "ral_inv h (ls ! i) xs" "vals h xs = vss ! i" "ral_inv h (ls ! j) ys" "vals h ys = vss ! j" "apart (ls ! i) xs (ls ! j) ys"
      from merge_spec [OF a(1,3,5) bound [OF a(1,3)], of "e_dbg env" "(<)"] a(2,4)
      show "\<exists>h' l' m' us ws. merge_private (e_dbg env) h (ls ! i) (ls ! j) (<) = Some (h', l', m') \<and> ral_inv h' l' us \<and> ral_inv h' m' ws \<and>
          same_object (ls ! i) l' \<and> same_object (ls ! j) m' \<and> set us \<union> set ws = set xs \<union> set ys \<and> set us \<inter> set ws = {} \<and>
          (\<forall>a. a \<notin> owned (ral_impl (ls ! i)) xs \<union> owned (ral_impl (ls ! j)) ys \<longrightarrow> h' a = h a) \<and>
          vals h' us = merge_nodes (<) (vss ! i) (vss ! j) \<and> vals h' ws = []"
        by (elim exE conjE, intro exI conjI) (assumption | simp)+
    qed
    then show ?thesis using ij by simp
  next
    case False
    then show ?thesis using R len by (auto simp: on_two_def merge_private_def)
  qed
  show "agrees env srt (L_splice i k j) (h, ls) vss" if ne: "i \<noteq> j" and kk: "i < length vss \<longrightarrow> k \<le> length (vss ! i)"
  proof (cases "i < length vss \<and> j < length vss")
    case True
    then have ij: "i < length vss" "j < length vss" "i \<noteq> j" using ne by simp_all
    have "rel_option lists_hold (on_two i j (\<lambda>h l m. do { pos \<leftarrow> iterator_plus (e_dbg env) h l k; splice_all (e_dbg env) h l pos m }) (h, ls))
        (Some (vss[i := insert_values k (vss ! j) (vss ! i), j := []]))"
    proof (rule on_two_holds [OF R ij])
      fix xs ys
      assume a: "ral_inv h (ls ! i) xs" "vals h xs = vss ! i" "ral_inv h (ls ! j) ys" "vals h ys = vss ! j" "apart (ls ! i) xs (ls ! j) ys"
      note sp = split_at(1-3) [OF a(1,2), of k] split_at(4) [OF a(1,2)]
      have it: "iterator_plus (e_dbg env) h (ls ! i) k = Some (position (drop k xs) (ls ! i))"
        using plus_spec [OF a(1) _ r] kk ij(1) sp(4) by simp
      have "apart (ls ! i) (take k xs @ drop k xs) (ls ! j) ys" "length (take k xs @ ys @ drop k xs) + 2 < 2 ^ 32"
        using a(5) bound [OF a(1,3)] by simp_all
      from splice_all_spec [OF sp(1) a(3) this, of "e_dbg env"] obtain h' l' m' where e:
        "splice_all (e_dbg env) h (ls ! i) (position (drop k xs) (ls ! i)) (ls ! j) = Some (h', l', m')"
        "ral_inv h' l' (take k xs @ ys @ drop k xs)" "ral_inv h' m' []" "same_object (ls ! i) l'" "same_object (ls ! j) m'"
        "\<forall>a. a \<notin> owned (ral_impl (ls ! i)) xs \<union> owned (ral_impl (ls ! j)) ys \<longrightarrow> h' a = h a"
        "vals h' (take k xs @ ys @ drop k xs) = vals h (take k xs) @ vals h ys @ vals h (drop k xs)" by auto
      moreover have "set (take k xs @ ys @ drop k xs) = set xs \<union> set ys"
        by (metis append_take_drop_id set_append sup.commute sup.left_commute)
      ultimately show "\<exists>h' l' m' us ws. do { pos \<leftarrow> iterator_plus (e_dbg env) h (ls ! i) k; splice_all (e_dbg env) h (ls ! i) pos (ls ! j) } = Some (h', l', m') \<and>
          ral_inv h' l' us \<and> ral_inv h' m' ws \<and>
          same_object (ls ! i) l' \<and> same_object (ls ! j) m' \<and> set us \<union> set ws = set xs \<union> set ys \<and> set us \<inter> set ws = {} \<and>
          (\<forall>a. a \<notin> owned (ral_impl (ls ! i)) xs \<union> owned (ral_impl (ls ! j)) ys \<longrightarrow> h' a = h a) \<and>
          vals h' us = insert_values k (vss ! j) (vss ! i) \<and> vals h' ws = []"
        using it sp(2,3) a(4) unfolding insert_values_def
        by (intro exI [of _ h'] exI [of _ l'] exI [of _ m'] exI [of _ "take k xs @ ys @ drop k xs"] exI [of _ "[]"] conjI) simp_all
    qed
    then show ?thesis using ij by simp
  next
    case False
    then show ?thesis using len by (auto simp: on_two_def)
  qed
qed

lemma splice_commands:
  assumes rd: "ready env N srt (h, ls) vss" and ne: "i \<noteq> j" and kk: "i < length vss \<longrightarrow> k \<le> length (vss ! i)"
  shows "a \<le> b \<Longrightarrow> (j < length vss \<longrightarrow> b \<le> length (vss ! j)) \<Longrightarrow> (e_dbg env \<longrightarrow> a = b) \<Longrightarrow>
      agrees env srt (L_splice_range i k j a b) (h, ls) vss"
    "(j < length vss \<longrightarrow> a \<le> length (vss ! j) \<and> (e_dbg env \<longrightarrow> a = length (vss ! j))) \<Longrightarrow>
      agrees env srt (L_splice_one i k j a) (h, ls) vss"
proof -
  note R = ready_holds [OF rd]
  note r = ready_room0 [OF rd]
  note len = lists_hold_length [OF R]
  let ?d = "e_dbg env"
  have main: "rel_option lists_hold (on_two i j f (h, ls))
      (Some (vss[i := insert_values k (take (b - a) (drop a (vss ! j))) (vss ! i), j := take a (vss ! j) @ drop b (vss ! j)]))"
    if ij: "i < length vss" "j < length vss" and ab: "a \<le> b" "b \<le> length (vss ! j)" "e_dbg env \<longrightarrow> a = b"
      and f: "\<And>ys. ral_inv h (ls ! j) ys \<Longrightarrow> length ys = length (vss ! j) \<Longrightarrow> f h (ls ! i) (ls ! j) = do {
        pos \<leftarrow> iterator_plus ?d h (ls ! i) k; splice_range ?d h (ls ! i) pos (ls ! j) (position (drop a ys) (ls ! j)) (position (drop b ys) (ls ! j)) }"
    for f a b
  proof (rule on_two_holds [OF R ij ne])
    fix xs ys
    assume a: "ral_inv h (ls ! i) xs" "vals h xs = vss ! i" "ral_inv h (ls ! j) ys" "vals h ys = vss ! j" "apart (ls ! i) xs (ls ! j) ys"
    let ?us = "take a ys" and ?ms = "drop a (take b ys)" and ?ws = "drop b ys"
    note sp = split_at(1-3) [OF a(1,2), of k] split_at(4) [OF a(1,2)]
    note md = take_mid_drop [OF ab(1), of ys]
    have it: "iterator_plus ?d h (ls ! i) k = Some (position (drop k xs) (ls ! i))"
      using plus_spec [OF a(1) _ r] kk ij(1) sp(4) by simp
    have inv: "ral_inv h (ls ! j) (?us @ ?ms @ ?ws)" "apart (ls ! i) (take k xs @ drop k xs) (ls ! j) (?us @ ?ms @ ?ws)"
      unfolding md(1) [symmetric] using a(3,5) by simp_all
    have dbg: "?d \<Longrightarrow> ?ms = []" using ab(3) by simp
    have sz: "length (take k xs @ ?ms @ drop k xs) + 2 < 2 ^ 32"
      using ral_length_room(2) [OF a(1) r] ral_length_room(2) [OF a(3) r] by simp
    obtain h' l' m' where e:
      "splice_range ?d h (ls ! i) (position (drop k xs) (ls ! i)) (ls ! j) (position (?ms @ ?ws) (ls ! j)) (position ?ws (ls ! j)) = Some (h', l', m')"
      "ral_inv h' l' (take k xs @ ?ms @ drop k xs)" "ral_inv h' m' (?us @ ?ws)" "same_object (ls ! i) l'" "same_object (ls ! j) m'"
      "\<forall>a. a \<notin> owned (ral_impl (ls ! i)) xs \<union> owned (ral_impl (ls ! j)) ys \<longrightarrow> h' a = h a"
      "vals h' (take k xs @ ?ms @ drop k xs) = vals h (take k xs) @ vals h ?ms @ vals h (drop k xs)"
      "vals h' (?us @ ?ws) = vals h (?us @ ?ws)"
      using splice_range_evolves [OF sp(1) inv sz dbg] unfolding md(1) [symmetric] append_take_drop_id by blast
    have "vals h ?ms = take (b - a) (drop a (vss ! j))" "vals h (?us @ ?ws) = take a (vss ! j) @ drop b (vss ! j)"
      using a(4) by (auto simp: vals_def take_map [symmetric] drop_map [symmetric] drop_take)
    moreover have "set (take k xs @ ?ms @ drop k xs) \<union> set (?us @ ?ws) = set xs \<union> set ys"
    proof -
      have "set ys = set ?us \<union> set ?ms \<union> set ?ws" using arg_cong [OF md(1), of set] by (simp add: Un_assoc)
      moreover have "set xs = set (take k xs) \<union> set (drop k xs)" by (metis append_take_drop_id set_append)
      ultimately show ?thesis by auto
    qed
    moreover have "set (take k xs @ ?ms @ drop k xs) \<inter> set (?us @ ?ws) = {}"
    proof -
      have "distinct (?us @ ?ms @ ?ws)" using stump_inv_distinct [OF inv(1)] .
      moreover have "set xs \<inter> set ys = {}" using a(5) by (auto simp: apart_def owned_def)
      ultimately show ?thesis by (auto dest: in_set_takeD in_set_dropD)
    qed
    moreover have "f h (ls ! i) (ls ! j) = Some (h', l', m')"
      using f [OF a(3)] it e(1) arg_cong [OF a(4), of length] unfolding md(2) by simp
    ultimately show "\<exists>h' l' m' us ws. f h (ls ! i) (ls ! j) = Some (h', l', m') \<and> ral_inv h' l' us \<and> ral_inv h' m' ws \<and>
        same_object (ls ! i) l' \<and> same_object (ls ! j) m' \<and> set us \<union> set ws = set xs \<union> set ys \<and> set us \<inter> set ws = {} \<and>
        (\<forall>a. a \<notin> owned (ral_impl (ls ! i)) xs \<union> owned (ral_impl (ls ! j)) ys \<longrightarrow> h' a = h a) \<and>
        vals h' us = insert_values k (take (b - a) (drop a (vss ! j))) (vss ! i) \<and> vals h' ws = take a (vss ! j) @ drop b (vss ! j)"
      using e sp(2,3) unfolding insert_values_def
      by (intro exI [of _ h'] exI [of _ l'] exI [of _ m'] exI [of _ "take k xs @ ?ms @ drop k xs"] exI [of _ "?us @ ?ws"] conjI) simp_all
  qed
  show "agrees env srt (L_splice_range i k j a b) (h, ls) vss"
    if ab: "a \<le> b" "j < length vss \<longrightarrow> b \<le> length (vss ! j)" "?d \<longrightarrow> a = b"
  proof (cases "i < length vss \<and> j < length vss")
    case True
    have "rel_option lists_hold (on_two i j (\<lambda>h l m. do {
         pos \<leftarrow> iterator_plus ?d h l k; first_it \<leftarrow> iterator_plus ?d h m a; last_it \<leftarrow> iterator_plus ?d h m b;
         splice_range ?d h l pos m first_it last_it }) (h, ls))
        (Some (vss[i := insert_values k (take (b - a) (drop a (vss ! j))) (vss ! i), j := take a (vss ! j) @ drop b (vss ! j)]))"
    proof (rule main)
      fix ys assume y: "ral_inv h (ls ! j) ys" "length ys = length (vss ! j)"
      then have "iterator_plus ?d h (ls ! j) a = Some (position (drop a ys) (ls ! j))"
        "iterator_plus ?d h (ls ! j) b = Some (position (drop b ys) (ls ! j))"
        using plus_spec [OF y(1) _ r] ab True by auto
      then show "do { pos \<leftarrow> iterator_plus ?d h (ls ! i) k; first_it \<leftarrow> iterator_plus ?d h (ls ! j) a; last_it \<leftarrow> iterator_plus ?d h (ls ! j) b;
           splice_range ?d h (ls ! i) pos (ls ! j) first_it last_it } = do {
        pos \<leftarrow> iterator_plus ?d h (ls ! i) k; splice_range ?d h (ls ! i) pos (ls ! j) (position (drop a ys) (ls ! j)) (position (drop b ys) (ls ! j)) }"
        by simp
    qed (use ab True in auto)
    then show ?thesis using True ne by simp
  next
    case False
    then show ?thesis using len by (auto simp: on_two_def)
  qed
  show "agrees env srt (L_splice_one i k j a) (h, ls) vss"
    if ab: "j < length vss \<longrightarrow> a \<le> length (vss ! j) \<and> (?d \<longrightarrow> a = length (vss ! j))"
  proof (cases "i < length vss \<and> j < length vss")
    case True
    let ?b = "length (vss ! j)"
    have "rel_option lists_hold (on_two i j (\<lambda>h l m. do { pos \<leftarrow> iterator_plus ?d h l k; it \<leftarrow> iterator_plus ?d h m a; splice_one ?d h l pos m it }) (h, ls))
        (Some (vss[i := insert_values k (take (?b - a) (drop a (vss ! j))) (vss ! i), j := take a (vss ! j) @ drop ?b (vss ! j)]))"
    proof (rule main)
      fix ys assume y: "ral_inv h (ls ! j) ys" "length ys = length (vss ! j)"
      obtain ts where ts: "store_inv h ts" "map fst ts = ls" "map held_vals ts = vss" using R by (rule lists_holdE)
      have l: "i < length ts" "j < length ts" using True ts(3) by auto
      have "held_at (ts ! i) \<noteq> held_at (ts ! j)" by (rule store_places [OF ts(1) l ne])
      then have at: "ral_at (ls ! i) \<noteq> ral_at (ls ! j)" unfolding ts(2) [symmetric] using l by (simp add: held_at_def)
      obtain xs where xs: "ral_inv h (ls ! i) xs" "vals h xs = vss ! i" using lists_hold_nth [OF ts(1) l(1)] unfolding ts(2,3) by blast
      have "iterator_plus ?d h (ls ! i) k = Some (position (drop k xs) (ls ! i))"
        using plus_spec [OF xs(1) _ r] kk True split_at(4) [OF xs] by simp
      moreover have "iterator_plus ?d h (ls ! j) a = Some (position (drop a ys) (ls ! j))"
        using plus_spec [OF y(1) _ r] ab True y(2) by simp
      ultimately show "do { pos \<leftarrow> iterator_plus ?d h (ls ! i) k; it \<leftarrow> iterator_plus ?d h (ls ! j) a; splice_one ?d h (ls ! i) pos (ls ! j) it } = do {
        pos \<leftarrow> iterator_plus ?d h (ls ! i) k; splice_range ?d h (ls ! i) pos (ls ! j) (position (drop a ys) (ls ! j)) (position (drop ?b ys) (ls ! j)) }"
        using at ral_end_spec [OF y(1), of ?d] y(2) by (simp add: splice_one_def)
    qed (use ab True in auto)
    then show ?thesis using True ne ab by simp
  next
    case False
    then show ?thesis using len by (auto simp: on_two_def)
  qed
qed

subsection \<open>Reading\<close>

lemma two_lists:
  assumes R: "lists_hold (h, ls) vss" and ij: "i < length vss" "j < length vss"
  obtains xs ys where "ral_inv h (ls ! i) xs" "vals h xs = vss ! i" "ral_inv h (ls ! j) ys" "vals h ys = vss ! j"
proof -
  obtain ts where ts: "store_inv h ts" "map fst ts = ls" "map held_vals ts = vss" using R by (rule lists_holdE)
  have l: "i < length ts" "j < length ts" using ij ts(3) by auto
  show ?thesis
    using lists_hold_nth [OF ts(1) l(1)] lists_hold_nth [OF ts(1) l(2)] that unfolding ts(2,3) by metis
qed

lemma check_two_holds:
  assumes R: "lists_hold (h, ls) vss"
    and f: "\<And>xs ys. i < length vss \<Longrightarrow> j < length vss \<Longrightarrow> ral_inv h (ls ! i) xs \<Longrightarrow> vals h xs = vss ! i \<Longrightarrow>
      ral_inv h (ls ! j) ys \<Longrightarrow> vals h ys = vss ! j \<Longrightarrow> f h (ls ! i) (ls ! j) = Some (p (vss ! i))"
  shows "rel_option lists_hold (check_two i j f (h, ls)) (if j < length vss then check_values i p vss else None)"
proof (cases "i < length vss \<and> j < length vss")
  case True
  then have ij: "i < length vss" "j < length vss" by simp_all
  obtain xs ys where "ral_inv h (ls ! i) xs" "vals h xs = vss ! i" "ral_inv h (ls ! j) ys" "vals h ys = vss ! j"
    using two_lists [OF R ij] .
  then have "f h (ls ! i) (ls ! j) = Some (p (vss ! i))" by (rule f [OF ij])
  then show ?thesis using ij R lists_hold_length [OF R] by (auto simp: check_two_def check_values_def ASSERT_def)
next
  case False
  then show ?thesis using lists_hold_length [OF R] by (auto simp: check_two_def check_values_def)
qed

lemma element_at:
  assumes "ral_inv h l xs" "vals h xs = vs" "k < length vs"
  shows "ral_inv h l (take k xs @ xs ! k # drop (Suc k) xs)" "drop k xs = xs ! k # drop (Suc k) xs"
    "length (take k xs) = k" "the (the (val_at h (xs ! k))) = vs ! k"
proof -
  have k: "k < length xs" using assms(2,3) by auto
  then show "ral_inv h l (take k xs @ xs ! k # drop (Suc k) xs)" "drop k xs = xs ! k # drop (Suc k) xs" "length (take k xs) = k"
    using assms(1) by (simp_all add: id_take_nth_drop [symmetric] Cons_nth_drop_Suc)
  show "the (the (val_at h (xs ! k))) = vs ! k" using assms(2) k by (auto simp: vals_def)
qed

lemma position_checked_spec:
  assumes inv: "ral_inv h l xs" and vs: "vals h xs = vs" and k: "k < length vs" and r: "room env N h n"
  shows "position_checked dbg h l k v = (if v = vs ! k then Some True else None)"
proof -
  note e = element_at [OF inv vs k]
  have "iterator_plus dbg h l k = Some (position (xs ! k # drop (Suc k) xs) l)"
    using plus_spec [OF inv _ r, of k dbg] k vs e(2) by auto
  then show ?thesis
    using iterator_checked_spec [OF e(1) r, of dbg k v] operator_index_spec [OF inv, of k dbg] e(3,4) vs k
      ral_end_spec [OF inv, of dbg] equal_position [of h l "take k xs" "xs ! k # drop (Suc k) xs" "[]" dbg] e(1)
    by (auto simp: position_checked_def)
qed

lemma walk_checked_spec:
  assumes "room env N h n"
  shows "ral_inv h l (xs @ ys) \<Longrightarrow> d = length xs \<Longrightarrow>
    walk_checked dbg h l (position ys l) d us = Some (us = vals h ys) \<or>
    us \<noteq> vals h ys \<and> walk_checked dbg h l (position ys l) d us = None"
proof (induction us arbitrary: xs ys d)
  case Nil
  then show ?case using equal_position [of h l xs ys "[]" dbg] ral_end_spec [OF Nil(1), of dbg] by (cases ys) auto
next
  case (Cons u us)
  have eq: "iterator_equal dbg (position ys l) (position [] l) = Some (ys = [])"
    using equal_position [of h l xs ys "[]" dbg] Cons.prems(1) by simp
  show ?case
  proof (cases ys)
    case Nil
    then show ?thesis using eq ral_end_spec [OF Cons.prems(1), of dbg] by simp
  next
    case (Cons y zs)
    have inv: "ral_inv h l (xs @ y # zs)" "ral_inv h l ((xs @ [y]) @ zs)" using Cons.prems(1) Cons by simp_all
    note step = iterator_checked_spec [OF inv(1) assms, of dbg d u] increment_spec [OF inv(1), of dbg]
    show ?thesis
      using Cons.IH [OF inv(2), of "Suc d"] step eq ral_end_spec [OF Cons.prems(1), of dbg] Cons.prems(2) Cons
      by (auto simp: vals_def)
  qed
qed

lemma distance_checked_spec:
  assumes inv: "ral_inv h l xs" and vs: "vals h xs = vs" and ab: "a \<le> length vs" "b \<le> length vs" and r: "room env N h n"
  shows "distance_checked dbg h l a b d = Some (d = int b - int a)"
proof -
  have l: "a \<le> length xs" "b \<le> length xs" using vs ab by auto
  obtain k where "iterator_distance_to dbg h l (position (drop a xs) l) (position (drop b xs) l) = Some k" "sint k = int b - int a"
    using distance_positions [OF inv l r] .
  then show ?thesis using plus_spec [OF inv l(1) r] plus_spec [OF inv l(2) r] by (auto simp: distance_checked_def)
qed

lemma end_minus_one:
  assumes inv: "ral_inv h l (xs @ [a])" and r: "room env N h n"
  shows "iterator_advance dbg h l (position [] l) (- 1) = Some (position [a] l)"
proof -
  let ?s = "ral_impl l"
  from inv obtain t bb e where t: "tree_inv h ?s t" "inorder t = bb # (xs @ [a]) @ [e]" "s_end ?s = Some e"
    "distinct (bb # (xs @ [a]) @ [e])" "size t = length (xs @ [a]) + 2" by (rule stump_invE)
  have si: "sint (- 1 :: size_t) = - 1" by simp
  have "size t < 2 ^ 31" using t(5) ral_length_room [OF inv r] by simp
  then have "go_to dbg h ?s (Some (inorder t ! Suc (Suc (length xs)))) (- 1) = Some (Some (inorder t ! Suc (length xs)))"
    by (intro go_to_spec [OF t(1)]) (use t(5) si in auto)
  then have "go_to dbg h ?s (Some e) (- 1) = Some (Some a)" using t(2) by (simp add: nth_append)
  moreover have "first_of (xs @ [a]) ?s \<noteq> s_end ?s" using t(3,4) by (cases xs) auto
  ultimately show ?thesis
    using stump_gets [OF inv] t(3) position_update [of "[]" l "[a]"] by (simp add: iterator_advance_def)
qed

lemma ends_checked_spec:
  assumes inv: "ral_inv h l xs" and vs: "vals h xs = vs" and ne: "vs \<noteq> []" and r: "room env N h n"
  shows "ends_checked dbg h l v w = Some (v = hd vs \<and> w = last vs) \<or>
    \<not> (v = hd vs \<and> w = last vs) \<and> ends_checked dbg h l v w = None"
proof -
  have x: "xs \<noteq> []" using vs ne by auto
  then obtain a as where a: "xs = a # as" by (cases xs) auto
  from x obtain b bs where b: "xs = bs @ [b]" by (cases xs rule: rev_cases) auto
  have inv_a: "ral_inv h l ([] @ a # as)" and inv_b: "ral_inv h l (bs @ [b])" using inv a b by simp_all
  have ha: "vals h ([] @ a # as) ! length [] = hd vs" unfolding vs [symmetric] a by simp
  have hb: "vals h (bs @ [b]) ! length bs = last vs" unfolding vs [symmetric] b by (simp add: nth_append)
  note da = dereference_spec [OF inv_a, of dbg, unfolded ha]
  note db = dereference_spec [OF inv_b, of dbg, unfolded hb]
  have p1: "iterator_advance dbg h l (position xs l) 1 = Some (position as l)"
    using plus_spec [OF inv _ r, of 1 dbg] ral_begin_spec [OF inv, of dbg] a by (simp add: iterator_plus_def)
  show ?thesis
    using da db p1 end_minus_one [OF inv_b r, of dbg] decrement_spec [OF inv_a, of dbg] decrement_spec [OF inv_b, of dbg]
      ral_begin_spec [OF inv, of dbg] ral_end_spec [OF inv, of dbg] a
    by (auto simp: ends_checked_def ASSERT_def)
qed

lemma read_commands:
  assumes rd: "ready env N srt (h, ls) vss"
  shows "agrees env srt (L_self_check i) (h, ls) vss" "agrees env srt (L_size i n) (h, ls) vss" "agrees env srt (L_empty i b) (h, ls) vss"
    "(i < length vss \<longrightarrow> vss ! i \<noteq> []) \<Longrightarrow> agrees env srt (L_front i v) (h, ls) vss"
    "(i < length vss \<longrightarrow> vss ! i \<noteq> []) \<Longrightarrow> agrees env srt (L_back i v) (h, ls) vss"
    "(i < length vss \<longrightarrow> k < length (vss ! i)) \<Longrightarrow> agrees env srt (L_index i k v) (h, ls) vss"
    "(i < length vss \<longrightarrow> k < length (vss ! i)) \<Longrightarrow> agrees env srt (L_position i k v) (h, ls) vss"
    "(i < length vss \<longrightarrow> a \<le> length (vss ! i) \<and> c \<le> length (vss ! i)) \<Longrightarrow> agrees env srt (L_distance i a c d) (h, ls) vss"
    "agrees env srt (L_values i us) (h, ls) vss" "agrees env srt (L_values_reversed i us) (h, ls) vss"
    "(i < length vss \<longrightarrow> vss ! i \<noteq> []) \<Longrightarrow> agrees env srt (L_ends i v w) (h, ls) vss" "agrees env srt (L_walk i us) (h, ls) vss"
proof -
  note R = ready_holds [OF rd]
  note r = ready_room0 [OF rd]
  note unf = ral_command_step.simps model_step.simps
  note chk = check_list_holds [OF R]
  show "agrees env srt (L_self_check i) (h, ls) vss" unfolding unf by (rule chk) (simp add: ral_selfCheck_spec)
  show "agrees env srt (L_size i n) (h, ls) vss" unfolding unf
  proof (rule chk)
    fix xs assume a: "ral_inv h (ls ! i) xs" "vals h xs = vss ! i"
    have "unat (of_nat (length xs) :: size_t) = length (vss ! i)"
      using ral_length_room(2) [OF a(1) r] split_at(4) [OF a] unat_of_nat_size_t [of "length xs"] by simp
    then show "map_option (\<lambda>s. unat s = n) (ral_size (e_dbg env) h (ls ! i)) = Some (length (vss ! i) = n) \<or>
        \<not> length (vss ! i) = n \<and> map_option (\<lambda>s. unat s = n) (ral_size (e_dbg env) h (ls ! i)) = None"
      using ral_size_spec [OF a(1)] by simp
  qed
  show "agrees env srt (L_empty i b) (h, ls) vss" unfolding unf
    by (rule chk) (auto simp: ral_empty_spec dest: split_at(4))
  show "agrees env srt (L_front i v) (h, ls) vss" if ne: "i < length vss \<longrightarrow> vss ! i \<noteq> []" unfolding unf
  proof (rule chk)
    fix xs assume a: "i < length vss" "ral_inv h (ls ! i) xs" "vals h xs = vss ! i"
    then obtain x ys where "xs = x # ys" using ne by (cases xs) auto
    then show "map_option ((=) v) (ral_front (e_dbg env) h (ls ! i)) = Some (v = hd (vss ! i)) \<or>
        \<not> v = hd (vss ! i) \<and> map_option ((=) v) (ral_front (e_dbg env) h (ls ! i)) = None"
      using front_spec [of h "ls ! i" x ys "e_dbg env"] a(2) unfolding a(3) [symmetric] by auto
  qed
  show "agrees env srt (L_back i v) (h, ls) vss" if ne: "i < length vss \<longrightarrow> vss ! i \<noteq> []" unfolding unf
  proof (rule chk)
    fix xs assume a: "i < length vss" "ral_inv h (ls ! i) xs" "vals h xs = vss ! i"
    then obtain x ys where "xs = ys @ [x]" using ne by (cases xs rule: rev_cases) auto
    then show "map_option ((=) v) (ral_back (e_dbg env) h (ls ! i)) = Some (v = last (vss ! i)) \<or>
        \<not> v = last (vss ! i) \<and> map_option ((=) v) (ral_back (e_dbg env) h (ls ! i)) = None"
      using back_spec [of h "ls ! i" ys x "e_dbg env"] a(2) unfolding a(3) [symmetric] by auto
  qed
  show "agrees env srt (L_index i k v) (h, ls) vss" if kk: "i < length vss \<longrightarrow> k < length (vss ! i)" unfolding unf
  proof (rule chk)
    fix xs assume a: "i < length vss" "ral_inv h (ls ! i) xs" "vals h xs = vss ! i"
    then show "map_option ((=) v) (operator_index (e_dbg env) h (ls ! i) (of_nat k)) = Some (v = vss ! i ! k) \<or>
        \<not> v = vss ! i ! k \<and> map_option ((=) v) (operator_index (e_dbg env) h (ls ! i) (of_nat k)) = None"
      using operator_index_spec [OF a(2), of k "e_dbg env"] split_at(4) [OF a(2,3)] kk by simp
  qed
  show "agrees env srt (L_position i k v) (h, ls) vss" if kk: "i < length vss \<longrightarrow> k < length (vss ! i)" unfolding unf
  proof (rule chk)
    fix xs assume a: "i < length vss" "ral_inv h (ls ! i) xs" "vals h xs = vss ! i"
    have "k < length (vss ! i)" using kk a(1) by simp
    from position_checked_spec [OF a(2,3) this r]
    show "position_checked (e_dbg env) h (ls ! i) k v = Some (v = vss ! i ! k) \<or>
        \<not> v = vss ! i ! k \<and> position_checked (e_dbg env) h (ls ! i) k v = None" by simp
  qed
  show "agrees env srt (L_distance i a c d) (h, ls) vss" if ac: "i < length vss \<longrightarrow> a \<le> length (vss ! i) \<and> c \<le> length (vss ! i)"
    unfolding unf by (rule chk) (use distance_checked_spec [OF _ _ _ _ r] ac in blast)
  show "agrees env srt (L_values i us) (h, ls) vss" unfolding unf
    by (rule chk) (auto simp: read_all_spec)
  show "agrees env srt (L_values_reversed i us) (h, ls) vss" unfolding unf
    by (rule chk) (auto simp: read_all_reversed_spec)
  show "agrees env srt (L_ends i v w) (h, ls) vss" if ne: "i < length vss \<longrightarrow> vss ! i \<noteq> []" unfolding unf
    by (rule chk) (use ends_checked_spec [OF _ _ _ r] ne in metis)
  show "agrees env srt (L_walk i us) (h, ls) vss" unfolding unf
  proof (rule chk)
    fix xs assume a: "i < length vss" "ral_inv h (ls ! i) xs" "vals h xs = vss ! i"
    then show "do { it \<leftarrow> ral_begin (e_dbg env) (ls ! i); walk_checked (e_dbg env) h (ls ! i) it 0 us } = Some (vss ! i = us) \<or>
        \<not> vss ! i = us \<and> do { it \<leftarrow> ral_begin (e_dbg env) (ls ! i); walk_checked (e_dbg env) h (ls ! i) it 0 us } = None"
      using walk_checked_spec [OF r, of "ls ! i" "[]" xs 0 "e_dbg env" us] ral_begin_spec [OF a(2), of "e_dbg env"] by auto
  qed
qed

lemma compare_commands:
  assumes rd: "ready env N srt (h, ls) vss"
  shows "agrees env srt (L_equal i j b) (h, ls) vss" "agrees env srt (L_less i j b) (h, ls) vss" "agrees env srt (L_instances n) (h, ls) vss"
proof -
  note R = ready_holds [OF rd]
  show "agrees env srt (L_equal i j b) (h, ls) vss" unfolding ral_command_step.simps model_step.simps
    by (rule check_two_holds [OF R]) (auto simp: operator_equal_spec)
  show "agrees env srt (L_less i j b) (h, ls) vss" unfolding ral_command_step.simps model_step.simps
    by (rule check_two_holds [OF R]) (auto simp: operator_less_def read_all_spec)
  obtain ts where ts: "store_inv h ts" "map fst ts = ls" "map held_vals ts = vss" using R by (rule lists_holdE)
  show "agrees env srt (L_instances n) (h, ls) vss"
    using store_instances [OF ts(1)] R unfolding ts(3) by (auto simp: ASSERT_def)
qed

subsection \<open>Scripts and blocks\<close>

theorem list_command_agrees:
  assumes rd: "ready env N srt st vss" and ok: "legal (e_dbg env) N c vss"
  shows "agrees env srt c st vss"
proof (cases st)
  case (Pair h ls)
  note rd' = rd [unfolded Pair]
  note all = construct_commands [OF rd'] assign_commands [OF rd'] move_commands [OF rd'] insert_commands [OF rd'] insert_many_commands [OF rd']
    remove_commands [OF rd'] rearrange_commands [OF rd'] two_commands [OF rd'] read_commands [OF rd'] compare_commands [OF rd']
  have "agrees env srt c (h, ls) vss"
  proof (cases c)
    case (L_emplace i k v)
    then show ?thesis
    proof (cases "i < length vss")
      case False
      then show ?thesis using L_emplace lists_hold_length [OF ready_holds [OF rd']] by (simp add: on_list_def on_values_def)
    qed (use ok all(11) L_emplace in simp)
  next
    case (L_splice i k j)
    then show ?thesis using ok unfolding L_splice legal.simps by (blast intro: two_commands(2) [OF rd'])
  next
    case (L_splice_range i k j a b)
    then show ?thesis using ok unfolding L_splice_range legal.simps by (blast intro: splice_commands(1) [OF rd'])
  next
    case (L_splice_one i k j a)
    then show ?thesis using ok unfolding L_splice_one legal.simps by (blast intro: splice_commands(2) [OF rd'])
  qed (use ok all in \<open>simp_all only: legal.simps\<close>)
  then show ?thesis unfolding Pair .
qed

end
