(* ===== verification/Ral_Script_Blocks.thy ===== *)
theory Ral_Script_Blocks
  imports Ral_Script_Agree
begin

section \<open>Scripts and blocks\<close>

text \<open>
  Every command agrees with its list counterpart, so a whole script does; and the end of the block returns every node.
\<close>

lemma node_amount_simps [simp]:
  "node_amount [] = 0" "node_amount (vs # vss) = length vs + 2 + node_amount vss" "node_amount (vss @ wss) = node_amount vss + node_amount wss"
  by (simp_all add: node_amount_def)

lemma node_amount_update:
  "i < length vss \<Longrightarrow> node_amount (vss[i := ws]) + length (vss ! i) = node_amount vss + length ws"
proof (induction vss arbitrary: i)
  case (Cons vs vss)
  then show ?case
  proof (cases i)
    case (Suc m)
    then show ?thesis using Cons.IH [of m] Cons.prems by simp
  qed simp
qed simp

lemma merge_nodes_length: "length (merge_nodes less_comp xs ys) = length xs + length ys"
  using arg_cong [OF set_merge_nodes [of less_comp xs ys], of size] by simp

text \<open>An allowed command never needs more nodes than there are.\<close>

lemma on_valuesE:
  assumes "on_values i f vss = Some wss"
  obtains us where "i < length vss" "f (vss ! i) = Some us" "node_amount wss + length (vss ! i) = node_amount vss + length us"
  using assms node_amount_update by (auto simp: on_values_def split: if_splits Option.bind_splits)

lemma check_values_fits: "check_values i p vss = Some wss \<Longrightarrow> fits N vss 0 \<Longrightarrow> fits N wss 0"
  by (auto simp: check_values_def split: if_splits)

lemma two_values_fits:
  assumes "fits N vss 0" "i < length vss" "j < length vss" "i \<noteq> j" "length us + length ws = length (vss ! i) + length (vss ! j)"
  shows "fits N (vss[i := us, j := ws]) 0"
  using node_amount_update [of i vss us] node_amount_update [of j "vss[i := us]" ws] assms by (auto simp: fits_def)

lemma swap_values_fits:
  "fits N vss 0 \<Longrightarrow> i < length vss \<Longrightarrow> j < length vss \<Longrightarrow> fits N (vss[i := vss ! j, j := vss ! i]) 0"
  using two_values_fits [of N vss i j "vss ! j" "vss ! i"] by (cases "i = j") auto

lemma fits_less: "fits N vss n \<Longrightarrow> m \<le> n \<Longrightarrow> fits N vss m"
  by (simp add: fits_def)

lemma model_step_fits:
  assumes ok: "legal dbg N c vss" and s: "model_step c vss = Some wss" and f: "fits N vss 0"
  shows "fits N wss 0"
proof -
  note two = two_values_fits [OF f]
  show ?thesis
  proof (cases c)
    case L_move_assign
    then show ?thesis using s f by (auto split: if_splits intro: swap_values_fits)
  next
    case L_swap
    then show ?thesis using s f by (auto split: if_splits intro: swap_values_fits)
  next
    case L_merge
    then show ?thesis using s f by (auto split: if_splits intro!: two simp: merge_nodes_length)
  next
    case L_splice
    then show ?thesis using s f by (auto split: if_splits intro!: two simp: insert_values_def)
  next
    case L_splice_range
    then show ?thesis using s f ok by (auto split: if_splits intro!: two simp: insert_values_def)
  next
    case L_splice_one
    then show ?thesis using s f ok by (auto split: if_splits intro!: two simp: insert_values_def)
  next
    case (L_new_move j)
    then have "j < length vss" "wss = vss[j := []] @ [vss ! j]" using s by (auto split: if_splits)
    then show ?thesis using node_amount_update [of j vss "[]"] ok L_new_move by (auto simp: fits_def)
  next
    case (L_new_copy j)
    then show ?thesis using s ok by (auto simp: fits_def split: if_splits)
  next
    case (L_unique i)
    then show ?thesis using s f remdups_adj_length [of "vss ! i"]
      by (auto simp: fits_def simp del: remdups_adj_length elim!: on_valuesE)
  qed (use s ok f in \<open>auto simp: fits_def insert_values_def dest: check_values_fits [unfolded fits_def] elim!: on_valuesE split: if_splits\<close>)
qed

lemma ready_step:
  "ready env N srt st vss \<Longrightarrow> legal (e_dbg env) N c vss \<Longrightarrow> model_step c vss = Some wss \<Longrightarrow> lists_hold st' wss \<Longrightarrow> ready env N srt st' wss"
  by (auto simp: ready_def intro: model_step_fits)

theorem scripts_agree:
  "ready env N srt st vss \<Longrightarrow> legal_script (e_dbg env) N cs vss \<Longrightarrow> rel_option lists_hold (run_ral_test env srt cs st) (run_model cs vss)"
proof (induction cs arbitrary: st vss)
  case Nil
  then show ?case by (simp add: ready_holds)
next
  case (Cons c cs)
  have step: "agrees env srt c st vss" using list_command_agrees Cons.prems by simp
  show ?case
  proof (cases "model_step c vss")
    case None
    then show ?thesis using step by (cases "ral_command_step env srt c st") simp_all
  next
    case (Some wss)
    then obtain st' where st': "ral_command_step env srt c st = Some st'" "lists_hold st' wss"
      using step by (cases "ral_command_step env srt c st") simp_all
    show ?thesis using Cons.IH [OF ready_step [OF Cons.prems(1) _ Some st'(2)]] Cons.prems(2) Some st'(1) by simp
  qed
qed

subsection \<open>The end of a block\<close>

lemma destroy_lists_append:
  "destroy_lists dbg h (ls @ [l]) = do { h \<leftarrow> destroy_stump dbg h (ral_impl l); destroy_lists dbg h ls }"
  by (induction ls) (auto simp: Option.bind_assoc split: Option.bind_split)

lemma destroy_lists_empties: "store_inv h ts \<Longrightarrow> destroy_lists dbg h (map fst ts) = Some Map.empty"
proof (induction ts arbitrary: h rule: rev_induct)
  case Nil
  have "dom h = {}" using store_dom [OF Nil] by auto
  then show ?case by simp
next
  case (snoc t ts)
  obtain l xs vs where t: "t = (l, xs, vs)" by (cases t)
  have "stump_inv h (ral_impl l) xs" using store_nth [OF snoc.prems, of "length ts"] t by simp
  then have "destroy_stump dbg h (ral_impl l) = Some (\<lambda>a. if a \<in> held_own t then None else h a)"
    using destroy_stump_spec t by fastforce
  then show ?case using snoc.IH [OF store_butlast [OF snoc.prems]] t by (simp add: destroy_lists_append)
qed

lemma nothing_held: "lists_hold (Map.empty, []) []"
  by (auto simp: lists_hold_def store_empty)

theorem block_agrees:
  assumes "alloc_serves env N" "N < 2 ^ 31" "list_sort_ok srt (<)" "legal_script (e_dbg env) N cs []"
  shows "run_ral_block env srt cs = (if run_model cs [] = None then None else Some Map.empty)"
proof -
  have "ready env N srt (Map.empty, []) []" using assms nothing_held by (simp add: ready_def fits_def)
  from scripts_agree [OF this assms(4)]
  have r: "rel_option lists_hold (run_ral_test env srt cs (Map.empty, [])) (run_model cs [])" .
  show ?thesis
  proof (cases "run_model cs []")
    case None
    then show ?thesis using r by (cases "run_ral_test env srt cs (Map.empty, [])") (simp_all add: run_ral_block_def)
  next
    case (Some vss)
    then obtain h ls where e: "run_ral_test env srt cs (Map.empty, []) = Some (h, ls)" "lists_hold (h, ls) vss"
      using r by (cases "run_ral_test env srt cs (Map.empty, [])") auto
    from e(2) obtain ts where "store_inv h ts" "map fst ts = ls" by (rule lists_holdE)
    then show ?thesis using destroy_lists_empties Some e(1) by (auto simp: run_ral_block_def)
  qed
qed

end
