(* ===== verification/Ral_Unit_Test.thy ===== *)
theory Ral_Unit_Test
  imports Ral_Script_Blocks
begin

section \<open>The unit test of the list\<close>

text \<open>
  UnitTests/RandomAccessListTest.cpp, its functions as functions to scripts: the checks against standard containers carry the values these
  containers hold. \<open>ral_unit_test\<close> is the entry point, a list of blocks with the allocator each one uses; it depends on the outcomes of
  \<open>rand()\<close>, which are a parameter. Left out are the checks of allocator equality and of hash values, the blocks of lists with different
  allocators, and those that only put lists and iterators into other containers. \<open>boost::equal(c, c)\<close> and the comparisons with an empty
  container read \<open>c\<close> forwards and are checks of its values. What the test itself states with \<open>ASSERT\<close> about lists is always checked.
\<close>

subsection \<open>Empty lists\<close>

definition seen_empty :: "nat \<Rightarrow> ral_command list" where
  "seen_empty i = [L_empty i True, L_size i 0]"

definition walked_empty :: "nat \<Rightarrow> ral_command list" where
  "walked_empty i = seen_empty i @ [L_distance i 0 0 0, L_values i [], L_values_reversed i [], L_self_check i]"

definition checksEmpty :: "nat \<Rightarrow> ral_command list" where
  "checksEmpty i = seen_empty i @ [L_equal i i True, L_less i i False, L_less i i False, L_less i i False, L_less i i False,
     L_distance i 0 0 0, L_values i [], L_values_reversed i [], L_self_check i] @
     concat (map (\<lambda>c. c # walked_empty i)
       [L_swap i i, L_copy_assign i i, L_assign_range i [], L_assign_range i [], L_clear i, L_resize i 0 0, L_resize i 0 0,
        L_reverse i, L_sort i]) @
     walked_empty i @
     concat (map (\<lambda>c. c # walked_empty i) [L_unique i, L_remove i 0, L_remove_if i (\<lambda>_. True)]) @
     walked_empty i"

definition both_seen_empty :: "nat \<Rightarrow> nat \<Rightarrow> ral_command list" where
  "both_seen_empty i j = seen_empty i @ seen_empty j"

definition both_empty :: "nat \<Rightarrow> nat \<Rightarrow> ral_command list" where
  "both_empty i j = both_seen_empty i j @ [L_self_check i, L_self_check j]"

definition checksEmptyAndCheckEquality :: "nat \<Rightarrow> nat \<Rightarrow> ral_command list" where
  "checksEmptyAndCheckEquality i j = checksEmpty i @ checksEmpty j @ both_seen_empty i j @
     [L_equal i j True, L_less i j False, L_less j i False, L_less j i False, L_less i j False,
      L_distance i 0 0 0, L_distance j 0 0 0, L_values j [], L_values i [], L_self_check i, L_self_check j] @
     concat (map (\<lambda>c. c # both_empty i j)
       [L_swap i j, L_copy_assign i j, L_move_assign i j, L_assign_range i [], L_assign_range i []])"

definition checkEmptyWithEqualAllocators :: "nat \<Rightarrow> nat \<Rightarrow> ral_command list" where
  "checkEmptyWithEqualAllocators i j = both_empty i j @
     concat (map (\<lambda>c. c # both_empty i j)
       [L_merge i j, L_merge i j, L_merge i j, L_merge i j, L_splice i 0 j, L_splice i 0 j,
        L_splice_one i 0 j 0, L_splice_one i 0 j 0, L_splice_range i 0 j 0 0, L_splice_range i 0 j 0 0])"

subsection \<open>Construction and assignment\<close>

definition checkEquality :: "nat \<Rightarrow> int list \<Rightarrow> ral_command list" where
  "checkEquality i gage = [L_self_check i, L_empty i (gage = []), L_size i (length gage), L_values i gage,
     L_values_reversed i (rev gage), L_self_check i]"

definition checkConstructable :: "nat \<Rightarrow> int \<Rightarrow> ral_command list" where
  "checkConstructable amount v = [L_instances 0, L_instances 0, L_new_count amount v, L_instances amount] @
     checkEquality 0 (replicate amount v) @ [L_instances amount]"

definition checkConstructableWithIntAmount :: "nat \<Rightarrow> int \<Rightarrow> ral_command list" where
  "checkConstructableWithIntAmount amount v = [L_instances 0, L_new_count amount v] @
     checkEquality 0 (replicate amount v) @ [L_instances amount]"

definition checkDefaultConstructable :: "nat \<Rightarrow> ral_command list" where
  "checkDefaultConstructable amount = [L_instances 0, L_new_count amount 0] @
     checkEquality 0 (replicate amount 0) @ [L_instances amount]"

definition checkDefaultConstructableWithIntAmount :: "nat \<Rightarrow> ral_command list" where
  "checkDefaultConstructableWithIntAmount amount = [L_new_count amount 0] @
     checkEquality 0 (replicate amount 0) @ [L_instances amount]"

definition makeIncreasedRangeFromAmount :: "nat \<Rightarrow> int list" where
  "makeIncreasedRangeFromAmount amount = map int [1..<Suc amount]"

definition makeIncreasedContainerFromAmount :: "nat \<Rightarrow> int list" where
  "makeIncreasedContainerFromAmount amount = makeIncreasedRangeFromAmount amount"

definition checkIncreased :: "nat \<Rightarrow> nat \<Rightarrow> ral_command list" where
  "checkIncreased i amount = (if amount = 0 then [] else
     [L_front i 1, L_back i (int amount), L_ends i 1 (int amount), L_ends i 1 (int amount), L_size i amount, L_empty i False,
      L_self_check i, L_walk i (map (\<lambda>d. int d + 1) [0..<amount])] @
     map (\<lambda>k. L_position i k (int k + 1)) [0..<amount - 1])"

definition checkConstructableFromIncreasedRange :: "nat \<Rightarrow> ral_command list" where
  "checkConstructableFromIncreasedRange amount = [L_instances 0, L_new_range (makeIncreasedRangeFromAmount amount)] @
     checkEquality 0 (makeIncreasedContainerFromAmount amount) @ checkIncreased 0 amount @ [L_instances amount]"

definition checkAssignedContainer :: "nat \<Rightarrow> ral_command list" where
  "checkAssignedContainer amount = [L_instances 0, L_new, L_assign_count 0 amount 0] @
     checkEquality 0 (replicate amount 0) @ [L_instances amount]"

definition checkUndefaultAssignedContainer :: "nat \<Rightarrow> ral_command list" where
  "checkUndefaultAssignedContainer amount = [L_instances 0, L_new, L_assign_count 0 amount 5] @
     checkEquality 0 (replicate amount 5) @ [L_instances amount]"

definition checkUndefaultAssignedContainerWithIntAmount :: "nat \<Rightarrow> ral_command list" where
  "checkUndefaultAssignedContainerWithIntAmount amount = [L_instances 0, L_new, L_assign_count 0 amount 6] @
     checkEquality 0 (replicate amount 6) @ [L_instances amount]"

definition checkAssignedContainerWithIntAmount :: "nat \<Rightarrow> ral_command list" where
  "checkAssignedContainerWithIntAmount amount = [L_instances 0, L_new, L_assign_count 0 amount 0] @
     checkEquality 0 (replicate amount 0) @ [L_instances amount]"

definition checkAssignedIncreasedRange :: "nat \<Rightarrow> ral_command list" where
  "checkAssignedIncreasedRange amount = [L_instances 0, L_new, L_assign_range 0 (makeIncreasedRangeFromAmount amount)] @
     checkEquality 0 (makeIncreasedContainerFromAmount amount) @ checkIncreased 0 amount @ [L_instances amount]"

subsection \<open>Random insertions and deletions\<close>

text \<open>\<open>rnd g\<close> is what call number \<open>g\<close> of \<open>rand()\<close> returns; \<open>RAND_MAX\<close> is that of the Microsoft library.\<close>

definition RAND_MAX :: nat where
  "RAND_MAX = 32767"

definition randFromZeroToN :: "bool \<Rightarrow> (nat \<Rightarrow> nat) \<Rightarrow> nat \<Rightarrow> nat \<Rightarrow> (nat \<times> nat) option" where
  "randFromZeroToN dbg rnd n g = do {
     ASSERT dbg (n \<le> RAND_MAX);
     Some (if n < 1 then (0, g) else (rnd g mod n, Suc g)) }"

fun random_positions :: "bool \<Rightarrow> (nat \<Rightarrow> nat) \<Rightarrow> nat list \<Rightarrow> nat \<Rightarrow> (nat list \<times> nat) option" where
  "random_positions dbg rnd [] g = Some ([], g)"
| "random_positions dbg rnd (n # ns) g = do {
     (p, g) \<leftarrow> randFromZeroToN dbg rnd n g;
     (ps, g) \<leftarrow> random_positions dbg rnd ns g;
     Some (p # ps, g) }"

definition makeInsertionPositions :: "bool \<Rightarrow> (nat \<Rightarrow> nat) \<Rightarrow> nat \<Rightarrow> nat \<Rightarrow> (nat list \<times> nat) option" where
  "makeInsertionPositions dbg rnd amount g = random_positions dbg rnd [0..<amount] g"

definition makeDeletionPositions :: "bool \<Rightarrow> (nat \<Rightarrow> nat) \<Rightarrow> nat \<Rightarrow> nat \<Rightarrow> (nat list \<times> nat) option" where
  "makeDeletionPositions dbg rnd amount g = random_positions dbg rnd (rev [0..<amount]) g"

text \<open>The tests of insertion and deletion change the gage list beside the tested one.\<close>

fun insert_steps :: "nat \<Rightarrow> int list \<Rightarrow> (nat \<times> int) list \<Rightarrow> ral_command list \<times> int list" where
  "insert_steps i gage [] = ([], gage)"
| "insert_steps i gage ((p, v) # pvs) =
     (case insert_steps i (insert_values p [v] gage) pvs of (cs, last_gage) \<Rightarrow>
        (L_emplace i p v # checkEquality i (insert_values p [v] gage) @ cs, last_gage))"

definition insertTest :: "bool \<Rightarrow> nat \<Rightarrow> int list \<Rightarrow> int list \<Rightarrow> nat list \<Rightarrow> nat \<Rightarrow> (ral_command list \<times> int list) option" where
  "insertTest dbg i gage source insert_positions amount = do {
     ASSERT dbg (length insert_positions = length source);
     ASSERT dbg (length source = amount);
     ASSERT dbg (length insert_positions = amount);
     Some (case insert_steps i gage (zip insert_positions source) of (cs, gage) \<Rightarrow> (cs @ [L_size i amount], gage)) }"

fun erase_steps :: "nat \<Rightarrow> int list \<Rightarrow> nat list \<Rightarrow> ral_command list \<times> int list" where
  "erase_steps i gage [] = ([], gage)"
| "erase_steps i gage (p # ps) =
     (case erase_steps i (take p gage @ drop (Suc p) gage) ps of (cs, last_gage) \<Rightarrow>
        (L_erase i p # checkEquality i (take p gage @ drop (Suc p) gage) @ cs, last_gage))"

definition eraseTest :: "bool \<Rightarrow> nat \<Rightarrow> int list \<Rightarrow> nat list \<Rightarrow> (ral_command list \<times> int list) option" where
  "eraseTest dbg i gage erase_positions = do {
     ASSERT dbg (length erase_positions = length gage);
     Some (case erase_steps i gage erase_positions of (cs, gage) \<Rightarrow> (cs @ seen_empty i, gage)) }"

definition checkRandInsertionsAndDeletions :: "bool \<Rightarrow> (nat \<Rightarrow> nat) \<Rightarrow> nat \<Rightarrow> nat \<Rightarrow> (ral_command list \<times> nat) option" where
  "checkRandInsertionsAndDeletions dbg rnd amount g = do {
     let source = makeIncreasedRangeFromAmount amount;
     (insert_positions, g) \<leftarrow> makeInsertionPositions dbg rnd amount g;
     (erase_positions, g) \<leftarrow> makeDeletionPositions dbg rnd amount g;
     (inserts, gage) \<leftarrow> insertTest dbg 0 [] source insert_positions amount;
     (erases, gage) \<leftarrow> eraseTest dbg 0 gage erase_positions;
     (insert_positions, g) \<leftarrow> makeInsertionPositions dbg rnd amount g;
     (erase_positions, g) \<leftarrow> makeDeletionPositions dbg rnd amount g;
     (inserts2, gage) \<leftarrow> insertTest dbg 0 gage source insert_positions amount;
     (erases2, gage) \<leftarrow> eraseTest dbg 0 gage erase_positions;
     Some ([L_new, L_instances 0] @ inserts @ [L_instances amount] @ erases @ [L_instances 0, L_instances 0] @
       inserts2 @ [L_instances amount] @ erases2 @ [L_instances 0], g) }"

subsection \<open>The entry point\<close>

text \<open>The allocator of a block. A \<open>small_single_block_std_allocator\<close> has \<open>MAX_ITEMS_AMOUNT_AT_ALLOCATOR\<close> blocks, and an
  implementation object takes one of them, so what is left for nodes depends on how many lists, a temporary one included, a block
  has at once. For \<open>std::allocator\<close> and \<open>malloc_allocator\<close> the limit is what the largest block needs.\<close>

datatype test_allocator = Std_allocator | Malloc_allocator | My_allocator nat

definition MAX_ITEMS_AMOUNT_WITH_ALLOCATOR :: nat where
  "MAX_ITEMS_AMOUNT_WITH_ALLOCATOR = 6"

definition MAX_ITEMS_AMOUNT_AT_BEFORE_CONSTRUCTED_COLLECTION :: nat where
  "MAX_ITEMS_AMOUNT_AT_BEFORE_CONSTRUCTED_COLLECTION = 3"

definition MAX_ITEMS_AMOUNT_AT_ALLOCATOR :: nat where
  "MAX_ITEMS_AMOUNT_AT_ALLOCATOR = MAX_ITEMS_AMOUNT_WITH_ALLOCATOR + MAX_ITEMS_AMOUNT_AT_BEFORE_CONSTRUCTED_COLLECTION * 2"

fun node_limit :: "test_allocator \<Rightarrow> nat" where
  "node_limit Std_allocator = 34"
| "node_limit Malloc_allocator = 1004"
| "node_limit (My_allocator n) = MAX_ITEMS_AMOUNT_AT_ALLOCATOR - n"

definition one_empty_blocks :: "(test_allocator \<times> ral_command list) list" where
  "one_empty_blocks =
     [(Std_allocator, [L_instances 0, L_new, L_instances 0] @ checksEmpty 0 @ [L_instances 0])]"

definition small_empty_blocks :: "(test_allocator \<times> ral_command list) list" where
  "small_empty_blocks =
     [(My_allocator 2, [L_new] @ checksEmpty 0 @ [L_instances 0]),
      (My_allocator 2, [L_new] @ checksEmpty 0 @ [L_instances 0]),
      (My_allocator 2, [L_new] @ checksEmpty 0 @ [L_instances 0])]"

definition two_empty_block :: "ral_command list \<Rightarrow> ral_command list" where
  "two_empty_block built = built @ checksEmptyAndCheckEquality 0 1 @ [L_instances 0]"

definition equal_allocators_block :: "ral_command list \<Rightarrow> ral_command list" where
  "equal_allocators_block built = built @ checkEmptyWithEqualAllocators 0 1 @ checksEmptyAndCheckEquality 0 1 @ [L_instances 0]"

definition two_default_block :: "(test_allocator \<times> ral_command list) list" where
  "two_default_block = [(Std_allocator, two_empty_block [L_new, L_new])]"

definition equal_allocators_blocks :: "(test_allocator \<times> ral_command list) list" where
  "equal_allocators_blocks =
     [(Std_allocator, equal_allocators_block [L_new, L_new_copy 0]),
      (Std_allocator, equal_allocators_block [L_new, L_new_copy 0]),
      (My_allocator 3, equal_allocators_block [L_new, L_new_copy 0]),
      (Std_allocator, equal_allocators_block [L_new, L_new_move 0]),
      (Std_allocator, equal_allocators_block [L_new, L_new_move 0]),
      (My_allocator 3, equal_allocators_block [L_new, L_new_move 0]),
      (Std_allocator, two_empty_block [L_new, L_new])]"

definition shared_allocator_block :: "(test_allocator \<times> ral_command list) list" where
  "shared_allocator_block = [(My_allocator 3, equal_allocators_block [L_new, L_new])]"

definition built_empty_blocks :: "(test_allocator \<times> ral_command list) list" where
  "built_empty_blocks =
     [(Std_allocator, [L_new_range []] @ checksEmpty 0 @ [L_instances 0])]"

definition counted_empty_blocks :: "(test_allocator \<times> ral_command list) list" where
  "counted_empty_blocks =
     [(My_allocator 2, [L_new_count 0 0] @ checksEmpty 0 @ [L_instances 0]),
      (My_allocator 2, [L_new_count 0 0] @ checksEmpty 0 @ [L_instances 0]),
      (My_allocator 2, [L_new_count 0 0] @ checksEmpty 0 @ [L_instances 0]),
      (Std_allocator, [L_new_count 0 0] @ checksEmpty 0)]"

definition filled_blocks :: "(test_allocator \<times> ral_command list) list" where
  "filled_blocks = (let up_to_30 = [0..<31]; up_to_6 = [0..<Suc MAX_ITEMS_AMOUNT_WITH_ALLOCATOR] in
     map (\<lambda>i. (Std_allocator, checkDefaultConstructable i)) up_to_30 @
     map (\<lambda>i. (My_allocator 2, checkDefaultConstructable i)) up_to_6 @
     map (\<lambda>i. (Std_allocator, checkConstructable i 50)) up_to_30 @
     map (\<lambda>i. (My_allocator 2, checkConstructable i 40)) up_to_6 @
     map (\<lambda>i. (Std_allocator, checkConstructableFromIncreasedRange i)) up_to_30 @
     map (\<lambda>i. (My_allocator 2, checkConstructableFromIncreasedRange i)) up_to_6 @
     map (\<lambda>i. (Std_allocator, checkUndefaultAssignedContainer i)) up_to_30 @
     map (\<lambda>i. (My_allocator 2, checkUndefaultAssignedContainer i)) up_to_6 @
     map (\<lambda>i. (Std_allocator, checkAssignedContainer i)) up_to_30 @
     map (\<lambda>i. (My_allocator 2, checkAssignedContainer i)) up_to_6 @
     map (\<lambda>i. (Std_allocator, checkAssignedIncreasedRange i)) up_to_30 @
     map (\<lambda>i. (My_allocator 2, checkAssignedIncreasedRange i)) up_to_6)"

definition int_amount_blocks :: "(test_allocator \<times> ral_command list) list" where
  "int_amount_blocks = (let up_to_30 = [0..<31] in
     map (\<lambda>i. (Std_allocator, checkDefaultConstructableWithIntAmount i)) up_to_30 @
     map (\<lambda>i. (Std_allocator, checkConstructableWithIntAmount i 67)) up_to_30 @
     map (\<lambda>i. (Std_allocator, checkUndefaultAssignedContainerWithIntAmount i)) up_to_30 @
     map (\<lambda>i. (Std_allocator, checkAssignedContainerWithIntAmount i)) up_to_30)"

fun random_blocks :: "bool \<Rightarrow> (nat \<Rightarrow> nat) \<Rightarrow> (test_allocator \<times> nat) list \<Rightarrow> nat \<Rightarrow>
    ((test_allocator \<times> ral_command list) list \<times> nat) option" where
  "random_blocks dbg rnd [] g = Some ([], g)"
| "random_blocks dbg rnd ((al, amount) # als) g = do {
     (cs, g) \<leftarrow> checkRandInsertionsAndDeletions dbg rnd amount g;
     (bs, g) \<leftarrow> random_blocks dbg rnd als g;
     Some ((al, cs) # bs, g) }"

definition all_random_blocks :: "bool \<Rightarrow> (nat \<Rightarrow> nat) \<Rightarrow> nat \<Rightarrow> ((test_allocator \<times> ral_command list) list \<times> nat) option" where
  "all_random_blocks dbg rnd g = random_blocks dbg rnd
     (map (Pair Std_allocator) [0..<31] @ map (Pair (My_allocator 1)) [0..<7] @ [(Malloc_allocator, 1000)]) g"

text \<open>The blocks of \<open>unique\<close>, \<open>sort\<close> and \<open>reverse\<close>.\<close>

definition rearranged :: "ral_command \<Rightarrow> int list \<Rightarrow> ral_command list" where
  "rearranged c gage = c # checkEquality 0 gage @ [L_instances (length gage)]"

definition unique_block :: "int list \<Rightarrow> ral_command list" where
  "unique_block a = [L_instances 0, L_new_range a] @ checkEquality 0 a @ [L_instances (length a)] @
     rearranged (L_unique 0) (remdups_adj a)"

definition sort_block :: "int list \<Rightarrow> ral_command list" where
  "sort_block a = [L_instances 0, L_new_range a, L_instances (length a), L_self_check 0] @
     rearranged (L_sort 0) (sort a) @ rearranged (L_unique 0) (remdups_adj (sort a))"

definition reverse_block :: "int list \<Rightarrow> ral_command list" where
  "reverse_block a = sort_block a @ rearranged (L_reverse 0) (rev (remdups_adj (sort a)))"

definition rearranging_blocks :: "(test_allocator \<times> ral_command list) list" where
  "rearranging_blocks =
     [(Std_allocator, unique_block [1, 1, 3]),
      (Std_allocator, sort_block [1, 3, 5, 1]),
      (Std_allocator, sort_block [1, 3, 4, 5, 1, 5, 7]),
      (Std_allocator, sort_block [1, 3, 4, 5, 1, 5, 7, 8, 8, 9, 3, 100, 100, 123]),
      (Std_allocator, reverse_block [1, 3, 4, 5, 1, 5, 7, 8, 8, 9, 3, 100, 100, 123, 1100, 1170, 1160, 1150, 1140, 1300, 1102,
         1120, 1200, 3100, 11100])]"

definition seen_values :: "int list \<Rightarrow> ral_command list" where
  "seen_values vs = [L_self_check 0, L_size 0 (length vs)] @ map (\<lambda>k. L_index 0 k (vs ! k)) [0..<length vs] @ [L_instances (length vs)]"

definition emplace_block :: "ral_command list" where
  "emplace_block = [L_new] @ seen_values [] @
     [L_emplace_back 0 4 0] @ seen_values [4] @
     [L_emplace_front 0 3 0] @ seen_values [3, 4] @
     [L_emplace 0 0 2] @ seen_values [2, 3, 4] @
     [L_emplace_front 0 0 0] @ seen_values [0, 2, 3, 4] @
     [L_emplace 0 0 0] @ seen_values [0, 0, 2, 3, 4] @
     [L_emplace 0 0 0] @ seen_values [0, 0, 0, 2, 3, 4] @
     [L_emplace_back 0 0 6] @ seen_values [0, 0, 0, 2, 3, 4, 0] @
     [L_emplace 0 7 0, L_distance 0 7 0 (- 7)] @ seen_values [0, 0, 0, 2, 3, 4, 0, 0]"

definition ral_unit_test :: "bool \<Rightarrow> (nat \<Rightarrow> nat) \<Rightarrow> (test_allocator \<times> ral_command list) list option" where
  "ral_unit_test dbg rnd = do {
     (rand_blocks, g) \<leftarrow> all_random_blocks dbg rnd 0;
     Some (one_empty_blocks @ small_empty_blocks @ two_default_block @ equal_allocators_blocks @ shared_allocator_block @
       built_empty_blocks @ counted_empty_blocks @ filled_blocks @ int_amount_blocks @
       rand_blocks @ [(Malloc_allocator, checkAssignedIncreasedRange 1000)] @ rearranging_blocks @ [(Std_allocator, emplace_block)]) }"

end
