(* ===== verification/Ral_Unit_Test_Passes.thy ===== *)
theory Ral_Unit_Test_Passes
  imports Ral_Unit_Test
begin

section \<open>The unit test passes\<close>

text \<open>
  On plain lists every script of the test is allowed and every check succeeds, for all amounts and all outcomes of \<open>rand()\<close>; by the agreement
  of scripts the test passes on the lists of the library.
\<close>

definition script_ok :: "bool \<Rightarrow> nat \<Rightarrow> ral_command list \<Rightarrow> int list list \<Rightarrow> int list list \<Rightarrow> bool" where
  "script_ok dbg N cs vss wss \<longleftrightarrow> legal_script dbg N cs vss \<and> run_model cs vss = Some wss"

lemma script_ok_Nil [simp]: "script_ok dbg N [] vss wss \<longleftrightarrow> wss = vss"
  by (auto simp: script_ok_def)

lemma script_ok_Cons [simp]:
  "script_ok dbg N (c # cs) vss wss \<longleftrightarrow> legal dbg N c vss \<and> (\<exists>us. model_step c vss = Some us \<and> script_ok dbg N cs us wss)"
  by (auto simp: script_ok_def split: option.splits Option.bind_splits)

lemma script_ok_append [simp]:
  "script_ok dbg N (cs @ ds) vss wss \<longleftrightarrow> (\<exists>us. script_ok dbg N cs vss us \<and> script_ok dbg N ds us wss)"
  by (induction cs arbitrary: vss) auto

lemma script_ok_det: "script_ok dbg N cs vss us \<Longrightarrow> script_ok dbg N cs vss ws \<longleftrightarrow> ws = us"
  by (auto simp: script_ok_def)

lemma script_ok_concat: "(\<And>c. c \<in> set cs \<Longrightarrow> script_ok dbg N (f c) vss vss) \<Longrightarrow> script_ok dbg N (concat (map f cs)) vss vss"
  by (induction cs) auto

lemma script_ok_map: "(\<And>k. k \<in> set ks \<Longrightarrow> script_ok dbg N [f k] vss vss) \<Longrightarrow> script_ok dbg N (map f ks) vss vss"
  by (induction ks) auto

lemma model_checks [simp]:
  "on_values i f vss = Some wss \<longleftrightarrow> i < length vss \<and> (\<exists>us. f (vss ! i) = Some us \<and> wss = vss[i := us])"
  "check_values i p vss = Some wss \<longleftrightarrow> i < length vss \<and> p (vss ! i) \<and> wss = vss"
  by (auto simp: on_values_def check_values_def split: Option.bind_splits)

lemma guarded_Some [simp]: "(if b then Some x else None) = Some y \<longleftrightarrow> b \<and> y = x"
  by auto

text \<open>Checks that leave the lists as they are.\<close>

lemma checkEquality_ok: "i < length vss \<Longrightarrow> vss ! i = gage \<Longrightarrow> script_ok dbg N (checkEquality i gage) vss wss \<longleftrightarrow> wss = vss"
  by (auto simp: checkEquality_def)

lemma walked_empty_ok: "i < length vss \<Longrightarrow> vss ! i = [] \<Longrightarrow> script_ok dbg N (walked_empty i) vss wss \<longleftrightarrow> wss = vss"
  by (auto simp: walked_empty_def seen_empty_def)

lemma both_empty_ok:
  "i < length vss \<Longrightarrow> j < length vss \<Longrightarrow> vss ! i = [] \<Longrightarrow> vss ! j = [] \<Longrightarrow> script_ok dbg N (both_empty i j) vss wss \<longleftrightarrow> wss = vss"
  by (auto simp: both_empty_def both_seen_empty_def seen_empty_def)

lemma update_empty: "vss ! i = [] \<Longrightarrow> vss[i := []] = vss"
  by (metis list_update_id)

lemma checksEmpty_ok:
  assumes "i < length vss" "vss ! i = []" "fits N vss 2"
  shows "script_ok dbg N (checksEmpty i) vss wss \<longleftrightarrow> wss = vss"
proof -
  note u = update_empty [OF assms(2)]
  show ?thesis using assms by (simp add: checksEmpty_def seen_empty_def walked_empty_ok u fits_less [OF assms(3)])
qed

lemma checksEmptyAndCheckEquality_ok:
  assumes "i < length vss" "j < length vss" "vss ! i = []" "vss ! j = []" "fits N vss 2"
  shows "script_ok dbg N (checksEmptyAndCheckEquality i j) vss wss \<longleftrightarrow> wss = vss"
  using assms by (simp add: checksEmptyAndCheckEquality_def both_seen_empty_def seen_empty_def checksEmpty_ok both_empty_ok update_empty numeral_2_eq_2)

lemma checkEmptyWithEqualAllocators_ok:
  assumes "i < length vss" "j < length vss" "vss ! i = []" "vss ! j = []" "i \<noteq> j"
  shows "script_ok dbg N (checkEmptyWithEqualAllocators i j) vss wss \<longleftrightarrow> wss = vss"
  using assms by (simp add: checkEmptyWithEqualAllocators_def both_empty_ok update_empty insert_values_def)

lemma increased_nth: "i < amount \<Longrightarrow> makeIncreasedRangeFromAmount amount ! i = int i + 1"
  by (simp add: makeIncreasedRangeFromAmount_def del: upt_Suc)

lemma increased_length [simp]: "length (makeIncreasedRangeFromAmount amount) = amount"
  by (simp add: makeIncreasedRangeFromAmount_def)

lemma increased_walk: "makeIncreasedRangeFromAmount amount = map (\<lambda>d. int d + 1) [0..<amount]"
  by (rule nth_equalityI) (simp_all add: increased_nth)

lemma checkIncreased_ok:
  assumes "i < length vss" "vss ! i = makeIncreasedRangeFromAmount amount"
  shows "script_ok dbg N (checkIncreased i amount) vss wss \<longleftrightarrow> wss = vss"
proof (cases amount)
  case (Suc m)
  let ?ps = "map (\<lambda>k. L_position i k (int k + 1)) [0..<amount - 1]"
  have ends: "hd (vss ! i) = 1" "last (vss ! i) = int amount" "vss ! i \<noteq> []"
    using increased_nth [of 0 amount] increased_nth [of m amount] assms(2) Suc
    by (auto simp: hd_conv_nth last_conv_nth simp flip: length_greater_0_conv)
  have "script_ok dbg N ?ps vss vss"
    by (rule script_ok_map) (use assms increased_nth [of _ amount] Suc in auto)
  then have ps: "script_ok dbg N ?ps vss wss \<longleftrightarrow> wss = vss" by (auto simp: script_ok_def)
  show ?thesis using assms ends Suc ps by (simp add: checkIncreased_def increased_walk del: upt_Suc)
qed (simp add: checkIncreased_def)

subsection \<open>Filled lists\<close>

lemma filled_ok:
  assumes "amount + 4 \<le> N"
  shows "script_ok dbg N (checkConstructable amount v) [] [replicate amount v]"
    "script_ok dbg N (checkConstructableWithIntAmount amount v) [] [replicate amount v]"
    "script_ok dbg N (checkDefaultConstructable amount) [] [replicate amount 0]"
    "script_ok dbg N (checkDefaultConstructableWithIntAmount amount) [] [replicate amount 0]"
    "script_ok dbg N (checkAssignedContainer amount) [] [replicate amount 0]"
    "script_ok dbg N (checkAssignedContainerWithIntAmount amount) [] [replicate amount 0]"
    "script_ok dbg N (checkUndefaultAssignedContainer amount) [] [replicate amount 5]"
    "script_ok dbg N (checkUndefaultAssignedContainerWithIntAmount amount) [] [replicate amount 6]"
    "script_ok dbg N (checkConstructableFromIncreasedRange amount) [] [makeIncreasedRangeFromAmount amount]"
    "script_ok dbg N (checkAssignedIncreasedRange amount) [] [makeIncreasedRangeFromAmount amount]"
  using assms
  by (simp_all add: fits_def checkEquality_ok checkIncreased_ok checkConstructable_def checkConstructableWithIntAmount_def
      checkDefaultConstructable_def checkDefaultConstructableWithIntAmount_def checkAssignedContainer_def
      checkAssignedContainerWithIntAmount_def checkUndefaultAssignedContainer_def checkUndefaultAssignedContainerWithIntAmount_def
      checkConstructableFromIncreasedRange_def checkAssignedIncreasedRange_def makeIncreasedContainerFromAmount_def)

subsection \<open>Random positions\<close>

abbreviation below :: "nat \<Rightarrow> nat \<Rightarrow> bool" where
  "below p n \<equiv> p < max 1 n"

lemma random_positions_below:
  "(\<And>n. n \<in> set ns \<Longrightarrow> n \<le> RAND_MAX) \<Longrightarrow> \<exists>ps g'. random_positions dbg rnd ns g = Some (ps, g') \<and> list_all2 below ps ns"
proof (induction ns arbitrary: g)
  case (Cons n ns)
  have "n \<le> RAND_MAX" using Cons.prems by simp
  then obtain p g1 where p: "randFromZeroToN dbg rnd n g = Some (p, g1)" "below p n"
    by (cases "n < 1") (auto simp: randFromZeroToN_def less_max_iff_disj)
  obtain ps g2 where "random_positions dbg rnd ns g1 = Some (ps, g2)" "list_all2 below ps ns"
    using Cons.IH [of g1] Cons.prems by auto
  then show ?case using p by simp
qed simp

lemma insertion_positions_below:
  assumes "amount \<le> Suc RAND_MAX"
  obtains ps g' where "makeInsertionPositions dbg rnd amount g = Some (ps, g')" "list_all2 below ps [0..<amount]"
  using random_positions_below [of "[0..<amount]" dbg rnd g] assms by (auto simp: makeInsertionPositions_def)

lemma deletion_positions_below:
  assumes "amount \<le> Suc RAND_MAX"
  obtains ps g' where "makeDeletionPositions dbg rnd amount g = Some (ps, g')" "list_all2 below ps (rev [0..<amount])"
  using random_positions_below [of "rev [0..<amount]" dbg rnd g] assms by (auto simp: makeDeletionPositions_def)

lemma insert_steps_ok:
  "list_all2 below (map fst pvs) [length gage..<length gage + length pvs] \<Longrightarrow> length gage + length pvs + 2 \<le> N \<Longrightarrow>
   insert_steps 0 gage pvs = (cs, gage') \<Longrightarrow> script_ok dbg N cs [gage] [gage'] \<and> length gage' = length gage + length pvs"
proof (induction pvs arbitrary: gage cs)
  case (Cons pv pvs)
  obtain p v where pv: "pv = (p, v)" by (cases pv)
  let ?g = "insert_values p [v] gage"
  have p: "p \<le> length gage" and rest: "list_all2 below (map fst pvs) [Suc (length gage)..<Suc (length gage) + length pvs]"
    using Cons.prems(1) pv by (auto simp: upt_conv_Cons simp del: upt_Suc)
  have len: "length ?g = Suc (length gage)" using p by (simp add: insert_values_def)
  obtain ds where ds: "insert_steps 0 ?g pvs = (ds, gage')" "cs = L_emplace 0 p v # checkEquality 0 ?g @ ds"
    using Cons.prems(3) pv by (auto split: prod.splits)
  have "script_ok dbg N ds [?g] [gage'] \<and> length gage' = length ?g + length pvs"
    using Cons.IH [OF _ _ ds(1)] rest Cons.prems(2) len by simp
  then show ?case using ds(2) len p Cons.prems(2) by (simp add: checkEquality_ok fits_def)
qed simp

lemma erase_steps_ok:
  "list_all2 below ps (rev [0..<length gage]) \<Longrightarrow> erase_steps 0 gage ps = (cs, gage') \<Longrightarrow>
   script_ok dbg N cs [gage] [gage'] \<and> gage' = []"
proof (induction ps arbitrary: gage cs)
  case (Cons p ps)
  let ?g = "take p gage @ drop (Suc p) gage"
  obtain m where m: "length gage = Suc m" using Cons.prems(1) by (cases "length gage") auto
  then have p: "p < length gage" and rest: "list_all2 below ps (rev [0..<m])" using Cons.prems(1) by auto
  have len: "length ?g = m" using p m by simp
  obtain ds where ds: "erase_steps 0 ?g ps = (ds, gage')" "cs = L_erase 0 p # checkEquality 0 ?g @ ds"
    using Cons.prems(2) by (auto split: prod.splits)
  have "list_all2 below ps (rev [0..<length ?g])" using rest unfolding len .
  from Cons.IH [OF this ds(1)] have "script_ok dbg N ds [?g] [[]]" "gage' = []" by auto
  then show ?case using ds(2) p by (auto simp: checkEquality_ok)
qed simp

text \<open>One half of the test: everything in, everything out.\<close>

lemma insert_and_erase_ok:
  assumes ips: "list_all2 below ips [0..<amount]" and eps: "list_all2 below eps (rev [0..<amount])" and N: "amount + 2 \<le> N"
  obtains ins gage ers where "insertTest dbg 0 [] (makeIncreasedRangeFromAmount amount) ips amount = Some (ins, gage)"
    "eraseTest dbg 0 gage eps = Some (ers, [])" "script_ok dbg N ins [[]] [gage]" "script_ok dbg N ers [gage] [[]]" "length gage = amount"
proof -
  let ?pvs = "zip ips (makeIncreasedRangeFromAmount amount)"
  have l: "length ips = amount" "length eps = amount" using ips eps by (auto dest: list_all2_lengthD)
  obtain cs gage where i: "insert_steps 0 [] ?pvs = (cs, gage)" by (cases "insert_steps 0 [] ?pvs")
  have ok: "script_ok dbg N cs [[]] [gage]" "length gage = amount"
    using insert_steps_ok [OF _ _ i, of N dbg] ips l N by simp_all
  obtain ds gage' where e: "erase_steps 0 gage eps = (ds, gage')" by (cases "erase_steps 0 gage eps")
  have ok': "script_ok dbg N ds [gage] [gage']" "gage' = []"
    using erase_steps_ok [OF _ e, of dbg N] eps ok(2) by auto
  show ?thesis
    by (rule that [of "cs @ [L_size 0 amount]" gage "ds @ seen_empty 0"])
      (use i e l ok ok' in \<open>simp_all add: insertTest_def eraseTest_def seen_empty_def\<close>)
qed

lemma random_test_ok:
  assumes am: "amount \<le> Suc RAND_MAX" and N: "amount + 2 \<le> N"
  obtains cs g' where "checkRandInsertionsAndDeletions dbg rnd amount g = Some (cs, g')" "script_ok dbg N cs [] [[]]"
proof -
  obtain ips g1 where i1: "makeInsertionPositions dbg rnd amount g = Some (ips, g1)" "list_all2 below ips [0..<amount]"
    by (rule insertion_positions_below [OF am])
  obtain eps g2 where e1: "makeDeletionPositions dbg rnd amount g1 = Some (eps, g2)" "list_all2 below eps (rev [0..<amount])"
    by (rule deletion_positions_below [OF am])
  obtain ins gage ers where t1: "insertTest dbg 0 [] (makeIncreasedRangeFromAmount amount) ips amount = Some (ins, gage)"
    "eraseTest dbg 0 gage eps = Some (ers, [])" "script_ok dbg N ins [[]] [gage]" "script_ok dbg N ers [gage] [[]]" "length gage = amount"
    by (rule insert_and_erase_ok [OF i1(2) e1(2) N])
  obtain ips' g3 where i2: "makeInsertionPositions dbg rnd amount g2 = Some (ips', g3)" "list_all2 below ips' [0..<amount]"
    by (rule insertion_positions_below [OF am])
  obtain eps' g4 where e2: "makeDeletionPositions dbg rnd amount g3 = Some (eps', g4)" "list_all2 below eps' (rev [0..<amount])"
    by (rule deletion_positions_below [OF am])
  obtain ins' gage' ers' where t2: "insertTest dbg 0 [] (makeIncreasedRangeFromAmount amount) ips' amount = Some (ins', gage')"
    "eraseTest dbg 0 gage' eps' = Some (ers', [])" "script_ok dbg N ins' [[]] [gage']" "script_ok dbg N ers' [gage'] [[]]"
    "length gage' = amount"
    by (rule insert_and_erase_ok [OF i2(2) e2(2) N])
  have "script_ok dbg N ([L_new, L_instances 0] @ ins @ [L_instances amount] @ ers @ [L_instances 0, L_instances 0] @
      ins' @ [L_instances amount] @ ers' @ [L_instances 0]) [] [[]]"
    using t1(5) t2(5) N by (simp add: t1(3,4) [THEN script_ok_det] t2(3,4) [THEN script_ok_det] fits_def)
  with that i1(1) e1(1) t1(1,2) i2(1) e2(1) t2(1,2) show ?thesis by (simp add: checkRandInsertionsAndDeletions_def)
qed

subsection \<open>Every block\<close>

definition block_ok :: "bool \<Rightarrow> test_allocator \<times> ral_command list \<Rightarrow> bool" where
  "block_ok dbg b \<longleftrightarrow> (\<exists>wss. script_ok dbg (node_limit (fst b)) (snd b) [] wss)"

declare node_limit.simps(3) [simp del]

lemma limits [simp]: "node_limit (My_allocator n) = 12 - n"
  by (simp add: node_limit.simps(3) MAX_ITEMS_AMOUNT_AT_ALLOCATOR_def MAX_ITEMS_AMOUNT_WITH_ALLOCATOR_def MAX_ITEMS_AMOUNT_AT_BEFORE_CONSTRUCTED_COLLECTION_def)

lemma one_empty_blocks_ok: "list_all (block_ok dbg) (one_empty_blocks @ small_empty_blocks)"
  by (simp add: one_empty_blocks_def small_empty_blocks_def block_ok_def checksEmpty_ok fits_def)

lemma two_empty_blocks_ok: "list_all (block_ok dbg) (two_default_block @ equal_allocators_blocks @ shared_allocator_block)"
  by (simp add: two_default_block_def equal_allocators_blocks_def shared_allocator_block_def block_ok_def two_empty_block_def equal_allocators_block_def
      checksEmptyAndCheckEquality_ok checkEmptyWithEqualAllocators_ok fits_def)

lemma built_empty_blocks_ok: "list_all (block_ok dbg) (built_empty_blocks @ counted_empty_blocks)"
  by (simp add: built_empty_blocks_def counted_empty_blocks_def block_ok_def checksEmpty_ok fits_def)

lemma filled_blocks_ok: "list_all (block_ok dbg) (filled_blocks @ int_amount_blocks)"
proof -
  have f: "block_ok dbg (al, cs)" if "script_ok dbg (node_limit al) cs [] wss" for al cs wss
    using that by (auto simp: block_ok_def)
  show ?thesis
    unfolding filled_blocks_def int_amount_blocks_def Let_def list_all_iff
    by (auto simp: MAX_ITEMS_AMOUNT_WITH_ALLOCATOR_def simp del: upt_Suc intro!: filled_ok [THEN f])
qed

lemma random_blocks_ok:
  "list_all (\<lambda>(al, amount). amount \<le> Suc RAND_MAX \<and> amount + 2 \<le> node_limit al) als \<Longrightarrow>
   \<exists>bs g'. random_blocks dbg rnd als g = Some (bs, g') \<and> list_all (block_ok dbg) bs"
proof (induction als arbitrary: g)
  case (Cons a als)
  obtain al amount where a: "a = (al, amount)" by (cases a)
  obtain cs g1 where c: "checkRandInsertionsAndDeletions dbg rnd amount g = Some (cs, g1)" "script_ok dbg (node_limit al) cs [] [[]]"
    by (rule random_test_ok [of amount "node_limit al" dbg rnd g]) (use Cons.prems a in auto)
  obtain bs g2 where "random_blocks dbg rnd als g1 = Some (bs, g2)" "list_all (block_ok dbg) bs"
    using Cons.IH [of g1] Cons.prems by auto
  moreover have "block_ok dbg (al, cs)" using c(2) by (auto simp: block_ok_def)
  ultimately show ?case using a c(1) by simp
qed simp

lemma all_random_blocks_ok: "\<exists>bs g'. all_random_blocks dbg rnd g = Some (bs, g') \<and> list_all (block_ok dbg) bs"
  unfolding all_random_blocks_def by (rule random_blocks_ok) (auto simp: list_all_iff RAND_MAX_def)

lemma rearranging_ok:
  assumes "length a + 4 \<le> N"
  shows "\<exists>wss. script_ok dbg N (unique_block a) [] wss" "\<exists>wss. script_ok dbg N (sort_block a) [] wss"
    "\<exists>wss. script_ok dbg N (reverse_block a) [] wss"
  using assms by (simp_all add: unique_block_def sort_block_def reverse_block_def rearranged_def checkEquality_ok fits_def)

lemma rearranging_blocks_ok: "list_all (block_ok dbg) rearranging_blocks"
  by (simp add: rearranging_blocks_def block_ok_def rearranging_ok)

lemma seen_values_ok [simp]: "script_ok dbg N (seen_values vs) [vs] wss \<longleftrightarrow> wss = [vs]"
proof -
  have "script_ok dbg N (map (\<lambda>k. L_index 0 k (vs ! k)) [0..<length vs]) [vs] [vs]"
    by (rule script_ok_map) auto
  note script_ok_det [OF this, simp]
  show ?thesis by (auto simp: seen_values_def)
qed

lemma emplace_block_ok: "script_ok dbg 34 emplace_block [] [[0, 0, 0, 2, 3, 4, 0, 0]]"
  by (simp add: emplace_block_def insert_values_def fits_def)

theorem ral_unit_test_ok: "\<exists>bs. ral_unit_test dbg rnd = Some bs \<and> list_all (block_ok dbg) bs"
proof -
  obtain bs g where r: "all_random_blocks dbg rnd 0 = Some (bs, g)" "list_all (block_ok dbg) bs"
    using all_random_blocks_ok by blast
  have "block_ok dbg (Std_allocator, emplace_block)" "block_ok dbg (Malloc_allocator, checkAssignedIncreasedRange 1000)"
    using emplace_block_ok [of dbg] filled_ok(10) [of 1000 1004 dbg] by (auto simp: block_ok_def)
  then show ?thesis
    using r one_empty_blocks_ok two_empty_blocks_ok built_empty_blocks_ok filled_blocks_ok rearranging_blocks_ok
    by (simp add: ral_unit_test_def)
qed

text \<open>So a block passes on the lists of the library, and returns every node.\<close>

lemma block_passes:
  assumes "alloc_serves env N" "N < 2 ^ 31" "list_sort_ok srt (<)" "script_ok (e_dbg env) N cs [] wss"
  shows "run_ral_block env srt cs = Some Map.empty"
  using block_agrees [OF assms(1-3), of cs] assms(4) by (simp add: script_ok_def)

end
