(* ===== verification/Ral_Test_Properties.thy ===== *)
theory Ral_Test_Properties
  imports Ral_Unit_Test_Passes
begin

section \<open>The verdict of the list's unit test\<close>

text \<open>
  What a block of list commands shows of the lists, and that the whole unit test passes. An allocator that hands out the first free one of
  \<open>limit\<close> places serves as many nodes as there are places.
\<close>

definition first_free_env :: "bool \<Rightarrow> nat \<Rightarrow> int env" where
  "first_free_env dbg limit = \<lparr>e_dbg = dbg, e_unwinding = False, e_alloc = (\<lambda>h. find (\<lambda>a. h a = None) [0..<limit])\<rparr>"

lemma find_Some_holds: "find P xs = Some a \<Longrightarrow> P a"
  by (induction xs) (auto split: if_splits)

lemma find_None_none: "find P xs = None \<Longrightarrow> a \<in> set xs \<Longrightarrow> \<not> P a"
  by (induction xs) (auto split: if_splits)

lemma first_free_serves: "alloc_serves (first_free_env dbg limit) limit"
proof -
  have "find (\<lambda>a. h a = None) [0..<limit] \<noteq> None" if "finite (dom h)" "card (dom h) < limit" for h :: "int heap"
  proof
    assume "find (\<lambda>a. h a = None) [0..<limit] = None"
    then have "{0..<limit} \<subseteq> dom h" using find_None_none by fastforce
    from card_mono [OF that(1) this] show False using that(2) by simp
  qed
  moreover have "h a = None" if "find (\<lambda>a. h a = None) [0..<limit] = Some a" for h :: "int heap" and a
    using find_Some_holds [OF that] .
  ultimately show ?thesis by (simp add: alloc_serves_def first_free_env_def alloc_ok_def)
qed

definition sort_by_value :: "int heap \<Rightarrow> addr list \<Rightarrow> addr list" where
  "sort_by_value h = sort_key (\<lambda>a. the (the (val_at h a)))"

lemma sort_by_value_ok: "list_sort_ok sort_by_value (<)"
proof -
  have "sorted (vals h (sort_by_value h xs))" for h xs by (simp add: sort_by_value_def vals_def)
  then show ?thesis by (simp add: list_sort_ok_def sort_by_value_def not_less)
qed

text \<open>
  C13. A block of list commands whose calls keep the documented preconditions passes, on a heap whose allocator serves the nodes the
  block needs, exactly if the same commands pass on plain lists; and then the end of the block returns every node. So the whole public
  interface (constructors, assignment, insertion, removal, rearranging, moving between lists, reading in both directions and comparison),
  in any order and on any number of lists, behaves as the list functions of the model.
\<close>
theorem list_test_verdict:
  assumes "alloc_serves env limit" "limit < 2 ^ 31" "list_sort_ok list_sort (<)" "legal_script (e_dbg env) limit cs []"
  shows "run_ral_block env list_sort cs = (case run_model cs [] of None \<Rightarrow> None | Some vss \<Rightarrow> Some Map.empty)"
  using block_agrees [OF assms] by (simp split: option.splits)

definition demo_script :: "int list \<Rightarrow> ral_command list" where
  "demo_script vs = [L_new_range [3, 1, 2], L_new_copy 0, L_sort 0, L_erase 1 2, L_merge 0 1, L_values 0 vs, L_instances 5]"

theorem list_test_verdict_witness:
  "run_ral_block (first_free_env True 16) sort_by_value (demo_script [1, 2, 3, 3, 1]) = Some Map.empty \<and>
   run_ral_block (first_free_env True 16) sort_by_value (demo_script [1, 1, 2, 3, 3]) = None"
proof -
  have d: "e_dbg (first_free_env True 16) = True" by (simp add: first_free_env_def)
  have l: "legal_script (e_dbg (first_free_env True 16)) 16 (demo_script vs) []" for vs
    unfolding d by (simp add: demo_script_def on_values_def check_values_def fits_def node_amount_def)
  note v = list_test_verdict [OF first_free_serves _ sort_by_value_ok l]
  show ?thesis using v [of "[1, 2, 3, 3, 1]"] v [of "[1, 1, 2, 3, 3]"]
    by (simp add: demo_script_def on_values_def check_values_def)
qed

text \<open>
  C14. The unit test of the list passes: whatever \<open>rand()\<close> returns, in a debug and in a release build, every modelled block ends with all
  checks passed and all nodes returned, where each allocator serves the nodes it is configured for (with the small allocator, the places
  left beside the implementation objects).
\<close>
theorem ral_unit_test_passes:
  assumes "\<And>al. alloc_serves (envs al) (node_limit al)" "\<And>al. e_dbg (envs al) = dbg" "list_sort_ok list_sort (<)"
  shows "\<exists>blocks. ral_unit_test dbg rnd = Some blocks \<and>
    list_all (\<lambda>(al, cs). run_ral_block (envs al) list_sort cs = Some Map.empty) blocks"
proof -
  obtain bs where bs: "ral_unit_test dbg rnd = Some bs" "list_all (block_ok dbg) bs"
    using ral_unit_test_ok by blast
  have "node_limit al < 2 ^ 31" for al by (cases al) simp_all
  then have "run_ral_block (envs al) list_sort cs = Some Map.empty" if "block_ok dbg (al, cs)" for al cs
    using block_passes [OF assms(1) _ assms(3), of al cs] that assms(2) by (auto simp: block_ok_def)
  with bs show ?thesis by (auto simp: list_all_iff)
qed

theorem ral_unit_test_passes_witness:
  "\<exists>blocks. ral_unit_test True (\<lambda>g. g * 7919) = Some blocks \<and>
    list_all (\<lambda>(al, cs). run_ral_block (first_free_env True (node_limit al)) sort_by_value cs = Some Map.empty) blocks"
  by (rule ral_unit_test_passes [OF first_free_serves _ sort_by_value_ok]) (simp add: first_free_env_def)

end
