(* ===== verification/Containers_Utility.thy ===== *)
theory Containers_Utility
  imports Cpp_Prelude
begin

section \<open>containers_utility.hpp: raw storage\<close>

text \<open>
  An array of raw storage is a list of slots; \<open>None\<close> is a slot in which no object lives.
  Destroying an object that is not there is undefined behaviour. The copy loop constructs
  objects one by one and destroys what it made, in reverse order, when a copy throws.
\<close>

type_synonym 'a slots = "'a option list"

definition destroy_value :: "'a slots \<Rightarrow> nat \<Rightarrow> 'a slots option" where
  "destroy_value slots i = (if i < length slots \<and> slots ! i \<noteq> None then Some (slots[i := None]) else None)"

text \<open>\<open>destroy(begin, end)\<close> over the positions an iterator range visits.\<close>

fun destroy :: "'a slots \<Rightarrow> nat list \<Rightarrow> 'a slots option" where
  "destroy slots [] = Some slots"
| "destroy slots (i # is) = do { slots \<leftarrow> destroy_value slots i; destroy slots is }"

text \<open>\<open>rollback\<close> on pointers (bidirectional iterators): from the end to the beginning.\<close>

definition rollback :: "'a slots \<Rightarrow> nat \<Rightarrow> nat \<Rightarrow> 'a slots option" where
  "rollback slots first last_pos = (if first = last_pos then Some slots else destroy slots (rev [first..<last_pos]))"

record uninitialized_copy_result_t =
  m_unitialized_iterator :: nat
  m_sucessfull_inserted_items_amount :: nat
  m_transaction_fully_successful :: bool

text \<open>The loop: \<open>stop\<close> is the alternative stop predicate, the source is the list of outcomes of
  copying its elements. Placement outside the array is undefined behaviour.\<close>

fun uninitialized_copy_loop ::
  "'a slots \<Rightarrow> (nat \<Rightarrow> bool) \<Rightarrow> 'a made list \<Rightarrow> nat \<Rightarrow> nat \<Rightarrow>
   ('a slots \<times> nat \<times> nat \<times> 'a made list \<times> cpp_exception option) option" where
  "uninitialized_copy_loop slots go [] dst n = Some (slots, dst, n, [], None)"
| "uninitialized_copy_loop slots go (v # vs) dst n =
     (if \<not> go dst then Some (slots, dst, n, v # vs, None)
      else if dst \<ge> length slots then None
      else (case v of Inl ex \<Rightarrow> Some (slots, dst, n, v # vs, Some ex)
            | Inr x \<Rightarrow> uninitialized_copy_loop (slots[dst := Some x]) go vs (Suc dst) (Suc n)))"

definition uninitialized_copy_and_rollback_if_exception_implementation ::
  "bool \<Rightarrow> 'a slots \<Rightarrow> 'a made list \<Rightarrow> nat \<Rightarrow> (nat \<Rightarrow> bool) \<Rightarrow>
   ('a slots \<times> (cpp_exception + uninitialized_copy_result_t)) option" where
  "uninitialized_copy_and_rollback_if_exception_implementation dbg slots source dst go = do {
     (slots, d, n, rest, ex) \<leftarrow> uninitialized_copy_loop slots go source dst 0;
     (case ex of
        Some ex \<Rightarrow> do { slots \<leftarrow> rollback slots dst d; Some (slots, Inl ex) }
      | None \<Rightarrow> do {
          ASSERT dbg (n = d - dst);
          Some (slots, Inr \<lparr>m_unitialized_iterator = d, m_sucessfull_inserted_items_amount = n,
            m_transaction_fully_successful = (rest = [])\<rparr>) }) }"

definition uninitialized_copy_and_rollback_if_exception ::
  "bool \<Rightarrow> 'a slots \<Rightarrow> 'a made list \<Rightarrow> nat \<Rightarrow> nat \<Rightarrow>
   ('a slots \<times> (cpp_exception + uninitialized_copy_result_t)) option" where
  "uninitialized_copy_and_rollback_if_exception dbg slots source dst dst_end =
     uninitialized_copy_and_rollback_if_exception_implementation dbg slots source dst (\<lambda>d. dst_end \<noteq> d)"

definition uninitialized_copy_unbounded ::
  "bool \<Rightarrow> 'a slots \<Rightarrow> 'a made list \<Rightarrow> nat \<Rightarrow>
   ('a slots \<times> (cpp_exception + uninitialized_copy_result_t)) option" where
  "uninitialized_copy_unbounded dbg slots source dst =
     uninitialized_copy_and_rollback_if_exception_implementation dbg slots source dst (\<lambda>_. True)"

definition uninitialized_copy_and_rollback_if_exception_or_overflow ::
  "bool \<Rightarrow> 'a slots \<Rightarrow> 'a made list \<Rightarrow> nat \<Rightarrow> nat \<Rightarrow>
   ('a slots \<times> (cpp_exception + uninitialized_copy_result_t)) option" where
  "uninitialized_copy_and_rollback_if_exception_or_overflow dbg slots source dst dst_end = do {
     (slots, r) \<leftarrow> uninitialized_copy_and_rollback_if_exception dbg slots source dst dst_end;
     (case r of
        Inl ex \<Rightarrow> Some (slots, Inl ex)
      | Inr res \<Rightarrow> if \<not> m_transaction_fully_successful res then do {
            slots \<leftarrow> rollback slots dst dst_end;
            Some (slots, Inr \<lparr>m_unitialized_iterator = dst, m_sucessfull_inserted_items_amount = 0,
              m_transaction_fully_successful = False\<rparr>) }
          else Some (slots, Inr res)) }"

subsection \<open>Writing and destroying a block\<close>

definition put_block :: "'a slots \<Rightarrow> nat \<Rightarrow> 'a list \<Rightarrow> 'a slots" where
  "put_block slots d xs = take d slots @ map Some xs @ drop (d + length xs) slots"

lemma length_put_block [simp]: "d + length xs \<le> length slots \<Longrightarrow> length (put_block slots d xs) = length slots"
  by (simp add: put_block_def)

lemma put_block_Nil [simp]: "put_block slots d [] = slots"
  by (simp add: put_block_def)

lemma put_block_snoc:
  assumes "d + length xs < length slots"
  shows "(put_block slots d xs)[d + length xs := Some x] = put_block slots d (xs @ [x])"
proof -
  have "drop (d + length xs) slots = slots ! (d + length xs) # drop (Suc (d + length xs)) slots"
    using assms by (simp add: Cons_nth_drop_Suc)
  with assms show ?thesis by (simp add: put_block_def list_update_append)
qed

text \<open>Raw positions: nothing lives in \<open>[d, e)\<close>.\<close>

definition raw_range :: "'a slots \<Rightarrow> nat \<Rightarrow> nat \<Rightarrow> bool" where
  "raw_range slots d e \<longleftrightarrow> (\<forall>i. d \<le> i \<longrightarrow> i < e \<longrightarrow> slots ! i = None)"

lemma put_block_undo:
  assumes "d + length xs < length slots" "raw_range slots d (d + Suc (length xs))"
  shows "(put_block slots d (xs @ [x]))[d + length xs := None] = put_block slots d xs"
proof -
  have "(put_block slots d xs) ! (d + length xs) = None"
    using assms by (simp add: put_block_def nth_append raw_range_def)
  with put_block_snoc [OF assms(1), of x] show ?thesis
    by (metis list_update_id list_update_overwrite)
qed

lemma rollback_put_block:
  assumes "d + length xs \<le> length slots" "raw_range slots d (d + length xs)"
  shows "rollback (put_block slots d xs) d (d + length xs) = Some slots"
  using assms
proof (induction xs rule: rev_induct)
  case Nil
  then show ?case by (simp add: rollback_def)
next
  case (snoc x xs)
  have r: "raw_range slots d (d + length xs)" using snoc.prems(2) by (simp add: raw_range_def)
  have "(put_block slots d (xs @ [x])) ! (d + length xs) = Some x"
    using snoc.prems(1) by (simp add: put_block_def nth_append)
  then have "destroy_value (put_block slots d (xs @ [x])) (d + length xs) = Some (put_block slots d xs)"
    using snoc.prems put_block_undo [of d xs slots x] by (simp add: destroy_value_def)
  with snoc.IH r snoc.prems(1) show ?case by (auto simp: rollback_def split: if_splits)
qed

lemma copy_loop_spec:
  assumes "d + length done + length source \<le> length slots \<or> bound \<le> length slots" "d + length done \<le> bound"
    "d + length done \<le> length slots"
  shows "\<exists>us rest ex. source = map Inr us @ rest \<and>
    uninitialized_copy_loop (put_block slots d done) (\<lambda>e. bound \<noteq> e) source (d + length done) (length done) =
      Some (put_block slots d (done @ us), d + length (done @ us), length (done @ us), rest, ex) \<and>
    d + length (done @ us) \<le> length slots \<and> d + length (done @ us) \<le> bound \<and>
    (case ex of None \<Rightarrow> rest = [] \<or> d + length (done @ us) = bound | Some e \<Rightarrow> \<exists>vs. rest = Inl e # vs)"
  using assms
proof (induction source arbitrary: "done")
  case Nil
  then show ?case by simp
next
  case (Cons v vs)
  show ?case
  proof (cases "bound = d + length done")
    case True
    with Cons.prems show ?thesis
      by (intro exI [of _ "[]"] exI [of _ "v # vs"] exI [of _ None]) simp
  next
    case False
    with Cons.prems have lt: "d + length done < length slots" by auto
    show ?thesis
    proof (cases v)
      case (Inl e)
      with Cons.prems False lt show ?thesis
        by (intro exI [of _ "[]"] exI [of _ "v # vs"] exI [of _ "Some e"]) simp
    next
      case (Inr x)
      have "d + length (done @ [x]) + length vs \<le> length slots \<or> bound \<le> length slots"
        "d + length (done @ [x]) \<le> bound" "d + length (done @ [x]) \<le> length slots"
        using Cons.prems False lt by auto
      from Cons.IH [OF this] obtain us rest ex where us: "vs = map Inr us @ rest"
        "uninitialized_copy_loop (put_block slots d (done @ [x])) (\<lambda>e. bound \<noteq> e) vs (d + length (done @ [x]))
          (length (done @ [x])) =
          Some (put_block slots d ((done @ [x]) @ us), d + length ((done @ [x]) @ us), length ((done @ [x]) @ us), rest, ex)"
        "d + length ((done @ [x]) @ us) \<le> length slots" "d + length ((done @ [x]) @ us) \<le> bound"
        "case ex of None \<Rightarrow> rest = [] \<or> d + length ((done @ [x]) @ us) = bound | Some e \<Rightarrow> \<exists>vs. rest = Inl e # vs"
        by blast
      then show ?thesis using Inr lt False put_block_snoc [OF lt, of x]
        by (intro exI [of _ "x # us"] exI [of _ rest] exI [of _ ex]) (cases ex; simp)
    qed
  qed
qed

text \<open>The bounded copy: it stops at the end of the destination, and an exception leaves the raw
  storage as it was.\<close>

theorem uninitialized_copy_spec:
  assumes "d \<le> e" "e \<le> length slots" "raw_range slots d e"
  shows "\<exists>us rest. source = map Inr us @ rest \<and> d + length us \<le> e \<and>
    (uninitialized_copy_and_rollback_if_exception dbg slots source d e =
       Some (put_block slots d us, Inr \<lparr>m_unitialized_iterator = d + length us,
         m_sucessfull_inserted_items_amount = length us, m_transaction_fully_successful = (rest = [])\<rparr>) \<and>
       (rest = [] \<or> d + length us = e) \<or>
     (\<exists>ex vs. rest = Inl ex # vs \<and> uninitialized_copy_and_rollback_if_exception dbg slots source d e = Some (slots, Inl ex)))"
proof -
  have "d + length ([] :: 'a list) + length source \<le> length slots \<or> e \<le> length slots"
    "d + length ([] :: 'a list) \<le> e" "d + length ([] :: 'a list) \<le> length slots" using assms by simp_all
  from copy_loop_spec [OF this] obtain us rest ex where us: "source = map Inr us @ rest"
    "uninitialized_copy_loop slots (\<lambda>x. e \<noteq> x) source d 0 =
      Some (put_block slots d us, d + length us, length us, rest, ex)" "d + length us \<le> e"
    "case ex of None \<Rightarrow> rest = [] \<or> d + length us = e | Some x \<Rightarrow> \<exists>vs. rest = Inl x # vs"
    by (elim exE conjE) (simp only: append_Nil list.size add_0_right put_block_Nil)
  have "raw_range slots d (d + length us)" using assms(3) us(3) by (simp add: raw_range_def)
  then have rb: "rollback (put_block slots d us) d (d + length us) = Some slots"
    using us(3) assms(2) by (intro rollback_put_block) simp_all
  show ?thesis
  proof (cases ex)
    case None
    with us show ?thesis
      by (intro exI [of _ us] exI [of _ rest]) (auto simp: uninitialized_copy_and_rollback_if_exception_def
          uninitialized_copy_and_rollback_if_exception_implementation_def)
  next
    case (Some x)
    with us rb show ?thesis
      by (intro exI [of _ us] exI [of _ rest]) (auto simp: uninitialized_copy_and_rollback_if_exception_def
          uninitialized_copy_and_rollback_if_exception_implementation_def)
  qed
qed

text \<open>The variant that treats a source that does not fit as a failure undoes its copies too.\<close>

theorem uninitialized_copy_or_overflow_spec:
  assumes "d \<le> e" "e \<le> length slots" "raw_range slots d e"
  shows "(\<exists>us. source = map Inr us \<and> d + length us \<le> e \<and>
      uninitialized_copy_and_rollback_if_exception_or_overflow dbg slots source d e =
       Some (put_block slots d us, Inr \<lparr>m_unitialized_iterator = d + length us,
         m_sucessfull_inserted_items_amount = length us, m_transaction_fully_successful = True\<rparr>)) \<or>
    (\<exists>ex. Inl ex \<in> set source \<and>
      uninitialized_copy_and_rollback_if_exception_or_overflow dbg slots source d e = Some (slots, Inl ex)) \<or>
    (length source > e - d \<and> uninitialized_copy_and_rollback_if_exception_or_overflow dbg slots source d e =
       Some (slots, Inr \<lparr>m_unitialized_iterator = d, m_sucessfull_inserted_items_amount = 0,
         m_transaction_fully_successful = False\<rparr>))"
proof -
  from uninitialized_copy_spec [OF assms, of source dbg] obtain us rest where
    us: "source = map Inr us @ rest" "d + length us \<le> e" and
    c: "uninitialized_copy_and_rollback_if_exception dbg slots source d e =
       Some (put_block slots d us, Inr \<lparr>m_unitialized_iterator = d + length us,
         m_sucessfull_inserted_items_amount = length us, m_transaction_fully_successful = (rest = [])\<rparr>) \<and>
       (rest = [] \<or> d + length us = e) \<or>
     (\<exists>ex vs. rest = Inl ex # vs \<and> uninitialized_copy_and_rollback_if_exception dbg slots source d e = Some (slots, Inl ex))"
    by blast
  show ?thesis
  proof (cases "rest = []")
    case True
    with us c show ?thesis by (simp add: uninitialized_copy_and_rollback_if_exception_or_overflow_def)
  next
    case False
    have "d + length us \<le> length slots" "raw_range slots d (d + length us)"
      using assms us(2) by (simp_all add: raw_range_def)
    note rb = rollback_put_block [OF this]
    from c False rb us show ?thesis
      by (auto simp: uninitialized_copy_and_rollback_if_exception_or_overflow_def neq_Nil_conv)
  qed
qed

end
