(* ===== verification/Fixed_Deque.thy ===== *)
theory Fixed_Deque
  imports Containers_Utility Sequence_Interface
begin

section \<open>inplace_fixed_deque.hpp\<close>

text \<open>
  A double-ended queue in an array of \<open>capacity\<close> raw slots. When \<open>m_begin <= m_end\<close> the
  elements occupy \<open>[m_begin, m_end)\<close>; when \<open>m_begin > m_end\<close> they occupy
  \<open>[m_begin, capacity)\<close> followed by \<open>[0, m_end]\<close>, the end being inclusive. Indices are natural
  numbers; the one sum that can leave the range of \<open>size_t\<close> is taken modulo \<open>2 ^ 32\<close>. Copying
  a value into the container may throw, so a pushed value is the outcome of its copy
  constructor.
\<close>

subsection \<open>The code\<close>

record 'a inplace_fixed_deque =
  m_raw_byte_array :: "'a slots"
  m_begin :: nat
  m_end :: nat

definition capacity :: "'a inplace_fixed_deque \<Rightarrow> nat" where
  "capacity d = length (m_raw_byte_array d)"

definition deque_new :: "nat \<Rightarrow> 'a inplace_fixed_deque" where
  "deque_new item_amount = \<lparr>m_raw_byte_array = replicate item_amount None, m_begin = 0, m_end = 0\<rparr>"

definition raw_array_iterator_unsafe_at :: "bool \<Rightarrow> 'a inplace_fixed_deque \<Rightarrow> nat \<Rightarrow> nat option" where
  "raw_array_iterator_unsafe_at dbg d position = do { ASSERT dbg (position \<le> capacity d); Some position }"

definition raw_array_iterator_at :: "bool \<Rightarrow> 'a inplace_fixed_deque \<Rightarrow> nat \<Rightarrow> nat option" where
  "raw_array_iterator_at dbg d position = do {
     ASSERT dbg (position < capacity d);
     raw_array_iterator_unsafe_at dbg d position }"

definition pretend_clear :: "'a inplace_fixed_deque \<Rightarrow> 'a inplace_fixed_deque" where
  "pretend_clear d = d\<lparr>m_begin := 0, m_end := 0\<rparr>"

definition size_internal :: "'a inplace_fixed_deque \<Rightarrow> nat" where
  "size_internal d = (if m_begin d \<le> m_end d then m_end d - m_begin d
     else capacity d - m_begin d + m_end d + 1)"

definition dq_size :: "bool \<Rightarrow> 'a inplace_fixed_deque \<Rightarrow> nat option" where
  "dq_size dbg d = do {
     let result = size_internal d;
     ASSERT dbg (result \<le> capacity d);
     ASSERT dbg ((m_begin d = m_end d) = (result = 0));
     Some result }"

definition dq_empty :: "bool \<Rightarrow> 'a inplace_fixed_deque \<Rightarrow> bool option" where
  "dq_empty dbg d = do {
     let is_empty = (m_begin d = m_end d);
     (if dbg then do { n \<leftarrow> dq_size dbg d; ASSERT dbg (is_empty = (n = 0)) } else Some ());
     Some is_empty }"

definition dq_full :: "bool \<Rightarrow> 'a inplace_fixed_deque \<Rightarrow> bool option" where
  "dq_full dbg d = do {
     let is_full = (if m_begin d > m_end d then m_end d + 1 = m_begin d
       else m_begin d = 0 \<and> m_end d = capacity d);
     (if dbg then do { n \<leftarrow> dq_size dbg d; ASSERT dbg (is_full = (n = capacity d)) } else Some ());
     Some is_full }"

text \<open>Placement construction: the value is written, or its constructor throws and nothing is.\<close>

definition construct_at_position ::
  "bool \<Rightarrow> 'a inplace_fixed_deque \<Rightarrow> nat \<Rightarrow> 'a made \<Rightarrow> ('a inplace_fixed_deque \<times> cpp_exception option) option" where
  "construct_at_position dbg d position v = do {
     ASSERT dbg (position < capacity d);
     p \<leftarrow> raw_array_iterator_at dbg d position;
     (case v of
        Inl ex \<Rightarrow> Some (d, Some ex)
      | Inr x \<Rightarrow> if p < length (m_raw_byte_array d)
          then Some (d\<lparr>m_raw_byte_array := (m_raw_byte_array d)[p := Some x]\<rparr>, None) else None) }"

definition destroy_by_position :: "bool \<Rightarrow> 'a inplace_fixed_deque \<Rightarrow> nat \<Rightarrow> 'a inplace_fixed_deque option" where
  "destroy_by_position dbg d position = do {
     ASSERT dbg (position < capacity d);
     p \<leftarrow> raw_array_iterator_at dbg d position;
     slots \<leftarrow> destroy_value (m_raw_byte_array d) p;
     Some (d\<lparr>m_raw_byte_array := slots\<rparr>) }"

text \<open>The checks at the end of every push and pop.\<close>

definition check_size :: "bool \<Rightarrow> 'a inplace_fixed_deque \<Rightarrow> (nat \<Rightarrow> bool) \<Rightarrow> unit option" where
  "check_size dbg d expected = (if \<not> dbg then Some () else do {
     n \<leftarrow> dq_size dbg d;
     ASSERT dbg ((m_end d = m_begin d) = (n = 0));
     ASSERT dbg (expected n) })"

definition push_back_internal ::
  "bool \<Rightarrow> 'a inplace_fixed_deque \<Rightarrow> 'a made \<Rightarrow> ('a inplace_fixed_deque \<times> cpp_exception option) option" where
  "push_back_internal dbg d v = do {
     is_full \<leftarrow> dq_full dbg d;
     ASSERT dbg (\<not> is_full);
     if is_full then Some (d, None) else do {
     old_size \<leftarrow> dq_size dbg d;
     let new_end = (if m_end d \<ge> capacity d then 0 else m_end d + 1);
     let creation_position = (if new_end < m_begin d then new_end else m_end d);
     ASSERT dbg (creation_position < capacity d);
     ASSERT dbg (new_end \<le> capacity d);
     (d, ex) \<leftarrow> construct_at_position dbg d creation_position v;
     (case ex of Some ex \<Rightarrow> Some (d, Some ex)
      | None \<Rightarrow> do {
          let d = d\<lparr>m_end := new_end\<rparr>;
          check_size dbg d (\<lambda>n. old_size + 1 = n);
          Some (d, None) }) } }"

definition push_front_internal ::
  "bool \<Rightarrow> 'a inplace_fixed_deque \<Rightarrow> 'a made \<Rightarrow> ('a inplace_fixed_deque \<times> cpp_exception option) option" where
  "push_front_internal dbg d v = do {
     is_full \<leftarrow> dq_full dbg d;
     ASSERT dbg (\<not> is_full);
     if is_full then Some (d, None) else do {
     old_size \<leftarrow> dq_size dbg d;
     let (new_begin, new_end) = (if m_begin d \<le> 0
       then (capacity d - 1, if m_end d \<le> 0 then capacity d else m_end d - 1)
       else (m_begin d - 1, m_end d));
     ASSERT dbg (new_begin < capacity d);
     ASSERT dbg (new_end \<le> capacity d);
     (d, ex) \<leftarrow> construct_at_position dbg d new_begin v;
     (case ex of Some ex \<Rightarrow> Some (d, Some ex)
      | None \<Rightarrow> do {
          let d = d\<lparr>m_end := new_end, m_begin := new_begin\<rparr>;
          check_size dbg d (\<lambda>n. old_size + 1 = n);
          Some (d, None) }) } }"

definition dq_pop_back :: "bool \<Rightarrow> 'a inplace_fixed_deque \<Rightarrow> 'a inplace_fixed_deque option" where
  "dq_pop_back dbg d = do {
     is_empty \<leftarrow> dq_empty dbg d;
     ASSERT dbg (\<not> is_empty);
     if is_empty then Some d else do {
     old_size \<leftarrow> dq_size dbg d;
     let new_end = (if m_end d \<le> 0 then capacity d else m_end d - 1);
     let destruction_position = (if m_end d < m_begin d then m_end d else new_end);
     ASSERT dbg (destruction_position < capacity d);
     ASSERT dbg (new_end \<le> capacity d);
     let d = d\<lparr>m_end := new_end\<rparr>;
     d \<leftarrow> destroy_by_position dbg d destruction_position;
     check_size dbg d (\<lambda>n. old_size - 1 = n);
     Some d } }"

definition dq_pop_front :: "bool \<Rightarrow> 'a inplace_fixed_deque \<Rightarrow> 'a inplace_fixed_deque option" where
  "dq_pop_front dbg d = do {
     is_empty \<leftarrow> dq_empty dbg d;
     ASSERT dbg (\<not> is_empty);
     if is_empty then Some d else do {
     old_size \<leftarrow> dq_size dbg d;
     let (new_begin, new_end) = (if m_begin d \<ge> capacity d - 1
       then (0, if m_end d \<ge> capacity d then 0 else m_end d + 1)
       else (m_begin d + 1, m_end d));
     ASSERT dbg (new_begin < capacity d);
     let destruction_position = m_begin d;
     ASSERT dbg (destruction_position < capacity d);
     ASSERT dbg (new_end \<le> capacity d);
     let d = d\<lparr>m_begin := new_begin, m_end := new_end\<rparr>;
     d \<leftarrow> destroy_by_position dbg d destruction_position;
     check_size dbg d (\<lambda>n. old_size - 1 = n);
     Some d } }"

definition dq_push_back ::
  "bool \<Rightarrow> 'a inplace_fixed_deque \<Rightarrow> 'a made \<Rightarrow> ('a inplace_fixed_deque \<times> cpp_exception option) option" where
  "dq_push_back dbg d v = push_back_internal dbg d v"

definition dq_push_front ::
  "bool \<Rightarrow> 'a inplace_fixed_deque \<Rightarrow> 'a made \<Rightarrow> ('a inplace_fixed_deque \<times> cpp_exception option) option" where
  "dq_push_front dbg d v = push_front_internal dbg d v"

text \<open>The generated emplace members repeat the code of the pushes with a placement \<open>new\<close> in
  place of \<open>construct_at_position\<close>; the value is the outcome of the constructor called.\<close>

definition placement_new ::
  "'a inplace_fixed_deque \<Rightarrow> nat \<Rightarrow> 'a made \<Rightarrow> ('a inplace_fixed_deque \<times> cpp_exception option) option" where
  "placement_new d p v = (case v of
     Inl ex \<Rightarrow> Some (d, Some ex)
   | Inr x \<Rightarrow> if p < length (m_raw_byte_array d)
       then Some (d\<lparr>m_raw_byte_array := (m_raw_byte_array d)[p := Some x]\<rparr>, None) else None)"

definition dq_emplace_back ::
  "bool \<Rightarrow> 'a inplace_fixed_deque \<Rightarrow> 'a made \<Rightarrow> ('a inplace_fixed_deque \<times> cpp_exception option) option" where
  "dq_emplace_back dbg d v = do {
     is_full \<leftarrow> dq_full dbg d;
     ASSERT dbg (\<not> is_full);
     if is_full then Some (d, None) else do {
     old_size \<leftarrow> dq_size dbg d;
     let new_end = (if m_end d \<ge> capacity d then 0 else m_end d + 1);
     let creation_position = (if new_end < m_begin d then new_end else m_end d);
     ASSERT dbg (creation_position < capacity d);
     ASSERT dbg (new_end \<le> capacity d);
     p \<leftarrow> raw_array_iterator_at dbg d creation_position;
     (d, ex) \<leftarrow> placement_new d p v;
     (case ex of Some ex \<Rightarrow> Some (d, Some ex)
      | None \<Rightarrow> do {
          let d = d\<lparr>m_end := new_end\<rparr>;
          check_size dbg d (\<lambda>n. old_size + 1 = n);
          Some (d, None) }) } }"

definition dq_emplace_front ::
  "bool \<Rightarrow> 'a inplace_fixed_deque \<Rightarrow> 'a made \<Rightarrow> ('a inplace_fixed_deque \<times> cpp_exception option) option" where
  "dq_emplace_front dbg d v = do {
     is_full \<leftarrow> dq_full dbg d;
     ASSERT dbg (\<not> is_full);
     if is_full then Some (d, None) else do {
     old_size \<leftarrow> dq_size dbg d;
     let (new_begin, new_end) = (if m_begin d \<le> 0
       then (capacity d - 1, if m_end d \<le> 0 then capacity d else m_end d - 1)
       else (m_begin d - 1, m_end d));
     ASSERT dbg (new_begin < capacity d);
     ASSERT dbg (new_end \<le> capacity d);
     p \<leftarrow> raw_array_iterator_at dbg d new_begin;
     (d, ex) \<leftarrow> placement_new d p v;
     (case ex of Some ex \<Rightarrow> Some (d, Some ex)
      | None \<Rightarrow> do {
          let d = d\<lparr>m_end := new_end, m_begin := new_begin\<rparr>;
          check_size dbg d (\<lambda>n. old_size + 1 = n);
          Some (d, None) }) } }"

text \<open>The element slot an index names; reading a raw slot is undefined behaviour.\<close>

definition dq_index :: "bool \<Rightarrow> 'a inplace_fixed_deque \<Rightarrow> nat \<Rightarrow> 'a option" where
  "dq_index dbg d index = do {
     ASSERT dbg (index < capacity d);
     (if dbg then do { n \<leftarrow> dq_size dbg d; ASSERT dbg (index < n) } else Some ());
     (if m_begin d \<le> m_end d then do {
        let index' = (index + m_begin d) mod 2 ^ 32;
        ASSERT dbg (index' \<le> m_end d);
        if index' < length (m_raw_byte_array d) then m_raw_byte_array d ! index' else None }
      else do {
        let index' = ((index + m_begin d) mod 2 ^ 32) mod capacity d;
        ASSERT dbg (index' < capacity d);
        if index' < length (m_raw_byte_array d) then m_raw_byte_array d ! index' else None }) }"

definition dq_front :: "bool \<Rightarrow> 'a inplace_fixed_deque \<Rightarrow> 'a option" where
  "dq_front dbg d = dq_index dbg d 0"

definition dq_back :: "bool \<Rightarrow> 'a inplace_fixed_deque \<Rightarrow> 'a option" where
  "dq_back dbg d = do {
     n \<leftarrow> dq_size dbg d;
     ASSERT dbg (n > 0);
     dq_index dbg d ((n + (2 ^ 32 - 1)) mod 2 ^ 32) }"

text \<open>\<open>clear\<close> forgets the elements first and destroys them in one or two runs.\<close>

definition dq_clear :: "bool \<Rightarrow> 'a inplace_fixed_deque \<Rightarrow> 'a inplace_fixed_deque option" where
  "dq_clear dbg d = do {
     let b = m_begin d;
     let e = m_end d;
     let d = pretend_clear d;
     first \<leftarrow> raw_array_iterator_unsafe_at dbg d b;
     slots \<leftarrow> (if b \<le> e then do {
         last_pos \<leftarrow> raw_array_iterator_unsafe_at dbg d e;
         destroy (m_raw_byte_array d) [first..<last_pos] }
       else do {
         last_pos \<leftarrow> raw_array_iterator_unsafe_at dbg d (capacity d);
         slots \<leftarrow> destroy (m_raw_byte_array d) [first..<last_pos];
         first \<leftarrow> raw_array_iterator_unsafe_at dbg d 0;
         last_pos \<leftarrow> raw_array_iterator_unsafe_at dbg d (e + 1);
         destroy slots [first..<last_pos] });
     Some (d\<lparr>m_raw_byte_array := slots\<rparr>) }"

definition assign_internal ::
  "bool \<Rightarrow> 'a inplace_fixed_deque \<Rightarrow> 'a made list \<Rightarrow> ('a inplace_fixed_deque \<times> cpp_exception option) option" where
  "assign_internal dbg d source = do {
     d \<leftarrow> dq_clear dbg d;
     destination_begin \<leftarrow> raw_array_iterator_at dbg d 0;
     destination_end \<leftarrow> raw_array_iterator_unsafe_at dbg d (capacity d);
     (slots, r) \<leftarrow> uninitialized_copy_and_rollback_if_exception dbg (m_raw_byte_array d) source
       destination_begin destination_end;
     let d = d\<lparr>m_raw_byte_array := slots\<rparr>;
     (case r of
        Inl ex \<Rightarrow> Some (d, Some ex)
      | Inr result \<Rightarrow> do {
          ASSERT dbg (m_transaction_fully_successful result);
          Some (d\<lparr>m_begin := 0, m_end := m_sucessfull_inserted_items_amount result\<rparr>, None) }) }"

text \<open>Construction from a range, and destruction.\<close>

definition range_construct ::
  "bool \<Rightarrow> nat \<Rightarrow> 'a made list \<Rightarrow> ('a inplace_fixed_deque \<times> cpp_exception option) option" where
  "range_construct dbg item_amount source = assign_internal dbg (deque_new item_amount) source"

definition dq_destroy :: "bool \<Rightarrow> 'a inplace_fixed_deque \<Rightarrow> 'a inplace_fixed_deque option" where
  "dq_destroy dbg d = dq_clear dbg d"

subsection \<open>The abstraction\<close>

text \<open>The slot of element \<open>i\<close>, and the encoding of the end for a given length.\<close>

definition slot_of :: "nat \<Rightarrow> nat \<Rightarrow> nat \<Rightarrow> nat" where
  "slot_of n b i = (if b + i < n then b + i else b + i - n)"

definition end_code :: "nat \<Rightarrow> nat \<Rightarrow> nat \<Rightarrow> nat" where
  "end_code n b k = (if b + k \<le> n then b + k else b + k - n - 1)"

text \<open>A slot holds an element exactly when the index of the element is below the length; all other
  slots are raw. The array is smaller than half the address space, as every C++ object is.\<close>

definition deque_inv :: "'a inplace_fixed_deque \<Rightarrow> 'a list \<Rightarrow> bool" where
  "deque_inv d xs \<longleftrightarrow> capacity d < 2 ^ 31 \<and> m_begin d < capacity d \<and> length xs \<le> capacity d \<and>
     m_end d = end_code (capacity d) (m_begin d) (length xs) \<and>
     (\<forall>i<capacity d. m_raw_byte_array d ! slot_of (capacity d) (m_begin d) i =
        (if i < length xs then Some (xs ! i) else None))"

lemma slot_of_less: "b < n \<Longrightarrow> i < n \<Longrightarrow> slot_of n b i < n"
  by (auto simp: slot_of_def)

lemma slot_of_inj: "b < n \<Longrightarrow> i < n \<Longrightarrow> j < n \<Longrightarrow> slot_of n b i = slot_of n b j \<longleftrightarrow> i = j"
  by (auto simp: slot_of_def)

lemma deque_inv_size:
  assumes "deque_inv d xs"
  shows "size_internal d = length xs" "m_begin d = m_end d \<longleftrightarrow> xs = []"
  using assms by (auto simp: deque_inv_def size_internal_def end_code_def split: if_splits)

lemma dq_size_spec: "deque_inv d xs \<Longrightarrow> dq_size dbg d = Some (length xs)"
  using deque_inv_size [of d xs] by (auto simp: dq_size_def deque_inv_def Let_def)

lemma dq_empty_spec: "deque_inv d xs \<Longrightarrow> dq_empty dbg d = Some (xs = [])"
  using dq_size_spec [of d xs] deque_inv_size [of d xs] by (auto simp: dq_empty_def Let_def)

lemma dq_full_spec: "deque_inv d xs \<Longrightarrow> dq_full dbg d = Some (length xs = capacity d)"
proof -
  assume inv: "deque_inv d xs"
  then have "(if m_begin d > m_end d then m_end d + 1 = m_begin d
       else m_begin d = 0 \<and> m_end d = capacity d) = (length xs = capacity d)"
    by (auto simp: deque_inv_def end_code_def split: if_splits)
  with dq_size_spec [OF inv] show ?thesis by (auto simp: dq_full_def Let_def)
qed

lemma check_size_spec: "deque_inv d xs \<Longrightarrow> P (length xs) \<Longrightarrow> check_size dbg d P = Some ()"
  using dq_size_spec [of d xs] deque_inv_size [of d xs] by (auto simp: check_size_def)

subsection \<open>Construction and reading\<close>

lemma deque_new_inv: "0 < n \<Longrightarrow> n < 2 ^ 31 \<Longrightarrow> deque_inv (deque_new n) []"
  by (auto simp: deque_inv_def deque_new_def capacity_def end_code_def slot_of_def)

lemma dq_index_spec:
  assumes inv: "deque_inv d xs" and i: "i < length xs"
  shows "dq_index dbg d i = Some (xs ! i)"
proof -
  let ?n = "capacity d" let ?b = "m_begin d"
  have n: "i < ?n" "?b < ?n" "?n < 2 ^ 31" "length xs \<le> ?n" "m_end d = end_code ?n ?b (length xs)"
    using inv i by (auto simp: deque_inv_def)
  have sl: "m_raw_byte_array d ! slot_of ?n ?b i = Some (xs ! i)" using inv i n by (simp add: deque_inv_def)
  have w: "(i + ?b) mod 2 ^ 32 = i + ?b" using n by simp
  have sz: "dq_size dbg d = Some (length xs)" by (rule dq_size_spec [OF inv])
  show ?thesis
  proof (cases "?b \<le> m_end d")
    case True
    then have e: "m_end d = ?b + length xs" "?b + length xs \<le> ?n"
      using n by (auto simp: end_code_def split: if_splits)
    then have "slot_of ?n ?b i = i + ?b" using i by (simp add: slot_of_def)
    with True e w sz sl i n show ?thesis
      by (cases dbg) (simp_all add: dq_index_def Let_def capacity_def)
  next
    case False
    have "(i + ?b) mod ?n = slot_of ?n ?b i"
      using n by (auto simp: slot_of_def mod_if add.commute)
    moreover have "slot_of ?n ?b i < ?n" using n by (simp add: slot_of_less)
    ultimately show ?thesis using False w sz sl i n
      by (cases dbg) (simp_all add: dq_index_def Let_def capacity_def)
  qed
qed

lemma dq_back_spec:
  assumes inv: "deque_inv d xs" and ne: "xs \<noteq> []"
  shows "dq_back dbg d = Some (last xs)"
proof -
  have "length xs < 2 ^ 32" using inv by (simp add: deque_inv_def)
  moreover have "length xs + (2 ^ 32 - 1) = (length xs - 1) + 2 ^ 32" using ne by (cases xs) simp_all
  ultimately have "(length xs + (2 ^ 32 - 1)) mod 2 ^ 32 = length xs - 1" by (metis less_imp_diff_less
      mod_add_self2 mod_less)
  with dq_size_spec [OF inv] dq_index_spec [OF inv, of "length xs - 1"] ne show ?thesis
    by (simp add: dq_back_def last_conv_nth)
qed

subsection \<open>Pushing\<close>

lemma deque_store:
  assumes inv: "deque_inv d xs" and k: "length xs < capacity d"
  shows "deque_inv (d\<lparr>m_raw_byte_array := (m_raw_byte_array d)[slot_of (capacity d) (m_begin d) (length xs) := Some x],
      m_end := end_code (capacity d) (m_begin d) (length xs + 1)\<rparr>) (xs @ [x])"
  using assms slot_of_inj [of "m_begin d" "capacity d"] slot_of_less [of "m_begin d" "capacity d"]
  by (auto simp: deque_inv_def capacity_def nth_list_update nth_append)

lemma construct_at_position_spec:
  "p < capacity d \<Longrightarrow> construct_at_position dbg d p v = (case v of Inl ex \<Rightarrow> Some (d, Some ex)
      | Inr x \<Rightarrow> Some (d\<lparr>m_raw_byte_array := (m_raw_byte_array d)[p := Some x]\<rparr>, None))"
  by (simp add: construct_at_position_def raw_array_iterator_at_def
      raw_array_iterator_unsafe_at_def capacity_def split: sum.split)

theorem push_back_spec:
  assumes inv: "deque_inv d xs" and k: "length xs < capacity d"
  shows "push_back_internal dbg d (Inl ex) = Some (d, Some ex)"
    and "\<exists>d'. push_back_internal dbg d (Inr x) = Some (d', None) \<and> deque_inv d' (xs @ [x]) \<and> capacity d' = capacity d"
proof -
  let ?n = "capacity d" let ?b = "m_begin d"
  define p where "p = slot_of ?n ?b (length xs)"
  define e where "e = (if m_end d \<ge> ?n then 0 else m_end d + 1)"
  have n: "?b < ?n" "m_end d = end_code ?n ?b (length xs)" using inv by (auto simp: deque_inv_def)
  have e: "e = end_code ?n ?b (length xs + 1)" using n k by (auto simp: end_code_def e_def)
  have p: "(if e < ?b then e else m_end d) = p" using n k by (auto simp: end_code_def slot_of_def p_def e_def)
  have b: "p < ?n" "e \<le> ?n" using n k by (auto simp: slot_of_less p_def e end_code_def)
  have pre: "dq_full dbg d = Some False" "dq_size dbg d = Some (length xs)"
    using dq_full_spec [OF inv] dq_size_spec [OF inv] k by simp_all
  have run: "push_back_internal dbg d v = do {
     (d, ex) \<leftarrow> construct_at_position dbg d p v;
     (case ex of Some ex \<Rightarrow> Some (d, Some ex)
      | None \<Rightarrow> do {
          let d = d\<lparr>m_end := e\<rparr>;
          check_size dbg d (\<lambda>n. Suc (length xs) = n);
          Some (d, None) }) }" for v
    using pre b by (simp only: push_back_internal_def e_def [symmetric] p Let_def) simp
  show "push_back_internal dbg d (Inl ex) = Some (d, Some ex)"
    by (simp add: run construct_at_position_spec [OF b(1)])
  let ?d = "d\<lparr>m_raw_byte_array := (m_raw_byte_array d)[p := Some x], m_end := e\<rparr>"
  have inv': "deque_inv ?d (xs @ [x])" unfolding e p_def by (rule deque_store [OF inv k])
  have "check_size dbg ?d (\<lambda>n. Suc (length xs) = n) = Some ()"
    by (rule check_size_spec [OF inv']) simp
  then have "push_back_internal dbg d (Inr x) = Some (?d, None)"
    by (simp add: run construct_at_position_spec [OF b(1)] Let_def)
  with inv' show "\<exists>d'. push_back_internal dbg d (Inr x) = Some (d', None) \<and> deque_inv d' (xs @ [x]) \<and> capacity d' = capacity d"
    by (auto simp: capacity_def)
qed

lemma slot_of_front:
  assumes "b < n" "i < n"
  defines "b' \<equiv> (if b \<le> 0 then n - 1 else b - 1)"
  shows "slot_of n b' i = (case i of 0 \<Rightarrow> b' | Suc j \<Rightarrow> slot_of n b j)"
  using assms by (auto simp: slot_of_def split: nat.splits)

lemma deque_store_front:
  assumes inv: "deque_inv d xs" and k: "length xs < capacity d"
  defines "b' \<equiv> (if m_begin d \<le> 0 then capacity d - 1 else m_begin d - 1)"
  shows "deque_inv (d\<lparr>m_raw_byte_array := (m_raw_byte_array d)[b' := Some x],
      m_end := end_code (capacity d) b' (length xs + 1), m_begin := b'\<rparr>) (x # xs)"
proof -
  let ?n = "capacity d"
  have n: "m_begin d < ?n" "b' < ?n" using inv by (auto simp: deque_inv_def b'_def)
  have b': "b' = slot_of ?n (m_begin d) (?n - 1)" using n by (auto simp: slot_of_def b'_def)
  have "(m_raw_byte_array d)[b' := Some x] ! slot_of ?n b' i = (if i < length (x # xs) then Some ((x # xs) ! i) else None)"
    if i: "i < ?n" for i
  proof (cases i)
    case 0
    then show ?thesis using slot_of_front [OF n(1) i] n(2) b'_def by (simp add: capacity_def)
  next
    case (Suc j)
    have "slot_of ?n (m_begin d) j \<noteq> b'" unfolding b' using slot_of_inj [of "m_begin d" ?n j "?n - 1"] n i Suc by auto
    moreover have "slot_of ?n b' i = slot_of ?n (m_begin d) j"
      using slot_of_front [OF n(1) i] Suc b'_def by simp
    ultimately show ?thesis using inv i Suc by (simp add: deque_inv_def)
  qed
  with inv k n(2) show ?thesis by (simp add: deque_inv_def capacity_def)
qed

theorem push_front_spec:
  assumes inv: "deque_inv d xs" and k: "length xs < capacity d"
  shows "push_front_internal dbg d (Inl ex) = Some (d, Some ex)"
    and "\<exists>d'. push_front_internal dbg d (Inr x) = Some (d', None) \<and> deque_inv d' (x # xs) \<and> capacity d' = capacity d"
proof -
  let ?n = "capacity d" let ?b = "m_begin d"
  define b' where "b' = (if ?b \<le> 0 then ?n - 1 else ?b - 1)"
  define e where "e = end_code ?n b' (length xs + 1)"
  have n: "?b < ?n" "m_end d = end_code ?n ?b (length xs)" using inv by (auto simp: deque_inv_def)
  have be: "(if m_begin d \<le> 0 then (?n - 1, if m_end d \<le> 0 then ?n else m_end d - 1) else (m_begin d - 1, m_end d)) = (b', e)"
    using n k by (auto simp: end_code_def b'_def e_def)
  have b: "b' < ?n" "e \<le> ?n" using n k by (auto simp: end_code_def b'_def e_def)
  have pre: "dq_full dbg d = Some False" "dq_size dbg d = Some (length xs)"
    using dq_full_spec [OF inv] dq_size_spec [OF inv] k by simp_all
  have run: "push_front_internal dbg d v = do {
     (d, ex) \<leftarrow> construct_at_position dbg d b' v;
     (case ex of Some ex \<Rightarrow> Some (d, Some ex)
      | None \<Rightarrow> do {
          let d = d\<lparr>m_end := e, m_begin := b'\<rparr>;
          check_size dbg d (\<lambda>n. Suc (length xs) = n);
          Some (d, None) }) }" for v
    using pre b by (simp only: push_front_internal_def be Let_def) simp
  show "push_front_internal dbg d (Inl ex) = Some (d, Some ex)"
    by (simp add: run construct_at_position_spec [OF b(1)])
  let ?d = "d\<lparr>m_raw_byte_array := (m_raw_byte_array d)[b' := Some x], m_end := e, m_begin := b'\<rparr>"
  have inv': "deque_inv ?d (x # xs)" unfolding e_def b'_def by (rule deque_store_front [OF inv k])
  have "check_size dbg ?d (\<lambda>n. Suc (length xs) = n) = Some ()"
    by (rule check_size_spec [OF inv']) simp
  then have "push_front_internal dbg d (Inr x) = Some (?d, None)"
    by (simp add: run construct_at_position_spec [OF b(1)] Let_def)
  with inv' show "\<exists>d'. push_front_internal dbg d (Inr x) = Some (d', None) \<and> deque_inv d' (x # xs) \<and> capacity d' = capacity d"
    by (auto simp: capacity_def)
qed

text \<open>On a full deque a push stops the program with assertions and is dropped without them.\<close>

lemma push_full:
  assumes inv: "deque_inv d xs" and k: "length xs = capacity d"
  shows "push_back_internal dbg d v = (if dbg then None else Some (d, None))"
    "push_front_internal dbg d v = (if dbg then None else Some (d, None))"
  using dq_full_spec [OF inv] k by (auto simp: push_back_internal_def push_front_internal_def ASSERT_def)

text \<open>The emplace members are the pushes: the extra checks of \<open>construct_at_position\<close> repeat the
  ones before it.\<close>

lemma construct_is_placement:
  "construct_at_position dbg d p v = do {
     ASSERT dbg (p < capacity d); p \<leftarrow> raw_array_iterator_at dbg d p; placement_new d p v }"
  by (simp add: construct_at_position_def placement_new_def)

lemma raw_array_iterator_at_checked:
  "do { ASSERT dbg (p < capacity d); raw_array_iterator_at dbg d p } = raw_array_iterator_at dbg d p"
  by (simp add: raw_array_iterator_at_def ASSERT_def)

lemma construct_eq:
  "construct_at_position dbg d p v = do { p \<leftarrow> raw_array_iterator_at dbg d p; placement_new d p v }"
  unfolding construct_is_placement by (subst (2) raw_array_iterator_at_checked [symmetric]) simp

theorem emplace_is_push:
  "dq_emplace_back dbg d v = dq_push_back dbg d v" "dq_emplace_front dbg d v = dq_push_front dbg d v"
  unfolding dq_emplace_back_def dq_push_back_def push_back_internal_def dq_emplace_front_def
    dq_push_front_def push_front_internal_def construct_eq Option.bind_assoc by (rule refl)+

subsection \<open>Popping\<close>

lemma destroy_by_position_spec:
  assumes "p < capacity d" "m_raw_byte_array d ! p = Some x"
  shows "destroy_by_position dbg d p = Some (d\<lparr>m_raw_byte_array := (m_raw_byte_array d)[p := None]\<rparr>)"
  using assms by (simp add: destroy_by_position_def raw_array_iterator_at_def
      raw_array_iterator_unsafe_at_def destroy_value_def capacity_def)

lemma deque_drop_last:
  assumes inv: "deque_inv d (xs @ [x])"
  shows "deque_inv (d\<lparr>m_end := end_code (capacity d) (m_begin d) (length xs),
      m_raw_byte_array := (m_raw_byte_array d)[slot_of (capacity d) (m_begin d) (length xs) := None]\<rparr>) xs"
  using assms slot_of_inj [of "m_begin d" "capacity d"] slot_of_less [of "m_begin d" "capacity d"]
  by (auto simp: deque_inv_def capacity_def nth_list_update nth_append)

theorem dq_pop_back_spec:
  assumes inv: "deque_inv d (xs @ [x])"
  shows "\<exists>d'. dq_pop_back dbg d = Some d' \<and> deque_inv d' xs \<and> capacity d' = capacity d"
proof -
  let ?n = "capacity d" let ?b = "m_begin d"
  define e where "e = (if m_end d \<le> 0 then ?n else m_end d - 1)"
  define p where "p = slot_of ?n ?b (length xs)"
  have n: "?b < ?n" "m_end d = end_code ?n ?b (Suc (length xs))" "length xs < ?n"
    "m_raw_byte_array d ! p = Some x"
    using inv by (auto simp: deque_inv_def p_def)
  have e: "e = end_code ?n ?b (length xs)" using n by (auto simp: end_code_def e_def)
  have p: "(if m_end d < ?b then m_end d else e) = p"
    using n by (auto simp: end_code_def slot_of_def p_def e_def)
  have b: "p < ?n" "e \<le> ?n" using n by (auto simp: slot_of_less p_def e end_code_def)
  let ?d = "d\<lparr>m_end := e, m_raw_byte_array := (m_raw_byte_array d)[p := None]\<rparr>"
  have inv': "deque_inv ?d xs" unfolding e p_def by (rule deque_drop_last [OF inv])
  have pre: "dq_empty dbg d = Some False" "dq_size dbg d = Some (Suc (length xs))"
    using dq_empty_spec [OF inv] dq_size_spec [OF inv] by simp_all
  have des: "destroy_by_position dbg (d\<lparr>m_end := e\<rparr>) p = Some ?d"
    using destroy_by_position_spec [of p "d\<lparr>m_end := e\<rparr>" x] b n by (simp add: capacity_def)
  have chk: "check_size dbg ?d ((=) (length xs)) = Some ()"
    by (rule check_size_spec [OF inv']) simp
  have "dq_pop_back dbg d = Some ?d"
    using pre b by (simp only: dq_pop_back_def e_def [symmetric] p Let_def) (simp add: des chk)
  with inv' show ?thesis by (auto simp: capacity_def)
qed

lemma slot_of_pop:
  assumes "b < n" "i < n"
  defines "b' \<equiv> (if n - 1 \<le> b then 0 else b + 1)"
  shows "slot_of n b' i = (if Suc i < n then slot_of n b (Suc i) else b)"
  using assms by (auto simp: slot_of_def)

lemma deque_drop_first:
  assumes inv: "deque_inv d (x # xs)"
  defines "b' \<equiv> (if capacity d - 1 \<le> m_begin d then 0 else m_begin d + 1)"
  shows "deque_inv (d\<lparr>m_begin := b', m_end := end_code (capacity d) b' (length xs),
      m_raw_byte_array := (m_raw_byte_array d)[m_begin d := None]\<rparr>) xs"
proof -
  let ?n = "capacity d" let ?b = "m_begin d"
  have n: "?b < ?n" "b' < ?n" "Suc (length xs) \<le> ?n" using inv by (auto simp: deque_inv_def b'_def)
  have b0: "?b = slot_of ?n ?b 0" using n by (simp add: slot_of_def)
  have "(m_raw_byte_array d)[?b := None] ! slot_of ?n b' i = (if i < length xs then Some (xs ! i) else None)"
    if i: "i < ?n" for i
  proof (cases "Suc i < ?n")
    case True
    then have "slot_of ?n ?b (Suc i) \<noteq> ?b" using slot_of_inj [of ?b ?n "Suc i" 0] b0 n by auto
    moreover have "slot_of ?n b' i = slot_of ?n ?b (Suc i)"
      using slot_of_pop [OF n(1) i] True by (simp add: b'_def)
    ultimately show ?thesis using inv True by (simp add: deque_inv_def)
  next
    case False
    then have "slot_of ?n b' i = ?b" using slot_of_pop [OF n(1) i] by (simp add: b'_def)
    with False n show ?thesis by (simp add: capacity_def)
  qed
  with inv n show ?thesis by (simp add: deque_inv_def capacity_def)
qed

theorem dq_pop_front_spec:
  assumes inv: "deque_inv d (x # xs)"
  shows "\<exists>d'. dq_pop_front dbg d = Some d' \<and> deque_inv d' xs \<and> capacity d' = capacity d"
proof -
  let ?n = "capacity d" let ?b = "m_begin d"
  define b' where "b' = (if ?n - 1 \<le> ?b then 0 else ?b + 1)"
  define e where "e = end_code ?n b' (length xs)"
  have n: "?b < ?n" "m_end d = end_code ?n ?b (Suc (length xs))" "length xs < ?n"
    "m_raw_byte_array d ! slot_of ?n ?b 0 = Some x"
    using inv by (auto simp: deque_inv_def)
  have x: "m_raw_byte_array d ! ?b = Some x" using n by (simp add: slot_of_def)
  have be: "(if ?b \<ge> ?n - 1 then (0, if m_end d \<ge> ?n then 0 else m_end d + 1) else (?b + 1, m_end d)) = (b', e)"
    using n by (auto simp: end_code_def b'_def e_def)
  have b: "b' < ?n" "e \<le> ?n" using n by (auto simp: end_code_def b'_def e_def)
  let ?d = "d\<lparr>m_begin := b', m_end := e, m_raw_byte_array := (m_raw_byte_array d)[?b := None]\<rparr>"
  have inv': "deque_inv ?d xs" unfolding e_def b'_def by (rule deque_drop_first [OF inv])
  have pre: "dq_empty dbg d = Some False" "dq_size dbg d = Some (Suc (length xs))"
    using dq_empty_spec [OF inv] dq_size_spec [OF inv] by simp_all
  have des: "destroy_by_position dbg (d\<lparr>m_begin := b', m_end := e\<rparr>) ?b = Some ?d"
    using destroy_by_position_spec [of ?b "d\<lparr>m_begin := b', m_end := e\<rparr>" x] n x by (simp add: capacity_def)
  have chk: "check_size dbg ?d ((=) (length xs)) = Some ()"
    by (rule check_size_spec [OF inv']) simp
  have "dq_pop_front dbg d = Some ?d"
    using pre b n(1) by (simp only: dq_pop_front_def be Let_def) (simp add: des chk)
  with inv' show ?thesis by (auto simp: capacity_def)
qed

lemma pop_empty:
  assumes inv: "deque_inv d []"
  shows "dq_pop_back dbg d = (if dbg then None else Some d)"
    "dq_pop_front dbg d = (if dbg then None else Some d)"
  using dq_empty_spec [OF inv] by (auto simp: dq_pop_back_def dq_pop_front_def ASSERT_def)

end
