(* ===== verification/Deque_Sequence.thy ===== *)
theory Deque_Sequence
  imports Fixed_Deque
begin

section \<open>inplace_fixed_deque: clearing, assignment, iterators and its contract\<close>

text \<open>
  The second half of \<^verbatim>\<open>inplace_fixed_deque.hpp\<close>: \<open>clear\<close>, the assignments and constructors,
  the iterator (a pointer to the container and an index) and the interpretation of the
  container contracts.
\<close>

subsection \<open>Iterators\<close>

text \<open>The containers an iterator may point to live in a store; \<open>None\<close> is the null pointer.\<close>

type_synonym 'a deque_store = "nat \<Rightarrow> 'a inplace_fixed_deque option"

record deque_iterator =
  m_source :: "nat option"
  m_index :: size_t

definition iterator_null :: deque_iterator where
  "iterator_null = \<lparr>m_source = None, m_index = 0\<rparr>"

definition dq_begin :: "nat \<Rightarrow> deque_iterator" where
  "dq_begin a = \<lparr>m_source = Some a, m_index = 0\<rparr>"

definition dq_end :: "bool \<Rightarrow> 'a deque_store \<Rightarrow> nat \<Rightarrow> deque_iterator option" where
  "dq_end dbg st a = do {
     d \<leftarrow> st a;
     n \<leftarrow> dq_size dbg d;
     Some \<lparr>m_source = Some a, m_index = of_nat n\<rparr> }"

definition it_size :: "bool \<Rightarrow> 'a deque_store \<Rightarrow> nat \<Rightarrow> size_t option" where
  "it_size dbg st a = do { d \<leftarrow> st a; n \<leftarrow> dq_size dbg d; Some (of_nat n) }"

definition it_dereference :: "bool \<Rightarrow> 'a deque_store \<Rightarrow> deque_iterator \<Rightarrow> 'a option" where
  "it_dereference dbg st it = do {
     ASSERT dbg (m_source it \<noteq> None);
     a \<leftarrow> m_source it;
     n \<leftarrow> it_size dbg st a;
     ASSERT dbg (m_index it < n);
     d \<leftarrow> st a;
     dq_index dbg d (unat (m_index it)) }"

definition it_equal :: "bool \<Rightarrow> deque_iterator \<Rightarrow> deque_iterator \<Rightarrow> bool option" where
  "it_equal dbg it other = do {
     ASSERT dbg (m_source other = m_source it);
     if m_source it \<noteq> m_source other then Some True else do {
     ASSERT dbg (m_source other \<noteq> None \<and> m_source it \<noteq> None);
     if m_source other = None \<or> m_source it = None then Some True
     else Some (m_index it = m_index other) } }"

definition it_increment :: "bool \<Rightarrow> 'a deque_store \<Rightarrow> deque_iterator \<Rightarrow> deque_iterator option" where
  "it_increment dbg st it = do {
     ASSERT dbg (m_source it \<noteq> None);
     (case m_source it of
        None \<Rightarrow> Some it
      | Some a \<Rightarrow> do {
          n \<leftarrow> it_size dbg st a;
          ASSERT dbg (m_index it \<le> n);
          if m_index it \<ge> n then Some it else Some (it\<lparr>m_index := m_index it + 1\<rparr>) }) }"

definition it_decrement :: "bool \<Rightarrow> 'a deque_store \<Rightarrow> deque_iterator \<Rightarrow> deque_iterator option" where
  "it_decrement dbg st it = do {
     ASSERT dbg (m_source it \<noteq> None);
     (case m_source it of
        None \<Rightarrow> Some it
      | Some a \<Rightarrow> do {
          ASSERT dbg (m_index it > 0);
          if m_index it \<le> 0 then Some it
          else if m_index it = 0 then do { n \<leftarrow> it_size dbg st a; Some (it\<lparr>m_index := n\<rparr>) }
          else Some (it\<lparr>m_index := m_index it - 1\<rparr>) }) }"

text \<open>\<open>advance\<close>: the argument is a \<open>ptrdiff_t\<close>, read with \<open>sint\<close>; negating the least one overflows. One of the assertions
  asks \<open>overflow_check().is_not_overflow_addition\<close>, members the container does not have (a build with assertions that
  instantiates \<open>advance\<close> does not compile), so the answer is a parameter, \<open>no_overflow\<close>.\<close>

definition it_advance :: "(size_t \<Rightarrow> size_t \<Rightarrow> bool) \<Rightarrow> bool \<Rightarrow> 'a deque_store \<Rightarrow> deque_iterator \<Rightarrow> size_t \<Rightarrow> deque_iterator option" where
  "it_advance no_overflow dbg st it added_to_index = do {
     ASSERT dbg (m_source it \<noteq> None);
     (case m_source it of
        None \<Rightarrow> Some it
      | Some a \<Rightarrow> do {
          n \<leftarrow> it_size dbg st a;
          if sint added_to_index \<ge> 0 then do {
            ASSERT dbg (n \<ge> added_to_index);
            ASSERT dbg (no_overflow (m_index it) added_to_index);
            let new_index = m_index it + added_to_index;
            ASSERT dbg (n \<ge> new_index);
            Some (it\<lparr>m_index := (if new_index > n then n else new_index)\<rparr>) }
          else do {
            ASSERT True (sint added_to_index \<noteq> - (2 ^ 31));
            let subtracted = - added_to_index;
            ASSERT dbg (n \<ge> subtracted);
            ASSERT dbg (m_index it \<ge> subtracted);
            if m_index it < subtracted then Some (it\<lparr>m_index := 0\<rparr>)
            else do {
              ASSERT dbg (n \<ge> m_index it - subtracted);
              Some (it\<lparr>m_index := m_index it - subtracted\<rparr>) } } }) }"

definition it_distance_to :: "bool \<Rightarrow> deque_iterator \<Rightarrow> deque_iterator \<Rightarrow> size_t option" where
  "it_distance_to dbg it other = do {
     ASSERT dbg (m_source it \<noteq> None);
     if m_source it = None then Some 0 else do {
     ASSERT dbg (m_source other = m_source it);
     if m_source it \<noteq> m_source other then Some 0
     else if m_index other \<ge> m_index it then Some (m_index other - m_index it)
     else Some (- (m_index it - m_index other)) } }"

text \<open>The values an iterator loop \<open>for(; it != last; ++it)\<close> visits.\<close>

partial_function (option) range_values ::
  "bool \<Rightarrow> 'a deque_store \<Rightarrow> deque_iterator \<Rightarrow> deque_iterator \<Rightarrow> 'a list option" where
  "range_values dbg st it last_it = do {
     eq \<leftarrow> it_equal dbg it last_it;
     if eq then Some [] else do {
     v \<leftarrow> it_dereference dbg st it;
     it \<leftarrow> it_increment dbg st it;
     vs \<leftarrow> range_values dbg st it last_it;
     Some (v # vs) } }"

text \<open>Assignment from a container at another address, and the copy constructor; \<open>copy\<close> is the
  copy constructor of \<open>T\<close>.\<close>

definition operator_assign ::
  "bool \<Rightarrow> ('a \<Rightarrow> 'a made) \<Rightarrow> 'a deque_store \<Rightarrow> nat \<Rightarrow> nat \<Rightarrow> ('a deque_store \<times> cpp_exception option) option" where
  "operator_assign dbg copy st this rhs = (if rhs = this then Some (st, None) else do {
     last_it \<leftarrow> dq_end dbg st rhs;
     vs \<leftarrow> range_values dbg st (dq_begin rhs) last_it;
     d \<leftarrow> st this;
     (d, ex) \<leftarrow> assign_internal dbg d (map copy vs);
     Some (st(this \<mapsto> d), ex) })"

definition copy_construct ::
  "bool \<Rightarrow> ('a \<Rightarrow> 'a made) \<Rightarrow> 'a deque_store \<Rightarrow> nat \<Rightarrow> nat \<Rightarrow> nat \<Rightarrow> ('a deque_store \<times> cpp_exception option) option" where
  "copy_construct dbg copy st item_amount this rhs = do {
     last_it \<leftarrow> dq_end dbg st rhs;
     vs \<leftarrow> range_values dbg st (dq_begin rhs) last_it;
     (d, ex) \<leftarrow> assign_internal dbg (deque_new item_amount) (map copy vs);
     Some (st(this \<mapsto> d), ex) }"

subsection \<open>Clearing\<close>

lemma destroy_append: "destroy slots (is @ js) = do { slots \<leftarrow> destroy slots is; destroy slots js }"
  by (induction "is" arbitrary: slots) (auto split: bind_splits)

lemma destroy_spec:
  assumes "distinct is" "\<And>i. i \<in> set is \<Longrightarrow> i < length slots \<and> slots ! i \<noteq> None"
  shows "\<exists>slots'. destroy slots is = Some slots' \<and> length slots' = length slots \<and>
    (\<forall>j<length slots. slots' ! j = (if j \<in> set is then None else slots ! j))"
  using assms
proof (induction "is" arbitrary: slots)
  case (Cons i "is")
  have i: "i < length slots" "slots ! i \<noteq> None" using Cons.prems(2) by auto
  have "j < length (slots[i := None]) \<and> slots[i := None] ! j \<noteq> None" if "j \<in> set is" for j
    using that i(1) Cons.prems(1) Cons.prems(2) [of j] by (auto simp: nth_list_update)
  from Cons.IH [OF _ this] Cons.prems(1) obtain slots' where
    "destroy (slots[i := None]) is = Some slots'" "length slots' = length slots"
    "\<forall>j<length slots. slots' ! j = (if j \<in> set is then None else slots[i := None] ! j)" by auto
  with i Cons.prems(1) show ?case
    by (intro exI [of _ slots']) (auto simp: destroy_value_def nth_list_update)
qed simp

lemma deque_live:
  assumes inv: "deque_inv d xs" and j: "j < capacity d"
  shows "m_raw_byte_array d ! j \<noteq> None \<longleftrightarrow>
    (if m_begin d \<le> m_end d then m_begin d \<le> j \<and> j < m_end d else m_begin d \<le> j \<or> j \<le> m_end d)"
proof -
  let ?n = "capacity d" let ?b = "m_begin d"
  define i where "i = (if ?b \<le> j then j - ?b else j + ?n - ?b)"
  have n: "?b < ?n" "length xs \<le> ?n" "m_end d = end_code ?n ?b (length xs)" using inv by (auto simp: deque_inv_def)
  have i: "slot_of ?n ?b i = j" "i < ?n" using n j by (auto simp: i_def slot_of_def)
  then have "m_raw_byte_array d ! j \<noteq> None \<longleftrightarrow> i < length xs" using inv by (auto simp: deque_inv_def split: if_splits)
  also have "\<dots> \<longleftrightarrow> (if ?b \<le> m_end d then ?b \<le> j \<and> j < m_end d else ?b \<le> j \<or> j \<le> m_end d)"
    using n j by (auto simp: i_def end_code_def split: if_splits)
  finally show ?thesis .
qed

theorem dq_clear_spec:
  assumes inv: "deque_inv d xs"
  shows "dq_clear dbg d = Some (deque_new (capacity d))"
proof -
  let ?n = "capacity d" let ?b = "m_begin d" let ?e = "m_end d" let ?raw = "m_raw_byte_array d"
  define runs where "runs = (if ?b \<le> ?e then [?b..<?e] else [?b..<?n] @ [0..<Suc ?e])"
  have n: "?b < ?n" "?e \<le> ?n" "length ?raw = ?n"
    using inv by (auto simp: deque_inv_def end_code_def capacity_def)
  have live: "i < ?n \<Longrightarrow> ?raw ! i \<noteq> None \<longleftrightarrow> i \<in> set runs" for i
    using deque_live [OF inv, of i] n by (auto simp: runs_def)
  have "distinct runs" "set runs \<subseteq> {..<?n}" using n by (auto simp: runs_def)
  with live n(3) destroy_spec [of runs ?raw] obtain raw' where r: "destroy ?raw runs = Some raw'" "length raw' = ?n"
    "\<forall>j<?n. raw' ! j = (if j \<in> set runs then None else ?raw ! j)" by (metis lessThan_iff subsetD)
  have "raw' ! i = None" if "i < ?n" for i using r(3) live [OF that] that by (cases "i \<in> set runs") auto
  then have "raw' = replicate ?n None" using r(2) by (intro nth_equalityI) auto
  then have new: "(pretend_clear d)\<lparr>m_raw_byte_array := raw'\<rparr> = deque_new ?n"
    by (simp add: pretend_clear_def deque_new_def)
  have it: "raw_array_iterator_unsafe_at dbg (pretend_clear d) p = Some p" if "p \<le> ?n" for p
    using that by (simp add: raw_array_iterator_unsafe_at_def pretend_clear_def capacity_def)
  have p: "m_raw_byte_array (pretend_clear d) = ?raw" "capacity (pretend_clear d) = ?n"
    by (simp_all add: pretend_clear_def capacity_def)
  show ?thesis
  proof (cases "?b \<le> ?e")
    case True
    with r(1) n new show ?thesis by (simp add: dq_clear_def Let_def it p runs_def)
  next
    case False
    with r(1) obtain s where "destroy ?raw [?b..<?n] = Some s" "destroy s [0..<Suc ?e] = Some raw'"
      by (auto simp: runs_def destroy_append bind_eq_Some_conv simp del: upt_Suc)
    with False n new show ?thesis by (simp add: dq_clear_def Let_def it p del: upt_Suc)
  qed
qed

subsection \<open>Assignment\<close>

lemma deque_of_block:
  assumes "length us \<le> n" "0 < n" "n < 2 ^ 31"
  shows "deque_inv \<lparr>m_raw_byte_array = put_block (replicate n None) 0 us, m_begin = 0, m_end = length us\<rparr> us"
  using assms by (auto simp: deque_inv_def capacity_def put_block_def end_code_def slot_of_def nth_append)

lemma made_prefix_unique:
  assumes "map Inr us @ Inl ex # vs = map Inr us' @ rest" "rest = [] \<or> isl (hd rest)"
  shows "us' = us \<and> rest = Inl ex # vs"
proof -
  have tw: "takeWhile (\<lambda>v. \<not> isl v) (map Inr zs @ r) = map Inr zs"
    if "r = [] \<or> isl (hd r)" for zs and r :: "('a + 'b) list"
    using that by (induction zs) (cases r, simp_all)
  then have "takeWhile (\<lambda>v. \<not> isl v) (map Inr us' @ rest) = map Inr us'" using assms(2) by blast
  moreover have "takeWhile (\<lambda>v. \<not> isl v) (map Inr us @ Inl ex # vs) = map Inr us" by (rule tw) simp
  ultimately have "(map Inr us' :: ('a + 'b) list) = map Inr us" using assms(1) by metis
  then have "us' = us" by (simp add: map_injective)
  with assms(1) show ?thesis by simp
qed

lemma assign_internal_run:
  assumes inv: "deque_inv d xs"
  shows "\<exists>us rest. source = map Inr us @ rest \<and> length us \<le> capacity d \<and>
    ((rest = [] \<or> length us = capacity d) \<and>
       assign_internal dbg d source = (if dbg \<and> rest \<noteq> [] then None else
         Some (\<lparr>m_raw_byte_array = put_block (replicate (capacity d) None) 0 us, m_begin = 0, m_end = length us\<rparr>, None)) \<or>
     (\<exists>ex vs. rest = Inl ex # vs \<and> assign_internal dbg d source = Some (deque_new (capacity d), Some ex)))"
proof -
  let ?n = "capacity d"
  have n: "0 < ?n" using inv by (auto simp: deque_inv_def)
  have "raw_range (replicate ?n None :: 'a slots) 0 ?n" by (simp add: raw_range_def)
  from uninitialized_copy_spec [OF _ _ this, of source dbg] obtain us rest where
    us: "source = map Inr us @ rest" "length us \<le> ?n" and
    c: "uninitialized_copy_and_rollback_if_exception dbg (replicate ?n None) source 0 ?n =
       Some (put_block (replicate ?n None) 0 us, Inr \<lparr>m_unitialized_iterator = length us,
         m_sucessfull_inserted_items_amount = length us, m_transaction_fully_successful = (rest = [])\<rparr>) \<and>
       (rest = [] \<or> length us = ?n) \<or>
     (\<exists>ex vs. rest = Inl ex # vs \<and>
       uninitialized_copy_and_rollback_if_exception dbg (replicate ?n None) source 0 ?n = Some (replicate ?n None, Inl ex))"
    by auto
  have d: "assign_internal dbg d source = do {
     (slots, r) \<leftarrow> uninitialized_copy_and_rollback_if_exception dbg (replicate ?n None) source 0 ?n;
     let d = (deque_new ?n)\<lparr>m_raw_byte_array := slots\<rparr>;
     (case r of Inl ex \<Rightarrow> Some (d, Some ex)
      | Inr result \<Rightarrow> do {
          ASSERT dbg (m_transaction_fully_successful result);
          Some (d\<lparr>m_begin := 0, m_end := m_sucessfull_inserted_items_amount result\<rparr>, None) }) }"
    using n by (simp add: assign_internal_def dq_clear_spec [OF inv] raw_array_iterator_at_def
        raw_array_iterator_unsafe_at_def deque_new_def [of ?n] capacity_def [of "\<lparr>m_raw_byte_array = _, m_begin = _, m_end = _\<rparr>"])
  from c show ?thesis
  proof (elim disjE conjE exE)
    fix ex vs
    assume "rest = Inl ex # vs"
      "uninitialized_copy_and_rollback_if_exception dbg (replicate ?n None) source 0 ?n = Some (replicate ?n None, Inl ex)"
    with us d show ?thesis by (intro exI [of _ us] exI [of _ rest]) (simp add: deque_new_def)
  qed (use us d in \<open>(intro exI [of _ us] exI [of _ rest], simp add: deque_new_def ASSERT_def)+\<close>)
qed

text \<open>All copies succeed and fit: the deque holds them. A copy throws: the deque is empty. Too many
  elements: stopped by the assertion, cut off at the capacity without it.\<close>

theorem assign_internal_spec:
  assumes inv: "deque_inv d xs"
  shows "length us \<le> capacity d \<Longrightarrow>
      \<exists>d'. assign_internal dbg d (map Inr us) = Some (d', None) \<and> deque_inv d' us \<and> capacity d' = capacity d"
    and "length us < capacity d \<Longrightarrow>
      assign_internal dbg d (map Inr us @ Inl ex # vs) = Some (deque_new (capacity d), Some ex)"
    and "capacity d < length us \<Longrightarrow> assign_internal True d (map Inr us) = None \<and>
      (\<exists>d'. assign_internal False d (map Inr us) = Some (d', None) \<and> deque_inv d' (take (capacity d) us))"
proof -
  have n: "0 < capacity d" "capacity d < 2 ^ 31" using inv by (auto simp: deque_inv_def)
  note block = deque_of_block [OF _ n]
  have split: "\<exists>ks. us = ks' @ ks \<and> rest = map Inr ks" if "map Inr us = map Inr ks' @ (rest :: ('c + 'a) list)" for ks' rest
    using that by (auto simp: map_eq_append_conv)
  have cap: "capacity \<lparr>m_raw_byte_array = put_block (replicate (capacity d) None) 0 ks, m_begin = 0, m_end = k\<rparr> = capacity d"
    if "length ks \<le> capacity d" for ks :: "'a list" and k
    using that by (simp add: capacity_def)
  show "\<exists>d'. assign_internal dbg d (map Inr us) = Some (d', None) \<and> deque_inv d' us \<and> capacity d' = capacity d"
    if le: "length us \<le> capacity d"
    using assign_internal_run [OF inv, of "map Inr us" dbg] le block [of us] cap [of us]
    by (auto dest!: split)
  show "assign_internal dbg d (map Inr us @ Inl ex # vs) = Some (deque_new (capacity d), Some ex)"
    if lt: "length us < capacity d"
    using assign_internal_run [OF inv, of "map Inr us @ Inl ex # vs" dbg]
  proof (elim exE conjE disjE)
    fix us' rest assume eq: "map Inr us @ Inl ex # vs = map Inr us' @ rest" and l: "length us' = capacity d"
    then have "(map Inr us @ Inl ex # vs) ! length us = Inr (us' ! length us)" using lt by (simp add: nth_append)
    then show ?thesis by (simp add: nth_append)
  qed (auto dest!: made_prefix_unique made_prefix_unique [of _ _ _ _ "[]", simplified])
  show "assign_internal True d (map Inr us) = None \<and>
      (\<exists>d'. assign_internal False d (map Inr us) = Some (d', None) \<and> deque_inv d' (take (capacity d) us))"
    if gt: "capacity d < length us"
    using assign_internal_run [OF inv, of "map Inr us" True] assign_internal_run [OF inv, of "map Inr us" False] gt
      block [of "take (capacity d) us"]
    by (auto dest!: split)
qed

subsection \<open>The iterator is an index\<close>

text \<open>\<open>iter a i\<close> is the iterator of the container at \<open>a\<close> that stands at index \<open>i\<close>.\<close>

abbreviation iter :: "nat \<Rightarrow> nat \<Rightarrow> deque_iterator" where
  "iter a i \<equiv> \<lparr>m_source = Some a, m_index = of_nat i\<rparr>"

definition deque_at :: "'a deque_store \<Rightarrow> nat \<Rightarrow> 'a list \<Rightarrow> bool" where
  "deque_at st a xs \<longleftrightarrow> (\<exists>d. st a = Some d \<and> deque_inv d xs)"

lemma deque_at_size:
  assumes "deque_at st a xs"
  shows "it_size dbg st a = Some (of_nat (length xs))" "length xs < 2 ^ 31"
    "dq_end dbg st a = Some (iter a (length xs))"
proof -
  from assms obtain d where d: "st a = Some d" "deque_inv d xs" by (auto simp: deque_at_def)
  then show "it_size dbg st a = Some (of_nat (length xs))" "dq_end dbg st a = Some (iter a (length xs))"
    by (simp_all add: it_size_def dq_end_def dq_size_spec)
  show "length xs < 2 ^ 31" using d(2) by (simp add: deque_inv_def)
qed

lemma it_dereference_spec:
  assumes at: "deque_at st a xs" and i: "i < length xs"
  shows "it_dereference dbg st (iter a i) = Some (xs ! i)"
proof -
  from at obtain d where d: "st a = Some d" "deque_inv d xs" by (auto simp: deque_at_def)
  with deque_at_size [OF at] i dq_index_spec [OF d(2) i, of dbg] show ?thesis
    by (simp add: it_dereference_def size_t_nat)
qed

lemma it_increment_spec:
  assumes at: "deque_at st a xs" and i: "i \<le> length xs"
  shows "it_increment dbg st (iter a i) = Some (iter a (if i = length xs then i else Suc i))"
  using deque_at_size [OF at] i by (auto simp: it_increment_def size_t_nat add.commute)

lemma it_decrement_spec:
  assumes at: "deque_at st a xs" and i: "i \<le> length xs"
  shows "it_decrement dbg st (iter a i) = (if i = 0 \<and> dbg then None else Some (iter a (i - 1)))"
proof -
  have "(0 :: size_t) < of_nat i \<longleftrightarrow> 0 < i" using of_nat_less_size_t [of 0 i] deque_at_size [OF at] i by simp
  then show ?thesis by (cases i) (auto simp: it_decrement_def ASSERT_def)
qed

lemma it_equal_spec:
  assumes at: "deque_at st a xs" and i: "i \<le> length xs" "j \<le> length xs"
  shows "it_equal dbg (iter a i) (iter a j) = Some (i = j)"
  using deque_at_size [OF at] i by (simp add: it_equal_def size_t_nat)

text \<open>Without assertions a jump stops at the ends; with them a jump over an end fails.\<close>

lemma it_advance_forward:
  assumes at: "deque_at st a xs" and i: "i \<le> length xs" and n: "sint n = int k"
  shows "it_advance no_overflow dbg st (iter a i) n =
    (if dbg \<and> (length xs < i + k \<or> \<not> no_overflow (of_nat i) n) then None else Some (iter a (min (length xs) (i + k))))"
proof -
  have k31: "k < 2 ^ 31" using sint_lt [of n] n by simp
  have nk: "n = of_nat k" using of_int_sint [of n, where 'a = size_t] n by simp
  have sum: "of_nat i + n = (of_nat (i + k) :: size_t)" "i + k < 2 ^ 32"
    using nk deque_at_size [OF at] i k31 by simp_all
  have "(of_nat (length xs) :: size_t) < of_nat (i + k) \<longleftrightarrow> length xs < i + k"
    using deque_at_size [OF at] sum(2) by (intro of_nat_less_size_t) simp_all
  moreover have "n \<le> of_nat (length xs) \<longleftrightarrow> k \<le> length xs"
    unfolding nk using deque_at_size [OF at] k31 by (intro of_nat_le_size_t) simp_all
  moreover have "of_nat i + n \<le> of_nat (length xs) \<longleftrightarrow> i + k \<le> length xs"
    unfolding sum(1) using deque_at_size [OF at] sum(2) by (intro of_nat_le_size_t) simp_all
  ultimately show ?thesis using n sum(1) deque_at_size(1) [OF at, of dbg]
    by (auto simp: it_advance_def Let_def min_def ASSERT_def not_le simp del: of_nat_add)
qed

lemma it_advance_backward:
  assumes at: "deque_at st a xs" and i: "i \<le> length xs" and n: "sint n = - int k" "0 < k" "k < 2 ^ 31"
  shows "it_advance no_overflow dbg st (iter a i) n = (if dbg \<and> i < k then None else Some (iter a (i - k)))"
proof -
  have nk: "- n = of_nat k" using of_int_sint [of n, where 'a = size_t] n(1) by auto
  have lt: "(of_nat i :: size_t) < of_nat k \<longleftrightarrow> i < k"
    using deque_at_size [OF at] i n(3) by (intro of_nat_less_size_t) simp_all
  have le: "(of_nat k :: size_t) \<le> of_nat m \<longleftrightarrow> k \<le> m" if "m \<le> length xs" for m
    using deque_at_size [OF at] that n(3) by (intro of_nat_le_size_t) simp_all
  have sub: "(of_nat i :: size_t) - of_nat k = of_nat (i - k)" if "k \<le> i" using that by (simp add: of_nat_diff)
  have "(of_nat (i - k) :: size_t) \<le> of_nat (length xs)"
    using deque_at_size [OF at] i by (subst of_nat_le_size_t) simp_all
  with n nk lt le [of i] le [of "length xs"] sub i deque_at_size(1) [OF at, of dbg] show ?thesis
    by (auto simp: it_advance_def Let_def ASSERT_def not_le not_less)
qed

theorem it_advance_spec:
  assumes at: "deque_at st a xs" and i: "i \<le> length xs"
  shows "it_advance no_overflow dbg st (iter a i) n =
    (if sint n = - (2 ^ 31) then None
     else if dbg then (if 0 \<le> int i + sint n \<and> int i + sint n \<le> int (length xs) \<and> (0 \<le> sint n \<longrightarrow> no_overflow (of_nat i) n)
       then Some (iter a (nat (int i + sint n))) else None)
     else Some (iter a (nat (max 0 (min (int (length xs)) (int i + sint n))))))"
proof (cases "sint n \<ge> 0")
  case True
  then obtain k where k: "sint n = int k" by (metis nonneg_int_cases)
  have "nat (max 0 (min (int (length xs)) (int i + int k))) = min (length xs) (i + k)" "nat (int i + int k) = i + k" by simp_all
  then show ?thesis using it_advance_forward [OF at i k] k by (auto simp: min_def)
next
  case False
  define k where "k = nat (- sint n)"
  have k: "sint n = - int k" "0 < k" using False by (simp_all add: k_def)
  have b: "k \<le> 2 ^ 31" using sint_ge [of n] k by simp
  show ?thesis
  proof (cases "k = 2 ^ 31")
    case True
    with k deque_at_size(1) [OF at, of dbg] show ?thesis by (simp add: it_advance_def ASSERT_def)
  next
    case ne: False
    then have "nat (max 0 (min (int (length xs)) (int i - int k))) = i - k" "nat (int i - int k) = i - k" "k < 2 ^ 31"
      using i b by auto
    then show ?thesis using it_advance_backward [OF at i k] k ne i by auto
  qed
qed

theorem it_distance_to_spec:
  assumes at: "deque_at st a xs" and i: "i \<le> length xs" "j \<le> length xs"
  shows "it_distance_to dbg (iter a i) (iter a j) = Some (of_int (int j - int i))"
  using deque_at_size [OF at] i by (auto simp: it_distance_to_def size_t_nat)

text \<open>Walking from an iterator to the end visits exactly the remaining values.\<close>

theorem range_values_spec:
  assumes at: "deque_at st a xs" and i: "i \<le> length xs"
  shows "range_values dbg st (iter a i) (iter a (length xs)) = Some (drop i xs)"
  using i
proof (induction "length xs - i" arbitrary: i)
  case 0
  then show ?case using it_equal_spec [OF at, of i "length xs"] by (simp add: range_values.simps)
next
  case (Suc k)
  then have lt: "i < length xs" by simp
  have "range_values dbg st (iter a (Suc i)) (iter a (length xs)) = Some (drop (Suc i) xs)"
    using Suc by (intro Suc.hyps(1)) simp_all
  with lt it_equal_spec [OF at, of i "length xs" dbg] it_dereference_spec [OF at lt, of dbg]
    it_increment_spec [OF at, of i dbg]
  show ?case by (subst range_values.simps) (simp add: Cons_nth_drop_Suc)
qed

subsection \<open>Copying a container\<close>

theorem operator_assign_spec:
  assumes th: "deque_at st this ys" and rhs: "deque_at st rhs xs" and ne: "rhs \<noteq> this"
    and fits: "\<And>d. st this = Some d \<Longrightarrow> length xs \<le> capacity d"
  shows "map copy xs = map Inr us \<Longrightarrow>
      \<exists>st'. operator_assign dbg copy st this rhs = Some (st', None) \<and> deque_at st' this us \<and> deque_at st' rhs xs"
    and "map copy xs = map Inr us @ Inl ex # vs \<Longrightarrow>
      \<exists>st'. operator_assign dbg copy st this rhs = Some (st', Some ex) \<and> deque_at st' this [] \<and> deque_at st' rhs xs"
proof -
  from th obtain d where d: "st this = Some d" "deque_inv d ys" by (auto simp: deque_at_def)
  have n: "0 < capacity d" "capacity d < 2 ^ 31" using d by (auto simp: deque_inv_def)
  have rd: "range_values dbg st (dq_begin rhs) (iter rhs (length xs)) = Some xs"
    using range_values_spec [OF rhs, of 0] by (simp add: dq_begin_def)
  have run: "operator_assign dbg copy st this rhs = do {
     (d, ex) \<leftarrow> assign_internal dbg d (map copy xs); Some (st(this \<mapsto> d), ex) }"
    using ne rd d deque_at_size(3) [OF rhs] by (simp add: operator_assign_def)
  show "\<exists>st'. operator_assign dbg copy st this rhs = Some (st', None) \<and> deque_at st' this us \<and> deque_at st' rhs xs"
    if c: "map copy xs = map Inr us"
  proof -
    have "length us \<le> capacity d" using arg_cong [OF c, of length] fits [OF d(1)] by simp
    with assign_internal_spec(1) [OF d(2), of us dbg] run c rhs ne show ?thesis
      by (auto simp: deque_at_def)
  qed
  show "\<exists>st'. operator_assign dbg copy st this rhs = Some (st', Some ex) \<and> deque_at st' this [] \<and> deque_at st' rhs xs"
    if c: "map copy xs = map Inr us @ Inl ex # vs"
  proof -
    have "length us < capacity d" using arg_cong [OF c, of length] fits [OF d(1)] by simp
    with assign_internal_spec(2) [OF d(2), of us dbg ex vs] run c rhs ne deque_new_inv [OF n] show ?thesis
      by (auto simp: deque_at_def)
  qed
qed

theorem copy_construct_spec:
  assumes rhs: "deque_at st rhs xs" and n: "length xs \<le> n" "0 < n" "n < 2 ^ 31"
    and c: "map copy xs = map Inr us" and ne: "rhs \<noteq> this"
  shows "\<exists>st'. copy_construct dbg copy st n this rhs = Some (st', None) \<and> deque_at st' this us \<and> deque_at st' rhs xs"
proof -
  have "range_values dbg st (dq_begin rhs) (iter rhs (length xs)) = Some xs"
    using range_values_spec [OF rhs, of 0] by (simp add: dq_begin_def)
  moreover have "capacity (deque_new n :: 'a inplace_fixed_deque) = n" by (simp add: capacity_def deque_new_def)
  moreover have "length us \<le> n" using arg_cong [OF c, of length] n(1) by simp
  ultimately show ?thesis
    using assign_internal_spec(1) [OF deque_new_inv [OF n(2,3)], of us dbg] deque_at_size(3) [OF rhs, of dbg] c rhs ne
    by (auto simp: copy_construct_def deque_at_def)
qed

subsection \<open>The contract\<close>

definition dq_holds :: "nat \<Rightarrow> 'a inplace_fixed_deque \<Rightarrow> 'a list \<Rightarrow> bool" where
  "dq_holds n d xs \<longleftrightarrow> deque_inv d xs \<and> capacity d = n"

definition dq_step :: "bool \<Rightarrow> 'a queue_op \<Rightarrow> 'a inplace_fixed_deque \<Rightarrow> 'a inplace_fixed_deque option" where
  "dq_step dbg q d = (case q of
     Push_back v \<Rightarrow> map_option fst (push_back_internal dbg d (Inr v))
   | Push_front v \<Rightarrow> map_option fst (push_front_internal dbg d (Inr v))
   | Pop_back \<Rightarrow> dq_pop_back dbg d
   | Pop_front \<Rightarrow> dq_pop_front dbg d)"

lemma dq_step_law:
  assumes "dq_holds n d xs" "queue_valid n q xs"
  shows "\<exists>d'. dq_step dbg q d = Some d' \<and> dq_holds n d' (queue_list q xs)"
proof -
  have inv: "deque_inv d xs" "capacity d = n" using assms(1) by (simp_all add: dq_holds_def)
  show ?thesis
  proof (cases q)
    case (Push_back v)
    with assms(2) inv push_back_spec(2) [OF inv(1), of dbg v] show ?thesis by (auto simp: dq_step_def dq_holds_def)
  next
    case (Push_front v)
    with assms(2) inv push_front_spec(2) [OF inv(1), of dbg v] show ?thesis by (auto simp: dq_step_def dq_holds_def)
  next
    case Pop_back
    with assms(2) inv dq_pop_back_spec [of d "butlast xs" "last xs" dbg] show ?thesis
      by (auto simp: dq_step_def dq_holds_def)
  next
    case Pop_front
    with assms(2) inv show ?thesis
      by (cases xs) (auto simp: dq_step_def dq_holds_def dest: dq_pop_front_spec [of d _ _ dbg])
  qed
qed

interpretation dq: bounded_deque "dq_holds n" "dq_size dbg" "\<lambda>i d. dq_index dbg d i" "dq_step dbg" n for dbg n
  by unfold_locales (auto simp: dq_holds_def dq_size_spec dq_index_spec intro: dq_step_law [unfolded dq_holds_def])

end
