(* ===== verification/Mock_Objects.thy ===== *)
theory Mock_Objects
  imports Cpp_Prelude
begin

section \<open>The mock objects of the unit tests\<close>

text \<open>
  MocksCommon.h, StatisticaMock.h and StatisticaMockWithValue.h: objects that register the place they live at, carry a
  signature and count themselves, so that a container that forgets, doubles or revives an object runs
  into an assertion. A place is an address. The signature is a member of the object and stays in memory after the
  destructor, so it is a function of the place; the registered places are a set, as in the code. The mocks are used by one
  thread.
\<close>

type_synonym place = nat

subsection \<open>TMockBase\<close>

record mock_globals =
  mg_enabledObjectIntegrityCheck :: bool
  mg_ignoreCreating :: bool
  mg_objectsTracker :: "place set"
  mg_signature :: "place \<Rightarrow> 32 word"

definition SIGNATURE_CONSTRUCTED_OBJECT :: "32 word" where
  "SIGNATURE_CONSTRUCTED_OBJECT = 0xC0ED0BEC"

definition SIGNATURE_DESTROED_OBJECT :: "32 word" where
  "SIGNATURE_DESTROED_OBJECT = 0xDE0ED0BE"

lemma signatures_differ [simp]: "SIGNATURE_CONSTRUCTED_OBJECT \<noteq> SIGNATURE_DESTROED_OBJECT"
  by (simp add: SIGNATURE_CONSTRUCTED_OBJECT_def SIGNATURE_DESTROED_OBJECT_def)

definition unbusyObjectPlaceCheck :: "bool \<Rightarrow> place \<Rightarrow> 'x mock_globals_scheme \<Rightarrow> 'x mock_globals_scheme option" where
  "unbusyObjectPlaceCheck dbg this g = (if mg_ignoreCreating g then Some g
     else let isFreeObjectPlace = this \<notin> mg_objectsTracker g in do {
       ASSERT dbg isFreeObjectPlace;
       Some (if isFreeObjectPlace then g\<lparr>mg_objectsTracker := insert this (mg_objectsTracker g)\<rparr> else g) })"

definition set_signature :: "place \<Rightarrow> 32 word \<Rightarrow> 'x mock_globals_scheme \<Rightarrow> 'x mock_globals_scheme" where
  "set_signature this v g = g\<lparr>mg_signature := (mg_signature g)(this := v)\<rparr>"

definition TMockBase_construct :: "bool \<Rightarrow> place \<Rightarrow> 'x mock_globals_scheme \<Rightarrow> 'x mock_globals_scheme option" where
  "TMockBase_construct dbg this g = unbusyObjectPlaceCheck dbg this (set_signature this SIGNATURE_CONSTRUCTED_OBJECT g)"

definition TMockBase_copy :: "bool \<Rightarrow> place \<Rightarrow> place \<Rightarrow> 'x mock_globals_scheme \<Rightarrow> 'x mock_globals_scheme option" where
  "TMockBase_copy dbg this other g = unbusyObjectPlaceCheck dbg this (set_signature this SIGNATURE_CONSTRUCTED_OBJECT g)"

definition OfflessObjectIntegrityCheck :: "bool \<Rightarrow> place \<Rightarrow> 'x mock_globals_scheme \<Rightarrow> unit option" where
  "OfflessObjectIntegrityCheck dbg this g = do {
     ASSERT dbg (this \<noteq> 0);
     ASSERT dbg (mg_signature g this \<noteq> SIGNATURE_DESTROED_OBJECT);
     ASSERT dbg (mg_signature g this = SIGNATURE_CONSTRUCTED_OBJECT);
     ASSERT dbg (mg_ignoreCreating g \<or> this \<in> mg_objectsTracker g) }"

definition ObjectIntegrityCheck :: "bool \<Rightarrow> place \<Rightarrow> 'x mock_globals_scheme \<Rightarrow> unit option" where
  "ObjectIntegrityCheck dbg this g =
     (if mg_enabledObjectIntegrityCheck g then OfflessObjectIntegrityCheck dbg this g else Some ())"

definition TMockBase_destruct :: "bool \<Rightarrow> place \<Rightarrow> 'x mock_globals_scheme \<Rightarrow> 'x mock_globals_scheme option" where
  "TMockBase_destruct dbg this g = do {
     ObjectIntegrityCheck dbg this g;
     let g = set_signature this SIGNATURE_DESTROED_OBJECT g;
     let isObjectExist = this \<in> mg_objectsTracker g;
     ASSERT dbg (mg_ignoreCreating g \<or> isObjectExist);
     Some (if isObjectExist then g\<lparr>mg_objectsTracker := mg_objectsTracker g - {this}\<rparr> else g) }"

definition createdIsEmpty :: "'x mock_globals_scheme \<Rightarrow> bool" where
  "createdIsEmpty g \<longleftrightarrow> mg_objectsTracker g = {}"

definition createdAmount :: "'x mock_globals_scheme \<Rightarrow> size_t" where
  "createdAmount g = of_nat (card (mg_objectsTracker g))"

definition resetCreated :: "'x mock_globals_scheme \<Rightarrow> 'x mock_globals_scheme" where
  "resetCreated g = g\<lparr>mg_objectsTracker := {}\<rparr>"

definition objectIntegrityCheckMode :: "bool \<Rightarrow> 'x mock_globals_scheme \<Rightarrow> bool \<times> 'x mock_globals_scheme" where
  "objectIntegrityCheckMode Enable g =
     (mg_enabledObjectIntegrityCheck g, g\<lparr>mg_enabledObjectIntegrityCheck := Enable\<rparr>)"

definition ignoreCreating :: "bool \<Rightarrow> 'x mock_globals_scheme \<Rightarrow> bool \<times> 'x mock_globals_scheme" where
  "ignoreCreating Enable g = (mg_ignoreCreating g, g\<lparr>mg_ignoreCreating := Enable\<rparr>)"

subsection \<open>TCheckLostObjects\<close>

record lost_objects_check =
  lo_Created :: size_t
  lo_SavedObjectsTracker :: "place set"

definition TCheckLostObjects_new :: "bool \<Rightarrow> 'x mock_globals_scheme \<Rightarrow> lost_objects_check" where
  "TCheckLostObjects_new ExactlyCheck g =
     \<lparr>lo_Created = createdAmount g, lo_SavedObjectsTracker = (if ExactlyCheck then mg_objectsTracker g else {})\<rparr>"

definition TCheckLostObjects_destruct :: "bool \<Rightarrow> bool \<Rightarrow> lost_objects_check \<Rightarrow> 'x mock_globals_scheme \<Rightarrow> unit option" where
  "TCheckLostObjects_destruct dbg ExactlyCheck c g = do {
     ASSERT dbg (lo_Created c = createdAmount g);
     ASSERT dbg (\<not> ExactlyCheck \<or> mg_objectsTracker g = lo_SavedObjectsTracker c) }"

subsection \<open>TStatistica and the thrower\<close>

definition constructObject :: "64 word \<Rightarrow> 64 word" where
  "constructObject instanceAmount = instanceAmount + 1"

definition destructObject :: "bool \<Rightarrow> 64 word \<Rightarrow> 64 word option" where
  "destructObject dbg instanceAmount = do { ASSERT dbg (instanceAmount > 0); Some (instanceAmount - 1) }"

record throw_count =
  tc_amountOfConstructWithoutThrow :: size_t
  tc_amountOfConstructedWithoutThrow :: size_t
  tc_enabledThrowCount :: bool

definition throwCountMode :: "bool \<Rightarrow> throw_count \<Rightarrow> throw_count" where
  "throwCountMode Enable c = (if Enable
     then c\<lparr>tc_amountOfConstructedWithoutThrow := 0, tc_enabledThrowCount := True\<rparr>
     else c\<lparr>tc_enabledThrowCount := False\<rparr>)"

datatype mock_exception = TMockTestSomeException

definition MockTestSomeExceptionThrowerFunction :: "mock_exception option" where
  "MockTestSomeExceptionThrowerFunction = Some TMockTestSomeException"

text \<open>The function that throws is a variable; \<open>exceptionThrowerFunction\<close> is what calling it ends with.\<close>

definition throwAfterCountAmount :: "'e option \<Rightarrow> throw_count \<Rightarrow> throw_count \<times> 'e option" where
  "throwAfterCountAmount exceptionThrowerFunction c = (if tc_enabledThrowCount c then
       let c = c\<lparr>tc_amountOfConstructedWithoutThrow := tc_amountOfConstructedWithoutThrow c + 1\<rparr> in
       if tc_amountOfConstructedWithoutThrow c > tc_amountOfConstructWithoutThrow c
       then (c\<lparr>tc_amountOfConstructedWithoutThrow := 0\<rparr>, exceptionThrowerFunction)
       else (c, None)
     else (c, None))"

datatype behavior = TNonThrowAtConstrcutorFromValueBehaviorAspect | TThrowAtConstructObjectBehaviorAspect

record 'v mock_world = mock_globals +
  mw_instanceAmount :: "64 word"
  mw_throw :: throw_count
  mw_value :: "place \<Rightarrow> 'v"

fun throwAtConstrcutorFromValue :: "behavior \<Rightarrow> 'e option \<Rightarrow> 'v mock_world \<Rightarrow> 'v mock_world \<times> 'e option" where
  "throwAtConstrcutorFromValue TNonThrowAtConstrcutorFromValueBehaviorAspect thrower w = (w, None)"
| "throwAtConstrcutorFromValue TThrowAtConstructObjectBehaviorAspect thrower w =
     (case throwAfterCountAmount thrower (mw_throw w) of (c, ex) \<Rightarrow> (w\<lparr>mw_throw := c\<rparr>, ex))"

definition count_construct :: "'v mock_world \<Rightarrow> 'v mock_world" where
  "count_construct w = w\<lparr>mw_instanceAmount := constructObject (mw_instanceAmount w)\<rparr>"

definition set_value :: "place \<Rightarrow> 'v \<Rightarrow> 'v mock_world \<Rightarrow> 'v mock_world" where
  "set_value this v w = w\<lparr>mw_value := (mw_value w)(this := v)\<rparr>"

subsection \<open>TStatisticaMock\<close>

text \<open>A mock without a value: its constructors count, its assignments only check.\<close>

definition mock_default :: "bool \<Rightarrow> place \<Rightarrow> 'v mock_world \<Rightarrow> 'v mock_world option" where
  "mock_default dbg this w = do { w \<leftarrow> TMockBase_construct dbg this w; Some (count_construct w) }"

definition mock_copy :: "bool \<Rightarrow> place \<Rightarrow> place \<Rightarrow> 'v mock_world \<Rightarrow> 'v mock_world option" where
  "mock_copy dbg this other w = do { w \<leftarrow> TMockBase_construct dbg this w; Some (count_construct w) }"

definition mock_move :: "bool \<Rightarrow> place \<Rightarrow> place \<Rightarrow> 'v mock_world \<Rightarrow> 'v mock_world option" where
  "mock_move dbg this other w = do { w \<leftarrow> TMockBase_construct dbg this w; Some (count_construct w) }"

definition mock_assign :: "bool \<Rightarrow> place \<Rightarrow> place \<Rightarrow> 'v mock_world \<Rightarrow> 'v mock_world option" where
  "mock_assign dbg this other w = do { ObjectIntegrityCheck dbg this w; Some w }"

definition mock_move_assign :: "bool \<Rightarrow> place \<Rightarrow> place \<Rightarrow> 'v mock_world \<Rightarrow> 'v mock_world option" where
  "mock_move_assign dbg this other w = do { ObjectIntegrityCheck dbg this w; Some w }"

definition mock_destruct :: "bool \<Rightarrow> place \<Rightarrow> 'v mock_world \<Rightarrow> 'v mock_world option" where
  "mock_destruct dbg this w = do {
     n \<leftarrow> destructObject dbg (mw_instanceAmount w);
     TMockBase_destruct dbg this (w\<lparr>mw_instanceAmount := n\<rparr>) }"

subsection \<open>TStatisticaMockWithValueForSimpleType\<close>

text \<open>The copy constructor has no initialiser for its base, so the base is constructed by default. An exception out of
  the body of a constructor destroys the base and leaves the count alone.\<close>

definition sv_get :: "bool \<Rightarrow> place \<Rightarrow> 'v mock_world \<Rightarrow> 'v option" where
  "sv_get dbg this w = do { ObjectIntegrityCheck dbg this w; Some (mw_value w this) }"

definition sv_default :: "bool \<Rightarrow> 'v \<Rightarrow> place \<Rightarrow> 'v mock_world \<Rightarrow> 'v mock_world option" where
  "sv_default dbg initial this w = do {
     w \<leftarrow> TMockBase_construct dbg this w;
     Some (count_construct (set_value this initial w)) }"

definition sv_from_value :: "bool \<Rightarrow> behavior \<Rightarrow> 'e option \<Rightarrow> place \<Rightarrow> 'v \<Rightarrow> 'v mock_world \<Rightarrow>
    ('v mock_world \<times> 'e option) option" where
  "sv_from_value dbg beh thrower this other w = do {
     w \<leftarrow> TMockBase_construct dbg this w;
     (case throwAtConstrcutorFromValue beh thrower (set_value this other w) of
       (w, Some ex) \<Rightarrow> do { w \<leftarrow> TMockBase_destruct dbg this w; Some (w, Some ex) }
     | (w, None) \<Rightarrow> Some (count_construct w, None)) }"

definition sv_copy :: "bool \<Rightarrow> place \<Rightarrow> place \<Rightarrow> 'v mock_world \<Rightarrow> 'v mock_world option" where
  "sv_copy dbg this other w = do {
     w \<leftarrow> TMockBase_construct dbg this w;
     v \<leftarrow> sv_get dbg other w;
     Some (count_construct (set_value this v w)) }"

definition sv_assign :: "bool \<Rightarrow> place \<Rightarrow> place \<Rightarrow> 'v mock_world \<Rightarrow> 'v mock_world option" where
  "sv_assign dbg this other w = do {
     ObjectIntegrityCheck dbg this w;
     v \<leftarrow> sv_get dbg other w;
     let w = set_value this v w;
     ObjectIntegrityCheck dbg this w;
     Some w }"

definition sv_assign_value :: "bool \<Rightarrow> place \<Rightarrow> 'v \<Rightarrow> 'v mock_world \<Rightarrow> 'v mock_world option" where
  "sv_assign_value dbg this other w = do {
     ObjectIntegrityCheck dbg this w;
     let w = set_value this other w;
     ObjectIntegrityCheck dbg this w;
     Some w }"

definition sv_destruct :: "bool \<Rightarrow> place \<Rightarrow> 'v mock_world \<Rightarrow> 'v mock_world option" where
  "sv_destruct dbg this w = do {
     n \<leftarrow> destructObject dbg (mw_instanceAmount w);
     TMockBase_destruct dbg this (w\<lparr>mw_instanceAmount := n\<rparr>) }"

subsection \<open>TStatisticaMockWithValueForClass\<close>

text \<open>Here copying the value may throw (\<open>copy\<close> is its outcome) and moving it leaves something behind (\<open>move\<close> yields
  the new value and what is left).\<close>

definition cv_from_value :: "bool \<Rightarrow> behavior \<Rightarrow> 'e option \<Rightarrow> ('v \<Rightarrow> 'e + 'v) \<Rightarrow> place \<Rightarrow> 'v \<Rightarrow> 'v mock_world \<Rightarrow>
    ('v mock_world \<times> 'e option) option" where
  "cv_from_value dbg beh thrower copy this other w = do {
     w \<leftarrow> TMockBase_construct dbg this w;
     (case copy other of
       Inl ex \<Rightarrow> do { w \<leftarrow> TMockBase_destruct dbg this w; Some (w, Some ex) }
     | Inr v \<Rightarrow> (case throwAtConstrcutorFromValue beh thrower (set_value this v w) of
         (w, Some ex) \<Rightarrow> do { w \<leftarrow> TMockBase_destruct dbg this w; Some (w, Some ex) }
       | (w, None) \<Rightarrow> Some (count_construct w, None))) }"

definition cv_copy :: "bool \<Rightarrow> ('v \<Rightarrow> 'e + 'v) \<Rightarrow> place \<Rightarrow> place \<Rightarrow> 'v mock_world \<Rightarrow> ('v mock_world \<times> 'e option) option" where
  "cv_copy dbg copy this other w = do {
     w \<leftarrow> TMockBase_construct dbg this w;
     v \<leftarrow> sv_get dbg other w;
     (case copy v of
       Inl ex \<Rightarrow> do { w \<leftarrow> TMockBase_destruct dbg this w; Some (w, Some ex) }
     | Inr v \<Rightarrow> Some (count_construct (set_value this v w), None)) }"

definition cv_move :: "bool \<Rightarrow> ('v \<Rightarrow> 'v \<times> 'v) \<Rightarrow> place \<Rightarrow> place \<Rightarrow> 'v mock_world \<Rightarrow> 'v mock_world option" where
  "cv_move dbg move this other w = do {
     w \<leftarrow> TMockBase_construct dbg this w;
     v \<leftarrow> sv_get dbg other w;
     (case move v of (v, rest) \<Rightarrow> Some (count_construct (set_value this v (set_value other rest w)))) }"

definition cv_assign :: "bool \<Rightarrow> ('v \<Rightarrow> 'e + 'v) \<Rightarrow> place \<Rightarrow> place \<Rightarrow> 'v mock_world \<Rightarrow> ('v mock_world \<times> 'e option) option" where
  "cv_assign dbg copy this other w = do {
     ObjectIntegrityCheck dbg this w;
     v \<leftarrow> sv_get dbg other w;
     (case copy v of
       Inl ex \<Rightarrow> Some (w, Some ex)
     | Inr v \<Rightarrow> do { let w = set_value this v w; ObjectIntegrityCheck dbg this w; Some (w, None) }) }"

definition cv_move_assign :: "bool \<Rightarrow> ('v \<Rightarrow> 'v \<times> 'v) \<Rightarrow> place \<Rightarrow> place \<Rightarrow> 'v mock_world \<Rightarrow> 'v mock_world option" where
  "cv_move_assign dbg move this other w = do {
     ObjectIntegrityCheck dbg this w;
     v \<leftarrow> sv_get dbg other w;
     (case move v of (v, rest) \<Rightarrow> do {
       let w = set_value this v (set_value other rest w);
       ObjectIntegrityCheck dbg this w;
       Some w }) }"

definition cv_destruct :: "bool \<Rightarrow> place \<Rightarrow> 'v mock_world \<Rightarrow> 'v mock_world option" where
  "cv_destruct dbg this w = do {
     n \<leftarrow> destructObject dbg (mw_instanceAmount w);
     TMockBase_destruct dbg this (w\<lparr>mw_instanceAmount := n\<rparr>) }"

subsection \<open>TStatisticaMockWithValueChoicer\<close>

datatype mocked_type = Simple_type | Class_type | Reference_to mocked_type

datatype mock_kind = ForSimpleType | ForSimpleTypeReference | ForClass | ForClassReference

text \<open>\<open>boost::is_class\<close> is false for every reference, also for a reference to a class.\<close>

fun is_reference :: "mocked_type \<Rightarrow> bool" where
  "is_reference (Reference_to t) = True"
| "is_reference t = False"

fun is_class :: "mocked_type \<Rightarrow> bool" where
  "is_class Class_type = True"
| "is_class t = False"

definition TStatisticaMockWithValueChoicer :: "mocked_type \<Rightarrow> mock_kind" where
  "TStatisticaMockWithValueChoicer t = (if is_reference t
     then (if is_class t then ForClassReference else ForSimpleTypeReference)
     else (if is_class t then ForClass else ForSimpleType))"

lemma class_reference_never_chosen: "TStatisticaMockWithValueChoicer t \<noteq> ForClassReference"
  by (cases t) (simp_all add: TStatisticaMockWithValueChoicer_def)

subsection \<open>Scripts over mock objects\<close>

text \<open>What a container does to its elements is a sequence of constructions, copies, assignments, uses and
  destructions.\<close>

datatype 'v mock_event = Construct place 'v | Copy place place | Assign place place | Get place | Destruct place

fun mock_event_step :: "bool \<Rightarrow> 'v mock_event \<Rightarrow> 'v mock_world \<Rightarrow> 'v mock_world option" where
  "mock_event_step dbg (Construct this v) w = sv_default dbg v this w"
| "mock_event_step dbg (Copy this other) w = sv_copy dbg this other w"
| "mock_event_step dbg (Assign this other) w = sv_assign dbg this other w"
| "mock_event_step dbg (Get this) w = do { sv_get dbg this w; Some w }"
| "mock_event_step dbg (Destruct this) w = sv_destruct dbg this w"

fun run_mock_events :: "bool \<Rightarrow> 'v mock_event list \<Rightarrow> 'v mock_world \<Rightarrow> 'v mock_world option" where
  "run_mock_events dbg [] w = Some w"
| "run_mock_events dbg (e # es) w = do { w \<leftarrow> mock_event_step dbg e w; run_mock_events dbg es w }"

definition run_checked :: "bool \<Rightarrow> 'v mock_event list \<Rightarrow> 'v mock_world \<Rightarrow> 'v mock_world option" where
  "run_checked dbg es w = do {
     let c = TCheckLostObjects_new True w;
     w \<leftarrow> run_mock_events dbg es w;
     TCheckLostObjects_destruct dbg True c w;
     Some w }"

text \<open>The specification: which objects live after an event, if the event is allowed. The null place cannot be used,
  and copying an object from itself goes unnoticed.\<close>

fun live_after :: "'v mock_event \<Rightarrow> place set \<Rightarrow> place set option" where
  "live_after (Construct this v) L = (if this \<notin> L then Some (insert this L) else None)"
| "live_after (Copy this other) L =
     (if this \<notin> L \<and> other \<noteq> 0 \<and> (other \<in> L \<or> other = this) then Some (insert this L) else None)"
| "live_after (Assign this other) L =
     (if this \<in> L \<and> other \<in> L \<and> this \<noteq> 0 \<and> other \<noteq> 0 then Some L else None)"
| "live_after (Get this) L = (if this \<in> L \<and> this \<noteq> 0 then Some L else None)"
| "live_after (Destruct this) L = (if this \<in> L \<and> this \<noteq> 0 then Some (L - {this}) else None)"

fun live_after_all :: "'v mock_event list \<Rightarrow> place set \<Rightarrow> place set option" where
  "live_after_all [] L = Some L"
| "live_after_all (e # es) L = do { L \<leftarrow> live_after e L; live_after_all es L }"

definition mock_inv :: "place set \<Rightarrow> 'v mock_world \<Rightarrow> bool" where
  "mock_inv L w \<longleftrightarrow> mg_objectsTracker w = L \<and> finite L \<and> mg_enabledObjectIntegrityCheck w \<and> \<not> mg_ignoreCreating w \<and>
     (\<forall>a\<in>L. mg_signature w a = SIGNATURE_CONSTRUCTED_OBJECT) \<and> mw_instanceAmount w = of_nat (card L)"

lemma mock_invD:
  assumes "mock_inv L w"
  shows "mg_objectsTracker w = L" "finite L" "mg_enabledObjectIntegrityCheck w" "\<not> mg_ignoreCreating w"
    "a \<in> L \<Longrightarrow> mg_signature w a = SIGNATURE_CONSTRUCTED_OBJECT" "mw_instanceAmount w = of_nat (card L)"
  using assms by (simp_all add: mock_inv_def)

lemma check_live: "mock_inv L w \<Longrightarrow> ObjectIntegrityCheck True a w = (if a \<in> L \<and> a \<noteq> 0 then Some () else None)"
  using mock_invD [of L w] by (auto simp: ObjectIntegrityCheck_def OfflessObjectIntegrityCheck_def ASSERT_def)

lemma set_value_inv [simp]: "mock_inv L (set_value a v w) \<longleftrightarrow> mock_inv L w"
  by (simp add: mock_inv_def set_value_def)

lemma get_live: "mock_inv L w \<Longrightarrow> sv_get True a w = (if a \<in> L \<and> a \<noteq> 0 then Some (mw_value w a) else None)"
  by (simp add: sv_get_def check_live)

text \<open>After the base constructor the object is registered but not yet counted.\<close>

definition half_inv :: "place \<Rightarrow> place set \<Rightarrow> 'v mock_world \<Rightarrow> bool" where
  "half_inv a L w \<longleftrightarrow> a \<notin> L \<and> mock_inv (insert a L) (w\<lparr>mw_instanceAmount := of_nat (card (insert a L))\<rparr>) \<and>
     mw_instanceAmount w = of_nat (card L)"

lemma construct_base:
  assumes "mock_inv L w"
  shows "a \<in> L \<Longrightarrow> TMockBase_construct True a w = None"
    "a \<notin> L \<Longrightarrow> \<exists>w'. TMockBase_construct True a w = Some w' \<and> half_inv a L w' \<and> mw_value w' = mw_value w \<and> mw_throw w' = mw_throw w"
  using mock_invD [OF assms]
  by (auto simp: TMockBase_construct_def unbusyObjectPlaceCheck_def set_signature_def half_inv_def mock_inv_def)

lemma half_inv_count: "half_inv a L w \<Longrightarrow> mock_inv (insert a L) (count_construct (set_value a v w))"
  by (auto simp: half_inv_def mock_inv_def count_construct_def set_value_def constructObject_def card_insert_if)

lemma half_inv_get:
  "half_inv a L w \<Longrightarrow> sv_get True b w = (if (b \<in> L \<or> b = a) \<and> b \<noteq> 0 then Some (mw_value w b) else None)"
  by (auto simp: half_inv_def mock_inv_def sv_get_def ObjectIntegrityCheck_def OfflessObjectIntegrityCheck_def ASSERT_def)

lemma half_inv_destruct:
  assumes "half_inv a L w" "a \<noteq> 0"
  shows "\<exists>w'. TMockBase_destruct True a w = Some w' \<and> mock_inv L w' \<and> mw_throw w' = mw_throw w"
  using assms by (auto simp: half_inv_def mock_inv_def TMockBase_destruct_def ObjectIntegrityCheck_def
    OfflessObjectIntegrityCheck_def set_signature_def)

lemma destruct_live:
  assumes "mock_inv L w" "card L < 2 ^ 64"
  shows "a \<in> L \<Longrightarrow> a \<noteq> 0 \<Longrightarrow> \<exists>w'. sv_destruct True a w = Some w' \<and> mock_inv (L - {a}) w'"
    "\<not> (a \<in> L \<and> a \<noteq> 0) \<Longrightarrow> sv_destruct True a w = None"
proof -
  assume a: "a \<in> L" "a \<noteq> 0"
  have c: "0 < card L" using a(1) mock_invD(2) [OF assms(1)] by (auto simp: card_gt_0_iff)
  then have "(of_nat (card L) :: 64 word) > 0"
    using assms(2) by (simp add: word_less_nat_alt unat_of_nat take_bit_nat_eq_self)
  moreover have "(of_nat (card L) :: 64 word) - 1 = of_nat (card (L - {a}))"
    using c a(1) mock_invD(2) [OF assms(1)] by (simp add: card_Diff_singleton of_nat_diff)
  ultimately show "\<exists>w'. sv_destruct True a w = Some w' \<and> mock_inv (L - {a}) w'"
    using a assms(1) by (auto simp: sv_destruct_def destructObject_def TMockBase_destruct_def mock_inv_def
      ObjectIntegrityCheck_def OfflessObjectIntegrityCheck_def set_signature_def)
next
  assume "\<not> (a \<in> L \<and> a \<noteq> 0)"
  then show "sv_destruct True a w = None" using mock_invD [OF assms(1)]
    by (auto simp: sv_destruct_def destructObject_def TMockBase_destruct_def ObjectIntegrityCheck_def
      OfflessObjectIntegrityCheck_def ASSERT_def)
qed

lemma mock_event_step_spec:
  assumes inv: "mock_inv L w" and sz: "card L < 2 ^ 64"
  shows "case live_after e L of None \<Rightarrow> mock_event_step True e w = None
    | Some L' \<Rightarrow> \<exists>w'. mock_event_step True e w = Some w' \<and> mock_inv L' w'"
proof (cases e)
  case (Construct a v)
  show ?thesis
  proof (cases "a \<in> L")
    case False
    then obtain w' where "TMockBase_construct True a w = Some w'" "half_inv a L w'"
      using construct_base(2) [OF inv] by blast
    with Construct False show ?thesis by (simp add: sv_default_def half_inv_count)
  qed (simp add: Construct sv_default_def construct_base(1) [OF inv])
next
  case (Copy a b)
  show ?thesis
  proof (cases "a \<in> L")
    case False
    then obtain w' where "TMockBase_construct True a w = Some w'" "half_inv a L w'"
      using construct_base(2) [OF inv] by blast
    with Copy False show ?thesis by (simp add: sv_copy_def half_inv_count half_inv_get)
  qed (simp add: Copy sv_copy_def construct_base(1) [OF inv])
next
  case (Assign a b)
  then show ?thesis using inv by (simp add: sv_assign_def check_live get_live)
next
  case (Get a)
  then show ?thesis using inv by (simp add: get_live)
next
  case (Destruct a)
  then show ?thesis using destruct_live [OF assms, of a] by simp
qed

lemma live_after_card:
  assumes "finite L" "live_after e L = Some L'"
  shows "finite L'" "card L' \<le> Suc (card L)"
  using assms card_Diff1_le [of L] by (cases e; auto simp: card_insert_if le_SucI split: if_splits)+

theorem run_mock_events_spec:
  "mock_inv L w \<Longrightarrow> card L + length es < 2 ^ 64 \<Longrightarrow> case live_after_all es L of
      None \<Rightarrow> run_mock_events True es w = None
    | Some L' \<Rightarrow> \<exists>w'. run_mock_events True es w = Some w' \<and> mock_inv L' w'"
proof (induction es arbitrary: L w)
  case (Cons e es)
  note step = mock_event_step_spec [OF Cons.prems(1), of e]
  show ?case
  proof (cases "live_after e L")
    case None
    then show ?thesis using step Cons.prems(2) by simp
  next
    case (Some L')
    then obtain w' where w': "mock_event_step True e w = Some w'" "mock_inv L' w'" using step Cons.prems(2) by auto
    have "card L' + length es < 2 ^ 64"
      using live_after_card(2) [OF mock_invD(2) [OF Cons.prems(1)] Some] Cons.prems(2) by simp
    from Cons.IH [OF w'(2) this] show ?thesis using Some w'(1) by (simp split: option.splits)
  qed
qed simp

text \<open>With \<open>TCheckLostObjects\<close> around it: a script passes exactly when every event is allowed and the same objects
  live at the end.\<close>

theorem run_checked_spec:
  assumes "mock_inv L w" "card L + length es < 2 ^ 64"
  shows "(\<exists>w'. run_checked True es w = Some w') \<longleftrightarrow> live_after_all es L = Some L"
proof (cases "live_after_all es L")
  case None
  then show ?thesis using run_mock_events_spec [OF assms] by (simp add: run_checked_def)
next
  case (Some L')
  then obtain w' where "run_mock_events True es w = Some w'" "mock_inv L' w'" using run_mock_events_spec [OF assms] by auto
  then show ?thesis using Some mock_invD(1) [OF assms(1)] mock_invD(1) [of L' w']
    by (auto simp: run_checked_def TCheckLostObjects_new_def TCheckLostObjects_destruct_def createdAmount_def ASSERT_def)
qed

lemma throwing_shape: "\<exists>c ex. throwAtConstrcutorFromValue beh thrower w = (w\<lparr>mw_throw := c\<rparr>, ex)"
proof (cases beh)
  case TNonThrowAtConstrcutorFromValueBehaviorAspect
  then show ?thesis by (intro exI [of _ "mw_throw w"] exI [of _ None]) simp
next
  case TThrowAtConstructObjectBehaviorAspect
  then show ?thesis by (cases "throwAfterCountAmount thrower (mw_throw w)") auto
qed

text \<open>A constructor that throws leaves no trace but the bytes of the dead object.\<close>

theorem throwing_constructor:
  assumes "mock_inv L w" "a \<notin> L" "a \<noteq> 0"
  shows "\<exists>w' ex. sv_from_value True beh thrower a v w = Some (w', ex) \<and>
    mock_inv (if ex = None then insert a L else L) w' \<and>
    ex = snd (throwAtConstrcutorFromValue beh thrower w)"
proof -
  obtain k where k: "TMockBase_construct True a w = Some k" "half_inv a L k" "mw_throw k = mw_throw w"
    using construct_base(2) [OF assms(1,2)] by blast
  obtain c ex where t: "throwAtConstrcutorFromValue beh thrower (set_value a v k) = ((set_value a v k)\<lparr>mw_throw := c\<rparr>, ex)"
    using throwing_shape by blast
  have e: "ex = snd (throwAtConstrcutorFromValue beh thrower w)"
    using t k(3) by (cases beh) (auto simp: set_value_def split: prod.splits)
  have h: "half_inv a L ((set_value a v k)\<lparr>mw_throw := c\<rparr>)" using k(2) by (simp add: half_inv_def mock_inv_def set_value_def)
  show ?thesis
  proof (cases ex)
    case None
    have "set_value a v ((set_value a v k)\<lparr>mw_throw := c\<rparr>) = (set_value a v k)\<lparr>mw_throw := c\<rparr>"
      by (simp add: set_value_def)
    then show ?thesis using half_inv_count [OF h, of v] None e t k(1) by (simp add: sv_from_value_def)
  next
    case (Some x)
    obtain w' where "TMockBase_destruct True a ((set_value a v k)\<lparr>mw_throw := c\<rparr>) = Some w'" "mock_inv L w'"
      using half_inv_destruct [OF h assms(3)] by blast
    then show ?thesis using Some e t k(1) by (simp add: sv_from_value_def)
  qed
qed

text \<open>With the mode on, every construction after \<open>limit\<close> successful ones throws, and the count starts anew.\<close>

fun throw_calls :: "nat \<Rightarrow> 'e option \<Rightarrow> throw_count \<Rightarrow> throw_count \<times> 'e option list" where
  "throw_calls 0 thrower c = (c, [])"
| "throw_calls (Suc n) thrower c = (case throwAfterCountAmount thrower c of (c, ex) \<Rightarrow>
     (case throw_calls n thrower c of (c, exs) \<Rightarrow> (c, ex # exs)))"

lemma throw_calls_from:
  assumes "tc_enabledThrowCount c" "tc_amountOfConstructWithoutThrow c = of_nat n" "n < 2 ^ 32 - 1"
    "tc_amountOfConstructedWithoutThrow c = of_nat k" "k \<le> n"
  shows "snd (throw_calls m thrower c) = map (\<lambda>i. if (k + i + 1) mod (n + 1) = 0 then thrower else None) [0..<m]"
  using assms
proof (induction m arbitrary: c k)
  case (Suc m)
  have up: "map f [0..<Suc m] = f 0 # map (\<lambda>i. f (Suc i)) [0..<m]" for f :: "nat \<Rightarrow> 'b"
    by (simp add: upt_conv_Cons map_Suc_upt [symmetric] comp_def del: upt_Suc map_Suc_upt)
  have w: "(of_nat k + 1 :: size_t) > of_nat n \<longleftrightarrow> k = n"
    using Suc.prems(3,5) of_nat_less_size_t [of n "Suc k"] by (auto simp: add.commute)
  show ?case
  proof (cases "k = n")
    case True
    let ?c = "c\<lparr>tc_amountOfConstructedWithoutThrow := 0\<rparr>"
    have "throwAfterCountAmount thrower c = (?c, thrower)"
      using Suc.prems True w by (simp add: throwAfterCountAmount_def)
    moreover have "snd (throw_calls m thrower ?c) = map (\<lambda>i. if (0 + i + 1) mod (n + 1) = 0 then thrower else None) [0..<m]"
      using Suc.prems by (intro Suc.IH) simp_all
    moreover have "(n + Suc i + 1) mod (n + 1) = (i + 1) mod (n + 1)" for i
      using mod_add_self1 [of "n + 1" "i + 1"] by (simp add: add_ac)
    ultimately show ?thesis using True unfolding up by (cases "throw_calls m thrower ?c") simp
  next
    case False
    let ?c = "c\<lparr>tc_amountOfConstructedWithoutThrow := of_nat (Suc k)\<rparr>"
    have "throwAfterCountAmount thrower c = (?c, None)"
      using Suc.prems False w by (simp add: throwAfterCountAmount_def add.commute)
    moreover have "snd (throw_calls m thrower ?c) = map (\<lambda>i. if (Suc k + i + 1) mod (n + 1) = 0 then thrower else None) [0..<m]"
      using Suc.prems False by (intro Suc.IH) simp_all
    ultimately show ?thesis using False Suc.prems(5) unfolding up by (cases "throw_calls m thrower ?c") simp
  qed
qed simp

end
