(* ===== verification/Deque_Tests.thy ===== *)
theory Deque_Tests
  imports Deque_Sequence Mock_Objects
begin

section \<open>The unit test of the deque\<close>

text \<open>
  InplaceFixedDequeUnitTest.cpp works on a few deques of the same capacity and checks their contents and the number of objects alive after
  every step. A test is a list of commands; it is run on the deques, with assertions compiled in, and on lists. Both runs
  agree, so what the test says about the container can be computed on lists.
\<close>

subsection \<open>Commands\<close>

text \<open>The deques of a block are numbered in the order of their declaration. \<open>T_assign_range\<close> ends with the exception it names
  (\<open>UNIT_TEST_CHECK_THROW\<close>), raised by the constructor of the element behind the given values; the other members are called with
  values whose copies do not throw.\<close>

datatype deque_command = T_new | T_copy nat | T_assign nat nat | T_assign_range nat "int list" "cpp_exception option" |
  T_push_back nat int | T_push_front nat int | T_emplace_back nat int | T_emplace_front nat int | T_pop_back nat | T_pop_front nat |
  T_clear nat | T_empty nat bool | T_size nat nat | T_front nat int | T_back nat int | T_index nat nat int | T_values nat "int list" |
  T_instances nat

definition store_of :: "'a inplace_fixed_deque list \<Rightarrow> 'a deque_store" where
  "store_of ds = (\<lambda>a. if a < length ds then Some (ds ! a) else None)"

definition instance_amount :: "'a inplace_fixed_deque list \<Rightarrow> nat" where
  "instance_amount ds = sum_list (map (\<lambda>d. length (filter (\<lambda>s. s \<noteq> None) (m_raw_byte_array d))) ds)"

definition with_deque :: "nat \<Rightarrow> ('b \<Rightarrow> 'b option) \<Rightarrow> 'b list \<Rightarrow> 'b list option" where
  "with_deque i f ds = (if i < length ds then do { d \<leftarrow> f (ds ! i); Some (ds[i := d]) } else None)"

definition check_deque :: "nat \<Rightarrow> ('b \<Rightarrow> bool option) \<Rightarrow> 'b list \<Rightarrow> 'b list option" where
  "check_deque i f ds = (if i < length ds then do { b \<leftarrow> f (ds ! i); ASSERT True b; Some ds } else None)"

definition checked_assign_range ::
    "int list \<Rightarrow> cpp_exception option \<Rightarrow> int inplace_fixed_deque \<Rightarrow> int inplace_fixed_deque option" where
  "checked_assign_range us ex d = do {
     (d, thrown) \<leftarrow> assign_internal True d (map Inr us @ (case ex of None \<Rightarrow> [] | Some e \<Rightarrow> [Inl e]));
     ASSERT True (thrown = ex);
     Some d }"

fun deque_command_step :: "nat \<Rightarrow> deque_command \<Rightarrow> int inplace_fixed_deque list \<Rightarrow> int inplace_fixed_deque list option" where
  "deque_command_step n T_new ds = Some (ds @ [deque_new n])"
| "deque_command_step n (T_copy j) ds = do {
     (st, ex) \<leftarrow> copy_construct True Inr (store_of ds) n (length ds) j; d \<leftarrow> st (length ds); Some (ds @ [d]) }"
| "deque_command_step n (T_assign i j) ds = do {
     (st, ex) \<leftarrow> operator_assign True Inr (store_of ds) i j; d \<leftarrow> st i; Some (ds[i := d]) }"
| "deque_command_step n (T_assign_range i us ex) ds = with_deque i (checked_assign_range us ex) ds"
| "deque_command_step n (T_push_back i v) ds = with_deque i (\<lambda>d. map_option fst (dq_push_back True d (Inr v))) ds"
| "deque_command_step n (T_push_front i v) ds = with_deque i (\<lambda>d. map_option fst (dq_push_front True d (Inr v))) ds"
| "deque_command_step n (T_emplace_back i v) ds = with_deque i (\<lambda>d. map_option fst (dq_emplace_back True d (Inr v))) ds"
| "deque_command_step n (T_emplace_front i v) ds = with_deque i (\<lambda>d. map_option fst (dq_emplace_front True d (Inr v))) ds"
| "deque_command_step n (T_pop_back i) ds = with_deque i (dq_pop_back True) ds"
| "deque_command_step n (T_pop_front i) ds = with_deque i (dq_pop_front True) ds"
| "deque_command_step n (T_clear i) ds = with_deque i (dq_clear True) ds"
| "deque_command_step n (T_empty i b) ds = check_deque i (\<lambda>d. map_option ((=) b) (dq_empty True d)) ds"
| "deque_command_step n (T_size i k) ds = check_deque i (\<lambda>d. map_option ((=) k) (dq_size True d)) ds"
| "deque_command_step n (T_front i v) ds = check_deque i (\<lambda>d. map_option ((=) v) (dq_front True d)) ds"
| "deque_command_step n (T_back i v) ds = check_deque i (\<lambda>d. map_option ((=) v) (dq_back True d)) ds"
| "deque_command_step n (T_index i k v) ds = check_deque i (\<lambda>d. map_option ((=) v) (dq_index True d k)) ds"
| "deque_command_step n (T_values i vs) ds = do {
     last_it \<leftarrow> dq_end True (store_of ds) i;
     xs \<leftarrow> range_values True (store_of ds) (dq_begin i) last_it;
     ASSERT True (xs = vs); Some ds }"
| "deque_command_step n (T_instances k) ds = do { ASSERT True (instance_amount ds = k); Some ds }"

fun run_deque_test :: "nat \<Rightarrow> deque_command list \<Rightarrow> int inplace_fixed_deque list \<Rightarrow> int inplace_fixed_deque list option" where
  "run_deque_test n [] ds = Some ds"
| "run_deque_test n (c # cs) ds = do { ds \<leftarrow> deque_command_step n c ds; run_deque_test n cs ds }"

text \<open>The end of a block destroys its deques.\<close>

fun destroy_deques :: "int inplace_fixed_deque list \<Rightarrow> unit option" where
  "destroy_deques [] = Some ()"
| "destroy_deques (d # ds) = do { destroy_deques ds; d \<leftarrow> dq_destroy True d; ASSERT True (instance_amount [d] = 0) }"

definition run_deque_block :: "nat \<Rightarrow> deque_command list \<Rightarrow> unit option" where
  "run_deque_block n cs = do { ds \<leftarrow> run_deque_test n cs []; destroy_deques ds }"

subsection \<open>The same on lists\<close>

fun list_command_step :: "nat \<Rightarrow> deque_command \<Rightarrow> int list list \<Rightarrow> int list list option" where
  "list_command_step n T_new xss = Some (xss @ [[]])"
| "list_command_step n (T_copy j) xss = (if j < length xss then Some (xss @ [xss ! j]) else None)"
| "list_command_step n (T_assign i j) xss = (if i < length xss \<and> j < length xss then Some (xss[i := xss ! j]) else None)"
| "list_command_step n (T_assign_range i us ex) xss = with_deque i
     (\<lambda>xs. case ex of None \<Rightarrow> if length us \<le> n then Some us else None | Some e \<Rightarrow> Some []) xss"
| "list_command_step n (T_push_back i v) xss = with_deque i (\<lambda>xs. if length xs < n then Some (xs @ [v]) else None) xss"
| "list_command_step n (T_push_front i v) xss = with_deque i (\<lambda>xs. if length xs < n then Some (v # xs) else None) xss"
| "list_command_step n (T_emplace_back i v) xss = with_deque i (\<lambda>xs. if length xs < n then Some (xs @ [v]) else None) xss"
| "list_command_step n (T_emplace_front i v) xss = with_deque i (\<lambda>xs. if length xs < n then Some (v # xs) else None) xss"
| "list_command_step n (T_pop_back i) xss = with_deque i (\<lambda>xs. if xs \<noteq> [] then Some (butlast xs) else None) xss"
| "list_command_step n (T_pop_front i) xss = with_deque i (\<lambda>xs. if xs \<noteq> [] then Some (tl xs) else None) xss"
| "list_command_step n (T_clear i) xss = with_deque i (\<lambda>xs. Some []) xss"
| "list_command_step n (T_empty i b) xss = check_deque i (\<lambda>xs. Some (b = (xs = []))) xss"
| "list_command_step n (T_size i k) xss = check_deque i (\<lambda>xs. Some (k = length xs)) xss"
| "list_command_step n (T_front i v) xss = check_deque i (\<lambda>xs. Some (xs \<noteq> [] \<and> v = hd xs)) xss"
| "list_command_step n (T_back i v) xss = check_deque i (\<lambda>xs. Some (xs \<noteq> [] \<and> v = last xs)) xss"
| "list_command_step n (T_index i k v) xss = check_deque i (\<lambda>xs. Some (k < length xs \<and> v = xs ! k)) xss"
| "list_command_step n (T_values i vs) xss = check_deque i (\<lambda>xs. Some (xs = vs)) xss"
| "list_command_step n (T_instances k) xss = (if sum_list (map length xss) = k then Some xss else None)"

fun run_list_test :: "nat \<Rightarrow> deque_command list \<Rightarrow> int list list \<Rightarrow> int list list option" where
  "run_list_test n [] xss = Some xss"
| "run_list_test n (c # cs) xss = do { xss \<leftarrow> list_command_step n c xss; run_list_test n cs xss }"

subsection \<open>Both runs agree\<close>

abbreviation related :: "nat \<Rightarrow> int inplace_fixed_deque list \<Rightarrow> int list list \<Rightarrow> bool" where
  "related n \<equiv> list_all2 (dq_holds n)"

lemma with_deque_rel:
  assumes "list_all2 R ds xss" "\<And>d xs. R d xs \<Longrightarrow> rel_option R (f d) (g xs)"
  shows "rel_option (list_all2 R) (with_deque i f ds) (with_deque i g xss)"
proof (cases "i < length ds")
  case True
  have l: "length ds = length xss" using assms(1) by (rule list_all2_lengthD)
  have "R (ds ! i) (xss ! i)" using assms(1) True by (simp add: list_all2_nthD)
  from assms(2)[OF this] show ?thesis using True l assms(1)
    by (cases "f (ds ! i)"; cases "g (xss ! i)") (auto simp: with_deque_def intro: list_all2_update_cong)
qed (use list_all2_lengthD[OF assms(1)] in \<open>simp add: with_deque_def\<close>)

lemma check_deque_rel:
  assumes "list_all2 R ds xss" "\<And>d xs. R d xs \<Longrightarrow> (f d = Some True) = (g xs = Some True)"
  shows "rel_option (list_all2 R) (check_deque i f ds) (check_deque i g xss)"
proof (cases "i < length ds")
  case True
  have l: "length ds = length xss" using assms(1) by (rule list_all2_lengthD)
  have "R (ds ! i) (xss ! i)" using assms(1) True by (simp add: list_all2_nthD)
  from assms(2)[OF this] show ?thesis using True l assms(1)
    by (auto simp: check_deque_def ASSERT_def split: Option.bind_splits)
qed (use list_all2_lengthD[OF assms(1)] in \<open>simp add: check_deque_def\<close>)

lemma check_value_rel:
  assumes "list_all2 R ds xss" "\<And>d xs. R d xs \<Longrightarrow> (map_option P (f d) = Some True) = Q xs"
  shows "rel_option (list_all2 R) (check_deque i (\<lambda>d. map_option P (f d)) ds) (check_deque i (\<lambda>xs. Some (Q xs)) xss)"
  by (rule check_deque_rel[OF assms(1)]) (simp only: assms(2) option.inject eq_True)

lemma live_slots:
  assumes "deque_inv d xs"
  shows "length (filter (\<lambda>s. s \<noteq> None) (m_raw_byte_array d)) = length xs"
proof -
  let ?n = "capacity d" let ?s = "slot_of ?n (m_begin d)"
  have b: "m_begin d < ?n" "length xs \<le> ?n" and slots: "i < ?n \<Longrightarrow> m_raw_byte_array d ! ?s i \<noteq> None \<longleftrightarrow> i < length xs" for i
    using assms by (auto simp: deque_inv_def)
  have inj: "inj_on ?s {..<?n}" using b by (auto simp: inj_on_def slot_of_inj)
  have "?s ` {..<?n} \<subseteq> {..<?n}" using b by (auto simp: slot_of_less)
  then have onto: "?s ` {..<?n} = {..<?n}" using inj by (rule endo_inj_surj[OF finite_lessThan])
  have "{i. i < length (m_raw_byte_array d) \<and> m_raw_byte_array d ! i \<noteq> None} = ?s ` {..<length xs}"
  proof (intro set_eqI iffI)
    fix p assume p: "p \<in> {i. i < length (m_raw_byte_array d) \<and> m_raw_byte_array d ! i \<noteq> None}"
    then have "p \<in> ?s ` {..<?n}" unfolding onto by (simp add: capacity_def)
    then obtain i where "i < ?n" "p = ?s i" by blast
    then show "p \<in> ?s ` {..<length xs}" using p slots by auto
  next
    fix p assume "p \<in> ?s ` {..<length xs}"
    then obtain i where i: "i < length xs" "p = ?s i" by blast
    then have "m_raw_byte_array d ! p \<noteq> None" "p < ?n" using slots b by (auto simp: slot_of_less)
    then show "p \<in> {i. i < length (m_raw_byte_array d) \<and> m_raw_byte_array d ! i \<noteq> None}" by (simp add: capacity_def)
  qed
  then have "length (filter (\<lambda>s. s \<noteq> None) (m_raw_byte_array d)) = card (?s ` {..<length xs})"
    by (simp add: length_filter_conv_card)
  also have "\<dots> = length xs" using inj b by (subst card_image) (auto simp: inj_on_def)
  finally show ?thesis .
qed

lemma instance_amount_related: "related n ds xss \<Longrightarrow> instance_amount ds = sum_list (map length xss)"
  by (induction ds xss rule: list_all2_induct) (auto simp: instance_amount_def dq_holds_def live_slots[simplified])

lemma store_of_at: "related n ds xss \<Longrightarrow> i < length ds \<Longrightarrow> deque_at (store_of ds) i (xss ! i)"
  using list_all2_nthD[of "dq_holds n" ds xss i] by (auto simp: deque_at_def store_of_def dq_holds_def)

lemma dq_index_outside:
  assumes "deque_inv d xs" "length xs \<le> k"
  shows "dq_index True d k = None"
  using dq_size_spec[OF assms(1), of True] assms(2) by (simp add: dq_index_def ASSERT_def)

lemma dq_index_holds: "dq_holds n d xs \<Longrightarrow> (map_option ((=) v) (dq_index True d k) = Some True) = (k < length xs \<and> v = xs ! k)"
  using dq_index_spec[of d xs k True] dq_index_outside[of d xs k] by (cases "k < length xs") (auto simp: dq_holds_def)

lemma dq_back_holds: "dq_holds n d xs \<Longrightarrow> (map_option ((=) v) (dq_back True d) = Some True) = (xs \<noteq> [] \<and> v = last xs)"
  using dq_back_spec[of d xs True] dq_size_spec[of d "[]" True]
  by (cases "xs = []") (auto simp: dq_holds_def dq_back_def)

lemma dq_empty_holds: "dq_holds n d xs \<Longrightarrow> (map_option ((=) b) (dq_empty True d) = Some True) = (b = (xs = []))"
  using dq_empty_spec[of d xs True] by (auto simp: dq_holds_def)

lemma dq_size_holds: "dq_holds n d xs \<Longrightarrow> (map_option ((=) k) (dq_size True d) = Some True) = (k = length xs)"
  using dq_size_spec[of d xs True] by (auto simp: dq_holds_def)

lemma dq_front_holds: "dq_holds n d xs \<Longrightarrow> (map_option ((=) v) (dq_front True d) = Some True) = (xs \<noteq> [] \<and> v = hd xs)"
  using dq_index_holds[of n d xs v 0] by (auto simp: dq_front_def hd_conv_nth)

lemma push_back_holds:
  "dq_holds n d xs \<Longrightarrow> rel_option (dq_holds n) (map_option fst (dq_push_back True d (Inr v))) (if length xs < n then Some (xs @ [v]) else None)"
  using push_back_spec(2)[of d xs True v] push_full(1)[of d xs True "Inr v"] 
  by (cases "length xs < n") (auto simp: dq_holds_def dq_push_back_def deque_inv_def)

lemma push_front_holds:
  "dq_holds n d xs \<Longrightarrow> rel_option (dq_holds n) (map_option fst (dq_push_front True d (Inr v))) (if length xs < n then Some (v # xs) else None)"
  using push_front_spec(2)[of d xs True v] push_full(2)[of d xs True "Inr v"]
  by (cases "length xs < n") (auto simp: dq_holds_def dq_push_front_def deque_inv_def)

lemma pop_back_holds:
  "dq_holds n d xs \<Longrightarrow> rel_option (dq_holds n) (dq_pop_back True d) (if xs \<noteq> [] then Some (butlast xs) else None)"
  using dq_pop_back_spec[of d "butlast xs" "last xs" True] pop_empty(1)[of d True] by (cases "xs = []") (auto simp: dq_holds_def)

lemma pop_front_holds:
  "dq_holds n d xs \<Longrightarrow> rel_option (dq_holds n) (dq_pop_front True d) (if xs \<noteq> [] then Some (tl xs) else None)"
  using dq_pop_front_spec[of d "hd xs" "tl xs" True] pop_empty(2)[of d True] by (cases xs) (auto simp: dq_holds_def)

text \<open>An exception is expected only behind values that fit.\<close>

fun command_ok :: "nat \<Rightarrow> deque_command \<Rightarrow> bool" where
  "command_ok n (T_assign_range i us (Some e)) = (length us < n)"
| "command_ok n c = True"

lemma assign_range_holds:
  assumes "dq_holds n d xs" "command_ok n (T_assign_range i us ex)"
  shows "rel_option (dq_holds n) (checked_assign_range us ex d)
    (case ex of None \<Rightarrow> if length us \<le> n then Some us else None | Some e \<Rightarrow> Some [])"
proof -
  have d: "deque_inv d xs" "capacity d = n" using assms(1) by (simp_all add: dq_holds_def)
  have new: "deque_inv (deque_new n :: int inplace_fixed_deque) []" "capacity (deque_new n :: int inplace_fixed_deque) = n"
    using d deque_new_inv[of n] by (auto simp: deque_inv_def capacity_def deque_new_def)
  show ?thesis
  proof (cases ex)
    case None
    then show ?thesis using assign_internal_spec(1)[OF d(1), of us True] assign_internal_spec(3)[OF d(1), of us] d(2)
      by (cases "length us \<le> n") (auto simp: checked_assign_range_def dq_holds_def)
  next
    case (Some e)
    then show ?thesis using assign_internal_spec(2)[OF d(1), of us True e "[]"] d(2) new assms(2)
      by (simp add: checked_assign_range_def dq_holds_def)
  qed
qed

lemma copy_holds:
  assumes rel: "related n ds xss" and n: "0 < n" "n < 2 ^ 31"
  shows "rel_option (related n) (deque_command_step n (T_copy j) ds) (list_command_step n (T_copy j) xss)"
proof (cases "j < length ds")
  case True
  have l: "length ds = length xss" using rel by (rule list_all2_lengthD)
  have at: "deque_at (store_of ds) j (xss ! j)" using store_of_at[OF rel True] .
  have fits: "length (xss ! j) \<le> n" using list_all2_nthD[OF rel True] by (auto simp: dq_holds_def deque_inv_def)
  obtain st' where st': "copy_construct True Inr (store_of ds) n (length ds) j = Some (st', None)"
    "deque_at st' (length ds) (xss ! j)"
    using copy_construct_spec[OF at fits n, of Inr "xss ! j" "length ds" True] True by auto
  have cap: "\<exists>d. st' (length ds) = Some d \<and> capacity d = n"
  proof -
    have "capacity (deque_new n :: int inplace_fixed_deque) = n" by (simp add: capacity_def deque_new_def)
    with assign_internal_spec(1)[OF deque_new_inv[OF n], of "xss ! j" True] fits st'(1)
      range_values_spec[OF at, of 0 True] deque_at_size(3)[OF at, of True] show ?thesis
      by (auto simp: copy_construct_def dq_begin_def)
  qed
  from st' cap show ?thesis using True l rel
    by (auto simp: deque_at_def dq_holds_def intro!: list_all2_appendI)
next
  case False
  then show ?thesis using list_all2_lengthD[OF rel] by (simp add: copy_construct_def dq_end_def store_of_def)
qed

lemma assign_holds:
  assumes rel: "related n ds xss"
  shows "rel_option (related n) (deque_command_step n (T_assign i j) ds) (list_command_step n (T_assign i j) xss)"
proof (cases "i < length ds \<and> j < length ds \<and> i \<noteq> j")
  case True
  have l: "length ds = length xss" using rel by (rule list_all2_lengthD)
  have at: "deque_at (store_of ds) j (xss ! j)" using store_of_at[OF rel] True by simp
  have d: "dq_holds n (ds ! i) (xss ! i)" "dq_holds n (ds ! j) (xss ! j)" using list_all2_nthD[OF rel] True by simp_all
  then have fits: "length (xss ! j) \<le> capacity (ds ! i)" by (auto simp: dq_holds_def deque_inv_def)
  obtain d' where d': "assign_internal True (ds ! i) (map Inr (xss ! j)) = Some (d', None)" "dq_holds n d' (xss ! j)"
    using assign_internal_spec(1)[of "ds ! i" "xss ! i" "xss ! j" True] d fits by (auto simp: dq_holds_def)
  have "operator_assign True Inr (store_of ds) i j = Some ((store_of ds)(i \<mapsto> d'), None)"
    using True d'(1) range_values_spec[OF at, of 0 True] deque_at_size(3)[OF at, of True]
    by (simp add: operator_assign_def dq_begin_def store_of_def)
  then show ?thesis using True l rel d'(2) by (auto intro: list_all2_update_cong)
next
  case False
  have l: "length ds = length xss" using rel by (rule list_all2_lengthD)
  then show ?thesis
  proof (cases "i = j")
    case True
    then show ?thesis using l rel by (auto simp: operator_assign_def store_of_def)
  next
    case ne: False
    have "operator_assign True Inr (store_of ds) i j = None" if "i \<ge> length ds \<or> j \<ge> length ds"
    proof (cases "j < length ds")
      case True
      then show ?thesis using that ne
        by (auto simp: operator_assign_def store_of_def split: Option.bind_splits)
    qed (use ne in \<open>simp add: operator_assign_def dq_end_def store_of_def\<close>)
    then show ?thesis using False ne l by auto
  qed
qed

lemma values_holds:
  assumes rel: "related n ds xss"
  shows "rel_option (related n) (deque_command_step n (T_values i vs) ds) (list_command_step n (T_values i vs) xss)"
proof (cases "i < length ds")
  case True
  have at: "deque_at (store_of ds) i (xss ! i)" using store_of_at[OF rel True] .
  show ?thesis using True list_all2_lengthD[OF rel] rel range_values_spec[OF at, of 0 True] deque_at_size(3)[OF at, of True]
    by (auto simp: dq_begin_def check_deque_def ASSERT_def)
next
  case False
  then show ?thesis using list_all2_lengthD[OF rel] by (simp add: dq_end_def store_of_def check_deque_def)
qed

lemma command_agrees:
  assumes rel: "related n ds xss" and n: "0 < n" "n < 2 ^ 31" and ok: "command_ok n c"
  shows "rel_option (related n) (deque_command_step n c ds) (list_command_step n c xss)"
proof (cases c)
  case T_new
  have "dq_holds n (deque_new n) []" using deque_new_inv[OF n] by (simp add: dq_holds_def capacity_def deque_new_def)
  then show ?thesis using rel T_new by (auto intro!: list_all2_appendI)
next
  case (T_assign_range i us ex)
  have "rel_option (dq_holds n) (checked_assign_range us ex d) (case ex of None \<Rightarrow> if length us \<le> n then Some us else None | Some e \<Rightarrow> Some [])"
    if "dq_holds n d xs" for d xs using assign_range_holds[OF that, of i us ex] ok T_assign_range by blast
  then show ?thesis using T_assign_range with_deque_rel[OF rel] by simp
next
  case (T_clear i)
  have "rel_option (dq_holds n) (dq_clear True d) (Some [])" if "dq_holds n d xs" for d xs
    using that dq_clear_spec[of d xs True] deque_new_inv[OF n] by (auto simp: dq_holds_def capacity_def deque_new_def)
  from with_deque_rel[OF rel this] show ?thesis using T_clear by simp
next
  case (T_empty i b)
  show ?thesis unfolding T_empty deque_command_step.simps list_command_step.simps by (rule check_value_rel[OF rel dq_empty_holds])
next
  case (T_size i k)
  show ?thesis unfolding T_size deque_command_step.simps list_command_step.simps by (rule check_value_rel[OF rel dq_size_holds])
next
  case (T_front i v)
  show ?thesis unfolding T_front deque_command_step.simps list_command_step.simps by (rule check_value_rel[OF rel dq_front_holds])
next
  case (T_instances k)
  then show ?thesis using rel instance_amount_related[OF rel] by (auto simp: ASSERT_def)
next
  case (T_push_back i v)
  then show ?thesis using with_deque_rel[OF rel push_back_holds] by simp
next
  case (T_push_front i v)
  then show ?thesis using with_deque_rel[OF rel push_front_holds] by simp
next
  case (T_emplace_back i v)
  then show ?thesis using with_deque_rel[OF rel push_back_holds] by (simp add: emplace_is_push)
next
  case (T_emplace_front i v)
  then show ?thesis using with_deque_rel[OF rel push_front_holds] by (simp add: emplace_is_push)
next
  case (T_pop_back i)
  then show ?thesis using with_deque_rel[OF rel pop_back_holds] by simp
next
  case (T_pop_front i)
  then show ?thesis using with_deque_rel[OF rel pop_front_holds] by simp
next
  case (T_back i v)
  show ?thesis unfolding T_back deque_command_step.simps list_command_step.simps by (rule check_value_rel[OF rel dq_back_holds])
next
  case (T_index i k v)
  show ?thesis unfolding T_index deque_command_step.simps list_command_step.simps by (rule check_value_rel[OF rel dq_index_holds])
next
  case (T_copy j)
  then show ?thesis using copy_holds[OF rel n] by simp
next
  case (T_assign i j)
  then show ?thesis using assign_holds[OF rel] by simp
next
  case (T_values i vs)
  then show ?thesis using values_holds[OF rel] by simp
qed

theorem tests_agree:
  assumes "related n ds xss" "0 < n" "n < 2 ^ 31" "\<forall>c\<in>set cs. command_ok n c"
  shows "rel_option (related n) (run_deque_test n cs ds) (run_list_test n cs xss)"
  using assms
proof (induction cs arbitrary: ds xss)
  case (Cons c cs)
  from command_agrees[OF Cons.prems(1-3), of c] Cons.prems(4) Cons.IH Cons.prems(2,3) show ?case
    by (cases "deque_command_step n c ds"; cases "list_command_step n c xss") auto
qed simp

lemma destroy_related: "related n ds xss \<Longrightarrow> destroy_deques ds = Some ()"
proof (induction ds xss rule: list_all2_induct)
  case (Cons d ds xs xss)
  then show ?case using dq_clear_spec[of d xs True]
    by (simp add: dq_holds_def dq_destroy_def instance_amount_def deque_new_def)
qed simp

text \<open>A block of the test passes exactly if its run on lists does; its end never fails.\<close>

theorem block_verdict:
  assumes "0 < n" "n < 2 ^ 31" "\<forall>c\<in>set cs. command_ok n c"
  shows "run_deque_block n cs = Some () \<longleftrightarrow> run_list_test n cs [] \<noteq> None"
proof -
  have "rel_option (related n) (run_deque_test n cs []) (run_list_test n cs [])"
    by (rule tests_agree[OF _ assms]) simp
  then show ?thesis
    by (cases "run_deque_test n cs []"; cases "run_list_test n cs []") (auto simp: run_deque_block_def destroy_related)
qed

subsection \<open>The test\<close>

text \<open>The first block, up to the part that works with iterators only: pushes and pops with every position of the wrap-around,
  then removals from the back. The deques are \<open>c\<close>, \<open>c1\<close>, \<open>c2\<close>.\<close>

definition deque_test_pushes :: "deque_command list" where
  "deque_test_pushes = [T_new, T_empty 0 True, T_copy 0, T_empty 1 True, T_new, T_instances 0, T_push_back 0 0, T_size 0 1,
     T_front 0 0, T_back 0 0, T_instances 1, T_push_front 0 (- 1), T_size 0 2, T_front 0 (- 1), T_back 0 0,
     T_instances 2, T_assign 2 0, T_size 2 2, T_front 2 (- 1), T_back 2 0, T_instances 4, T_push_back 0 1,
     T_back 0 1, T_front 0 (- 1), T_size 0 3, T_instances 5, T_pop_front 0, T_front 0 0, T_back 0 1, T_size 0 2,
     T_instances 4, T_pop_front 0, T_front 0 1, T_back 0 1, T_size 0 1, T_instances 3, T_push_back 0 2, T_back 0 2,
     T_front 0 1, T_size 0 2, T_instances 4, T_push_back 0 3, T_back 0 3, T_front 0 1, T_size 0 3, T_instances 5,
     T_pop_front 0, T_front 0 2, T_back 0 3, T_size 0 2, T_instances 4, T_push_back 0 4, T_back 0 4, T_front 0 2,
     T_size 0 3, T_instances 5, T_pop_front 0, T_front 0 3, T_back 0 4, T_size 0 2, T_instances 4, T_push_back 0 5,
     T_back 0 5, T_front 0 3, T_size 0 3, T_instances 5, T_pop_front 0, T_front 0 4, T_back 0 5, T_size 0 2,
     T_instances 4, T_push_back 0 6, T_back 0 6, T_front 0 4, T_size 0 3, T_instances 5, T_pop_front 0, T_front 0 5,
     T_back 0 6, T_size 0 2, T_instances 4, T_push_back 0 7, T_back 0 7, T_front 0 5, T_size 0 3, T_instances 5,
     T_index 0 0 5, T_index 0 1 6, T_index 0 2 7]"

definition deque_test_pops :: "deque_command list" where
  "deque_test_pops = [T_pop_back 0, T_back 0 6, T_front 0 5, T_size 0 2, T_instances 4, T_push_front 0 4, T_front 0 4, T_back 0 6,
     T_size 0 3, T_instances 5, T_pop_back 0, T_back 0 5, T_front 0 4, T_size 0 2, T_instances 4, T_push_front 0 3,
     T_front 0 3, T_back 0 5, T_size 0 3, T_instances 5, T_pop_back 0, T_back 0 4, T_front 0 3, T_size 0 2,
     T_instances 4, T_push_front 0 2, T_front 0 2, T_back 0 4, T_size 0 3, T_instances 5, T_pop_back 0, T_back 0 3,
     T_front 0 2, T_size 0 2, T_instances 4, T_push_front 0 1, T_front 0 1, T_back 0 3, T_size 0 3, T_instances 5,
     T_index 0 0 1, T_index 0 1 2, T_index 0 2 3, T_size 2 2, T_front 2 (- 1), T_back 2 0, T_index 2 0 (- 1),
     T_index 2 1 0, T_size 0 3, T_size 2 2, T_assign 2 0, T_empty 2 False, T_size 2 3, T_index 2 0 1, T_index 2 1 2,
     T_index 2 2 3, T_instances 6, T_clear 2, T_empty 2 True, T_size 2 0, T_empty 0 False, T_size 0 3,
     T_instances 3]"

text \<open>Assignment from ranges; the lines on the vector \<open>iv\<close> alone need no command, and the reversal at the end is left out.\<close>

definition deque_test_ranges :: "deque_command list" where
  "deque_test_ranges = [T_new, T_instances 0, T_assign_range 0 [1, 2, 3] None, T_instances 3, T_assign_range 0 [1, 2, 3] None, T_instances 3,
     T_size 0 3]"

text \<open>The block that checks emplacing; the deques are \<open>c\<close> and \<open>c2\<close>. A value is emplaced from no arguments as zero.\<close>

definition deque_test_emplace :: "deque_command list" where
  "deque_test_emplace = [T_instances 0, T_new, T_empty 0 True, T_new, T_instances 0, T_emplace_back 0 0, T_size 0 1, T_front 0 0,
     T_back 0 0, T_instances 1, T_emplace_front 0 (- 1), T_size 0 2, T_front 0 (- 1), T_back 0 0, T_instances 2,
     T_assign 1 0, T_size 1 2, T_front 1 (- 1), T_back 1 0, T_instances 4, T_emplace_back 0 1, T_back 0 1,
     T_front 0 (- 1), T_size 0 3, T_instances 5, T_pop_front 0, T_front 0 0, T_back 0 1, T_size 0 2, T_instances 4,
     T_pop_front 0, T_front 0 1, T_back 0 1, T_size 0 1, T_instances 3, T_emplace_back 0 2, T_back 0 2, T_front 0 1,
     T_size 0 2, T_instances 4, T_emplace_back 0 3, T_back 0 3, T_front 0 1, T_size 0 3, T_instances 5,
     T_pop_front 0, T_front 0 2, T_back 0 3, T_size 0 2, T_instances 4, T_emplace_back 0 4, T_back 0 4, T_front 0 2,
     T_size 0 3, T_instances 5, T_pop_front 0, T_front 0 3, T_back 0 4, T_size 0 2, T_instances 4,
     T_emplace_back 0 5, T_back 0 5, T_front 0 3, T_size 0 3, T_instances 5, T_pop_front 0, T_front 0 4, T_back 0 5,
     T_size 0 2, T_instances 4, T_emplace_back 0 6, T_back 0 6, T_front 0 4, T_size 0 3, T_instances 5,
     T_pop_front 0, T_front 0 5, T_back 0 6, T_size 0 2, T_instances 4, T_emplace_back 0 7, T_back 0 7, T_front 0 5,
     T_size 0 3, T_instances 5, T_index 0 0 5, T_index 0 1 6, T_index 0 2 7, T_pop_back 0, T_back 0 6, T_front 0 5,
     T_size 0 2, T_instances 4, T_emplace_front 0 4, T_front 0 4, T_back 0 6, T_size 0 3, T_instances 5,
     T_pop_back 0, T_back 0 5, T_front 0 4, T_size 0 2, T_instances 4, T_emplace_front 0 3, T_front 0 3, T_back 0 5,
     T_size 0 3, T_instances 5, T_pop_back 0, T_back 0 4, T_front 0 3, T_size 0 2, T_instances 4,
     T_emplace_front 0 2, T_front 0 2, T_back 0 4, T_size 0 3, T_instances 5, T_pop_back 0, T_back 0 3, T_front 0 2,
     T_size 0 2, T_instances 4, T_emplace_front 0 1, T_front 0 1, T_back 0 3, T_size 0 3, T_instances 5,
     T_index 0 0 1, T_index 0 1 2, T_index 0 2 3, T_clear 0, T_instances 2, T_emplace_front 0 0, T_emplace_back 0 0,
     T_front 0 0, T_back 0 0, T_size 0 2, T_instances 4]"

text \<open>The block with mocks that throw at the fourth construction: two pushed values and the first of the range are constructed before.\<close>

definition deque_test_throwing :: "deque_command list" where
  "deque_test_throwing = [T_new, T_push_back 0 0, T_push_back 0 1, T_size 0 2, T_instances 2,
     T_assign_range 0 [1] (Some Ctor_exception), T_size 0 0, T_values 0 [], T_instances 0]"

text \<open>Ten emplacements with up to four arguments; the type has no state.\<close>

definition deque_test_arguments :: "deque_command list" where
  "deque_test_arguments = [T_new, T_emplace_back 0 0, T_emplace_front 0 0, T_emplace_back 0 0, T_emplace_front 0 0, T_emplace_back 0 0,
     T_emplace_front 0 0, T_emplace_back 0 0, T_emplace_front 0 0, T_emplace_back 0 0, T_emplace_front 0 0, T_size 0 10]"

lemma fourth_construction_throws:
  "snd (throw_calls 4 (Some Ctor_exception) (throwCountMode True \<lparr>tc_amountOfConstructWithoutThrow = 3,
     tc_amountOfConstructedWithoutThrow = k, tc_enabledThrowCount = False\<rparr>)) = [None, None, None, Some Ctor_exception]"
  by (subst throw_calls_from[where n = 3 and k = 0]) (simp_all add: throwCountMode_def upt_rec)

lemmas list_run = with_deque_def check_deque_def

lemma pushes_and_pops_pass: "run_list_test 3 (deque_test_pushes @ deque_test_pops) [] \<noteq> None"
  by (simp add: deque_test_pushes_def deque_test_pops_def list_run)

lemma emplace_passes: "run_list_test 3 deque_test_emplace [] \<noteq> None"
  by (simp add: deque_test_emplace_def list_run)

lemma other_blocks_pass:
  "run_list_test 3 deque_test_ranges [] \<noteq> None" "run_list_test 4 deque_test_throwing [] \<noteq> None"
  "run_list_test 10 deque_test_arguments [] \<noteq> None"
  by (simp_all add: deque_test_ranges_def deque_test_throwing_def deque_test_arguments_def list_run)

end
