(* ===== verification/Deque_Properties.thy ===== *)
theory Deque_Properties
  imports Deque_Tests Deque_Sequence
begin

section \<open>Properties of inplace_fixed_deque.hpp and containers_utility.hpp\<close>

text \<open>
  A deque that wraps around its array instantiates the statements: capacity 4, first element in
  slot 3, values 1, 2, 3.
\<close>

definition demo_deque :: "nat inplace_fixed_deque" where
  "demo_deque = \<lparr>m_raw_byte_array = [Some 2, Some 3, None, Some 1], m_begin = 3, m_end = 1\<rparr>"

lemma demo_deque_inv: "deque_inv demo_deque [1, 2, 3]" "capacity demo_deque = 4"
  by (auto simp: deque_inv_def demo_deque_def capacity_def end_code_def slot_of_def less_Suc_eq)

definition demo_store :: "nat deque_store" where
  "demo_store = [0 \<mapsto> demo_deque, 1 \<mapsto> deque_new 5]"

lemma demo_store_at: "deque_at demo_store 0 [1, 2, 3]" "deque_at demo_store 1 []"
  using demo_deque_inv deque_new_inv [of 5] by (auto simp: deque_at_def demo_store_def)

text \<open>
  C18. The deque refines a bounded list: every valid sequence of pushes and pops at both ends runs
  without undefined behaviour or failed assertion, for every position of the elements in the
  circular array, and the deque then holds what the same operations leave of a plain list; no
  slot outside the elements holds an object.
\<close>
theorem queue_scripts_refine_lists:
  assumes "deque_inv d xs" "queue_script_valid (capacity d) qs xs"
  shows "\<exists>d'. dq.run_queue dbg qs d = Some d' \<and> deque_inv d' (fold queue_list qs xs) \<and> capacity d' = capacity d"
  using dq.run_queue_refines [of "capacity d" d xs qs dbg] assms by (auto simp: dq_holds_def)

theorem queue_scripts_refine_lists_witness:
  "\<exists>d'. dq.run_queue True [Push_front 9, Pop_back, Pop_back, Push_back 8] demo_deque = Some d' \<and> deque_inv d' [9, 1, 8]"
proof -
  have "queue_script_valid (capacity demo_deque) [Push_front 9, Pop_back, Pop_back, Push_back 8] [1, 2, 3]"
    by (simp add: demo_deque_inv)
  from queue_scripts_refine_lists [OF demo_deque_inv(1) this, of True] show ?thesis by auto
qed

text \<open>
  C19. Failure of a push or pop: when the copy constructor throws, the deque is unchanged and the
  exception is passed on; on a full deque a push, and on an empty one a pop, fails the assertion,
  and without assertions leaves the deque unchanged and reports nothing.
\<close>
theorem push_pop_failures:
  assumes "deque_inv d xs"
  shows "(let full = (length xs = capacity d) in
      push_back_internal dbg d (Inl ex) = (if full then if dbg then None else Some (d, None) else Some (d, Some ex)) \<and>
      push_front_internal dbg d (Inl ex) = (if full then if dbg then None else Some (d, None) else Some (d, Some ex)) \<and>
      (full \<longrightarrow> push_back_internal dbg d (Inr x) = (if dbg then None else Some (d, None)) \<and>
        push_front_internal dbg d (Inr x) = (if dbg then None else Some (d, None))) \<and>
      (xs = [] \<longrightarrow> dq_pop_back dbg d = (if dbg then None else Some d) \<and>
        dq_pop_front dbg d = (if dbg then None else Some d)))"
proof -
  have "length xs \<le> capacity d" using assms by (simp add: deque_inv_def)
  then show ?thesis
    using push_full [OF assms] push_back_spec(1) [OF assms] push_front_spec(1) [OF assms] pop_empty [of d dbg] assms
    by (auto simp: Let_def)
qed

theorem push_pop_failures_witness:
  "push_back_internal True demo_deque (Inl Ctor_exception) = Some (demo_deque, Some Ctor_exception) \<and>
   dq_pop_back True (deque_new 4 :: nat inplace_fixed_deque) = None"
  using push_pop_failures [OF demo_deque_inv(1), of True Ctor_exception]
    push_pop_failures [OF deque_new_inv [where 'a = nat, of 4], of True] demo_deque_inv(2) by (simp add: Let_def)

text \<open>
  C20. Unit tests as scripts: a block of commands on deques of one capacity (construction, copies, assignments, pushes, pops,
  emplacements, checks of contents and of the number of living objects) passes with assertions compiled in exactly if the same commands pass on
  plain lists, and its deques are destroyed without an error. Every translated block of the test of the repository passes.
\<close>
theorem deque_test_verdict:
  "(\<forall>n cs. 0 < n \<longrightarrow> n < 2 ^ 31 \<longrightarrow> (\<forall>c\<in>set cs. command_ok n c) \<longrightarrow>
      (run_deque_block n cs = Some ()) = (run_list_test n cs [] \<noteq> None)) \<and>
    run_deque_block 3 (deque_test_pushes @ deque_test_pops) = Some () \<and> run_deque_block 3 deque_test_ranges = Some () \<and>
    run_deque_block 3 deque_test_emplace = Some () \<and> run_deque_block 4 deque_test_throwing = Some () \<and>
    run_deque_block 10 deque_test_arguments = Some ()"
proof (intro conjI allI impI)
  have ok: "\<forall>c\<in>set deque_test_throwing. command_ok 4 c" "\<forall>c\<in>set deque_test_ranges. command_ok 3 c"
    "\<forall>c\<in>set deque_test_arguments. command_ok 10 c" "\<forall>c\<in>set deque_test_emplace. command_ok 3 c"
    "\<forall>c\<in>set (deque_test_pushes @ deque_test_pops). command_ok 3 c"
    by (simp_all add: deque_test_throwing_def deque_test_ranges_def deque_test_arguments_def deque_test_emplace_def
        deque_test_pushes_def deque_test_pops_def)
  show "run_deque_block 3 (deque_test_pushes @ deque_test_pops) = Some ()" "run_deque_block 3 deque_test_ranges = Some ()"
    "run_deque_block 3 deque_test_emplace = Some ()" "run_deque_block 4 deque_test_throwing = Some ()"
    "run_deque_block 10 deque_test_arguments = Some ()"
    using block_verdict [OF _ _ ok(1)] block_verdict [OF _ _ ok(2)] block_verdict [OF _ _ ok(3)]
      block_verdict [OF _ _ ok(4)] block_verdict [OF _ _ ok(5)] pushes_and_pops_pass emplace_passes other_blocks_pass
    by simp_all
qed (rule block_verdict)

theorem deque_test_verdict_witness:
  "run_deque_block 2 [T_new, T_push_back 0 5, T_front 0 6] \<noteq> Some () \<and>
    run_deque_block 2 [T_new, T_push_back 0 5, T_front 0 5] = Some ()"
proof -
  have "(run_deque_block 2 cs = Some ()) = (run_list_test 2 cs [] \<noteq> None)" if "\<forall>c\<in>set cs. command_ok 2 c" for cs
    using deque_test_verdict [THEN conjunct1, rule_format, of 2 cs] that by simp
  from this [of "[T_new, T_push_back 0 5, T_front 0 6]"] this [of "[T_new, T_push_back 0 5, T_front 0 5]"] show ?thesis
    by (simp add: list_run)
qed

text \<open>
  Assignment: a source that fits and copies without exception is what the deque holds
  afterwards; when a copy throws, every object already copied is destroyed and the deque is
  empty; a source that is too long fails the assertion, and without assertions is cut off at the
  capacity.
\<close>
theorem assign_internal_correct:
  assumes "deque_inv d xs"
  shows "(length us \<le> capacity d \<longrightarrow> (\<exists>d'. assign_internal dbg d (map Inr us) = Some (d', None) \<and>
        deque_inv d' us \<and> capacity d' = capacity d)) \<and>
    (length us < capacity d \<longrightarrow>
      assign_internal dbg d (map Inr us @ Inl ex # vs) = Some (deque_new (capacity d), Some ex)) \<and>
    (capacity d < length us \<longrightarrow> assign_internal True d (map Inr us) = None \<and>
      (\<exists>d'. assign_internal False d (map Inr us) = Some (d', None) \<and> deque_inv d' (take (capacity d) us)))"
  using assign_internal_spec [OF assms] by blast

theorem assign_internal_correct_witness:
  "assign_internal True demo_deque [Inr 5, Inl Ctor_exception, Inr 6] = Some (deque_new 4, Some Ctor_exception) \<and>
   (\<exists>d'. assign_internal True demo_deque [Inr 5, Inr 6] = Some (d', None) \<and> deque_inv d' [5, 6])"
  using assign_internal_correct [OF demo_deque_inv(1), of "[5]" True Ctor_exception "[Inr 6]"]
    assign_internal_correct [OF demo_deque_inv(1), of "[5, 6]" True] demo_deque_inv(2) by auto

text \<open>
  C21. Random access iterators. Without assertions \<open>advance\<close> by any \<open>ptrdiff_t\<close> but the least one moves by that amount and stops at the
  two ends. With assertions it moves by that amount if the target is in range and, forwards, the missing overflow check would
  accept, and fails otherwise. The least \<open>ptrdiff_t\<close> overflows in both builds. \<open>distance_to\<close> is the signed difference of the positions, and
  advancing by it reaches the other iterator, in a build with assertions provided the missing overflow check accepts.
\<close>
theorem advance_distance:
  assumes "deque_at st a xs" "i \<le> length xs" "j \<le> length xs"
  shows "it_advance no_overflow False st (iter a i) n = (if sint n = - (2 ^ 31) then None
      else Some (iter a (nat (max 0 (min (int (length xs)) (int i + sint n)))))) \<and>
    it_advance no_overflow True st (iter a i) n = (if sint n \<noteq> - (2 ^ 31) \<and> 0 \<le> int i + sint n \<and>
        int i + sint n \<le> int (length xs) \<and> (0 \<le> sint n \<longrightarrow> no_overflow (of_nat i) n)
      then Some (iter a (nat (int i + sint n))) else None) \<and>
    (\<exists>k. it_distance_to dbg (iter a i) (iter a j) = Some k \<and> sint k = int j - int i \<and>
      it_advance no_overflow False st (iter a i) k = Some (iter a j) \<and>
      ((i \<le> j \<longrightarrow> no_overflow (of_nat i) k) \<longrightarrow> it_advance no_overflow True st (iter a i) k = Some (iter a j)))"
proof -
  let ?k = "of_int (int j - int i) :: size_t"
  have "length xs < 2 ^ 31" using deque_at_size [OF assms(1)] by simp
  then have k: "sint ?k = int j - int i" "int j - int i \<noteq> - (2 ^ 31)"
    using assms(2,3) sint_sbintrunc' [where 'a = 32, of "int j - int i"]
    by (simp_all add: signed_take_bit_int_eq_self del: of_int_diff)
  have t: "nat (max 0 (min (int (length xs)) (int j))) = j" "int i + (int j - int i) = int j" using assms(3) by simp_all
  note adv = it_advance_spec [OF assms(1,2), of no_overflow]
  have "it_advance no_overflow False st (iter a i) ?k = Some (iter a j)"
    "(i \<le> j \<longrightarrow> no_overflow (of_nat i) ?k) \<longrightarrow> it_advance no_overflow True st (iter a i) ?k = Some (iter a j)"
    unfolding adv k(1) t(2) using k(2) t(1) assms(3) by auto
  then show ?thesis using adv [of False n] adv [of True n] k(1) it_distance_to_spec [OF assms, of dbg]
    by (intro conjI exI [of _ ?k]) (simp_all del: of_int_diff)
qed

theorem advance_distance_witness:
  "it_advance (\<lambda>_ _. True) False demo_store (iter 0 2) 7 = Some (iter 0 3) \<and>
   it_advance (\<lambda>_ _. True) True demo_store (iter 0 2) 7 = None \<and>
   (\<exists>k. it_distance_to True (iter 0 2) (iter 0 1) = Some k \<and> sint k = - 1 \<and>
      it_advance (\<lambda>_ _. True) True demo_store (iter 0 2) k = Some (iter 0 1))"
  using advance_distance [OF demo_store_at(1), of 2 1 "\<lambda>_ _. True" 7 True] by auto

text \<open>
  Copy assignment between two deques of the store: when all copies succeed the target holds
  them; when one throws the target is left empty; the source keeps its values in both cases.
\<close>
theorem copy_assignment:
  assumes "deque_at st this ys" "deque_at st rhs xs" "rhs \<noteq> this"
    "\<And>d. st this = Some d \<Longrightarrow> length xs \<le> capacity d"
  shows "(map copy xs = map Inr us \<longrightarrow> (\<exists>st'. operator_assign dbg copy st this rhs = Some (st', None) \<and>
      deque_at st' this us \<and> deque_at st' rhs xs)) \<and>
    (map copy xs = map Inr us @ Inl ex # vs \<longrightarrow> (\<exists>st'. operator_assign dbg copy st this rhs = Some (st', Some ex) \<and>
      deque_at st' this [] \<and> deque_at st' rhs xs))"
  using operator_assign_spec [OF assms(1-3)] assms(4) by blast

theorem copy_assignment_witness:
  "\<exists>st'. operator_assign True Inr demo_store 1 0 = Some (st', None) \<and> deque_at st' 1 [1, 2, 3] \<and> deque_at st' 0 [1, 2, 3]"
  using copy_assignment [OF demo_store_at(2,1), of Inr "[1, 2, 3]" True]
  by (auto simp: demo_store_def deque_new_def capacity_def)

text \<open>
  C22. \<open>uninitialized_copy_and_rollback_if_exception\<close> on raw storage between \<open>d\<close> and \<open>e\<close>: it stops at
  the end of the storage or of the source and reports how far it came and whether everything was
  copied; when a copy throws, the objects made are destroyed and the storage is exactly as
  before.
\<close>
theorem uninitialized_copy_correct:
  assumes "d \<le> e" "e \<le> length slots" "raw_range slots d e"
  shows "\<exists>us rest. source = map Inr us @ rest \<and> d + length us \<le> e \<and>
    (uninitialized_copy_and_rollback_if_exception dbg slots source d e =
       Some (put_block slots d us, Inr \<lparr>m_unitialized_iterator = d + length us,
         m_sucessfull_inserted_items_amount = length us, m_transaction_fully_successful = (rest = [])\<rparr>) \<and>
       (rest = [] \<or> d + length us = e) \<or>
     (\<exists>ex vs. rest = Inl ex # vs \<and> uninitialized_copy_and_rollback_if_exception dbg slots source d e = Some (slots, Inl ex)))"
  by (rule uninitialized_copy_spec [OF assms])

theorem uninitialized_copy_correct_witness:
  "uninitialized_copy_and_rollback_if_exception True [Some 1, None, None] [Inr (7 :: nat), Inl Bad_alloc] 1 3 =
     Some ([Some 1, None, None], Inl Bad_alloc)"
proof -
  have "raw_range [Some (1 :: nat), None, None] 1 3" by (simp add: raw_range_def numeral_eq_Suc nth_Cons' less_Suc_eq)
  from uninitialized_copy_correct [OF _ _ this, of "[Inr 7, Inl Bad_alloc]" True] show ?thesis
    by (auto simp: Cons_eq_append_conv Cons_eq_map_conv)
qed

end
