(* ===== verification/Monitor.thy ===== *)
theory Monitor
  imports Cpp_Prelude
begin

section \<open>Threads around a mutex and a condition variable\<close>

text \<open>
  What \<open>std::mutex\<close> and \<open>std::condition_variable\<close> give the code: the body of a member that holds
  the lock is one atomic step; a call that has to wait puts its thread into the wait set;
  \<open>notify_one\<close> moves one waiting thread, if there is any, and \<open>notify_all\<close> all of them out of the
  set; a waiting thread may also wake up for no reason; a thread that left the set evaluates the
  predicate of its wait again when it gets the lock. A timed wait evaluates it once more when its
  time is over, and then does not block.

  A component is given by two functions on its shared state: \<open>submit\<close> for the members that never
  wait and \<open>call\<close> for those that may, whose second argument tells whether the time is over. The
  locale states what the two have to do so that no wake-up is lost; it is interpreted for both
  queues of \<^verbatim>\<open>UnboundedQueue.hpp\<close>.
\<close>

datatype notify = Notify_none | Notify_one | Notify_all

datatype ('r, 'e) outcome_of = Returned 'r | Threw 'e | Blocked

datatype 'req thread = Idle | Waiting 'req | Awake 'req

type_synonym ('st, 'req) monitor = "'st \<times> (nat \<Rightarrow> 'req thread)"

datatype ('cmd, 'req, 'r, 'e) event = Submitted 'cmd | Finished nat 'req "('r, 'e) outcome_of" | Internal

fun wake :: "'req thread \<Rightarrow> 'req thread" where
  "wake (Waiting r) = Awake r"
| "wake t = t"

inductive notified :: "notify \<Rightarrow> (nat \<Rightarrow> 'req thread) \<Rightarrow> (nat \<Rightarrow> 'req thread) \<Rightarrow> bool" where
  notified_nobody: "notified Notify_none ths ths"
| notified_one: "ths t = Waiting r \<Longrightarrow> notified Notify_one ths (ths(t := Awake r))"
| notified_empty: "(\<And>t r. ths t \<noteq> Waiting r) \<Longrightarrow> notified Notify_one ths ths"
| notified_all: "notified Notify_all ths (\<lambda>t. wake (ths t))"

inductive_simps notified_simps [simp]:
  "notified Notify_none ths ths'" "notified Notify_one ths ths'" "notified Notify_all ths ths'"

inductive monitor_step ::
  "('cmd \<Rightarrow> 'st \<Rightarrow> ('st \<times> notify) option) \<Rightarrow>
   ('req \<Rightarrow> bool \<Rightarrow> 'st \<Rightarrow> ('st \<times> ('r, 'e) outcome_of \<times> notify) option) \<Rightarrow>
   ('st, 'req) monitor \<Rightarrow> ('cmd, 'req, 'r, 'e) event \<Rightarrow> ('st, 'req) monitor \<Rightarrow> bool"
  for submit call where
  Submit: "submit c st = Some (st', n) \<Longrightarrow> notified n ths ths' \<Longrightarrow>
     monitor_step submit call (st, ths) (Submitted c) (st', ths')"
| Call: "ths t = Idle \<Longrightarrow> call r False st = Some (st', res, n) \<Longrightarrow> res \<noteq> Blocked \<Longrightarrow> notified n ths ths' \<Longrightarrow>
     monitor_step submit call (st, ths) (Finished t r res) (st', ths')"
| Block: "ths t = Idle \<or> ths t = Awake r \<Longrightarrow> call r False st = Some (st', Blocked, n) \<Longrightarrow>
     monitor_step submit call (st, ths) Internal (st', ths(t := Waiting r))"
| Spurious: "ths t = Waiting r \<Longrightarrow> monitor_step submit call (st, ths) Internal (st, ths(t := Awake r))"
| Resume: "ths t = Awake r \<Longrightarrow> call r False st = Some (st', res, n) \<Longrightarrow> res \<noteq> Blocked \<Longrightarrow>
     notified n (ths(t := Idle)) ths' \<Longrightarrow> monitor_step submit call (st, ths) (Finished t r res) (st', ths')"
| Timeout: "ths t = Waiting r \<or> ths t = Awake r \<Longrightarrow> call r True st = Some (st', res, n) \<Longrightarrow> res \<noteq> Blocked \<Longrightarrow>
     notified n (ths(t := Idle)) ths' \<Longrightarrow> monitor_step submit call (st, ths) (Finished t r res) (st', ths')"

text \<open>Runs and their events, oldest first.\<close>

inductive monitor_run ::
  "('cmd \<Rightarrow> 'st \<Rightarrow> ('st \<times> notify) option) \<Rightarrow>
   ('req \<Rightarrow> bool \<Rightarrow> 'st \<Rightarrow> ('st \<times> ('r, 'e) outcome_of \<times> notify) option) \<Rightarrow>
   ('st, 'req) monitor \<Rightarrow> ('cmd, 'req, 'r, 'e) event list \<Rightarrow> ('st, 'req) monitor \<Rightarrow> bool"
  for submit call where
  Run_nil: "monitor_run submit call m [] m"
| Run_snoc: "monitor_run submit call m es m' \<Longrightarrow> monitor_step submit call m' e m'' \<Longrightarrow>
     monitor_run submit call m (es @ [e]) m''"

text \<open>Every event of a run comes from a completed member: the shared states before and after it.\<close>

lemma monitor_step_shared:
  assumes "monitor_step submit call (st, ths) e (st', ths')"
  shows "case e of
      Submitted c \<Rightarrow> \<exists>n. submit c st = Some (st', n)
    | Finished t r res \<Rightarrow> res \<noteq> Blocked \<and> (\<exists>b n. call r b st = Some (st', res, n))
    | Internal \<Rightarrow> st' = st \<or> (\<exists>r n. call r False st = Some (st', Blocked, n))"
  using assms by cases auto

definition somebody_waits :: "(nat \<Rightarrow> 'req thread) \<Rightarrow> bool" where
  "somebody_waits ths \<longleftrightarrow> (\<exists>t r. ths t = Waiting r)"

definition somebody_awake :: "(nat \<Rightarrow> 'req thread) \<Rightarrow> bool" where
  "somebody_awake ths \<longleftrightarrow> (\<exists>t r. ths t = Awake r)"

lemma notified_awake:
  assumes "notified n ths ths'"
  shows "somebody_awake ths \<Longrightarrow> somebody_awake ths'"
    and "n \<noteq> Notify_none \<Longrightarrow> somebody_waits ths' \<Longrightarrow> somebody_awake ths'"
    and "somebody_waits ths' \<Longrightarrow> somebody_waits ths"
    and "n = Notify_all \<Longrightarrow> \<not> somebody_waits ths'"
  using assms
  by (cases; auto simp: somebody_awake_def somebody_waits_def split: if_splits elim!: wake.elims;
      metis wake.simps thread.distinct)+

lemma finished_waits: "somebody_waits (ths(t := Idle)) \<Longrightarrow> somebody_waits ths"
  by (auto simp: somebody_waits_def split: if_splits)

text \<open>\<open>ready\<close>: a call does not have to wait. \<open>shut\<close>: no call will ever wait again.\<close>

locale monitor_contract =
  fixes submit :: "'cmd \<Rightarrow> 'st \<Rightarrow> ('st \<times> notify) option"
    and call :: "'req \<Rightarrow> bool \<Rightarrow> 'st \<Rightarrow> ('st \<times> ('r, 'e) outcome_of \<times> notify) option"
    and ready :: "'st \<Rightarrow> bool"
    and shut :: "'st \<Rightarrow> bool"
  assumes blocked_law: "call r b st = Some (st', Blocked, n) \<Longrightarrow> st' = st \<and> \<not> ready st"
    and pass_on_law: "call r b st = Some (st', res, n) \<Longrightarrow> ready st' \<Longrightarrow> \<not> shut st' \<Longrightarrow> n \<noteq> Notify_none"
    and call_shut_law: "call r b st = Some (st', res, n) \<Longrightarrow> shut st' = shut st"
    and call_total: "\<exists>st' res n. call r b st = Some (st', res, n)"
    and submit_ready_law: "submit c st = Some (st', n) \<Longrightarrow> ready st' \<Longrightarrow> ready st \<or> n \<noteq> Notify_none"
    and submit_shut_law: "submit c st = Some (st', n) \<Longrightarrow> shut st' \<Longrightarrow> shut st \<or> n = Notify_all"
    and shut_ready: "shut st \<Longrightarrow> ready st"
begin

definition no_lost_wakeup :: "('st, 'req) monitor \<Rightarrow> bool" where
  "no_lost_wakeup m \<longleftrightarrow> (case m of (st, ths) \<Rightarrow>
     (ready st \<and> somebody_waits ths \<longrightarrow> somebody_awake ths) \<and> (shut st \<longrightarrow> \<not> somebody_waits ths))"

lemma done_step:
  assumes inv: "no_lost_wakeup (st, ths)" and c: "call r b st = Some (st', res, n)"
    and nt: "notified n (ths(t := Idle)) ths'"
  shows "no_lost_wakeup (st', ths')"
proof -
  have w: "somebody_waits ths' \<Longrightarrow> somebody_waits ths" using notified_awake(3) [OF nt] finished_waits by blast
  have "shut st' = shut st" by (rule call_shut_law [OF c])
  moreover have "somebody_awake ths'" if "ready st'" "\<not> shut st'" "somebody_waits ths'"
    using pass_on_law [OF c that(1,2)] notified_awake(2) [OF nt _ that(3)] by blast
  ultimately show ?thesis using inv w by (auto simp: no_lost_wakeup_def)
qed

lemma step_no_lost_wakeup:
  assumes "monitor_step submit call m e m'" "no_lost_wakeup m"
  shows "no_lost_wakeup m'"
  using assms
proof cases
  case (Submit c st st' n ths ths')
  with assms(2) notified_awake [OF Submit(5)] submit_ready_law [OF Submit(4)] submit_shut_law [OF Submit(4)]
  show ?thesis by (auto simp: no_lost_wakeup_def)
next
  case (Call ths t r st st' res n ths')
  then have "ths(t := Idle) = ths" by auto
  with Call assms(2) done_step [of st ths r False st' res n t ths'] show ?thesis by auto
next
  case (Block ths t r st st' n)
  with assms(2) blocked_law [OF Block(5)] shut_ready show ?thesis by (auto simp: no_lost_wakeup_def)
next
  case (Spurious ths t r st)
  with assms(2) show ?thesis by (auto simp: no_lost_wakeup_def somebody_waits_def somebody_awake_def)
next
  case (Resume ths t r st st' res n ths')
  with assms(2) done_step show ?thesis by blast
next
  case (Timeout ths t r st st' res n ths')
  with assms(2) done_step show ?thesis by blast
qed

lemma run_no_lost_wakeup: "monitor_run submit call m es m' \<Longrightarrow> no_lost_wakeup m \<Longrightarrow> no_lost_wakeup m'"
  by (induction rule: monitor_run.induct) (auto intro: step_no_lost_wakeup)

text \<open>Progress: while a thread waits although it need not, another one is awake and finishes its
  call as soon as it gets the lock.\<close>

lemma progress:
  assumes "monitor_run submit call m es (st, ths)" "no_lost_wakeup m" "ready st" "somebody_waits ths"
  shows "\<exists>t r st' res n. ths t = Awake r \<and> call r False st = Some (st', res, n) \<and> res \<noteq> Blocked"
proof -
  from run_no_lost_wakeup [OF assms(1,2)] assms(3,4) obtain t r where "ths t = Awake r"
    by (auto simp: no_lost_wakeup_def somebody_awake_def)
  moreover obtain st' res n where "call r False st = Some (st', res, n)" using call_total by blast
  moreover have "res \<noteq> Blocked" using blocked_law calculation(2) assms(3) by blast
  ultimately show ?thesis by blast
qed

end

end
