(* ===== verification/Unbounded_Queue.thy ===== *)
theory Unbounded_Queue
  imports Monitor "HOL-Library.Multiset"
begin

section \<open>UnboundedQueue.hpp\<close>

text \<open>
  The two queues between threads. Every member takes the lock for its whole body, so it is a
  function of the shared state, with the notification it issues as part of its result; a member
  that throws or has to wait says so. \<open>TUnboundedQueueForNonThrowMovable\<close> moves single
  elements or everything, \<open>TUnboundedQueue_\<close> (suffix \<open>_\<close> below, as in the source) only whole lists.
  \<open>std::list\<close> is a list; \<open>assert\<close> is \<open>ASSERT\<close>.
\<close>

subsection \<open>TUnboundedQueueForNonThrowMovable\<close>

datatype queue_exception = TUnboundedQueueTimeoutException | TUnboundedQueueClosedException

record 'a TUnboundedQueue =
  uq_queue :: "'a list"
  uq_closed :: bool

definition queue_new :: "'a TUnboundedQueue" where
  "queue_new = \<lparr>uq_queue = [], uq_closed = False\<rparr>"

definition close :: "'a TUnboundedQueue \<Rightarrow> 'a TUnboundedQueue \<times> notify" where
  "close st = (st\<lparr>uq_closed := True\<rparr>, Notify_all)"

definition uq_push_front :: "bool \<Rightarrow> 'a TUnboundedQueue \<Rightarrow> 'a \<Rightarrow> ('a TUnboundedQueue \<times> notify) option" where
  "uq_push_front dbg st data = do {
     ASSERT dbg (\<not> uq_closed st);
     if uq_closed st then Some (st, Notify_none)
     else Some (st\<lparr>uq_queue := data # uq_queue st\<rparr>, Notify_one) }"

definition uq_push_back :: "bool \<Rightarrow> 'a TUnboundedQueue \<Rightarrow> 'a \<Rightarrow> ('a TUnboundedQueue \<times> notify) option" where
  "uq_push_back dbg st data = do {
     ASSERT dbg (\<not> uq_closed st);
     if uq_closed st then Some (st, Notify_none)
     else Some (st\<lparr>uq_queue := uq_queue st @ [data]\<rparr>, Notify_one) }"

definition emptyUnstable :: "'a TUnboundedQueue \<Rightarrow> bool" where
  "emptyUnstable st = (uq_queue st = [])"

definition sizeUnstable :: "'a TUnboundedQueue \<Rightarrow> nat" where
  "sizeUnstable st = length (uq_queue st)"

definition uq_clear :: "'a TUnboundedQueue \<Rightarrow> 'a TUnboundedQueue" where
  "uq_clear st = st\<lparr>uq_queue := []\<rparr>"

definition testPushAndThrowIfClossed :: "'a TUnboundedQueue \<Rightarrow> queue_exception + bool" where
  "testPushAndThrowIfClossed st =
     (if uq_closed st then Inl TUnboundedQueueClosedException else Inr (uq_queue st \<noteq> []))"

text \<open>\<open>front()\<close> of an empty list is undefined behaviour.\<close>

definition moveDataFromQueueFront :: "'a TUnboundedQueue \<Rightarrow> ('a TUnboundedQueue \<times> 'a) option" where
  "moveDataFromQueueFront st = (case uq_queue st of [] \<Rightarrow> None | x # xs \<Rightarrow> Some (st\<lparr>uq_queue := xs\<rparr>, x))"

definition moveAllDataFromQueue :: "'a TUnboundedQueue \<Rightarrow> ('a TUnboundedQueue \<times> 'a list) option" where
  "moveAllDataFromQueue st = Some (st\<lparr>uq_queue := []\<rparr>, uq_queue st)"

text \<open>One evaluation of a wait: go on, throw, or stay in the wait set.\<close>

datatype waited = Proceed | Raise queue_exception | Stay

definition waitForDataPushToQueue :: "'a TUnboundedQueue \<Rightarrow> waited" where
  "waitForDataPushToQueue st = (case testPushAndThrowIfClossed st of
     Inl ex \<Rightarrow> Raise ex | Inr b \<Rightarrow> if b then Proceed else Stay)"

definition waitForDataPushToQueueOrTimeout :: "bool \<Rightarrow> 'a TUnboundedQueue \<Rightarrow> waited" where
  "waitForDataPushToQueueOrTimeout time_over st = (case testPushAndThrowIfClossed st of
     Inl ex \<Rightarrow> Raise ex
   | Inr b \<Rightarrow> if b then Proceed else if time_over then Raise TUnboundedQueueTimeoutException else Stay)"

definition rightNowThrowTimeoutExceptionIfNoExistDataAtQueue :: "'a TUnboundedQueue \<Rightarrow> waited" where
  "rightNowThrowTimeoutExceptionIfNoExistDataAtQueue st = (case testPushAndThrowIfClossed st of
     Inl ex \<Rightarrow> Raise ex | Inr b \<Rightarrow> if \<not> b then Raise TUnboundedQueueTimeoutException else Proceed)"

type_synonym ('a, 'r) popped = "('a TUnboundedQueue \<times> ('r, queue_exception) outcome_of \<times> notify) option"

text \<open>The destructor of \<open>TExceptionSafety\<close> passes the notification on when data is left.\<close>

definition wait_and_pop_internal ::
  "bool \<Rightarrow> ('a TUnboundedQueue \<Rightarrow> waited) \<Rightarrow> ('a TUnboundedQueue \<Rightarrow> ('a TUnboundedQueue \<times> 'r) option) \<Rightarrow>
   'a TUnboundedQueue \<Rightarrow> ('a, 'r) popped" where
  "wait_and_pop_internal dbg WaitDataInQueue MoveDataFromQueue st = (case WaitDataInQueue st of
     Raise ex \<Rightarrow> Some (st, Threw ex, Notify_none)
   | Stay \<Rightarrow> Some (st, Blocked, Notify_none)
   | Proceed \<Rightarrow> do {
       ASSERT dbg (uq_queue st \<noteq> []);
       (st, result) \<leftarrow> MoveDataFromQueue st;
       Some (st, Returned result, if uq_queue st \<noteq> [] then Notify_one else Notify_none) })"

definition wait_and_pop :: "bool \<Rightarrow> 'a TUnboundedQueue \<Rightarrow> ('a, 'a) popped" where
  "wait_and_pop dbg st = wait_and_pop_internal dbg waitForDataPushToQueue moveDataFromQueueFront st"

definition wait_and_pop_all :: "bool \<Rightarrow> 'a TUnboundedQueue \<Rightarrow> ('a, 'a list) popped" where
  "wait_and_pop_all dbg st = wait_and_pop_internal dbg waitForDataPushToQueue moveAllDataFromQueue st"

definition wait_and_pop_for :: "bool \<Rightarrow> bool \<Rightarrow> 'a TUnboundedQueue \<Rightarrow> ('a, 'a) popped" where
  "wait_and_pop_for dbg time_over st =
     wait_and_pop_internal dbg (waitForDataPushToQueueOrTimeout time_over) moveDataFromQueueFront st"

definition wait_and_pop_all_for :: "bool \<Rightarrow> bool \<Rightarrow> 'a TUnboundedQueue \<Rightarrow> ('a, 'a list) popped" where
  "wait_and_pop_all_for dbg time_over st =
     wait_and_pop_internal dbg (waitForDataPushToQueueOrTimeout time_over) moveAllDataFromQueue st"

definition pop :: "bool \<Rightarrow> 'a TUnboundedQueue \<Rightarrow> ('a, 'a) popped" where
  "pop dbg st = wait_and_pop_internal dbg rightNowThrowTimeoutExceptionIfNoExistDataAtQueue moveDataFromQueueFront st"

definition pop_all :: "bool \<Rightarrow> 'a TUnboundedQueue \<Rightarrow> ('a, 'a list) popped" where
  "pop_all dbg st = wait_and_pop_internal dbg rightNowThrowTimeoutExceptionIfNoExistDataAtQueue moveAllDataFromQueue st"

definition waitCentiTimeoutPop :: "bool \<Rightarrow> bool \<Rightarrow> 'a TUnboundedQueue \<Rightarrow> ('a, 'a) popped" where
  "waitCentiTimeoutPop dbg time_over st = wait_and_pop_for dbg time_over st"

text \<open>The members by name, for the step relation; a single element is a list of length one.\<close>

datatype 'a queue_cmd = Close | Push_Front 'a | Push_Back 'a | Clear

datatype queue_req = Wait_and_pop | Wait_and_pop_all | Wait_and_pop_for | Wait_and_pop_all_for | Pop | Pop_all

definition single :: "('a, 'a) popped \<Rightarrow> ('a, 'a list) popped" where
  "single p = map_option (\<lambda>(st, r, n). (st, case r of Returned x \<Rightarrow> Returned [x] | Threw e \<Rightarrow> Threw e | Blocked \<Rightarrow> Blocked, n)) p"

fun queue_submit :: "bool \<Rightarrow> 'a queue_cmd \<Rightarrow> 'a TUnboundedQueue \<Rightarrow> ('a TUnboundedQueue \<times> notify) option" where
  "queue_submit dbg Close st = Some (close st)"
| "queue_submit dbg (Push_Front x) st = uq_push_front dbg st x"
| "queue_submit dbg (Push_Back x) st = uq_push_back dbg st x"
| "queue_submit dbg Clear st = Some (uq_clear st, Notify_none)"

fun queue_call :: "bool \<Rightarrow> queue_req \<Rightarrow> bool \<Rightarrow> 'a TUnboundedQueue \<Rightarrow> ('a, 'a list) popped" where
  "queue_call dbg Wait_and_pop time_over st = single (wait_and_pop dbg st)"
| "queue_call dbg Wait_and_pop_all time_over st = wait_and_pop_all dbg st"
| "queue_call dbg Wait_and_pop_for time_over st = single (wait_and_pop_for dbg time_over st)"
| "queue_call dbg Wait_and_pop_all_for time_over st = wait_and_pop_all_for dbg time_over st"
| "queue_call dbg Pop time_over st = single (pop dbg st)"
| "queue_call dbg Pop_all time_over st = pop_all dbg st"

subsection \<open>What one call does\<close>

lemmas wait_defs = waitForDataPushToQueue_def waitForDataPushToQueueOrTimeout_def
  rightNowThrowTimeoutExceptionIfNoExistDataAtQueue_def testPushAndThrowIfClossed_def

lemmas pop_defs = wait_and_pop_def wait_and_pop_all_def wait_and_pop_for_def wait_and_pop_all_for_def
  pop_def pop_all_def wait_and_pop_internal_def moveDataFromQueueFront_def moveAllDataFromQueue_def single_def

fun takes_all :: "queue_req \<Rightarrow> bool" where
  "takes_all Wait_and_pop_all \<longleftrightarrow> True"
| "takes_all Wait_and_pop_all_for \<longleftrightarrow> True"
| "takes_all Pop_all \<longleftrightarrow> True"
| "takes_all _ \<longleftrightarrow> False"

fun gives_up :: "queue_req \<Rightarrow> bool \<Rightarrow> bool" where
  "gives_up Wait_and_pop b \<longleftrightarrow> False"
| "gives_up Wait_and_pop_all b \<longleftrightarrow> False"
| "gives_up Wait_and_pop_for b \<longleftrightarrow> b"
| "gives_up Wait_and_pop_all_for b \<longleftrightarrow> b"
| "gives_up Pop b \<longleftrightarrow> True"
| "gives_up Pop_all b \<longleftrightarrow> True"

text \<open>Every call, on every branch: closed, data, no data.\<close>

theorem queue_call_spec:
  "queue_call dbg r b st =
     (if uq_closed st then Some (st, Threw TUnboundedQueueClosedException, Notify_none)
      else if uq_queue st = [] then
        Some (st, if gives_up r b then Threw TUnboundedQueueTimeoutException else Blocked, Notify_none)
      else let n = (if takes_all r then length (uq_queue st) else 1) in
        Some (st\<lparr>uq_queue := drop n (uq_queue st)\<rparr>, Returned (take n (uq_queue st)),
          if drop n (uq_queue st) = [] then Notify_none else Notify_one))"
  by (cases r; cases "uq_queue st") (auto simp: pop_defs wait_defs Let_def)

lemma queue_call_SomeE:
  assumes "queue_call dbg r b st = Some (st', res, n)"
  obtains (closed) "uq_closed st" "st' = st" "res = Threw TUnboundedQueueClosedException" "n = Notify_none"
  | (empty) "\<not> uq_closed st" "uq_queue st = []" "st' = st" "n = Notify_none"
      "res = (if gives_up r b then Threw TUnboundedQueueTimeoutException else Blocked)"
  | (taken) xs where "\<not> uq_closed st" "xs \<noteq> []" "uq_queue st = xs @ uq_queue st'" "uq_closed st' = uq_closed st"
      "res = Returned xs" "uq_queue st' \<noteq> [] \<Longrightarrow> n = Notify_one"
proof -
  let ?n = "if takes_all r then length (uq_queue st) else 1"
  consider "uq_closed st" | "\<not> uq_closed st" "uq_queue st = []" | "\<not> uq_closed st" "uq_queue st \<noteq> []" by blast
  then show thesis
  proof cases
    case 1
    with assms have "st' = st" "res = Threw TUnboundedQueueClosedException" "n = Notify_none"
      by (simp_all add: queue_call_spec)
    with 1 show thesis by (rule closed)
  next
    case 2
    with assms have "st' = st" "n = Notify_none"
      "res = (if gives_up r b then Threw TUnboundedQueueTimeoutException else Blocked)"
      by (simp_all add: queue_call_spec)
    with 2 show thesis by (rule empty)
  next
    case 3
    then have "st' = st\<lparr>uq_queue := drop ?n (uq_queue st)\<rparr>" "res = Returned (take ?n (uq_queue st))"
      "n = (if drop ?n (uq_queue st) = [] then Notify_none else Notify_one)"
      using assms by (simp_all add: queue_call_spec Let_def)
    then show thesis using 3 by (intro taken [of "take ?n (uq_queue st)"]) simp_all
  qed
qed

subsection \<open>The contract of the monitor\<close>

definition queue_ready :: "'a TUnboundedQueue \<Rightarrow> bool" where
  "queue_ready st \<longleftrightarrow> uq_closed st \<or> uq_queue st \<noteq> []"

interpretation uq: monitor_contract "queue_submit dbg" "queue_call dbg" queue_ready uq_closed for dbg
proof unfold_locales
  show "st' = st \<and> \<not> queue_ready st" if "queue_call dbg r b st = Some (st', Blocked, n)" for r b st st' n
    using that by (rule queue_call_SomeE) (auto simp: queue_ready_def)
  show "n \<noteq> Notify_none" if "queue_call dbg r b st = Some (st', res, n)" "queue_ready st'" "\<not> uq_closed st'" for r b st st' res n
    using that(1) by (rule queue_call_SomeE) (use that(2,3) in \<open>auto simp: queue_ready_def\<close>)
  show "uq_closed st' = uq_closed st" if "queue_call dbg r b st = Some (st', res, n)" for r b st st' res n
    using that by (rule queue_call_SomeE) auto
  show "\<exists>st' res n. queue_call dbg r b st = Some (st', res, n)" for r b st
    by (auto simp: queue_call_spec Let_def)
  show "queue_ready st \<or> n \<noteq> Notify_none" if "queue_submit dbg c st = Some (st', n)" "queue_ready st'" for c st st' n
    using that by (cases c) (auto simp: close_def uq_push_front_def uq_push_back_def uq_clear_def queue_ready_def
        bind_eq_Some_conv split: if_splits)
  show "uq_closed st \<or> n = Notify_all" if "queue_submit dbg c st = Some (st', n)" "uq_closed st'" for c st st' n
    using that by (cases c) (auto simp: close_def uq_push_front_def uq_push_back_def uq_clear_def
        bind_eq_Some_conv split: if_splits)
qed (simp add: queue_ready_def)

subsection \<open>Histories\<close>

text \<open>What was pushed before the queue was closed, and what was handed out, oldest first.\<close>

type_synonym 'a queue_event = "('a queue_cmd, queue_req, 'a list, queue_exception) event"

fun pushed :: "'a queue_event list \<Rightarrow> 'a list" where
  "pushed [] = []"
| "pushed (Submitted Close # es) = []"
| "pushed (Submitted (Push_Back x) # es) = x # pushed es"
| "pushed (Submitted (Push_Front x) # es) = x # pushed es"
| "pushed (_ # es) = pushed es"

fun taken :: "'a queue_event list \<Rightarrow> 'a list" where
  "taken [] = []"
| "taken (Finished t r (Returned xs) # es) = xs @ taken es"
| "taken (_ # es) = taken es"

lemma pushed_append: "pushed (es @ fs) = pushed es @ (if Submitted Close \<in> set es then [] else pushed fs)"
  by (induction es rule: pushed.induct) auto

lemma taken_append: "taken (es @ fs) = taken es @ taken fs"
  by (induction es rule: taken.induct) auto

abbreviation queue_run :: "bool \<Rightarrow> 'a queue_event list \<Rightarrow> ('a TUnboundedQueue, queue_req) monitor \<Rightarrow> bool" where
  "queue_run dbg es m \<equiv> monitor_run (queue_submit dbg) (queue_call dbg) (queue_new, \<lambda>_. Idle) es m"

text \<open>One step of a run, seen from the history: the shared state before it and after it.\<close>

lemma queue_step_cases:
  assumes "monitor_step (queue_submit dbg) (queue_call dbg) (st, ths) e (st', ths')"
  shows "(case e of
      Submitted c \<Rightarrow> uq_closed st' = (uq_closed st \<or> c = Close) \<and>
        (case c of Close \<Rightarrow> uq_queue st' = uq_queue st
         | Clear \<Rightarrow> uq_queue st' = []
         | Push_Back x \<Rightarrow> uq_queue st' = (if uq_closed st then uq_queue st else uq_queue st @ [x])
         | Push_Front x \<Rightarrow> uq_queue st' = (if uq_closed st then uq_queue st else x # uq_queue st))
    | Finished t r res \<Rightarrow> uq_closed st' = uq_closed st \<and>
        (if uq_closed st then res = Threw TUnboundedQueueClosedException \<and> uq_queue st' = uq_queue st
         else case res of Returned xs \<Rightarrow> xs \<noteq> [] \<and> uq_queue st = xs @ uq_queue st' | _ \<Rightarrow> uq_queue st' = uq_queue st)
    | Internal \<Rightarrow> st' = st)"
proof (cases e)
  case (Submitted c)
  with monitor_step_shared [OF assms] show ?thesis
    by (cases c) (auto simp: close_def uq_clear_def uq_push_front_def uq_push_back_def bind_eq_Some_conv split: if_splits)
next
  case (Finished t r res)
  with monitor_step_shared [OF assms] obtain b n where "queue_call dbg r b st = Some (st', res, n)" by auto
  then show ?thesis by (rule queue_call_SomeE) (auto simp: Finished)
next
  case Internal
  with monitor_step_shared [OF assms] uq.blocked_law show ?thesis by fastforce
qed

lemma queue_run_closed:
  assumes "queue_run dbg es (st, ths)"
  shows "uq_closed st \<longleftrightarrow> Submitted Close \<in> set es"
  using assms
proof (induction "(queue_new :: 'a TUnboundedQueue, \<lambda>_ :: nat. Idle :: queue_req thread)" es "(st, ths)" arbitrary: st ths rule: monitor_run.induct)
  case Run_nil
  then show ?case by (simp add: queue_new_def)
next
  case (Run_snoc es m' e)
  obtain st1 ths1 where m': "m' = (st1, ths1)" by (cases m')
  with Run_snoc queue_step_cases [of dbg st1 ths1 e st ths] show ?case
    by (auto split: event.splits queue_cmd.splits if_splits outcome_of.splits)
qed

text \<open>First in, first out, for pushes at the back.\<close>

definition back_only :: "'a queue_event list \<Rightarrow> bool" where
  "back_only es \<longleftrightarrow> (\<forall>e\<in>set es. case e of Submitted (Push_Front x) \<Rightarrow> False | Submitted Clear \<Rightarrow> False | _ \<Rightarrow> True)"

lemma queue_run_fifo:
  assumes "queue_run dbg es (st, ths)" "back_only es"
  shows "pushed es = taken es @ uq_queue st"
  using assms
proof (induction "(queue_new :: 'a TUnboundedQueue, \<lambda>_ :: nat. Idle :: queue_req thread)" es "(st, ths)" arbitrary: st ths rule: monitor_run.induct)
  case Run_nil
  then show ?case by (simp add: queue_new_def)
next
  case (Run_snoc es m' e)
  obtain st1 ths1 where m': "m' = (st1, ths1)" by (cases m')
  have cl: "uq_closed st1 \<longleftrightarrow> Submitted Close \<in> set es" using Run_snoc.hyps(1) m' queue_run_closed by blast
  have IH: "pushed es = taken es @ uq_queue st1" and e: "back_only [e]"
    using Run_snoc m' by (auto simp: back_only_def)
  have "if uq_closed st1 then taken [e] = [] \<and> uq_queue st = uq_queue st1
     else uq_queue st1 @ pushed [e] = taken [e] @ uq_queue st"
    using queue_step_cases [of dbg st1 ths1 e st ths] Run_snoc.hyps(3) m' e
    by (auto simp: back_only_def split: event.splits queue_cmd.splits outcome_of.splits)
  with IH cl show ?case by (auto simp: pushed_append taken_append split: if_splits)
qed

text \<open>With every member used: nothing is handed out twice or made up.\<close>

lemma queue_run_conserves:
  assumes "queue_run dbg es (st, ths)"
  shows "mset (taken es) + mset (uq_queue st) \<subseteq># mset (pushed es)"
  using assms
proof (induction "(queue_new :: 'a TUnboundedQueue, \<lambda>_ :: nat. Idle :: queue_req thread)" es "(st, ths)" arbitrary: st ths rule: monitor_run.induct)
  case Run_nil
  then show ?case by (simp add: queue_new_def)
next
  case (Run_snoc es m' e)
  obtain st1 ths1 where m': "m' = (st1, ths1)" by (cases m')
  have cl: "uq_closed st1 \<longleftrightarrow> Submitted Close \<in> set es" using Run_snoc.hyps(1) m' queue_run_closed by blast
  have IH: "mset (taken es) + mset (uq_queue st1) \<subseteq># mset (pushed es)" using Run_snoc m' by blast
  have "mset (taken [e]) + mset (uq_queue st) \<subseteq># mset (uq_queue st1) + (if uq_closed st1 then {#} else mset (pushed [e]))"
    using queue_step_cases [of dbg st1 ths1 e st ths] Run_snoc.hyps(3) m'
    by (auto split: event.splits queue_cmd.splits outcome_of.splits if_splits)
  then have "mset (taken es) + (mset (taken [e]) + mset (uq_queue st)) \<subseteq>#
      mset (taken es) + (mset (uq_queue st1) + (if uq_closed st1 then {#} else mset (pushed [e])))"
    by (rule subset_mset.add_left_mono)
  also have "\<dots> = (mset (taken es) + mset (uq_queue st1)) + (if uq_closed st1 then {#} else mset (pushed [e]))"
    by (simp add: add.assoc)
  also have "\<dots> \<subseteq># mset (pushed es) + (if uq_closed st1 then {#} else mset (pushed [e]))"
    by (rule subset_mset.add_right_mono [OF IH])
  finally have "mset (taken es) + (mset (taken [e]) + mset (uq_queue st)) \<subseteq>#
      mset (pushed es) + (if uq_closed st1 then {#} else mset (pushed [e]))" .
  then show ?case using cl by (auto simp: pushed_append taken_append ac_simps)
qed

lemma queue_run_after_close:
  assumes "monitor_run (queue_submit dbg) (queue_call dbg) m es m'" "uq_closed (fst m)"
  shows "uq_closed (fst m') \<and> (\<forall>t r res. Finished t r res \<in> set es \<longrightarrow> res = Threw TUnboundedQueueClosedException)"
  using assms
proof (induction rule: monitor_run.induct)
  case (Run_snoc m es m' e m'')
  obtain st1 ths1 st2 ths2 where "m' = (st1, ths1)" "m'' = (st2, ths2)" by (cases m'; cases m'')
  with Run_snoc queue_step_cases [of dbg st1 ths1 e st2 ths2] show ?case
    by (auto split: event.splits)
qed simp

end
