(* ===== verification/Unbounded_List_Queue.thy ===== *)
theory Unbounded_List_Queue
  imports Unbounded_Queue
begin

section \<open>UnboundedQueue.hpp: the queue of whole lists\<close>

text \<open>
  \<open>TUnboundedQueue_\<close> repeats the waiting code of the first queue and splices whole lists in and
  out. Its members carry the prefix \<open>tuq\<close>; its state has the same two fields.
\<close>

definition tuq_close :: "'a TUnboundedQueue \<Rightarrow> 'a TUnboundedQueue \<times> notify" where
  "tuq_close st = (st\<lparr>uq_closed := True\<rparr>, Notify_all)"

text \<open>An empty list is not pushed: the member returns before it takes the lock. The caller's list
  is empty afterwards exactly when its nodes were spliced.\<close>

definition tuq_push_front_all ::
  "bool \<Rightarrow> 'a TUnboundedQueue \<Rightarrow> 'a list \<Rightarrow> ('a TUnboundedQueue \<times> 'a list \<times> notify) option" where
  "tuq_push_front_all dbg st data =
     (if data = [] then Some (st, data, Notify_none) else do {
       ASSERT dbg (\<not> uq_closed st);
       if uq_closed st then Some (st, data, Notify_none)
       else Some (st\<lparr>uq_queue := data @ uq_queue st\<rparr>, [], Notify_one) })"

definition tuq_push_back_all ::
  "bool \<Rightarrow> 'a TUnboundedQueue \<Rightarrow> 'a list \<Rightarrow> ('a TUnboundedQueue \<times> 'a list \<times> notify) option" where
  "tuq_push_back_all dbg st data =
     (if data = [] then Some (st, data, Notify_none) else do {
       ASSERT dbg (\<not> uq_closed st);
       if uq_closed st then Some (st, data, Notify_none)
       else Some (st\<lparr>uq_queue := uq_queue st @ data\<rparr>, [], Notify_one) })"

definition tuq_push_front :: "bool \<Rightarrow> 'a TUnboundedQueue \<Rightarrow> 'a \<Rightarrow> ('a TUnboundedQueue \<times> 'a list \<times> notify) option" where
  "tuq_push_front dbg st data = tuq_push_front_all dbg st [data]"

definition tuq_push_back :: "bool \<Rightarrow> 'a TUnboundedQueue \<Rightarrow> 'a \<Rightarrow> ('a TUnboundedQueue \<times> 'a list \<times> notify) option" where
  "tuq_push_back dbg st data = tuq_push_back_all dbg st [data]"

definition tuq_emptyUnstable :: "'a TUnboundedQueue \<Rightarrow> bool" where
  "tuq_emptyUnstable st = (uq_queue st = [])"

definition tuq_sizeUnstable :: "'a TUnboundedQueue \<Rightarrow> nat" where
  "tuq_sizeUnstable st = length (uq_queue st)"

definition tuq_clear :: "'a TUnboundedQueue \<Rightarrow> 'a TUnboundedQueue" where
  "tuq_clear st = st\<lparr>uq_queue := []\<rparr>"

definition tuq_testPushAndThrowIfClossed :: "'a TUnboundedQueue \<Rightarrow> queue_exception + bool" where
  "tuq_testPushAndThrowIfClossed st =
     (if uq_closed st then Inl TUnboundedQueueClosedException else Inr (uq_queue st \<noteq> []))"

definition tuq_moveAllDataFromQueue :: "'a TUnboundedQueue \<Rightarrow> ('a TUnboundedQueue \<times> 'a list) option" where
  "tuq_moveAllDataFromQueue st = Some (st\<lparr>uq_queue := []\<rparr>, uq_queue st)"

definition tuq_waitForDataPushToQueue :: "'a TUnboundedQueue \<Rightarrow> waited" where
  "tuq_waitForDataPushToQueue st = (case tuq_testPushAndThrowIfClossed st of
     Inl ex \<Rightarrow> Raise ex | Inr b \<Rightarrow> if b then Proceed else Stay)"

definition tuq_waitForDataPushToQueueOrTimeout :: "bool \<Rightarrow> 'a TUnboundedQueue \<Rightarrow> waited" where
  "tuq_waitForDataPushToQueueOrTimeout time_over st = (case tuq_testPushAndThrowIfClossed st of
     Inl ex \<Rightarrow> Raise ex
   | Inr b \<Rightarrow> if b then Proceed else if time_over then Raise TUnboundedQueueTimeoutException else Stay)"

definition tuq_rightNowThrowTimeoutExceptionIfNoExistDataAtQueue :: "'a TUnboundedQueue \<Rightarrow> waited" where
  "tuq_rightNowThrowTimeoutExceptionIfNoExistDataAtQueue st = (case tuq_testPushAndThrowIfClossed st of
     Inl ex \<Rightarrow> Raise ex | Inr b \<Rightarrow> if \<not> b then Raise TUnboundedQueueTimeoutException else Proceed)"

definition tuq_wait_and_pop_internal ::
  "bool \<Rightarrow> ('a TUnboundedQueue \<Rightarrow> waited) \<Rightarrow> ('a TUnboundedQueue \<Rightarrow> ('a TUnboundedQueue \<times> 'r) option) \<Rightarrow>
   'a TUnboundedQueue \<Rightarrow> ('a, 'r) popped" where
  "tuq_wait_and_pop_internal dbg WaitDataInQueue MoveDataFromQueue st = (case WaitDataInQueue st of
     Raise ex \<Rightarrow> Some (st, Threw ex, Notify_none)
   | Stay \<Rightarrow> Some (st, Blocked, Notify_none)
   | Proceed \<Rightarrow> do {
       ASSERT dbg (uq_queue st \<noteq> []);
       (st, result) \<leftarrow> MoveDataFromQueue st;
       Some (st, Returned result, if uq_queue st \<noteq> [] then Notify_one else Notify_none) })"

definition tuq_wait_and_pop_all :: "bool \<Rightarrow> 'a TUnboundedQueue \<Rightarrow> ('a, 'a list) popped" where
  "tuq_wait_and_pop_all dbg st =
     tuq_wait_and_pop_internal dbg tuq_waitForDataPushToQueue tuq_moveAllDataFromQueue st"

definition tuq_wait_and_pop_all_for :: "bool \<Rightarrow> bool \<Rightarrow> 'a TUnboundedQueue \<Rightarrow> ('a, 'a list) popped" where
  "tuq_wait_and_pop_all_for dbg time_over st =
     tuq_wait_and_pop_internal dbg (tuq_waitForDataPushToQueueOrTimeout time_over) tuq_moveAllDataFromQueue st"

definition tuq_pop_all :: "bool \<Rightarrow> 'a TUnboundedQueue \<Rightarrow> ('a, 'a list) popped" where
  "tuq_pop_all dbg st =
     tuq_wait_and_pop_internal dbg tuq_rightNowThrowTimeoutExceptionIfNoExistDataAtQueue tuq_moveAllDataFromQueue st"

definition tuq_pop_all_or_empty :: "bool \<Rightarrow> 'a TUnboundedQueue \<Rightarrow> ('a, 'a list) popped" where
  "tuq_pop_all_or_empty dbg st = do {
     (st, r, n) \<leftarrow> tuq_pop_all dbg st;
     Some (st, case r of Threw TUnboundedQueueTimeoutException \<Rightarrow> Returned [] | _ \<Rightarrow> r, n) }"

datatype 'a list_cmd = LClose | LPush_front 'a | LPush_back 'a | LPush_front_all "'a list" | LPush_back_all "'a list" | LClear

datatype list_req = LWait_and_pop_all | LWait_and_pop_all_for | LPop_all | LPop_all_or_empty

fun list_submit :: "bool \<Rightarrow> 'a list_cmd \<Rightarrow> 'a TUnboundedQueue \<Rightarrow> ('a TUnboundedQueue \<times> notify) option" where
  "list_submit dbg LClose st = Some (tuq_close st)"
| "list_submit dbg (LPush_front x) st = map_option (\<lambda>(st, _, n). (st, n)) (tuq_push_front dbg st x)"
| "list_submit dbg (LPush_back x) st = map_option (\<lambda>(st, _, n). (st, n)) (tuq_push_back dbg st x)"
| "list_submit dbg (LPush_front_all xs) st = map_option (\<lambda>(st, _, n). (st, n)) (tuq_push_front_all dbg st xs)"
| "list_submit dbg (LPush_back_all xs) st = map_option (\<lambda>(st, _, n). (st, n)) (tuq_push_back_all dbg st xs)"
| "list_submit dbg LClear st = Some (tuq_clear st, Notify_none)"

fun list_call :: "bool \<Rightarrow> list_req \<Rightarrow> bool \<Rightarrow> 'a TUnboundedQueue \<Rightarrow> ('a, 'a list) popped" where
  "list_call dbg LWait_and_pop_all time_over st = tuq_wait_and_pop_all dbg st"
| "list_call dbg LWait_and_pop_all_for time_over st = tuq_wait_and_pop_all_for dbg time_over st"
| "list_call dbg LPop_all time_over st = tuq_pop_all dbg st"
| "list_call dbg LPop_all_or_empty time_over st = tuq_pop_all_or_empty dbg st"

subsection \<open>What one call does\<close>

lemmas tuq_defs = tuq_wait_and_pop_all_def tuq_wait_and_pop_all_for_def tuq_pop_all_def tuq_pop_all_or_empty_def
  tuq_wait_and_pop_internal_def tuq_moveAllDataFromQueue_def tuq_waitForDataPushToQueue_def
  tuq_waitForDataPushToQueueOrTimeout_def tuq_rightNowThrowTimeoutExceptionIfNoExistDataAtQueue_def
  tuq_testPushAndThrowIfClossed_def

lemmas tuq_push_defs = tuq_push_front_def tuq_push_back_def tuq_push_front_all_def tuq_push_back_all_def
  tuq_close_def tuq_clear_def

fun when_empty :: "list_req \<Rightarrow> bool \<Rightarrow> ('a list, queue_exception) outcome_of" where
  "when_empty LWait_and_pop_all b = Blocked"
| "when_empty LWait_and_pop_all_for b = (if b then Threw TUnboundedQueueTimeoutException else Blocked)"
| "when_empty LPop_all b = Threw TUnboundedQueueTimeoutException"
| "when_empty LPop_all_or_empty b = Returned []"

theorem list_call_spec:
  "list_call dbg r b st =
     (if uq_closed st then Some (st, Threw TUnboundedQueueClosedException, Notify_none)
      else if uq_queue st = [] then Some (st, when_empty r b, Notify_none)
      else Some (st\<lparr>uq_queue := []\<rparr>, Returned (uq_queue st), Notify_none))"
  by (cases r) (auto simp: tuq_defs)

interpretation tuq: monitor_contract "list_submit dbg" "list_call dbg" queue_ready uq_closed for dbg
proof unfold_locales
  show "st' = st \<and> \<not> queue_ready st" if "list_call dbg r b st = Some (st', Blocked, n)" for r b st st' n
    using that by (auto simp: list_call_spec queue_ready_def split: if_splits)
  show "queue_ready st \<or> n \<noteq> Notify_none" if "list_submit dbg c st = Some (st', n)" "queue_ready st'" for c st st' n
    using that by (cases c) (auto simp: tuq_push_defs queue_ready_def bind_eq_Some_conv split: if_splits)
  show "uq_closed st \<or> n = Notify_all" if "list_submit dbg c st = Some (st', n)" "uq_closed st'" for c st st' n
    using that by (cases c) (auto simp: tuq_push_defs bind_eq_Some_conv split: if_splits)
qed (auto simp: list_call_spec queue_ready_def split: if_splits)

subsection \<open>The atomic queue of lists\<close>

text \<open>What the class promises: a list of values and a flag, changed by the members one at a time in the order in which they
  finish. A list goes in at either end in its own order, unless the queue is closed. A call that takes the contents returns all of
  them, and only if there are some; it throws that the queue is closed exactly when it is, and that the time is over only from a
  member that does so, and only when there is nothing to take.\<close>

type_synonym 'a list_event = "('a list_cmd, list_req, 'a list, queue_exception) event"

fun list_answer :: "list_req \<Rightarrow> 'a list \<Rightarrow> bool \<Rightarrow> ('a list, queue_exception) outcome_of option" where
  "list_answer r xs closed =
     (if closed then Some (Threw TUnboundedQueueClosedException)
      else if xs \<noteq> [] then Some (Returned xs)
      else (case r of
          LWait_and_pop_all \<Rightarrow> None
        | LWait_and_pop_all_for \<Rightarrow> Some (Threw TUnboundedQueueTimeoutException)
        | LPop_all \<Rightarrow> Some (Threw TUnboundedQueueTimeoutException)
        | LPop_all_or_empty \<Rightarrow> Some (Returned [])))"

fun list_effect :: "'a list_cmd \<Rightarrow> 'a list \<times> bool \<Rightarrow> 'a list \<times> bool" where
  "list_effect LClose (xs, closed) = (xs, True)"
| "list_effect LClear (xs, closed) = ([], closed)"
| "list_effect (LPush_front x) (xs, closed) = (if closed then xs else x # xs, closed)"
| "list_effect (LPush_back x) (xs, closed) = (if closed then xs else xs @ [x], closed)"
| "list_effect (LPush_front_all ys) (xs, closed) = (if closed then xs else ys @ xs, closed)"
| "list_effect (LPush_back_all ys) (xs, closed) = (if closed then xs else xs @ ys, closed)"

fun list_atomic :: "'a list_event \<Rightarrow> 'a list \<times> bool \<Rightarrow> ('a list \<times> bool) option" where
  "list_atomic (Submitted c) q = Some (list_effect c q)"
| "list_atomic (Finished t r res) (xs, closed) = (if list_answer r xs closed = Some res
     then Some (case res of Returned ys \<Rightarrow> [] | _ \<Rightarrow> xs, closed) else None)"
| "list_atomic Internal q = Some q"

fun list_replay :: "'a list_event list \<Rightarrow> 'a list \<times> bool \<Rightarrow> ('a list \<times> bool) option" where
  "list_replay [] q = Some q"
| "list_replay (e # es) q = do { q \<leftarrow> list_atomic e q; list_replay es q }"

lemma list_replay_append: "list_replay (es @ fs) q = do { q \<leftarrow> list_replay es q; list_replay fs q }"
  by (induction es arbitrary: q) (auto split: Option.bind_splits)

lemma list_step_atomic:
  assumes "monitor_step (list_submit dbg) (list_call dbg) (st, ths) e (st', ths')"
  shows "list_atomic e (uq_queue st, uq_closed st) = Some (uq_queue st', uq_closed st')"
proof (cases e)
  case (Submitted c)
  with monitor_step_shared [OF assms] show ?thesis
    by (cases c) (auto simp: tuq_push_defs bind_eq_Some_conv split: if_splits)
next
  case (Finished t r res)
  with monitor_step_shared [OF assms] obtain b n where "list_call dbg r b st = Some (st', res, n)" "res \<noteq> Blocked" by auto
  then show ?thesis by (cases r; cases b) (auto simp: list_call_spec Finished split: if_splits)
next
  case Internal
  with monitor_step_shared [OF assms] tuq.blocked_law show ?thesis by fastforce
qed

theorem list_run_atomic:
  assumes "monitor_run (list_submit dbg) (list_call dbg) (st, ths) es (st', ths')"
  shows "list_replay es (uq_queue st, uq_closed st) = Some (uq_queue st', uq_closed st')"
  using assms
proof (induction "(st, ths)" es "(st', ths')" arbitrary: st' ths' rule: monitor_run.induct)
  case (Run_snoc es m' e)
  obtain st1 ths1 where m': "m' = (st1, ths1)" by (cases m')
  with Run_snoc list_step_atomic show ?case by (fastforce simp: list_replay_append)
qed simp

end
