(* ===== verification/Queue_Properties.thy ===== *)
theory Queue_Properties
  imports Unbounded_List_Queue
begin

section \<open>Properties of UnboundedQueue.hpp\<close>

text \<open>A concrete history: threads 0 and 1 block on the empty queue, then 7 is pushed and thread 0
  is notified.\<close>

definition demo_threads :: "nat \<Rightarrow> queue_req thread" where
  "demo_threads = (\<lambda>_. Idle)(0 := Awake Wait_and_pop, 1 := Waiting Wait_and_pop)"

definition demo_events :: "nat queue_event list" where
  "demo_events = [Internal, Internal, Submitted (Push_Back 7)]"

lemma demo_queue_run: "queue_run True demo_events (\<lparr>uq_queue = [7], uq_closed = False\<rparr>, demo_threads)"
proof -
  let ?q = "queue_new :: nat TUnboundedQueue"
  let ?i = "\<lambda>_ :: nat. Idle :: queue_req thread"
  let ?t0 = "?i(0 := Waiting Wait_and_pop)" let ?t1 = "?t0(1 := Waiting Wait_and_pop)"
  have c: "queue_call True Wait_and_pop False ?q = Some (?q, Blocked, Notify_none)"
    by (simp add: queue_call_spec queue_new_def)
  have 0: "queue_run True [] (?q, ?i)" by (rule Run_nil)
  have 1: "queue_run True ([] @ [Internal]) (?q, ?t0)"
    by (rule Run_snoc [OF 0]) (rule Block, use c in auto)
  have 2: "queue_run True (([] @ [Internal]) @ [Internal]) (?q, ?t1)"
    by (rule Run_snoc [OF 1]) (rule Block, use c in auto)
  have 3: "notified Notify_one ?t1 (?t1(0 := Awake Wait_and_pop))" by (rule notified_one) simp
  have "monitor_step (queue_submit True) (queue_call True) (?q, ?t1) (Submitted (Push_Back 7))
      (?q\<lparr>uq_queue := [7]\<rparr>, ?t1(0 := Awake Wait_and_pop))"
    by (rule Submit [OF _ 3]) (simp add: uq_push_back_def queue_new_def)
  from Run_snoc [OF 2 this] show ?thesis
    by (simp add: demo_events_def demo_threads_def queue_new_def fun_upd_twist)
qed

text \<open>
  C23. No lost wake-up, whatever the threads do, with spurious wake-ups and timeouts: in every state
  the queue can reach, if a thread still waits although data is there, the queue is not closed
  and another thread has been woken and finishes its call as soon as it gets the lock; a closed
  queue has no waiting thread.
\<close>
theorem queue_no_lost_wakeup:
  assumes "queue_run dbg es (st, ths)" "uq_closed st \<or> uq_queue st \<noteq> []" "ths w = Waiting q"
  shows "\<not> uq_closed st \<and>
    (\<exists>t r st' res n. ths t = Awake r \<and> queue_call dbg r False st = Some (st', res, n) \<and> res \<noteq> Blocked)"
proof -
  have init: "uq.no_lost_wakeup (queue_new :: 'a TUnboundedQueue, \<lambda>_. Idle)"
    by (simp add: uq.no_lost_wakeup_def queue_ready_def queue_new_def)
  have w: "somebody_waits ths" using assms(3) by (auto simp: somebody_waits_def)
  have "\<not> uq_closed st" using uq.run_no_lost_wakeup [OF assms(1) init] w by (auto simp: uq.no_lost_wakeup_def)
  moreover have "queue_ready st" using assms(2) by (simp add: queue_ready_def)
  ultimately show ?thesis using uq.progress [OF assms(1) init _ w] by blast
qed

theorem queue_no_lost_wakeup_witness:
  "\<exists>t r st' res n. demo_threads t = Awake r \<and>
    queue_call True r False \<lparr>uq_queue = [7 :: nat], uq_closed = False\<rparr> = Some (st', res, n) \<and> res \<noteq> Blocked"
  using queue_no_lost_wakeup [OF demo_queue_run, of 1] by (auto simp: demo_threads_def)

text \<open>
  C24. First in, first out between threads: in every history without pushes at the front and without
  \<open>clear\<close>, the elements handed out, in the order of the calls, followed by those still in the queue
  are exactly the elements pushed before the queue was closed; with every member in use, the
  elements handed out and those in the queue are among the pushed ones, none twice.
\<close>
theorem queue_first_in_first_out:
  assumes "queue_run dbg es (st, ths)"
  shows "(back_only es \<longrightarrow> pushed es = taken es @ uq_queue st) \<and>
    mset (taken es) + mset (uq_queue st) \<subseteq># mset (pushed es)"
  using queue_run_fifo [OF assms] queue_run_conserves [OF assms] by blast

theorem queue_first_in_first_out_witness: "pushed demo_events = taken demo_events @ [7]"
  using queue_first_in_first_out [OF demo_queue_run] by (simp add: back_only_def demo_events_def)

text \<open>
  C25. Closing: after \<open>close\<close> every call that returns in any continuation of the history throws
  \<open>TUnboundedQueueClosedException\<close>, data left in the queue or not; a push on the closed queue fails
  the assertion of a debug build and is silently dropped by a release build.
\<close>
theorem closed_queue_throws:
  assumes "monitor_run (queue_submit dbg) (queue_call dbg) m es m'" "uq_closed (fst m)"
    "Finished t r res \<in> set es"
  shows "res = Threw TUnboundedQueueClosedException \<and>
    uq_push_back dbg (fst m) x = (if dbg then None else Some (fst m, Notify_none)) \<and>
    uq_push_front dbg (fst m) x = (if dbg then None else Some (fst m, Notify_none))"
  using queue_run_after_close [OF assms(1,2)] assms(2,3) by (auto simp: uq_push_back_def uq_push_front_def)

theorem closed_queue_throws_witness:
  "\<exists>m es m' res. monitor_run (queue_submit True) (queue_call True) m es m' \<and>
    uq_queue (fst m) = [7 :: nat] \<and> Finished 0 Pop res \<in> set es \<and> res = Threw TUnboundedQueueClosedException"
proof -
  let ?q = "\<lparr>uq_queue = [7 :: nat], uq_closed = True\<rparr>"
  let ?e = "Finished 0 Pop (Threw TUnboundedQueueClosedException) :: nat queue_event"
  have "monitor_step (queue_submit True) (queue_call True) (?q, \<lambda>_. Idle) ?e (?q, \<lambda>_. Idle)"
    by (rule Call [of _ _ _ _ _ _ _ Notify_none]) (simp_all add: queue_call_spec)
  then have run: "monitor_run (queue_submit True) (queue_call True) (?q, \<lambda>_. Idle) ([] @ [?e]) (?q, \<lambda>_. Idle)"
    by (rule Run_snoc [OF Run_nil])
  show ?thesis
    using run closed_queue_throws [OF run, of 0 Pop "Threw TUnboundedQueueClosedException" 8]
    by (intro exI [of _ "(?q, \<lambda>_. Idle)"] exI [of _ "[] @ [?e]"]) auto
qed

text \<open>
  C26. The queue of lists refines an atomic queue. Whatever the threads do, with time-outs and spurious wake-ups, replaying the members in
  the order in which they finish on a plain list with a flag explains every result and ends in the state of the queue: lists go in at the end
  the member names and in their own order, nothing goes in after closing, a pop returns the whole contents and leaves
  nothing, and exceptions are thrown exactly when the atomic queue says so. And no wake-up is lost: while a thread waits on a closed queue or one
  with data, another one is awake and its call returns as soon as it gets the lock.
\<close>
theorem list_queue_correct:
  assumes "monitor_run (list_submit dbg) (list_call dbg) (queue_new, \<lambda>_. Idle) es (st, ths)"
  shows "list_replay es ([], False) = Some (uq_queue st, uq_closed st) \<and>
    (uq_closed st \<or> uq_queue st \<noteq> [] \<longrightarrow> ths w = Waiting q \<longrightarrow>
      (\<exists>t r st' res n. ths t = Awake r \<and> list_call dbg r False st = Some (st', res, n) \<and> res \<noteq> Blocked))"
proof -
  have init: "tuq.no_lost_wakeup (queue_new :: 'a TUnboundedQueue, \<lambda>_. Idle)"
    by (simp add: tuq.no_lost_wakeup_def queue_ready_def queue_new_def)
  have "\<exists>t r st' res n. ths t = Awake r \<and> list_call dbg r False st = Some (st', res, n) \<and> res \<noteq> Blocked"
    if "uq_closed st \<or> uq_queue st \<noteq> []" "ths w = Waiting q"
    using tuq.progress [OF assms init] that by (auto simp: queue_ready_def somebody_waits_def)
  then show ?thesis using list_run_atomic [OF assms] by (simp add: queue_new_def)
qed

theorem list_queue_correct_witness:
  "\<exists>ths. monitor_run (list_submit True) (list_call True) (queue_new, \<lambda>_. Idle)
      [Internal, Internal, Submitted (LPush_back_all [1, 2 :: nat])] (\<lparr>uq_queue = [1, 2], uq_closed = False\<rparr>, ths) \<and>
    ths 1 = Waiting LWait_and_pop_all \<and>
    list_replay [Internal, Internal, Submitted (LPush_back_all [1, 2])] ([], False) = Some ([1, 2 :: nat], False) \<and>
    (\<exists>t r st' res n. ths t = Awake r \<and>
      list_call True r False \<lparr>uq_queue = [1, 2 :: nat], uq_closed = False\<rparr> = Some (st', res, n) \<and> res \<noteq> Blocked)"
proof -
  let ?w0 = "(\<lambda>_ :: nat. Idle)(0 := Waiting LWait_and_pop_all)" and ?q = "\<lparr>uq_queue = [1, 2 :: nat], uq_closed = False\<rparr>"
  let ?w1 = "?w0(1 := Waiting LWait_and_pop_all)" and ?es = "[Internal, Internal, Submitted (LPush_back_all [1, 2 :: nat])]"
  let ?ths = "?w1(0 := Awake LWait_and_pop_all)"
  let ?step = "monitor_step (list_submit True) (list_call True)"
  have "?step (queue_new :: nat TUnboundedQueue, \<lambda>_. Idle) Internal (queue_new, ?w0)"
    by (rule Block [where n = Notify_none]) (simp_all add: list_call_spec queue_new_def)
  from Run_snoc [OF Run_nil this]
  have r1: "monitor_run (list_submit True) (list_call True) (queue_new, \<lambda>_. Idle) [Internal] (queue_new :: nat TUnboundedQueue, ?w0)"
    by simp
  have "?step (queue_new :: nat TUnboundedQueue, ?w0) Internal (queue_new, ?w1)"
    by (rule Block [where n = Notify_none]) (simp_all add: list_call_spec queue_new_def)
  from Run_snoc [OF r1 this]
  have r2: "monitor_run (list_submit True) (list_call True) (queue_new, \<lambda>_. Idle) [Internal, Internal] (queue_new :: nat TUnboundedQueue, ?w1)"
    by simp
  have "notified Notify_one ?w1 ?ths" by (rule notified_one) simp
  then have "?step (queue_new, ?w1) (Submitted (LPush_back_all [1, 2])) (?q, ?ths)"
    by (intro Submit [where n = Notify_one]) (simp_all add: tuq_push_defs queue_new_def)
  from Run_snoc [OF r2 this]
  have run: "monitor_run (list_submit True) (list_call True) (queue_new, \<lambda>_. Idle) ?es (?q, ?ths)" by simp
  from list_queue_correct [OF run, of 1 LWait_and_pop_all] run show ?thesis
    by (intro exI [of _ ?ths]) simp
qed

end
