(* ===== verification/Pool_Items.thy ===== *)
theory Pool_Items
  imports Cpp_Prelude
begin

unbundle bit_operations_syntax

section \<open>MemoryPoolInternalClasses.h: the layout of pool items\<close>

text \<open>
  An item of a memory pool is a run of bytes. A free item holds the link to the next free item, an
  allocated one the user's value; with checks switched on, both carry a signature byte and padding
  with a known value. Memory maps byte addresses to bytes; a stored pointer takes four bytes, lowest
  first. Sizes and distances are numbers below \<open>2 ^ 32\<close> with the wrap-around of \<open>size_t\<close> written out
  (\<open>add32\<close>, \<open>sub32\<close>). The alignment
  strategy is a template parameter whose implementation is not part of the repository: it is the
  record \<open>alignment\<close>. The signature values are the documented ones.
\<close>

type_synonym memory = "nat \<Rightarrow> 8 word"

record alignment =
  isAlignedSize :: "nat \<Rightarrow> bool"
  isAlignedAddressFor :: "nat \<Rightarrow> nat \<Rightarrow> bool"
  alignSize :: "nat \<Rightarrow> nat"
  alignAddressFor :: "nat \<Rightarrow> nat \<Rightarrow> nat"

datatype pool_byte = SIGNATURE_AND_POOL_ITEM_FREE | SIGNATURE_AND_POOL_ITEM_ALLOCATED | ALIGNMENT_VOIDS_FILL | ITEM_VALUE

primrec byte_of :: "pool_byte \<Rightarrow> 8 word" where
  "byte_of SIGNATURE_AND_POOL_ITEM_FREE = 0xFE"
| "byte_of SIGNATURE_AND_POOL_ITEM_ALLOCATED = 0xA1"
| "byte_of ALIGNMENT_VOIDS_FILL = 0xAF"
| "byte_of ITEM_VALUE = 0x7F"

definition add32 :: "nat \<Rightarrow> nat \<Rightarrow> nat" where
  "add32 a b = (a + b) mod 2 ^ 32"

definition sub32 :: "nat \<Rightarrow> nat \<Rightarrow> nat" where
  "sub32 a b = (a + 2 ^ 32 - b) mod 2 ^ 32"

lemma add32_exact [simp]: "a + b < 2 ^ 32 \<Longrightarrow> add32 a b = a + b"
  by (simp add: add32_def)

lemma sub32_exact [simp]: "b \<le> a \<Longrightarrow> a < 2 ^ 32 \<Longrightarrow> sub32 a b = a - b"
proof -
  assume "b \<le> a" "a < 2 ^ 32"
  then have "a + 2 ^ 32 - b = 2 ^ 32 + (a - b)" "a - b < 2 ^ 32" by simp_all
  then show ?thesis by (simp only: sub32_def mod_add_self1 mod_less)
qed

subsection \<open>The C library on bytes\<close>

definition memset :: "memory \<Rightarrow> nat \<Rightarrow> 8 word \<Rightarrow> nat \<Rightarrow> memory" where
  "memset m a v n = (\<lambda>x. if a \<le> x \<and> x < a + n then v else m x)"

definition count_bytes :: "memory \<Rightarrow> nat \<Rightarrow> nat \<Rightarrow> 8 word \<Rightarrow> nat" where
  "count_bytes m a n v = length (filter (\<lambda>i. m (a + i) = v) [0..<n])"

definition store_pointer :: "memory \<Rightarrow> nat \<Rightarrow> size_t \<Rightarrow> memory" where
  "store_pointer m a p = m(a := ucast p, a + 1 := ucast (drop_bit 8 p), a + 2 := ucast (drop_bit 16 p),
     a + 3 := ucast (drop_bit 24 p))"

definition load_pointer :: "memory \<Rightarrow> nat \<Rightarrow> size_t" where
  "load_pointer m a = ucast (m a) OR push_bit 8 (ucast (m (a + 1))) OR push_bit 16 (ucast (m (a + 2))) OR
     push_bit 24 (ucast (m (a + 3)))"

subsection \<open>TItemMap\<close>

record item_map =
  im_alignedItemSize :: nat
  im_endConstruct :: bool

definition TItemMap_new :: item_map where
  "TItemMap_new = \<lparr>im_alignedItemSize = 0, im_endConstruct = False\<rparr>"

definition GetAlignedItemSize :: "('x) item_map_scheme \<Rightarrow> nat" where
  "GetAlignedItemSize im = im_alignedItemSize im"

text \<open>The check that opens almost every member.\<close>

definition checkBase :: "bool \<Rightarrow> alignment \<Rightarrow> 'x item_map_scheme \<Rightarrow> nat \<Rightarrow> unit option" where
  "checkBase dbg al im base = do {
     ASSERT dbg (im_endConstruct im);
     ASSERT dbg (isAlignedAddressFor al base (GetAlignedItemSize im)) }"

definition ItemBelongBuffer :: "bool \<Rightarrow> alignment \<Rightarrow> 'x item_map_scheme \<Rightarrow> nat \<Rightarrow> nat \<Rightarrow> nat \<Rightarrow> bool option" where
  "ItemBelongBuffer dbg al im base bufferFirstItem bufferSizeAtBytes = do {
     ASSERT dbg (im_endConstruct im);
     ASSERT dbg (isAlignedSize al bufferSizeAtBytes);
     ASSERT dbg (isAlignedAddressFor al bufferFirstItem (GetAlignedItemSize im));
     ASSERT dbg (isAlignedAddressFor al base (GetAlignedItemSize im));
     Some (bufferFirstItem \<le> base \<and> bufferFirstItem + bufferSizeAtBytes \<ge> base + im_alignedItemSize im) }"

text \<open>\<open>endConstruct\<close> of both maps without checks.\<close>

definition endConstruct_nocheck :: "bool \<Rightarrow> alignment \<Rightarrow> item_map \<Rightarrow> nat \<Rightarrow> item_map option" where
  "endConstruct_nocheck dbg al im realAlignedItemSize = do {
     ASSERT dbg (\<not> im_endConstruct im);
     ASSERT dbg (im_alignedItemSize im \<le> realAlignedItemSize);
     ASSERT dbg (isAlignedSize al realAlignedItemSize);
     Some (im\<lparr>im_alignedItemSize := realAlignedItemSize, im_endConstruct := True\<rparr>) }"

subsection \<open>TPoolNoCheck\<close>

definition nc_free_new :: item_map where
  "nc_free_new = TItemMap_new\<lparr>im_alignedItemSize := 4\<rparr>"

definition nc_free_Check :: "bool \<Rightarrow> alignment \<Rightarrow> item_map \<Rightarrow> nat \<Rightarrow> unit option" where
  "nc_free_Check dbg al im base = checkBase dbg al im base"

definition nc_GetNextFreeItem :: "bool \<Rightarrow> alignment \<Rightarrow> item_map \<Rightarrow> memory \<Rightarrow> nat \<Rightarrow> size_t option" where
  "nc_GetNextFreeItem dbg al im m base = do { checkBase dbg al im base; Some (load_pointer m base) }"

definition nc_SetNextFreeItem :: "bool \<Rightarrow> alignment \<Rightarrow> item_map \<Rightarrow> memory \<Rightarrow> nat \<Rightarrow> size_t \<Rightarrow> memory option" where
  "nc_SetNextFreeItem dbg al im m base nextBase = do { checkBase dbg al im base; Some (store_pointer m base nextBase) }"

definition nc_free_MakeItem :: "bool \<Rightarrow> alignment \<Rightarrow> item_map \<Rightarrow> memory \<Rightarrow> nat \<Rightarrow> memory option" where
  "nc_free_MakeItem dbg al im m base = do { checkBase dbg al im base; nc_SetNextFreeItem dbg al im m base 0 }"

definition nc_alloc_new :: "bool \<Rightarrow> alignment \<Rightarrow> nat \<Rightarrow> item_map option" where
  "nc_alloc_new dbg al maxItemSize = do {
     let im = TItemMap_new\<lparr>im_alignedItemSize := alignSize al maxItemSize\<rparr>;
     ASSERT dbg (maxItemSize \<noteq> 0);
     Some im }"

definition nc_alloc_Check :: "bool \<Rightarrow> alignment \<Rightarrow> item_map \<Rightarrow> nat \<Rightarrow> unit option" where
  "nc_alloc_Check dbg al im base = checkBase dbg al im base"

definition nc_AllocatedItemBelongPoolCheck :: "bool \<Rightarrow> alignment \<Rightarrow> item_map \<Rightarrow> nat \<Rightarrow> nat \<Rightarrow> nat \<Rightarrow> unit option" where
  "nc_AllocatedItemBelongPoolCheck dbg al im base first bytes = checkBase dbg al im base"

definition nc_GetItemBase :: "bool \<Rightarrow> alignment \<Rightarrow> item_map \<Rightarrow> nat \<Rightarrow> nat option" where
  "nc_GetItemBase dbg al im p = do { checkBase dbg al im p; Some p }"

definition nc_GetAllocatedPointer :: "bool \<Rightarrow> alignment \<Rightarrow> item_map \<Rightarrow> nat \<Rightarrow> nat option" where
  "nc_GetAllocatedPointer dbg al im base = do { checkBase dbg al im base; Some base }"

definition nc_alloc_MakeItem :: "bool \<Rightarrow> alignment \<Rightarrow> item_map \<Rightarrow> memory \<Rightarrow> nat \<Rightarrow> memory option" where
  "nc_alloc_MakeItem dbg al im m base = do { checkBase dbg al im base; Some m }"

subsection \<open>TPoolCheckMemoryCorruptionOfItemInternalStructures: free items\<close>

text \<open>Signature at 0, padding at 1 to 3, link at 4 to 7, padding behind it.\<close>

record free_item_map = item_map +
  fm_endVoidsSize :: nat

definition ck_free_new :: free_item_map where
  "ck_free_new = \<lparr>im_alignedItemSize = 8, im_endConstruct = False, fm_endVoidsSize = 0\<rparr>"

definition ck_free_endConstruct :: "bool \<Rightarrow> alignment \<Rightarrow> free_item_map \<Rightarrow> nat \<Rightarrow> free_item_map option" where
  "ck_free_endConstruct dbg al im realAlignedItemSize = do {
     ASSERT dbg (\<not> im_endConstruct im);
     ASSERT dbg (im_alignedItemSize im \<le> realAlignedItemSize);
     ASSERT dbg (isAlignedSize al realAlignedItemSize);
     ASSERT dbg (realAlignedItemSize \<ge> im_alignedItemSize im);
     ASSERT dbg (realAlignedItemSize \<ge> 8);
     Some (im\<lparr>im_alignedItemSize := realAlignedItemSize, fm_endVoidsSize := sub32 realAlignedItemSize 8,
       im_endConstruct := True\<rparr>) }"

definition ck_free_Check :: "bool \<Rightarrow> alignment \<Rightarrow> free_item_map \<Rightarrow> memory \<Rightarrow> nat \<Rightarrow> unit option" where
  "ck_free_Check dbg al im m base = do {
     checkBase dbg al im base;
     ASSERT dbg (m base \<noteq> byte_of SIGNATURE_AND_POOL_ITEM_ALLOCATED);
     ASSERT dbg (m base = byte_of SIGNATURE_AND_POOL_ITEM_FREE);
     ASSERT dbg (3 = count_bytes m (base + 1) 3 (byte_of ALIGNMENT_VOIDS_FILL));
     ASSERT dbg (fm_endVoidsSize im = count_bytes m (base + 8) (fm_endVoidsSize im) (byte_of ALIGNMENT_VOIDS_FILL)) }"

definition ck_GetNextFreeItem :: "bool \<Rightarrow> alignment \<Rightarrow> free_item_map \<Rightarrow> memory \<Rightarrow> nat \<Rightarrow> size_t option" where
  "ck_GetNextFreeItem dbg al im m base = do { checkBase dbg al im base; Some (load_pointer m (base + 4)) }"

definition ck_SetNextFreeItem :: "bool \<Rightarrow> alignment \<Rightarrow> free_item_map \<Rightarrow> memory \<Rightarrow> nat \<Rightarrow> size_t \<Rightarrow> memory option" where
  "ck_SetNextFreeItem dbg al im m base nextBase = do { checkBase dbg al im base; Some (store_pointer m (base + 4) nextBase) }"

definition ck_free_MakeItem :: "bool \<Rightarrow> alignment \<Rightarrow> free_item_map \<Rightarrow> memory \<Rightarrow> nat \<Rightarrow> memory option" where
  "ck_free_MakeItem dbg al im m base = do {
     checkBase dbg al im base;
     let m = m(base := byte_of SIGNATURE_AND_POOL_ITEM_FREE);
     let m = memset m (base + 1) (byte_of ALIGNMENT_VOIDS_FILL) 3;
     m \<leftarrow> ck_SetNextFreeItem dbg al im m base 0;
     ASSERT dbg (fm_endVoidsSize im < im_alignedItemSize im);
     Some (memset m (base + 8) (byte_of ALIGNMENT_VOIDS_FILL) (fm_endVoidsSize im)) }"

subsection \<open>TPoolCheckMemoryCorruptionOfItemInternalStructures: allocated items\<close>

record alloc_item_map = item_map +
  am_beginVoidsSize :: nat
  am_itemSizeWithoutEndVoids :: nat
  am_endVoidsSize :: nat
  am_itemValueSize :: nat
  am_endVoidsDiff :: nat
  am_itemValueDiff :: nat

definition ck_alloc_new :: "bool \<Rightarrow> alignment \<Rightarrow> nat \<Rightarrow> alloc_item_map option" where
  "ck_alloc_new dbg al maxItemSize = do {
     ASSERT dbg (maxItemSize > 0);
     let itemValueDiff = alignAddressFor al 1 maxItemSize;
     ASSERT dbg (itemValueDiff \<ge> 1);
     let itemSizeWithoutEndVoids = add32 itemValueDiff maxItemSize;
     let alignedItemSize = alignSize al itemSizeWithoutEndVoids;
     Some \<lparr>im_alignedItemSize = alignedItemSize, im_endConstruct = False,
       am_beginVoidsSize = sub32 itemValueDiff 1, am_itemSizeWithoutEndVoids = itemSizeWithoutEndVoids,
       am_endVoidsSize = sub32 alignedItemSize itemSizeWithoutEndVoids, am_itemValueSize = maxItemSize,
       am_endVoidsDiff = itemSizeWithoutEndVoids, am_itemValueDiff = itemValueDiff\<rparr> }"

text \<open>The size is stored before it is compared, so the padding behind the value is never extended.\<close>

definition ck_alloc_endConstruct :: "bool \<Rightarrow> alignment \<Rightarrow> alloc_item_map \<Rightarrow> nat \<Rightarrow> alloc_item_map option" where
  "ck_alloc_endConstruct dbg al im realAlignedItemSize = do {
     ASSERT dbg (\<not> im_endConstruct im);
     ASSERT dbg (im_alignedItemSize im \<le> realAlignedItemSize);
     ASSERT dbg (isAlignedSize al realAlignedItemSize);
     let im = im\<lparr>im_alignedItemSize := realAlignedItemSize\<rparr>;
     ASSERT dbg (realAlignedItemSize \<ge> im_alignedItemSize im);
     let im = (if realAlignedItemSize > im_alignedItemSize im
       then im\<lparr>im_alignedItemSize := realAlignedItemSize,
         am_endVoidsSize := sub32 realAlignedItemSize (am_itemSizeWithoutEndVoids im)\<rparr> else im);
     Some (im\<lparr>im_endConstruct := True\<rparr>) }"

definition ck_alloc_Check :: "bool \<Rightarrow> alignment \<Rightarrow> alloc_item_map \<Rightarrow> memory \<Rightarrow> nat \<Rightarrow> unit option" where
  "ck_alloc_Check dbg al im m base = do {
     checkBase dbg al im base;
     ASSERT dbg (m base \<noteq> byte_of SIGNATURE_AND_POOL_ITEM_FREE);
     ASSERT dbg (m base = byte_of SIGNATURE_AND_POOL_ITEM_ALLOCATED);
     ASSERT dbg (am_beginVoidsSize im = count_bytes m (base + 1) (am_beginVoidsSize im) (byte_of ALIGNMENT_VOIDS_FILL));
     ASSERT dbg (am_endVoidsSize im =
       count_bytes m (base + am_endVoidsDiff im) (am_endVoidsSize im) (byte_of ALIGNMENT_VOIDS_FILL)) }"

definition ck_AllocatedItemBelongPoolCheck :: "bool \<Rightarrow> alignment \<Rightarrow> alloc_item_map \<Rightarrow> nat \<Rightarrow> nat \<Rightarrow> nat \<Rightarrow> unit option" where
  "ck_AllocatedItemBelongPoolCheck dbg al im base first bytes = checkBase dbg al im base"

definition ck_GetItemBase :: "bool \<Rightarrow> alloc_item_map \<Rightarrow> nat \<Rightarrow> nat option" where
  "ck_GetItemBase dbg im p = do { ASSERT dbg (im_endConstruct im); Some (sub32 p (am_itemValueDiff im)) }"

definition ck_GetAllocatedPointer :: "bool \<Rightarrow> alloc_item_map \<Rightarrow> nat \<Rightarrow> nat option" where
  "ck_GetAllocatedPointer dbg im base = do { ASSERT dbg (im_endConstruct im); Some (add32 base (am_itemValueDiff im)) }"

definition ck_alloc_MakeItem :: "bool \<Rightarrow> alignment \<Rightarrow> alloc_item_map \<Rightarrow> memory \<Rightarrow> nat \<Rightarrow> memory option" where
  "ck_alloc_MakeItem dbg al im m base = do {
     checkBase dbg al im base;
     let m = m(base := byte_of SIGNATURE_AND_POOL_ITEM_ALLOCATED);
     ASSERT dbg (am_endVoidsSize im < im_alignedItemSize im);
     ASSERT dbg (am_beginVoidsSize im < im_alignedItemSize im);
     ASSERT dbg (am_endVoidsDiff im \<le> im_alignedItemSize im);
     ASSERT dbg (am_itemValueSize im < im_alignedItemSize im);
     ASSERT dbg (am_itemValueDiff im < im_alignedItemSize im);
     let m = memset m (base + 1) (byte_of ALIGNMENT_VOIDS_FILL) (am_beginVoidsSize im);
     let m = memset m (base + am_itemValueDiff im) (byte_of ITEM_VALUE) (am_itemValueSize im);
     Some (memset m (base + am_endVoidsDiff im) (byte_of ALIGNMENT_VOIDS_FILL) (am_endVoidsSize im)) }"

text \<open>The strictest strategy also checks that the item comes from this pool.\<close>

definition dis_AllocatedItemBelongPoolCheck :: "bool \<Rightarrow> alignment \<Rightarrow> alloc_item_map \<Rightarrow> nat \<Rightarrow> nat \<Rightarrow> nat \<Rightarrow> unit option" where
  "dis_AllocatedItemBelongPoolCheck dbg al im base first bytes = do {
     checkBase dbg al im base;
     (if dbg then do { b \<leftarrow> ItemBelongBuffer dbg al im base first bytes; ASSERT dbg b } else Some ()) }"

subsection \<open>TAbstractPoolForNew::allocateUniversal\<close>

text \<open>
  The pool behind it and the shadow information (a pointer to the owning pool in front of the block) are
  parameters: \<open>alloc\<close> is \<open>allocateWithoutException\<close>, \<open>mark\<close> is \<open>setShadowMemoryInformation\<close>, \<open>skip\<close> is
  \<open>skipShadowMemoryInformation\<close>; \<open>handler\<close> is the exception \<open>cantAllocateHandler\<close> throws, if it throws. The address
  0 is NULL.
\<close>

definition allocateUniversal ::
    "bool \<Rightarrow> nat \<Rightarrow> (memory \<Rightarrow> nat \<Rightarrow> memory \<times> nat) \<Rightarrow> (memory \<Rightarrow> nat \<Rightarrow> memory) \<Rightarrow> (nat \<Rightarrow> nat) \<Rightarrow>
     cpp_exception option \<Rightarrow> memory \<Rightarrow> nat \<Rightarrow> (memory \<times> nat made) option" where
  "allocateUniversal dbg ItemSize alloc mark skip handler m Size = do {
     ASSERT dbg (Size \<noteq> 0);
     let Size = (if Size = 0 then 1 else Size);
     ASSERT dbg (Size \<le> ItemSize);
     let refused = (case handler of Some ex \<Rightarrow> Inl ex | None \<Rightarrow> Inr 0);
     if Size > ItemSize then Some (m, refused)
     else do {
       let (m, allocatedBuffer) = alloc m Size;
       if allocatedBuffer = 0 then Some (m, refused)
       else Some (mark m allocatedBuffer, Inr (skip allocatedBuffer)) } }"

subsection \<open>Bytes\<close>

lemma count_bytes_le: "count_bytes m a n v \<le> n"
  using length_filter_le [of _ "[0..<n]"] by (simp add: count_bytes_def)

lemma count_bytes_all: "n = count_bytes m a n v \<longleftrightarrow> (\<forall>i<n. m (a + i) = v)"
proof (induction n)
  case (Suc n)
  then show ?case using count_bytes_le [of m a n v] by (auto simp: count_bytes_def less_Suc_eq)
qed (simp add: count_bytes_def)

lemma load_store_pointer [simp]: "load_pointer (store_pointer m a p) a = p"
proof -
  have "ucast (ucast p :: 8 word) OR push_bit 8 (ucast (ucast (drop_bit 8 p) :: 8 word)) OR
      push_bit 16 (ucast (ucast (drop_bit 16 p) :: 8 word)) OR push_bit 24 (ucast (ucast (drop_bit 24 p) :: 8 word)) = p"
    (is "?l = p")
  proof (rule bit_word_eqI)
    fix n assume n: "n < LENGTH(32)"
    consider "n < 8" | k where "n = 8 + k" "k < 8" | k where "n = 16 + k" "k < 8" | k where "n = 24 + k" "k < 8"
    proof -
      have "n < 8 \<or> n = 8 + (n - 8) \<and> n - 8 < 8 \<or> n = 16 + (n - 16) \<and> n - 16 < 8 \<or> n = 24 + (n - 24) \<and> n - 24 < 8"
        using n by simp arith
      then show ?thesis using that by blast
    qed
    then show "bit ?l n \<longleftrightarrow> bit p n" by cases (auto simp: bit_simps)
  qed
  then show ?thesis by (simp add: load_pointer_def store_pointer_def)
qed

lemma store_pointer_other: "x < a \<or> a + 4 \<le> x \<Longrightarrow> store_pointer m a p x = m x"
  by (auto simp: store_pointer_def)

lemma memset_simps: "memset m a v n x = (if a \<le> x \<and> x < a + n then v else m x)"
  by (simp add: memset_def)

subsection \<open>Free items\<close>

text \<open>A finished map of free items, and a base it accepts.\<close>

definition free_ok :: "alignment \<Rightarrow> free_item_map \<Rightarrow> nat \<Rightarrow> bool" where
  "free_ok al im base \<longleftrightarrow> im_endConstruct im \<and> 8 \<le> im_alignedItemSize im \<and>
     fm_endVoidsSize im = im_alignedItemSize im - 8 \<and> isAlignedAddressFor al base (im_alignedItemSize im)"

lemma ck_free_endConstruct_ok:
  assumes "8 \<le> n" "n < 2 ^ 32" "isAlignedSize al n" "isAlignedAddressFor al base n"
  shows "\<exists>im. ck_free_endConstruct dbg al ck_free_new n = Some im \<and> free_ok al im base \<and> im_alignedItemSize im = n"
  using assms by (simp add: ck_free_endConstruct_def ck_free_new_def free_ok_def)

lemma checkBase_free: "free_ok al im base \<Longrightarrow> checkBase dbg al im base = Some ()"
  by (simp add: free_ok_def checkBase_def GetAlignedItemSize_def)

text \<open>The bytes of a free item that have a fixed value.\<close>

definition free_guard :: "free_item_map \<Rightarrow> memory \<Rightarrow> nat \<Rightarrow> bool" where
  "free_guard im m base \<longleftrightarrow> m base = 0xFE \<and> (\<forall>i<im_alignedItemSize im. i \<noteq> 0 \<and> (i < 4 \<or> 8 \<le> i) \<longrightarrow> m (base + i) = 0xAF)"

theorem ck_free_Check_iff:
  assumes ok: "free_ok al im base"
  shows "ck_free_Check True al im m base = Some () \<longleftrightarrow> free_guard im m base"
proof -
  have sz: "8 \<le> im_alignedItemSize im" "fm_endVoidsSize im = im_alignedItemSize im - 8"
    using ok by (simp_all add: free_ok_def)
  have "(\<forall>i<3. m (base + 1 + i) = v) \<longleftrightarrow> (\<forall>i<4. i \<noteq> 0 \<longrightarrow> m (base + i) = v)" for v
    by (auto simp: numeral_eq_Suc All_less_Suc2)
  moreover have "(\<forall>i<im_alignedItemSize im - 8. m (base + 8 + i) = v) \<longleftrightarrow>
      (\<forall>i<im_alignedItemSize im. 8 \<le> i \<longrightarrow> m (base + i) = v)" for v
  proof safe
    fix i assume "\<forall>i<im_alignedItemSize im - 8. m (base + 8 + i) = v" "i < im_alignedItemSize im" "8 \<le> i"
    then have "m (base + 8 + (i - 8)) = v" by (elim allE [of _ "i - 8"]) (simp add: less_diff_conv)
    then show "m (base + i) = v" using \<open>8 \<le> i\<close> by simp
  qed (auto simp: less_diff_conv add.assoc)
  ultimately have "ck_free_Check True al im m base = Some () \<longleftrightarrow> m base = 0xFE \<and>
      (\<forall>i<4. i \<noteq> 0 \<longrightarrow> m (base + i) = 0xAF) \<and> (\<forall>i<im_alignedItemSize im. 8 \<le> i \<longrightarrow> m (base + i) = 0xAF)"
    using checkBase_free [OF ok, of True] sz(2)
    by (auto simp: ck_free_Check_def count_bytes_all ASSERT_def)
  also have "\<dots> \<longleftrightarrow> free_guard im m base" using sz(1) by (auto simp: free_guard_def)
  finally show ?thesis .
qed

theorem ck_free_MakeItem_spec:
  assumes ok: "free_ok al im base"
  obtains m' where "ck_free_MakeItem dbg al im m base = Some m'" "free_guard im m' base"
    "load_pointer m' (base + 4) = 0" "\<forall>x. x < base \<or> base + im_alignedItemSize im \<le> x \<longrightarrow> m' x = m x"
proof -
  let ?v = "byte_of ALIGNMENT_VOIDS_FILL"
  let ?m1 = "memset (m(base := byte_of SIGNATURE_AND_POOL_ITEM_FREE)) (base + 1) ?v 3"
  let ?m2 = "store_pointer ?m1 (base + 4) 0"
  let ?m3 = "memset ?m2 (base + 8) ?v (fm_endVoidsSize im)"
  have sz: "8 \<le> im_alignedItemSize im" "fm_endVoidsSize im = im_alignedItemSize im - 8"
    using ok by (simp_all add: free_ok_def)
  have run: "ck_free_MakeItem dbg al im m base = Some ?m3"
    using checkBase_free [OF ok, of dbg] sz by (simp add: ck_free_MakeItem_def ck_SetNextFreeItem_def Let_def)
  define m3 where "m3 = ?m3"
  have byte: "m3 x = (if x = base then 0xFE else if base < x \<and> x < base + 4 then 0xAF
      else if base + 4 \<le> x \<and> x < base + 8 then ?m2 x
      else if base + 8 \<le> x \<and> x < base + im_alignedItemSize im then 0xAF else m x)" for x
    using sz by (auto simp: m3_def memset_simps store_pointer_other)
  have "free_guard im m3 base" by (auto simp: free_guard_def byte)
  moreover have "load_pointer m3 (base + 4) = load_pointer ?m2 (base + 4)"
    by (simp add: load_pointer_def m3_def memset_simps)
  moreover have "\<forall>x. x < base \<or> base + im_alignedItemSize im \<le> x \<longrightarrow> m3 x = m x" using sz by (auto simp: byte)
  ultimately show thesis using run that [of m3] by (simp add: m3_def)
qed

text \<open>Linking a free item changes only its link.\<close>

lemma ck_SetNextFreeItem_spec:
  assumes ok: "free_ok al im base" and g: "free_guard im m base"
  shows "\<exists>m'. ck_SetNextFreeItem dbg al im m base p = Some m' \<and> free_guard im m' base \<and>
    ck_GetNextFreeItem dbg al im m' base = Some p \<and> (\<forall>x. x < base + 4 \<or> base + 8 \<le> x \<longrightarrow> m' x = m x)"
  using checkBase_free [OF ok] g
  by (auto simp: ck_SetNextFreeItem_def ck_GetNextFreeItem_def free_guard_def store_pointer_other)

subsection \<open>Allocated items\<close>

definition alloc_ok_map :: "alignment \<Rightarrow> alloc_item_map \<Rightarrow> nat \<Rightarrow> bool" where
  "alloc_ok_map al im base \<longleftrightarrow> im_endConstruct im \<and> isAlignedAddressFor al base (im_alignedItemSize im) \<and>
     0 < am_itemValueSize im \<and> am_itemValueDiff im = am_beginVoidsSize im + 1 \<and>
     am_itemSizeWithoutEndVoids im = am_itemValueDiff im + am_itemValueSize im \<and>
     am_endVoidsDiff im = am_itemSizeWithoutEndVoids im \<and>
     am_endVoidsDiff im + am_endVoidsSize im \<le> im_alignedItemSize im"

lemma checkBase_alloc: "alloc_ok_map al im base \<Longrightarrow> checkBase dbg al im base = Some ()"
  by (simp add: alloc_ok_map_def checkBase_def GetAlignedItemSize_def)

text \<open>The documented contract of the alignment strategy at one item size: rounding up, without
  running over the address space.\<close>

definition alignment_ok :: "alignment \<Rightarrow> nat \<Rightarrow> bool" where
  "alignment_ok al n \<longleftrightarrow> 1 \<le> alignAddressFor al 1 n \<and>
     alignAddressFor al 1 n + n \<le> alignSize al (alignAddressFor al 1 n + n) \<and>
     alignSize al (alignAddressFor al 1 n + n) < 2 ^ 32"

lemma ck_alloc_new_spec:
  assumes al: "alignment_ok al n" and n: "0 < n"
  defines "d \<equiv> alignAddressFor al 1 n"
  shows "ck_alloc_new dbg al n = Some \<lparr>im_alignedItemSize = alignSize al (d + n), im_endConstruct = False,
    am_beginVoidsSize = d - 1, am_itemSizeWithoutEndVoids = d + n, am_endVoidsSize = alignSize al (d + n) - (d + n),
    am_itemValueSize = n, am_endVoidsDiff = d + n, am_itemValueDiff = d\<rparr>"
proof -
  have d: "1 \<le> d" "d + n \<le> alignSize al (d + n)" "alignSize al (d + n) < 2 ^ 32"
    using al by (simp_all add: alignment_ok_def d_def)
  then have e: "d + n < 2 ^ 32" "d < 2 ^ 32" by linarith+
  then have "add32 d n = d + n" "sub32 d 1 = d - 1" "sub32 (alignSize al (d + n)) (d + n) = alignSize al (d + n) - (d + n)"
    using d by (simp_all only: add32_exact sub32_exact)
  then show ?thesis using d(1) n by (simp only: ck_alloc_new_def Let_def d_def [symmetric]) simp
qed

theorem ck_alloc_construct:
  assumes al: "alignment_ok al n" "0 < n" "ck_alloc_new dbg al n = Some im"
    and real: "im_alignedItemSize im \<le> real" "isAlignedSize al real" "isAlignedAddressFor al base real"
  shows "\<exists>im'. ck_alloc_endConstruct dbg al im real = Some im' \<and> alloc_ok_map al im' base \<and>
    im_alignedItemSize im' = real \<and> am_endVoidsDiff im' + am_endVoidsSize im' = im_alignedItemSize im"
  using assms ck_alloc_new_spec [OF al(1,2), of dbg]
  by (auto simp: ck_alloc_endConstruct_def alloc_ok_map_def alignment_ok_def Let_def)

definition alloc_guard :: "alloc_item_map \<Rightarrow> memory \<Rightarrow> nat \<Rightarrow> bool" where
  "alloc_guard im m base \<longleftrightarrow> m base = 0xA1 \<and> (\<forall>i<am_beginVoidsSize im. m (base + 1 + i) = 0xAF) \<and>
     (\<forall>i<am_endVoidsSize im. m (base + am_endVoidsDiff im + i) = 0xAF)"

theorem ck_alloc_Check_iff:
  assumes "alloc_ok_map al im base"
  shows "ck_alloc_Check True al im m base = Some () \<longleftrightarrow> alloc_guard im m base"
  using checkBase_alloc [OF assms, of True]
  by (auto simp: ck_alloc_Check_def count_bytes_all ASSERT_def alloc_guard_def)

theorem ck_alloc_MakeItem_spec:
  assumes ok: "alloc_ok_map al im base"
  obtains m' where "ck_alloc_MakeItem dbg al im m base = Some m'" "alloc_guard im m' base"
    "\<forall>i<am_itemValueSize im. m' (base + am_itemValueDiff im + i) = 0x7F"
    "\<forall>x. x < base \<or> base + am_endVoidsDiff im + am_endVoidsSize im \<le> x \<longrightarrow> m' x = m x"
proof -
  have sz: "0 < am_itemValueSize im" "am_itemValueDiff im = am_beginVoidsSize im + 1"
    "am_endVoidsDiff im = am_itemValueDiff im + am_itemValueSize im"
    "am_endVoidsDiff im + am_endVoidsSize im \<le> im_alignedItemSize im"
    using ok by (simp_all add: alloc_ok_map_def)
  then show thesis using checkBase_alloc [OF ok, of dbg]
    by (intro that) (auto simp: ck_alloc_MakeItem_def Let_def alloc_guard_def memset_simps)
qed

lemma pointer_base_inverse:
  "im_endConstruct im \<Longrightarrow> base + am_itemValueDiff im < 2 ^ 32 \<Longrightarrow> do { p \<leftarrow> ck_GetAllocatedPointer dbg im base; ck_GetItemBase dbg im p } = Some base"
  by (simp add: ck_GetAllocatedPointer_def ck_GetItemBase_def)

text \<open>Freeing twice: the item is free, so the check of an allocated item fails.\<close>

lemma double_free_detected:
  "free_guard fim m base \<Longrightarrow> ck_alloc_Check True al im m base = None"
  by (simp add: free_guard_def ck_alloc_Check_def ASSERT_def checkBase_def split: bind_splits)

text \<open>Bytes behind the padding known at construction are never looked at.\<close>

lemma tail_unchecked:
  assumes "alloc_ok_map al im base" "base + am_endVoidsDiff im + am_endVoidsSize im \<le> x"
  shows "ck_alloc_Check dbg al im (m(x := v)) base = ck_alloc_Check dbg al im m base"
  using assms by (auto simp: ck_alloc_Check_def count_bytes_all alloc_ok_map_def)

text \<open>An allocation without a value larger than the items never touches the pool; otherwise the caller gets the
  block behind the shadow information, or the handler runs.\<close>

lemma allocateUniversal_spec:
  assumes "0 < Size"
  shows "allocateUniversal dbg ItemSize alloc mark skip handler m Size =
    (let refused = (case handler of Some ex \<Rightarrow> Inl ex | None \<Rightarrow> Inr 0) in
     if Size > ItemSize then (if dbg then None else Some (m, refused))
     else case alloc m Size of (m', p) \<Rightarrow>
       if p = 0 then Some (m', refused) else Some (mark m' p, Inr (skip p)))"
  using assms by (auto simp: allocateUniversal_def Let_def split: prod.splits)

text \<open>A changed guard byte is noticed.\<close>

lemma guard_byte_detected:
  assumes ok: "alloc_ok_map al im base" and g: "alloc_guard im m base"
    and x: "x = base \<or> (\<exists>i<am_beginVoidsSize im. x = base + 1 + i) \<or>
      (\<exists>i<am_endVoidsSize im. x = base + am_endVoidsDiff im + i)" and v: "v \<noteq> m x"
  shows "ck_alloc_Check True al im (m(x := v)) base = None"
proof -
  have "\<not> alloc_guard im (m(x := v)) base" using x g v by (auto simp: alloc_guard_def)
  then show ?thesis using ck_alloc_Check_iff [OF ok, of "m(x := v)"] by (cases "ck_alloc_Check True al im (m(x := v)) base") auto
qed

subsection \<open>The contract of an item with checks\<close>

text \<open>
  Both kinds of items promise the same to the pool: making an item succeeds, the check passes exactly when the
  guard bytes are intact, and both touch only the extent of the item. Items at disjoint places therefore do not
  disturb each other.
\<close>

locale checked_item =
  fixes ok :: "'im \<Rightarrow> nat \<Rightarrow> bool"
    and make :: "'im \<Rightarrow> memory \<Rightarrow> nat \<Rightarrow> memory option"
    and check :: "'im \<Rightarrow> memory \<Rightarrow> nat \<Rightarrow> unit option"
    and guard :: "'im \<Rightarrow> memory \<Rightarrow> nat \<Rightarrow> bool"
    and extent :: "'im \<Rightarrow> nat"
  assumes check_iff: "ok im base \<Longrightarrow> check im m base = Some () \<longleftrightarrow> guard im m base"
    and make_ok: "ok im base \<Longrightarrow> \<exists>m'. make im m base = Some m' \<and> guard im m' base \<and>
      (\<forall>x. x < base \<or> base + extent im \<le> x \<longrightarrow> m' x = m x)"
    and guard_local: "ok im base \<Longrightarrow> \<forall>i<extent im. m' (base + i) = m (base + i) \<Longrightarrow> guard im m base \<Longrightarrow> guard im m' base"
begin

lemma check_fails: "ok im base \<Longrightarrow> \<not> guard im m base \<Longrightarrow> check im m base = None"
  using check_iff [of im base m] by (cases "check im m base") auto

lemma made_item_passes:
  assumes "ok im base" "make im m base = Some m'"
  shows "check im m' base = Some ()"
  using make_ok [OF assms(1), of m] assms check_iff by auto

lemma made_item_apart:
  assumes "ok im base" "ok im' base'" "check im m base = Some ()" "make im' m base' = Some m'"
    "base + extent im \<le> base' \<or> base' + extent im' \<le> base"
  shows "check im m' base = Some ()"
proof -
  have "\<forall>x. x < base' \<or> base' + extent im' \<le> x \<longrightarrow> m' x = m x" using make_ok [OF assms(2), of m] assms(4) by auto
  then have "\<forall>i<extent im. m' (base + i) = m (base + i)" using assms(5) by auto
  then show ?thesis using guard_local [OF assms(1)] assms(1,3) check_iff by blast
qed

end

interpretation free_items: checked_item "free_ok al" "ck_free_MakeItem True al" "ck_free_Check True al" free_guard
    im_alignedItemSize for al
proof unfold_locales
  fix im base m assume ok: "free_ok al im base"
  show "ck_free_Check True al im m base = Some () \<longleftrightarrow> free_guard im m base" by (rule ck_free_Check_iff [OF ok])
  show "\<exists>m'. ck_free_MakeItem True al im m base = Some m' \<and> free_guard im m' base \<and>
      (\<forall>x. x < base \<or> base + im_alignedItemSize im \<le> x \<longrightarrow> m' x = m x)"
    using ck_free_MakeItem_spec [OF ok, of True m] by blast
next
  fix im :: free_item_map and base and m m' :: memory
  assume "free_ok al im base" "\<forall>i<im_alignedItemSize im. m' (base + i) = m (base + i)" "free_guard im m base"
  then show "free_guard im m' base" by (auto simp: free_guard_def free_ok_def dest: spec [of _ 0])
qed

interpretation allocated_items: checked_item "alloc_ok_map al" "ck_alloc_MakeItem True al" "ck_alloc_Check True al" alloc_guard
    "\<lambda>im. am_endVoidsDiff im + am_endVoidsSize im" for al
proof unfold_locales
  fix im base m assume ok: "alloc_ok_map al im base"
  show "ck_alloc_Check True al im m base = Some () \<longleftrightarrow> alloc_guard im m base" by (rule ck_alloc_Check_iff [OF ok])
  show "\<exists>m'. ck_alloc_MakeItem True al im m base = Some m' \<and> alloc_guard im m' base \<and>
      (\<forall>x. x < base \<or> base + (am_endVoidsDiff im + am_endVoidsSize im) \<le> x \<longrightarrow> m' x = m x)"
    using ck_alloc_MakeItem_spec [OF ok, of True m] by (metis add.assoc)
next
  fix im :: alloc_item_map and base and m m' :: memory
  assume ok: "alloc_ok_map al im base" and same: "\<forall>i<am_endVoidsDiff im + am_endVoidsSize im. m' (base + i) = m (base + i)"
    and g: "alloc_guard im m base"
  have sz: "am_beginVoidsSize im + 1 < am_endVoidsDiff im" using ok by (simp add: alloc_ok_map_def)
  have "m' (base + i) = m (base + i)" if "i < am_endVoidsDiff im + am_endVoidsSize im" for i using same that by blast
  from this [of 0] this [of "1 + i" for i] this [of "am_endVoidsDiff im + i" for i] show "alloc_guard im m' base"
    using g sz by (simp add: alloc_guard_def add.assoc)
qed

end
