(* ===== verification/LowLevel_Allocator.thy ===== *)
theory LowLevel_Allocator
  imports Cpp_Prelude
begin

section \<open>LowestLevelAllocator.h: pages, alignment and areas\<close>

text \<open>
  The allocator below the kernel: page access rights, rounding, the intrusive list of areas and one
  area, from which memory is cut and which is extended by reserving pages. The file is a draft (it
  mixes the spellings \<open>_Begin\<close> and \<open>_begin\<close>, and the class that would own the areas breaks off), so
  the members that are complete are modelled. Addresses and sizes are 32-bit words. The
  run-time system is a parameter: \<open>RTSetPageAccess\<close> is a list of the calls made,
  \<open>RTReserveVirtualAddress\<close> is a function \<open>reserve\<close> on a state of its own, which gets the
  wished address and the size and returns the address and whether the reservation succeeded;
  \<open>page\<close> is \<open>RAM_PAGE_SIZE\<close> and \<open>noaccess\<close> is \<open>RT_PG_NOACCESS\<close>. \<open>CPL0_ASSERT\<close> is read as \<open>ASSERT\<close>.
\<close>

type_synonym page_calls = "(size_t \<times> int) list"

subsection \<open>Page access rights\<close>

partial_function (option) SetPagesAccess_loop ::
    "size_t \<Rightarrow> size_t \<Rightarrow> size_t \<Rightarrow> int \<Rightarrow> page_calls \<Rightarrow> page_calls option" where
  "SetPagesAccess_loop page current End Access calls =
     (if current < End then SetPagesAccess_loop page (current + page) End Access (calls @ [(current, Access)])
      else Some calls)"

definition SetPagesAccess :: "bool \<Rightarrow> size_t \<Rightarrow> size_t \<Rightarrow> size_t \<Rightarrow> int \<Rightarrow> page_calls \<Rightarrow> page_calls option" where
  "SetPagesAccess dbg page Begin End Access calls = do {
     ASSERT dbg (Begin \<noteq> 0);
     if Begin = 0 then Some calls
     else do {
       ASSERT dbg (Begin \<le> End);
       ASSERT dbg (Begin < End);
       if Begin \<le> End then Some calls
       else do {
         calls \<leftarrow> SetPagesAccess_loop page Begin End Access calls;
         Some (if End mod page \<noteq> 0 then calls @ [(End, Access)] else calls) } } }"

definition SetPagesAccess_size :: "bool \<Rightarrow> size_t \<Rightarrow> size_t \<Rightarrow> size_t \<Rightarrow> int \<Rightarrow> page_calls \<Rightarrow> page_calls option" where
  "SetPagesAccess_size dbg page Address Size Access calls = do {
     ASSERT dbg (Address \<noteq> 0);
     if Address = 0 then Some calls
     else do {
       ASSERT dbg (Size > 0);
       if Size \<le> 0 then Some calls
       else do {
         let EndOfRegion = Address + Size;
         SetPagesAccess dbg page Address EndOfRegion Access calls } } }"

text \<open>The cast in the call binds to the number of pages: the product is passed as the end address.\<close>

definition SetPagesAccessInPages :: "bool \<Rightarrow> size_t \<Rightarrow> size_t \<Rightarrow> size_t \<Rightarrow> int \<Rightarrow> page_calls \<Rightarrow> page_calls option" where
  "SetPagesAccessInPages dbg page Address AmountOfPage Access calls = do {
     ASSERT dbg (Address \<noteq> 0);
     if Address = 0 then Some calls
     else do {
       ASSERT dbg (AmountOfPage > 0);
       if AmountOfPage \<le> 0 then Some calls
       else SetPagesAccess dbg page Address (AmountOfPage * page) Access calls } }"

definition SetPagesAccessAfterReservation ::
    "bool \<Rightarrow> int \<Rightarrow> size_t \<Rightarrow> size_t \<Rightarrow> size_t \<Rightarrow> int \<Rightarrow> page_calls \<Rightarrow> page_calls option" where
  "SetPagesAccessAfterReservation dbg noaccess page Begin End Access calls = do {
     ASSERT dbg (Begin \<noteq> 0);
     if Begin = 0 then Some calls
     else do {
       ASSERT dbg (Begin \<le> End);
       ASSERT dbg (Begin < End);
       if Begin \<le> End then Some calls
       else if Access \<noteq> noaccess then SetPagesAccess dbg page Begin End Access calls
       else Some calls } }"

definition SetPagesAccessAfterReservation_size ::
    "bool \<Rightarrow> int \<Rightarrow> size_t \<Rightarrow> size_t \<Rightarrow> size_t \<Rightarrow> int \<Rightarrow> page_calls \<Rightarrow> page_calls option" where
  "SetPagesAccessAfterReservation_size dbg noaccess page Address Size Access calls = do {
     ASSERT dbg (Address \<noteq> 0);
     if Address = 0 then Some calls
     else do {
       ASSERT dbg (Size > 0);
       if Size \<le> 0 then Some calls
       else if Access \<noteq> noaccess then SetPagesAccess_size dbg page Address Size Access calls
       else Some calls } }"

definition SetPagesAccessInPagesAfterReservation ::
    "bool \<Rightarrow> int \<Rightarrow> size_t \<Rightarrow> size_t \<Rightarrow> size_t \<Rightarrow> int \<Rightarrow> page_calls \<Rightarrow> page_calls option" where
  "SetPagesAccessInPagesAfterReservation dbg noaccess page Address AmountOfPage Access calls = do {
     ASSERT dbg (Address \<noteq> 0);
     if Address = 0 then Some calls
     else do {
       ASSERT dbg (AmountOfPage > 0);
       if AmountOfPage \<le> 0 then Some calls
       else if Access \<noteq> noaccess then SetPagesAccessInPages dbg page Address AmountOfPage Access calls
       else Some calls } }"

subsection \<open>Rounding\<close>

text \<open>The draft declares \<open>result\<close> constant and assigns it, which does not compile; the assignment is what it means.\<close>

definition Align :: "bool \<Rightarrow> size_t \<Rightarrow> size_t \<Rightarrow> size_t option" where
  "Align dbg SizeOrAddress AlignStep = do {
     ASSERT dbg (AlignStep > 0);
     if AlignStep \<le> 1 then Some SizeOrAddress
     else do {
       let result = (if SizeOrAddress mod AlignStep \<noteq> 0
         then SizeOrAddress + (AlignStep - (SizeOrAddress mod AlignStep)) else SizeOrAddress);
       ASSERT dbg (result \<ge> SizeOrAddress);
       ASSERT dbg (result - SizeOrAddress < AlignStep);
       Some result } }"

definition IsAligned :: "bool \<Rightarrow> size_t \<Rightarrow> size_t \<Rightarrow> bool option" where
  "IsAligned dbg SizeOrAddress AlignStep = do {
     ASSERT dbg (AlignStep > 0);
     if AlignStep \<le> 1 then Some True
     else do {
       let Result = (SizeOrAddress mod AlignStep = 0);
       (if dbg then do {
          aligned \<leftarrow> Align dbg SizeOrAddress AlignStep;
          ASSERT dbg (Result = (SizeOrAddress = aligned)) } else Some ());
       Some Result } }"

subsection \<open>The intrusive list\<close>

datatype TEnumeratorFunctorResult = STOP_ENUMERATION | CONTINUE_ENUMERATION

text \<open>The null pointer is the empty list. The loop goes on as long as the functor answers
  \<open>STOP_ENUMERATION\<close>, and it does not stop at the end of the list but reads through it.\<close>

fun forEach :: "('s \<Rightarrow> 'a \<Rightarrow> 's \<times> TEnumeratorFunctorResult) \<Rightarrow> 's \<Rightarrow> 'a list \<Rightarrow> 's option" where
  "forEach functor s [] = Some s"
| "forEach functor s (current # tail) = (case functor s current of
     (s, STOP_ENUMERATION) \<Rightarrow> (if tail = [] then None else forEach functor s tail)
   | (s, CONTINUE_ENUMERATION) \<Rightarrow> Some s)"

subsection \<open>TAreaHeader\<close>

text \<open>The draft declares \<open>char* _begin, _end\<close>, which makes \<open>_end\<close> a single \<open>char\<close>, and never compiled; every use of \<open>_end\<close> is
  that of an address, and the record has an address. \<open>RTReserveVirtualAddress\<close> is the parameter \<open>reserve\<close>: it gets the address
  by reference and may write it, also when it fails; \<open>RT_MAP_NO_RELOCATE\<close> says by its name that it leaves the address alone.\<close>

record TAreaHeader =
  ah_begin :: size_t
  ah_end :: size_t
  ah_maxPagesForExtend :: size_t
  ah_PageAccess :: int
  ah_Aligment :: size_t

datatype TResultOfExtendArea = SUCCESS | FAILURE_THAT_AND_FURTHER_EXTENSION

definition CheckInvariant :: "bool \<Rightarrow> size_t \<Rightarrow> TAreaHeader \<Rightarrow> unit option" where
  "CheckInvariant dbg page a = (if \<not> dbg then Some () else do {
     ASSERT dbg (ah_begin a \<noteq> 0);
     ASSERT dbg (ah_begin a \<le> ah_end a);
     b \<leftarrow> IsAligned dbg (ah_begin a) (ah_Aligment a);
     ASSERT dbg b;
     b \<leftarrow> IsAligned dbg (ah_end a) page;
     ASSERT dbg b })"

definition TAreaHeader_new :: "bool \<Rightarrow> size_t \<Rightarrow> size_t \<Rightarrow> size_t \<Rightarrow> size_t \<Rightarrow> int \<Rightarrow> size_t \<Rightarrow> TAreaHeader option" where
  "TAreaHeader_new dbg page Begin End MaxPagesForExtend PageAccess Aligment = do {
     let a = \<lparr>ah_begin = Begin, ah_end = End, ah_maxPagesForExtend = MaxPagesForExtend,
       ah_PageAccess = PageAccess, ah_Aligment = Aligment\<rparr>;
     CheckInvariant dbg page a;
     ASSERT dbg (ah_Aligment a \<ge> 1);
     ASSERT dbg (ah_maxPagesForExtend a \<ge> 1);
     ASSERT dbg (ah_maxPagesForExtend a mod 2 = 0);
     Some a }"

definition FreeMemoryAtArea :: "bool \<Rightarrow> size_t \<Rightarrow> TAreaHeader \<Rightarrow> size_t option" where
  "FreeMemoryAtArea dbg page a = do { CheckInvariant dbg page a; Some (ah_end a - ah_begin a) }"

text \<open>The result is the area after the call and the address, 0 for NULL.\<close>

definition allocateWithoutExtend :: "bool \<Rightarrow> size_t \<Rightarrow> TAreaHeader \<Rightarrow> size_t \<Rightarrow> (TAreaHeader \<times> size_t) option" where
  "allocateWithoutExtend dbg page a Size = do {
     CheckInvariant dbg page a;
     free \<leftarrow> FreeMemoryAtArea dbg page a;
     ASSERT dbg (free \<ge> Size);
     if free < Size then Some (a, 0)
     else Some (a\<lparr>ah_begin := ah_begin a + Size\<rparr>, ah_begin a) }"

type_synonym 's reserve = "'s \<Rightarrow> size_t \<Rightarrow> size_t \<Rightarrow> 's \<times> size_t \<times> bool"

text \<open>The loop of \<open>tryExtendArea\<close>: it goes on after a success, and for ever once a single page is left.\<close>

partial_function (option) extend_loop ::
    "'s reserve \<Rightarrow> size_t \<Rightarrow> 's \<Rightarrow> size_t \<Rightarrow> size_t \<Rightarrow> ('s \<times> size_t \<times> size_t \<times> bool) option" where
  "extend_loop reserve page s e amount = (case reserve s e (amount * page) of (s, e, ok) \<Rightarrow>
     if ok \<or> amount \<le> 1 then extend_loop reserve page s e (amount div 2)
     else Some (s, e, amount, ok))"

definition tryExtendArea ::
    "bool \<Rightarrow> int \<Rightarrow> size_t \<Rightarrow> 's reserve \<Rightarrow> 's \<Rightarrow> TAreaHeader \<Rightarrow> page_calls \<Rightarrow>
     ('s \<times> TAreaHeader \<times> page_calls \<times> TResultOfExtendArea) option" where
  "tryExtendArea dbg noaccess page reserve s a calls = do {
     CheckInvariant dbg page a;
     ASSERT dbg (ah_maxPagesForExtend a \<le> 0);
     if ah_maxPagesForExtend a \<le> 0 then Some (s, a, calls, FAILURE_THAT_AND_FURTHER_EXTENSION)
     else do {
       (s, e, amount, ok) \<leftarrow> extend_loop reserve page s (ah_end a) (ah_maxPagesForExtend a);
       let a = a\<lparr>ah_end := e, ah_maxPagesForExtend := amount\<rparr>;
       if ok then do {
         let SizeOfExtendedArea = amount * page;
         calls \<leftarrow> SetPagesAccessInPagesAfterReservation dbg noaccess page (ah_end a) amount (ah_PageAccess a) calls;
         let a = a\<lparr>ah_end := ah_end a + SizeOfExtendedArea\<rparr>;
         CheckInvariant dbg page a;
         Some (s, a, calls, SUCCESS) }
       else Some (s, a\<lparr>ah_maxPagesForExtend := 0\<rparr>, calls, FAILURE_THAT_AND_FURTHER_EXTENSION) } }"

partial_function (option) allocate_extending ::
    "bool \<Rightarrow> int \<Rightarrow> size_t \<Rightarrow> 's reserve \<Rightarrow> 's \<Rightarrow> TAreaHeader \<Rightarrow> page_calls \<Rightarrow> size_t \<Rightarrow>
     ('s \<times> TAreaHeader \<times> page_calls \<times> size_t) option" where
  "allocate_extending dbg noaccess page reserve s a calls Size = do {
     free \<leftarrow> FreeMemoryAtArea dbg page a;
     if free < Size then do {
       (s, a, calls, r) \<leftarrow> tryExtendArea dbg noaccess page reserve s a calls;
       if r = FAILURE_THAT_AND_FURTHER_EXTENSION then Some (s, a, calls, 0)
       else allocate_extending dbg noaccess page reserve s a calls Size }
     else do {
       (a, result) \<leftarrow> allocateWithoutExtend dbg page a Size;
       Some (s, a, calls, result) } }"

definition allocateOrNULLWithCantContinueExtendThisArea ::
    "bool \<Rightarrow> int \<Rightarrow> size_t \<Rightarrow> 's reserve \<Rightarrow> 's \<Rightarrow> TAreaHeader \<Rightarrow> page_calls \<Rightarrow> size_t \<Rightarrow>
     ('s \<times> TAreaHeader \<times> page_calls \<times> size_t) option" where
  "allocateOrNULLWithCantContinueExtendThisArea dbg noaccess page reserve s a calls Size = do {
     CheckInvariant dbg page a;
     ASSERT dbg (Size > 0);
     allocate_extending dbg noaccess page reserve s a calls Size }"

subsection \<open>TFindMostSuitableArea\<close>

text \<open>Areas are known by their address; \<open>free\<close> gives \<open>FreeMemoryAtArea\<close> of the area at an address. The
  operator has no return statement, so only the change of the object is modelled.\<close>

record find_area =
  fa_NeadedSize :: size_t
  fa_mostSuitableArea :: size_t
  fa_beforeMostSuitableArea :: size_t
  fa_lastObservedArea :: size_t
  fa_cantReUseOldObject :: bool

definition TFindMostSuitableArea_new :: "size_t \<Rightarrow> find_area" where
  "TFindMostSuitableArea_new NeadedSize = \<lparr>fa_NeadedSize = NeadedSize, fa_mostSuitableArea = 0,
     fa_beforeMostSuitableArea = 0, fa_lastObservedArea = 0, fa_cantReUseOldObject = False\<rparr>"

definition setMostSuitableArea :: "bool \<Rightarrow> find_area \<Rightarrow> size_t \<Rightarrow> find_area option" where
  "setMostSuitableArea dbg f area = do {
     ASSERT dbg (area \<noteq> 0);
     Some (f\<lparr>fa_mostSuitableArea := area, fa_beforeMostSuitableArea := fa_lastObservedArea f\<rparr>) }"

definition observe_area :: "bool \<Rightarrow> (size_t \<Rightarrow> size_t) \<Rightarrow> find_area \<Rightarrow> size_t \<Rightarrow> find_area option" where
  "observe_area dbg free f area = do {
     ASSERT dbg (\<not> fa_cantReUseOldObject f);
     let f = f\<lparr>fa_cantReUseOldObject := True\<rparr>;
     ASSERT dbg (area \<noteq> 0);
     f \<leftarrow> (if free area \<ge> fa_NeadedSize f
         \<and> (fa_mostSuitableArea f = 0 \<or> free area < free (fa_mostSuitableArea f))
       then setMostSuitableArea dbg f area else Some f);
     Some (f\<lparr>fa_lastObservedArea := area\<rparr>) }"

subsection \<open>Page access rights are never set\<close>

text \<open>The early return has its condition inverted.\<close>

lemma SetPagesAccess_nothing:
  assumes "Begin \<noteq> 0" "Begin < End"
  shows "SetPagesAccess dbg page Begin End Access calls = Some calls"
  using assms less_imp_le [OF assms(2)] by (simp add: SetPagesAccess_def)

lemma SetPagesAccess_family_nothing:
  assumes "Begin \<noteq> 0" "Begin < End"
  shows "SetPagesAccess_size dbg page Begin (End - Begin) Access calls = Some calls"
    "SetPagesAccessAfterReservation dbg noaccess page Begin End Access calls = Some calls"
    "SetPagesAccessAfterReservation_size dbg noaccess page Begin (End - Begin) Access calls = Some calls"
proof -
  have d: "End - Begin \<noteq> 0" using assms(2) by auto
  then have pos: "0 < End - Begin" by (simp only: word_neq_0_conv)
  show 1: "SetPagesAccess_size dbg page Begin (End - Begin) Access calls = Some calls"
    using assms d pos by (simp add: SetPagesAccess_size_def SetPagesAccess_nothing)
  show "SetPagesAccessAfterReservation dbg noaccess page Begin End Access calls = Some calls"
    using assms less_imp_le [OF assms(2)] by (simp add: SetPagesAccessAfterReservation_def)
  show "SetPagesAccessAfterReservation_size dbg noaccess page Begin (End - Begin) Access calls = Some calls"
    using assms d pos by (simp add: SetPagesAccessAfterReservation_size_def 1)
qed

subsection \<open>Rounding up\<close>

text \<open>The least multiple of the step that is not below the argument, as a natural number.\<close>

definition round_up :: "nat \<Rightarrow> nat \<Rightarrow> nat" where
  "round_up x step = (if x mod step = 0 then x else x + (step - x mod step))"

lemma round_up_dvd: "0 < step \<Longrightarrow> step dvd round_up x step"
proof (cases "x mod step = 0")
  case False
  assume "0 < step"
  have "x + (step - x mod step) = x div step * step + step"
    using mod_less_divisor [OF \<open>0 < step\<close>, of x] div_mult_mod_eq [of x step] by linarith
  then show ?thesis using False by (simp add: round_up_def)
qed (auto simp: round_up_def)

lemma round_up_bounds: "0 < step \<Longrightarrow> x \<le> round_up x step \<and> round_up x step < x + step"
proof (cases "x mod step = 0")
  case False
  assume "0 < step"
  then have "x mod step < step" by simp
  with False have "x \<le> x + (step - x mod step)" "x + (step - x mod step) < x + step" by linarith+
  then show ?thesis using False by (simp only: round_up_def if_False)
qed (simp add: round_up_def)

lemma round_up_least:
  assumes "0 < step" "step dvd m" "x \<le> m"
  shows "round_up x step \<le> m"
proof (rule ccontr)
  assume "\<not> ?thesis"
  then have "0 < round_up x step - m" "round_up x step - m < step"
    using round_up_bounds [OF assms(1), of x] assms(3) by linarith+
  moreover have "step dvd round_up x step - m" using round_up_dvd [OF assms(1)] assms(2) by (rule dvd_diff_nat)
  ultimately show False using nat_dvd_not_less by blast
qed

theorem Align_spec:
  assumes step: "0 < unat AlignStep"
  shows "Align dbg x AlignStep = (if dbg \<and> 2 ^ 32 \<le> round_up (unat x) (unat AlignStep) then None
    else Some (of_nat (round_up (unat x) (unat AlignStep))))"
proof (cases "AlignStep \<le> 1")
  case True
  then have "AlignStep = 1" using step by (simp add: word_le_nat_alt word_unat_eq_iff)
  then show ?thesis using size_t_bound [of x] by (simp add: Align_def round_up_def)
next
  case False
  let ?x = "unat x" let ?s = "unat AlignStep" let ?k = "round_up ?x ?s"
  let ?r = "if x mod AlignStep \<noteq> 0 then x + (AlignStep - x mod AlignStep) else x"
  have m: "unat (x mod AlignStep) = ?x mod ?s" by (simp add: unat_mod)
  then have z: "x mod AlignStep = 0 \<longleftrightarrow> ?x mod ?s = 0" by (simp add: unat_eq_0 [symmetric])
  have le: "x mod AlignStep \<le> AlignStep" using step by (simp add: word_le_nat_alt m less_imp_le)
  have r: "?r = of_nat ?k" using le by (auto simp: round_up_def z of_nat_diff m [symmetric] word_le_nat_alt)
  have b: "?x < 2 ^ 32" "?s < 2 ^ 32" using size_t_bound [of x] size_t_bound [of AlignStep] by simp_all
  have k: "?x \<le> ?k" "?k < ?x + ?s" using round_up_bounds [OF step] by auto
  have u: "unat (of_nat ?k :: size_t) = (if ?k < 2 ^ 32 then ?k else ?k - 2 ^ 32)"
    using k b by (auto simp: unat_of_nat take_bit_eq_mod le_mod_geq)
  have "x \<le> of_nat ?k \<longleftrightarrow> ?k < 2 ^ 32" using k b by (auto simp: word_le_nat_alt u)
  moreover have "of_nat ?k - x < AlignStep"
  proof -
    have "of_nat ?k - x = of_nat (?k - ?x)" using k by (simp add: of_nat_diff)
    moreover have "?k - ?x < ?s" "?k - ?x < 2 ^ 32" using k b by linarith+
    ultimately show ?thesis by (simp only: word_less_nat_alt unat_of_nat_size_t)
  qed
  ultimately show ?thesis using False step r by (simp add: Align_def Let_def word_less_nat_alt ASSERT_def)
qed

lemma IsAligned_spec:
  assumes step: "0 < unat AlignStep"
  shows "IsAligned dbg x AlignStep =
    (if dbg \<and> 2 ^ 32 \<le> round_up (unat x) (unat AlignStep) then None else Some (unat AlignStep dvd unat x))"
proof (cases "AlignStep \<le> 1")
  case True
  then have "AlignStep = 1" using step by (simp add: word_le_nat_alt word_unat_eq_iff)
  then show ?thesis using size_t_bound [of x] by (simp add: IsAligned_def round_up_def)
next
  case False
  let ?k = "round_up (unat x) (unat AlignStep)"
  have z: "x mod AlignStep = 0 \<longleftrightarrow> unat AlignStep dvd unat x"
    by (simp add: unat_eq_0 [symmetric] unat_mod dvd_eq_mod_eq_0)
  have "?k = unat x \<longleftrightarrow> unat AlignStep dvd unat x"
    using mod_less_divisor [OF step, of "unat x"] by (auto simp: round_up_def dvd_eq_mod_eq_0)
  then have "?k < 2 ^ 32 \<Longrightarrow> (x = of_nat ?k \<longleftrightarrow> unat AlignStep dvd unat x)"
    by (auto simp: word_unat_eq_iff unat_of_nat take_bit_nat_eq_self)
  then show ?thesis using False step
    by (auto simp: IsAligned_def Align_spec [OF step] z word_less_nat_alt Let_def)
qed

subsection \<open>One area\<close>

text \<open>What \<open>CheckInvariant\<close> checks, as a statement about numbers.\<close>

definition area_ok :: "size_t \<Rightarrow> TAreaHeader \<Rightarrow> bool" where
  "area_ok page a \<longleftrightarrow> ah_begin a \<noteq> 0 \<and> ah_begin a \<le> ah_end a \<and> 0 < unat (ah_Aligment a) \<and> 0 < unat page \<and>
     unat (ah_Aligment a) dvd unat (ah_begin a) \<and> unat page dvd unat (ah_end a)"

lemma round_up_aligned: "d dvd unat (x :: size_t) \<Longrightarrow> round_up (unat x) d < 2 ^ 32"
  using size_t_bound [of x] by (simp add: round_up_def dvd_eq_mod_eq_0)

lemma CheckInvariant_iff:
  assumes "0 < unat (ah_Aligment a)" "0 < unat page"
  shows "CheckInvariant True page a = Some () \<longleftrightarrow> area_ok page a"
  using assms round_up_aligned [of "unat (ah_Aligment a)" "ah_begin a"] round_up_aligned [of "unat page" "ah_end a"]
  by (auto simp: CheckInvariant_def area_ok_def IsAligned_spec ASSERT_def split: if_splits)

lemma CheckInvariant_ok: "area_ok page a \<Longrightarrow> CheckInvariant dbg page a = Some ()"
  using CheckInvariant_iff [of a page] by (cases dbg) (auto simp: area_ok_def CheckInvariant_def)

theorem allocateWithoutExtend_spec:
  assumes ok: "area_ok page a" and free: "unat Size \<le> unat (ah_end a) - unat (ah_begin a)"
  shows "allocateWithoutExtend dbg page a Size = Some (a\<lparr>ah_begin := ah_begin a + Size\<rparr>, ah_begin a)"
    "unat (ah_begin a + Size) = unat (ah_begin a) + unat Size"
    "area_ok page (a\<lparr>ah_begin := ah_begin a + Size\<rparr>) \<longleftrightarrow> unat (ah_Aligment a) dvd unat Size"
proof -
  have le: "unat (ah_begin a) \<le> unat (ah_end a)" using ok by (simp add: area_ok_def word_le_nat_alt)
  then have d: "unat (ah_end a - ah_begin a) = unat (ah_end a) - unat (ah_begin a)"
    by (simp add: unat_sub word_le_nat_alt)
  then show "allocateWithoutExtend dbg page a Size = Some (a\<lparr>ah_begin := ah_begin a + Size\<rparr>, ah_begin a)"
    using free CheckInvariant_ok [OF ok]
    by (simp add: allocateWithoutExtend_def FreeMemoryAtArea_def word_le_nat_alt word_less_nat_alt)
  have "unat (ah_begin a) + unat Size < 2 ^ 32" using free le size_t_bound [of "ah_end a"] by simp
  then show s: "unat (ah_begin a + Size) = unat (ah_begin a) + unat Size"
    by (simp add: unat_word_ariths)
  show "area_ok page (a\<lparr>ah_begin := ah_begin a + Size\<rparr>) \<longleftrightarrow> unat (ah_Aligment a) dvd unat Size"
    using ok free le s by (auto simp: area_ok_def word_le_nat_alt unat_eq_0 [symmetric] dvd_add_right_iff)
qed

text \<open>The extension loop can only be left after a failed reservation.\<close>

lemma extend_loop_fails:
  assumes "extend_loop reserve page s e amount = Some y"
  shows "case y of (s', e', amount', ok) \<Rightarrow> \<not> ok \<and> (\<exists>s0 e0 n. reserve s0 e0 n = (s', e', False))"
  using assms
proof (rule extend_loop.raw_induct [rotated, where P = "\<lambda>reserve page s e amount y.
    case y of (s', e', amount', ok) \<Rightarrow> \<not> ok \<and> (\<exists>s0 e0 n. reserve s0 e0 n = (s', e', False))"], goal_cases)
  case (1 f reserve page s e amount y)
  obtain s1 e1 ok where r: "reserve s e (amount * page) = (s1, e1, ok)" by (metis prod_cases3)
  show ?case
  proof (cases "ok \<or> amount \<le> 1")
    case True
    then show ?thesis using 1(1) [of reserve page s1 e1 "amount div 2" y] 1(2) r by simp
  next
    case False
    then have "y = (s1, e1, amount, False)" using 1(2) r by simp
    then show ?thesis using r False by auto
  qed
qed

lemma extend_loop_end:
  assumes "extend_loop reserve page s e amount = Some y"
  shows "(\<forall>s e n. fst (snd (reserve s e n)) = e) \<longrightarrow> fst (snd y) = e"
  using assms
proof (rule extend_loop.raw_induct [rotated, where P = "\<lambda>reserve page s e amount y.
    (\<forall>s e n. fst (snd (reserve s e n)) = e) \<longrightarrow> fst (snd y) = e"], goal_cases)
  case (1 f reserve page s e amount y)
  obtain s1 e1 ok where r: "reserve s e (amount * page) = (s1, e1, ok)" by (metis prod_cases3)
  show ?case
  proof
    assume keep: "\<forall>s e n. fst (snd (reserve s e n)) = e"
    then have e: "e1 = e" using r by (metis fst_conv snd_conv)
    show "fst (snd y) = e"
    proof (cases "ok \<or> amount \<le> 1")
      case True
      then show ?thesis using 1(1) [of reserve page s1 e1 "amount div 2" y] 1(2) r keep e by simp
    next
      case False
      then show ?thesis using 1(2) r e by auto
    qed
  qed
qed

lemma extend_loop_keeps_end:
  assumes "extend_loop reserve page s e amount = Some (s', e', rest)" "\<And>s e n. fst (snd (reserve s e n)) = e"
  shows "e' = e"
  using extend_loop_end [OF assms(1)] assms(2) by simp

lemma extend_loop_hangs:
  assumes "\<And>s e n. snd (snd (reserve s e n))"
  shows "extend_loop reserve page s e amount = None"
proof (rule ccontr)
  assume "extend_loop reserve page s e amount \<noteq> None"
  then obtain y where "extend_loop reserve page s e amount = Some y" by blast
  then obtain s0 e0 n s' e' where "reserve s0 e0 n = (s', e', False)"
    using extend_loop_fails [of reserve page s e amount y] by (auto split: prod.splits)
  then show False using assms [of s0 e0 n] by simp
qed

text \<open>Hence an area is never extended: the call fails, trips an assertion or does not return.\<close>

theorem tryExtendArea_never:
  assumes "tryExtendArea dbg noaccess page reserve s a calls = Some (s', a', calls', r)"
  shows "r = FAILURE_THAT_AND_FURTHER_EXTENSION" "calls' = calls"
    "a' = a\<lparr>ah_end := ah_end a', ah_maxPagesForExtend := 0\<rparr>"
    "ah_end a' = ah_end a \<or> (\<exists>s0 e0 n. reserve s0 e0 n = (s', ah_end a', False))"
    "(\<And>s e n. fst (snd (reserve s e n)) = e) \<Longrightarrow> ah_end a' = ah_end a"
  using assms
  by (auto simp: tryExtendArea_def Let_def bind_eq_Some_conv dest: extend_loop_fails extend_loop_keeps_end split: if_splits)

theorem allocateOrNULL_enough:
  assumes ok: "area_ok page a" and pos: "0 < unat Size" and free: "unat Size \<le> unat (ah_end a) - unat (ah_begin a)"
  shows "allocateOrNULLWithCantContinueExtendThisArea dbg noaccess page reserve s a calls Size =
    Some (s, a\<lparr>ah_begin := ah_begin a + Size\<rparr>, calls, ah_begin a)"
proof -
  have "ah_begin a \<le> ah_end a" using ok by (simp add: area_ok_def)
  then have "\<not> ah_end a - ah_begin a < Size" using free by (simp add: word_less_nat_alt unat_sub)
  moreover have "0 < Size" using pos by (simp add: word_less_nat_alt)
  ultimately show ?thesis using CheckInvariant_ok [OF ok, of dbg]
    by (simp add: allocateOrNULLWithCantContinueExtendThisArea_def allocate_extending.simps FreeMemoryAtArea_def
      allocateWithoutExtend_spec(1) [OF ok free])
qed

theorem allocateOrNULL_short:
  assumes ok: "area_ok page a" and free: "unat (ah_end a) - unat (ah_begin a) < unat Size"
    and run: "allocateOrNULLWithCantContinueExtendThisArea dbg noaccess page reserve s a calls Size =
      Some (s', a', calls', p)"
  shows "p = 0" "calls' = calls" "a' = a\<lparr>ah_end := ah_end a', ah_maxPagesForExtend := 0\<rparr>"
    "ah_end a' = ah_end a \<or> (\<exists>s0 e0 n. reserve s0 e0 n = (s', ah_end a', False))"
    "(\<And>s e n. fst (snd (reserve s e n)) = e) \<Longrightarrow> ah_end a' = ah_end a"
proof -
  have "ah_begin a \<le> ah_end a" using ok by (simp add: area_ok_def)
  then have short: "ah_end a - ah_begin a < Size" using free by (simp add: word_less_nat_alt unat_sub)
  have "allocate_extending dbg noaccess page reserve s a calls Size = Some (s', a', calls', p)"
    using run by (auto simp: allocateOrNULLWithCantContinueExtendThisArea_def bind_eq_Some_conv)
  then obtain s1 a1 calls1 r where t: "tryExtendArea dbg noaccess page reserve s a calls = Some (s1, a1, calls1, r)"
    and e: "(if r = FAILURE_THAT_AND_FURTHER_EXTENSION then Some (s1, a1, calls1, 0)
      else allocate_extending dbg noaccess page reserve s1 a1 calls1 Size) = Some (s', a', calls', p)"
    using short CheckInvariant_ok [OF ok, of dbg]
    by (subst (asm) allocate_extending.simps) (auto simp: FreeMemoryAtArea_def bind_eq_Some_conv)
  note n = tryExtendArea_never [OF t]
  have "a1 = a'" "s1 = s'" "p = 0" "calls1 = calls'" using e n(1) by simp_all
  with n show "p = 0" "calls' = calls" "a' = a\<lparr>ah_end := ah_end a', ah_maxPagesForExtend := 0\<rparr>"
    "ah_end a' = ah_end a \<or> (\<exists>s0 e0 n. reserve s0 e0 n = (s', ah_end a', False))"
    "(\<And>s e n. fst (snd (reserve s e n)) = e) \<Longrightarrow> ah_end a' = ah_end a" by simp_all
qed

text \<open>When every reservation succeeds the call does not come back (and with assertions it stops at once).\<close>

lemma allocateOrNULL_hangs:
  assumes ok: "area_ok page a" and free: "unat (ah_end a) - unat (ah_begin a) < unat Size"
    and more: "ah_maxPagesForExtend a \<noteq> 0" and reserve: "\<And>s e n. snd (snd (reserve s e n))"
  shows "allocateOrNULLWithCantContinueExtendThisArea dbg noaccess page reserve s a calls Size = None"
proof -
  have "ah_begin a \<le> ah_end a" using ok by (simp add: area_ok_def)
  then have short: "ah_end a - ah_begin a < Size" using free by (simp add: word_less_nat_alt unat_sub)
  have t: "tryExtendArea dbg noaccess page reserve s a calls = None"
    using more extend_loop_hangs [OF reserve] by (cases dbg) (simp_all add: tryExtendArea_def ASSERT_def Let_def CheckInvariant_def)
  then have "allocate_extending dbg noaccess page reserve s a calls Size = None"
    using short CheckInvariant_ok [OF ok, of dbg]
    by (subst allocate_extending.simps) (simp add: FreeMemoryAtArea_def)
  then show ?thesis using CheckInvariant_ok [OF ok, of dbg]
    by (simp add: allocateOrNULLWithCantContinueExtendThisArea_def ASSERT_def)
qed

lemma forEach_stops_early: "snd (functor s x) = CONTINUE_ENUMERATION \<Longrightarrow>
    forEach functor s (x # xs) = Some (fst (functor s x))"
  by (cases "functor s x") simp

lemma forEach_runs_off: "xs \<noteq> [] \<Longrightarrow> (\<And>s x. snd (functor s x) = STOP_ENUMERATION) \<Longrightarrow> forEach functor s xs = None"
proof (induction xs arbitrary: s)
  case (Cons x xs)
  show ?case using Cons.IH [of "fst (functor s x)"] Cons.prems(2) [of s x] Cons.prems(2)
    by (cases "functor s x") auto
qed simp

lemma observe_area_once: "fa_cantReUseOldObject f \<Longrightarrow> observe_area True free f area = None"
  by (simp add: observe_area_def)

end
