(* ===== verification/Limited_Scheduler.thy ===== *)
theory Limited_Scheduler
  imports Cpp_Prelude
begin

section \<open>Tx/PplxSchedulers: LimitedScheduler\<close>

text \<open>
  A thread pool with two levels of tasks: a task of level 0 may schedule tasks of level 1, and no
  deeper. Every thread runs through program points; one step takes one thread from a point
  to the next and does what the code does in between, so that all interleavings of clients, workers
  and \<open>close\<close> are histories of steps. Clients are inside \<open>schedule\<close> or \<open>close\<close> (\<open>caller_pc\<close>); workers run
  the loop of \<open>makeThread\<close> (\<open>worker_pc\<close>), and a worker that executes a task may be inside \<open>schedule\<close>
  as well. The concurrent containers of the platform are lists and maps with atomic operations, as
  documented; \<open>unsafe_size\<close>, which they do not promise to be exact while other threads work, is taken as the exact length at
  one moment. The predicate of a wait and going to sleep are two steps, since the notifications are sent
  without holding the mutex of the condition variable. A thread that cannot be started leaves the scheduler as it was
  (\<open>Thread_fails\<close>); running out of memory after it was started, in \<open>make_shared\<close>, would end the program and is not modelled. Tasks are opaque values \<open>'k\<close>.
\<close>

datatype ThreadState = Free | Working

datatype 'k worker_pc = WStart nat | WLoop nat | WWait nat | WBlock nat | WSleep nat | WWork nat | WPop nat
  | WRun nat 'k | WFree nat | WDone

datatype 'k caller_pc = CIdle | CPush nat 'k | CBlocked nat 'k | CAppend nat 'k | CSize nat | CTasks nat
  | CFind nat | CLock nat | CCheck nat | CMake nat | CPushThread nat nat | CNotify nat
  | CNotifyAll nat | CJoin nat | CJoinWait nat nat

record 'k LimitedScheduler =
  ls_levelThreads :: "(nat \<times> nat) list"
  ls_stateThreads :: "nat \<rightharpoonup> ThreadState"
  ls_threads :: "nat \<Rightarrow> nat list"
  ls_mtLevels :: "nat \<Rightarrow> nat option"
  ls_tasks :: "nat \<Rightarrow> 'k list"
  ls_mt :: "nat \<Rightarrow> nat option"
  ls_limits :: "nat \<Rightarrow> nat"
  ls_isCancel :: bool
  ls_isClosed :: bool
  ls_worker :: "nat \<rightharpoonup> 'k worker_pc"
  ls_call :: "nat \<Rightarrow> 'k caller_pc"

definition maxLevelCount :: nat where "maxLevelCount = 2"

definition minThreadCount :: nat where "minThreadCount = 2 * maxLevelCount"

definition maxThreadCount :: nat where "maxThreadCount = 64"

definition max_size :: nat where "max_size = 256"

text \<open>The constructor; the quotient is rounded up. Worker 0 serves level 0, worker 1 level 1.\<close>

definition threadCount :: "nat \<Rightarrow> nat" where
  "threadCount limit = (min (max minThreadCount limit) maxThreadCount + (maxLevelCount - 1)) div maxLevelCount"

definition LimitedScheduler_new :: "nat \<Rightarrow> 'k LimitedScheduler" where
  "LimitedScheduler_new limit = \<lparr>ls_levelThreads = [], ls_stateThreads = Map.empty,
     ls_threads = (\<lambda>l. if l < maxLevelCount then [l] else []), ls_mtLevels = (\<lambda>_. None), ls_tasks = (\<lambda>_. []),
     ls_mt = (\<lambda>_. None), ls_limits = (\<lambda>_. threadCount limit), ls_isCancel = False, ls_isClosed = False,
     ls_worker = (\<lambda>w. if w < maxLevelCount then Some (WStart w) else None), ls_call = (\<lambda>_. CIdle)\<rparr>"

datatype schedule_error = Is_closed | Level_too_deep nat | Is_canceled

definition schedule_level :: "'k LimitedScheduler \<Rightarrow> nat \<Rightarrow> nat" where
  "schedule_level st t = (case map_of (ls_levelThreads st) t of None \<Rightarrow> 0 | Some level \<Rightarrow> level + 1)"

definition schedule :: "'k LimitedScheduler \<Rightarrow> nat \<Rightarrow> 'k \<Rightarrow> schedule_error + 'k LimitedScheduler" where
  "schedule st t task = (
     if ls_isClosed st then Inl Is_closed
     else let level = schedule_level st t in
       if level \<ge> maxLevelCount then Inl (Level_too_deep level)
       else if ls_isCancel st \<and> level = 0 then Inl Is_canceled
       else Inr (st\<lparr>ls_call := (ls_call st)(t := CPush level task)\<rparr>))"

definition close_scheduler :: "'k LimitedScheduler \<Rightarrow> nat \<Rightarrow> 'k LimitedScheduler" where
  "close_scheduler st t = st\<lparr>ls_isCancel := True, ls_call := (ls_call st)(t := CNotifyAll 0)\<rparr>"

abbreviation goto :: "nat \<Rightarrow> 'k caller_pc \<Rightarrow> 'k LimitedScheduler \<Rightarrow> 'k LimitedScheduler" where
  "goto t pc st \<equiv> st\<lparr>ls_call := (ls_call st)(t := pc)\<rparr>"

abbreviation wgoto :: "nat \<Rightarrow> 'k worker_pc \<Rightarrow> 'k LimitedScheduler \<Rightarrow> 'k LimitedScheduler" where
  "wgoto t pc st \<equiv> st\<lparr>ls_worker := (ls_worker st)(t \<mapsto> pc)\<rparr>"

text \<open>Notifications. \<open>x\<close> is the thread the platform chooses.\<close>

definition notify_level :: "nat \<Rightarrow> nat \<Rightarrow> 'k LimitedScheduler \<Rightarrow> 'k LimitedScheduler" where
  "notify_level l x st = (if ls_worker st x = Some (WSleep l) then wgoto x (WWait l) st else st)"

definition notify_all_level :: "nat \<Rightarrow> 'k LimitedScheduler \<Rightarrow> 'k LimitedScheduler" where
  "notify_all_level l st = st\<lparr>ls_worker := (\<lambda>w. if ls_worker st w = Some (WSleep l) then Some (WWait l) else ls_worker st w)\<rparr>"

definition notify_push :: "nat \<Rightarrow> nat \<Rightarrow> 'k LimitedScheduler \<Rightarrow> 'k LimitedScheduler" where
  "notify_push l x st = (case ls_call st x of
     CBlocked l' task \<Rightarrow> if l' = l then goto x (CAppend l task) st else st | _ \<Rightarrow> st)"

text \<open>What a history records: \<open>schedule\<close> accepts a task for a level, the task enters the level's queue, worker \<open>w\<close>
  takes it, and \<open>w\<close> has executed it.\<close>

datatype 'k sched_event = Quiet | Accepted nat 'k | Pushed_task nat 'k | Popped_task nat nat 'k | Executed nat nat 'k

subsection \<open>bounded_concurrent_queue\<close>

text \<open>\<open>push\<close> waits once, without a predicate, when the queue looks full, and then pushes; \<open>try_pop\<close>
  notifies.\<close>

definition queue_wait :: "'k LimitedScheduler \<Rightarrow> nat \<Rightarrow> nat \<Rightarrow> 'k \<Rightarrow> 'k LimitedScheduler" where
  "queue_wait st t l task =
     (if length (ls_tasks st l) \<ge> max_size then goto t (CBlocked l task) st else goto t (CAppend l task) st)"

definition queue_append :: "'k LimitedScheduler \<Rightarrow> nat \<Rightarrow> 'k \<Rightarrow> 'k LimitedScheduler" where
  "queue_append st l task = st\<lparr>ls_tasks := (ls_tasks st)(l := ls_tasks st l @ [task])\<rparr>"

definition queue_try_pop :: "'k LimitedScheduler \<Rightarrow> nat \<Rightarrow> nat \<Rightarrow> ('k LimitedScheduler \<times> 'k) option" where
  "queue_try_pop st l x = (case ls_tasks st l of [] \<Rightarrow> None
     | task # rest \<Rightarrow> Some (notify_push l x (st\<lparr>ls_tasks := (ls_tasks st)(l := rest)\<rparr>), task))"

subsection \<open>schedule, addThread and close after their first step\<close>

definition find_free_thread :: "'k LimitedScheduler \<Rightarrow> nat \<Rightarrow> bool" where
  "find_free_thread st level = list_ex (\<lambda>(id, l). l = level \<and> ls_stateThreads st id = Some Free) (ls_levelThreads st)"

definition makeThread :: "'k LimitedScheduler \<Rightarrow> nat \<Rightarrow> nat \<Rightarrow> 'k LimitedScheduler" where
  "makeThread st level x = wgoto x (WStart level) st"

definition join_threads :: "'k LimitedScheduler \<Rightarrow> nat \<Rightarrow> nat \<Rightarrow> 'k LimitedScheduler" where
  "join_threads st t i = (if i \<ge> maxLevelCount then goto t CIdle (st\<lparr>ls_isClosed := True\<rparr>)
     else (case ls_threads st i of [] \<Rightarrow> goto t (CJoin (Suc i)) st
       | w # ws \<Rightarrow> goto t (CJoinWait i w) (st\<lparr>ls_threads := (ls_threads st)(i := ws)\<rparr>)))"

fun caller_step :: "'k LimitedScheduler \<Rightarrow> nat \<Rightarrow> nat \<Rightarrow> 'k caller_pc \<Rightarrow> ('k LimitedScheduler \<times> 'k sched_event) option" where
  "caller_step st t x CIdle = None"
| "caller_step st t x (CPush l task) = Some (queue_wait st t l task, Quiet)"
| "caller_step st t x (CBlocked l task) = None"
| "caller_step st t x (CAppend l task) = Some (goto t (CSize l) (queue_append st l task), Pushed_task l task)"
| "caller_step st t x (CSize l) =
     Some (goto t (if length (ls_threads st l) \<ge> ls_limits st l then CNotify l else CTasks l) st, Quiet)"
| "caller_step st t x (CTasks l) =
     Some (goto t (if length (ls_tasks st l) \<le> 1 then CNotify l else CFind l) st, Quiet)"
| "caller_step st t x (CFind l) = Some (goto t (if find_free_thread st l then CNotify l else CLock l) st, Quiet)"
| "caller_step st t x (CLock l) =
     (if ls_mt st l = None then Some (goto t (CCheck l) (st\<lparr>ls_mt := (ls_mt st)(l := Some t)\<rparr>), Quiet) else None)"
| "caller_step st t x (CCheck l) =
     Some (if length (ls_threads st l) \<ge> ls_limits st l
       then goto t (CNotify l) (st\<lparr>ls_mt := (ls_mt st)(l := None)\<rparr>) else goto t (CMake l) st, Quiet)"
| "caller_step st t x (CMake l) = Some (goto t (CPushThread l x) (makeThread st l x), Quiet)"
| "caller_step st t x (CPushThread l w) =
     Some (goto t (CNotify l) (st\<lparr>ls_threads := (ls_threads st)(l := ls_threads st l @ [w]),
       ls_mt := (ls_mt st)(l := None)\<rparr>), Quiet)"
| "caller_step st t x (CNotify l) = Some (goto t CIdle (notify_level l x st), Quiet)"
| "caller_step st t x (CNotifyAll i) =
     Some (goto t (if Suc i < maxLevelCount then CNotifyAll (Suc i) else CJoin 0) (notify_all_level i st), Quiet)"
| "caller_step st t x (CJoin i) = Some (join_threads st t i, Quiet)"
| "caller_step st t x (CJoinWait i w) =
     (if w = t \<or> ls_worker st w = Some WDone then Some (goto t (CJoin i) st, Quiet) else None)"

subsection \<open>The loop of a worker\<close>

fun worker_step :: "'k LimitedScheduler \<Rightarrow> nat \<Rightarrow> nat \<Rightarrow> 'k worker_pc \<Rightarrow> ('k LimitedScheduler \<times> 'k sched_event) option" where
  "worker_step st t x (WStart l) = Some (wgoto t (WLoop l) (st\<lparr>ls_stateThreads := (ls_stateThreads st)(t \<mapsto> Free),
     ls_levelThreads := (t, l) # ls_levelThreads st\<rparr>), Quiet)"
| "worker_step st t x (WLoop l) = Some (wgoto t (if ls_isCancel st then WDone else WWait l) st, Quiet)"
| "worker_step st t x (WWait l) = (if ls_mtLevels st l \<noteq> None then None
     else if ls_tasks st l \<noteq> [] \<or> ls_isCancel st then Some (wgoto t (WWork l) st, Quiet)
     else Some (wgoto t (WBlock l) (st\<lparr>ls_mtLevels := (ls_mtLevels st)(l := Some t)\<rparr>), Quiet))"
| "worker_step st t x (WBlock l) = Some (wgoto t (WSleep l) (st\<lparr>ls_mtLevels := (ls_mtLevels st)(l := None)\<rparr>), Quiet)"
| "worker_step st t x (WSleep l) = None"
| "worker_step st t x (WWork l) = Some (wgoto t (WPop l) (st\<lparr>ls_stateThreads := (ls_stateThreads st)(t \<mapsto> Working)\<rparr>), Quiet)"
| "worker_step st t x (WPop l) = (case queue_try_pop st l x of
     None \<Rightarrow> Some (wgoto t (WFree l) st, Quiet)
   | Some (st, task) \<Rightarrow> Some (wgoto t (WRun l task) st, Popped_task l t task))"
| "worker_step st t x (WRun l task) = Some (wgoto t (WPop l) st, Executed l t task)"
| "worker_step st t x (WFree l) = Some (wgoto t (WLoop l) (st\<lparr>ls_stateThreads := (ls_stateThreads st)(t \<mapsto> Free)\<rparr>), Quiet)"
| "worker_step st t x WDone = None"

subsection \<open>Histories\<close>

text \<open>The choice \<open>x\<close>: a notification reaches a sleeping thread when there is one; a new thread has an
  identity never used before.\<close>

definition choice_ok :: "(nat \<Rightarrow> bool) \<Rightarrow> 'k LimitedScheduler \<Rightarrow> nat \<Rightarrow> nat \<Rightarrow> bool" where
  "choice_ok client st t x \<longleftrightarrow>
     (\<forall>l. ls_call st t = CNotify l \<longrightarrow> (\<exists>w. ls_worker st w = Some (WSleep l)) \<longrightarrow> ls_worker st x = Some (WSleep l)) \<and>
     (\<forall>l. ls_call st t = CMake l \<longrightarrow> ls_worker st x = None \<and> \<not> client x) \<and>
     (\<forall>l. ls_worker st t = Some (WPop l) \<longrightarrow> (\<exists>w task. ls_call st w = CBlocked l task) \<longrightarrow>
        (\<exists>task. ls_call st x = CBlocked l task))"

fun runs_task :: "'k worker_pc option \<Rightarrow> bool" where
  "runs_task (Some (WRun l task)) = True"
| "runs_task _ = False"

inductive sched_step :: "(nat \<Rightarrow> bool) \<Rightarrow> 'k LimitedScheduler \<Rightarrow> 'k sched_event \<Rightarrow> 'k LimitedScheduler \<Rightarrow> bool"
  for client where
  Schedule: "ls_call st t = CIdle \<Longrightarrow> client t \<or> runs_task (ls_worker st t) \<Longrightarrow> schedule st t task = Inr st' \<Longrightarrow>
    sched_step client st (Accepted (schedule_level st t) task) st'"
| Close: "ls_call st t = CIdle \<Longrightarrow> client t \<Longrightarrow> sched_step client st Quiet (close_scheduler st t)"
| Caller: "choice_ok client st t x \<Longrightarrow> caller_step st t x (ls_call st t) = Some (st', e) \<Longrightarrow> sched_step client st e st'"
| Thread_fails: "ls_call st t = CMake l \<Longrightarrow>
    sched_step client st Quiet (goto t (CNotify l) (st\<lparr>ls_mt := (ls_mt st)(l := None)\<rparr>))"
| Worker: "ls_call st t = CIdle \<Longrightarrow> ls_worker st t = Some pc \<Longrightarrow> choice_ok client st t x \<Longrightarrow>
    worker_step st t x pc = Some (st', e) \<Longrightarrow> sched_step client st e st'"
| Spurious_worker: "ls_worker st t = Some (WSleep l) \<Longrightarrow> sched_step client st Quiet (wgoto t (WWait l) st)"
| Spurious_push: "ls_call st t = CBlocked l task \<Longrightarrow> sched_step client st Quiet (goto t (CAppend l task) st)"

inductive sched_run :: "(nat \<Rightarrow> bool) \<Rightarrow> nat \<Rightarrow> 'k sched_event list \<Rightarrow> 'k LimitedScheduler \<Rightarrow> bool"
  for client limit where
  Sched_start: "sched_run client limit [] (LimitedScheduler_new limit)"
| Sched_step: "sched_run client limit es st \<Longrightarrow> sched_step client st e st' \<Longrightarrow> sched_run client limit (es @ [e]) st'"

end
