(* ===== verification/Scheduler_Correct.thy ===== *)
theory Scheduler_Correct
  imports Limited_Scheduler "HOL-Library.Multiset"
begin

section \<open>The thread pool: limits, order of tasks, a lost wake-up\<close>

text \<open>Invariants of every history of \<^const>\<open>sched_step\<close>, each by rule induction, and a history in which a
  notification is lost.\<close>

lemma threadCount_bounds: "2 \<le> threadCount limit \<and> threadCount limit \<le> 32"
proof -
  define n where "n = min (max minThreadCount limit) maxThreadCount"
  have "4 \<le> n" "n \<le> 64" by (simp_all add: n_def minThreadCount_def maxThreadCount_def maxLevelCount_def)
  then have "2 \<le> (n + 1) div 2" "(n + 1) div 2 \<le> 32" by linarith+
  then show ?thesis by (simp add: threadCount_def n_def [symmetric] maxLevelCount_def)
qed

subsection \<open>The number of threads\<close>

fun holds :: "nat \<Rightarrow> 'k caller_pc \<Rightarrow> bool" where
  "holds l (CCheck l') \<longleftrightarrow> l = l'"
| "holds l (CMake l') \<longleftrightarrow> l = l'"
| "holds l (CPushThread l' w) \<longleftrightarrow> l = l'"
| "holds l _ \<longleftrightarrow> False"

fun adds :: "nat \<Rightarrow> 'k caller_pc \<Rightarrow> bool" where
  "adds l (CMake l') \<longleftrightarrow> l = l'"
| "adds l (CPushThread l' w) \<longleftrightarrow> l = l'"
| "adds l _ \<longleftrightarrow> False"

definition limit_inv :: "'k LimitedScheduler \<Rightarrow> bool" where
  "limit_inv st \<longleftrightarrow> (\<forall>l. length (ls_threads st l) \<le> ls_limits st l) \<and>
     (\<forall>t l. holds l (ls_call st t) \<longrightarrow> ls_mt st l = Some t) \<and>
     (\<forall>t l. adds l (ls_call st t) \<longrightarrow> length (ls_threads st l) < ls_limits st l)"

lemma limit_invD:
  assumes "limit_inv st"
  shows "length (ls_threads st l) \<le> ls_limits st l" "holds l (ls_call st t) \<Longrightarrow> ls_mt st l = Some t"
    "adds l (ls_call st t) \<Longrightarrow> length (ls_threads st l) < ls_limits st l"
  using assms by (simp_all add: limit_inv_def)

lemma adds_holds: "adds l pc \<Longrightarrow> holds l pc"
  by (cases pc) auto

text \<open>Most steps only move one thread to a point where it neither holds the lock nor is about to add a
  thread, and leave locks, thread lists and limits alone.\<close>

lemma limit_inv_move:
  assumes "limit_inv st" "ls_mt st' = ls_mt st" "ls_threads st' = ls_threads st" "ls_limits st' = ls_limits st"
    "\<And>u l. holds l (ls_call st' u) \<Longrightarrow> holds l (ls_call st u)"
    "\<And>u l. adds l (ls_call st' u) \<Longrightarrow> adds l (ls_call st u)"
  shows "limit_inv st'"
  unfolding limit_inv_def assms(2-4)
  using assms(5,6) limit_invD [OF assms(1)] by blast

lemma notify_push_frame [simp]:
  "ls_mt (notify_push l x st) = ls_mt st" "ls_threads (notify_push l x st) = ls_threads st"
  "ls_limits (notify_push l x st) = ls_limits st" "ls_tasks (notify_push l x st) = ls_tasks st"
  "ls_worker (notify_push l x st) = ls_worker st"
  by (simp_all add: notify_push_def split: caller_pc.splits)

lemma notify_push_holds [simp]: "holds l' (ls_call (notify_push l x st) u) = holds l' (ls_call st u)"
  "adds l' (ls_call (notify_push l x st) u) = adds l' (ls_call st u)"
  by (auto simp: notify_push_def split: caller_pc.splits)

lemma notify_level_frame [simp]:
  "ls_mt (notify_level l x st) = ls_mt st" "ls_threads (notify_level l x st) = ls_threads st"
  "ls_limits (notify_level l x st) = ls_limits st" "ls_tasks (notify_level l x st) = ls_tasks st"
  "ls_call (notify_level l x st) = ls_call st"
  by (simp_all add: notify_level_def)

lemma notify_all_level_frame [simp]:
  "ls_mt (notify_all_level l st) = ls_mt st" "ls_threads (notify_all_level l st) = ls_threads st"
  "ls_limits (notify_all_level l st) = ls_limits st" "ls_tasks (notify_all_level l st) = ls_tasks st"
  "ls_call (notify_all_level l st) = ls_call st"
  by (simp_all add: notify_all_level_def)

lemma holder_unique: "limit_inv st \<Longrightarrow> holds l (ls_call st t) \<Longrightarrow> holds l (ls_call st u) \<Longrightarrow> t = u"
  using limit_invD(2) [of st l t] limit_invD(2) [of st l u] by simp

lemma limit_inv_caller:
  assumes inv: "limit_inv st" and step: "caller_step st t x (ls_call st t) = Some (st', e)"
  shows "limit_inv st'"
proof (cases "ls_call st t")
  case (CLock l)
  have free: "\<not> holds l (ls_call st u)" for u using step CLock inv by (auto simp: limit_inv_def split: if_splits)
  show ?thesis using step CLock inv free by (auto simp: limit_inv_def split: if_splits)
next
  case (CCheck l)
  then show ?thesis using step inv holder_unique [OF inv, of l t]
    by (auto simp: limit_inv_def dest: adds_holds split: if_splits)
next
  case (CPushThread l w)
  have "\<not> adds l (ls_call st u)" if "u \<noteq> t" for u
    using holder_unique [OF inv, of l t u] that CPushThread adds_holds by fastforce
  moreover have "length (ls_threads st l) < ls_limits st l" using limit_invD(3) [OF inv, of l t] CPushThread by simp
  ultimately show ?thesis using step inv CPushThread holder_unique [OF inv, of l t]
    by (auto simp: limit_inv_def split: if_splits)
next
  case (CMake l)
  then show ?thesis using step
    by (auto simp: makeThread_def intro!: limit_inv_move [OF inv] split: if_splits)
next
  case (CJoin i)
  show ?thesis
  proof (cases "i < maxLevelCount \<and> ls_threads st i \<noteq> []")
    case True
    then obtain w ws where ws: "ls_threads st i = w # ws" by (cases "ls_threads st i") auto
    have "length ws < ls_limits st i" using inv ws by (auto simp: limit_inv_def dest: spec [of _ i])
    then show ?thesis using step CJoin inv True ws by (auto simp: limit_inv_def join_threads_def split: if_splits)
  next
    case False
    then show ?thesis using step CJoin inv
      by (auto simp: join_threads_def split: if_splits list.splits intro: limit_inv_move [OF inv])
  qed
qed (use step inv in \<open>auto simp: queue_wait_def queue_append_def intro!: limit_inv_move [OF inv] split: if_splits\<close>)

lemma limit_inv_worker:
  assumes inv: "limit_inv st" and step: "worker_step st t x pc = Some (st', e)"
  shows "limit_inv st'"
  using step by (cases pc) (auto simp: queue_try_pop_def intro!: limit_inv_move [OF inv] split: if_splits list.splits)

lemma sched_step_limit:
  assumes "sched_step client st e st'" "limit_inv st"
  shows "limit_inv st'"
  using assms
proof cases
  case (Schedule t task)
  then show ?thesis using assms(2)
    by (auto simp: schedule_def Let_def intro!: limit_inv_move [OF assms(2)] split: if_splits)
next
  case (Thread_fails t l)
  then show ?thesis using assms(2) holder_unique [OF assms(2), of l t]
    by (auto simp: limit_inv_def dest: adds_holds split: if_splits)
next
  case Caller
  then show ?thesis using assms(2) limit_inv_caller by blast
next
  case Worker
  then show ?thesis using assms(2) limit_inv_worker by blast
qed (use assms(2) in \<open>auto simp: close_scheduler_def split: if_splits intro!: limit_inv_move [OF assms(2)]\<close>)

lemma sched_step_limits_fixed: "sched_step client st e st' \<Longrightarrow> ls_limits st' = ls_limits st"
proof (induction rule: sched_step.induct)
  case (Caller st t x st' e)
  then show ?case by (cases "ls_call st t")
    (auto simp: queue_wait_def queue_append_def makeThread_def join_threads_def split: if_splits list.splits)
next
  case (Worker st t pc x st' e)
  then show ?case by (cases pc) (auto simp: queue_try_pop_def split: if_splits list.splits)
qed (auto simp: schedule_def close_scheduler_def Let_def split: if_splits)

theorem sched_run_limit:
  assumes "sched_run client limit es st"
  shows "limit_inv st \<and> ls_limits st = (\<lambda>_. threadCount limit)"
  using assms
proof (induction rule: sched_run.induct)
  case Sched_start
  then show ?case using threadCount_bounds [of limit]
    by (auto simp: LimitedScheduler_new_def limit_inv_def maxLevelCount_def)
next
  case (Sched_step es st e st')
  then show ?case using sched_step_limit sched_step_limits_fixed by metis
qed

subsection \<open>Threads that have not ended\<close>

fun worker_level :: "'k worker_pc \<Rightarrow> nat option" where
  "worker_level (WStart l) = Some l"
| "worker_level (WLoop l) = Some l"
| "worker_level (WWait l) = Some l"
| "worker_level (WBlock l) = Some l"
| "worker_level (WSleep l) = Some l"
| "worker_level (WWork l) = Some l"
| "worker_level (WPop l) = Some l"
| "worker_level (WRun l task) = Some l"
| "worker_level (WFree l) = Some l"
| "worker_level WDone = None"

definition live_workers :: "'k LimitedScheduler \<Rightarrow> nat \<Rightarrow> nat set" where
  "live_workers st l = {w. Option.bind (ls_worker st w) worker_level = Some l}"

fun shutting :: "'k caller_pc \<Rightarrow> bool" where
  "shutting (CNotifyAll i) \<longleftrightarrow> True"
| "shutting (CJoin i) \<longleftrightarrow> True"
| "shutting (CJoinWait i w) \<longleftrightarrow> True"
| "shutting _ \<longleftrightarrow> False"

text \<open>Until \<open>close\<close> is called every thread that has not ended has its handle in the list of its level or in the hands of the call
  that just made it.\<close>

definition live_inv :: "'k LimitedScheduler \<Rightarrow> bool" where
  "live_inv st \<longleftrightarrow> (\<not> ls_isCancel st \<longrightarrow>
     (\<forall>l. \<forall>w\<in>live_workers st l. w \<in> set (ls_threads st l) \<or> (\<exists>t. ls_call st t = CPushThread l w)) \<and>
     (\<forall>t. \<not> shutting (ls_call st t)))"

lemma live_inv_move:
  assumes "live_inv st" "ls_isCancel st' = ls_isCancel st" "ls_threads st' = ls_threads st"
    "\<And>w l. Option.bind (ls_worker st' w) worker_level = Some l \<Longrightarrow> Option.bind (ls_worker st w) worker_level = Some l"
    "\<And>t l w. ls_call st t = CPushThread l w \<Longrightarrow> ls_call st' t = CPushThread l w"
    "\<And>t. shutting (ls_call st' t) \<Longrightarrow> shutting (ls_call st t)"
  shows "live_inv st'"
proof -
  have "w \<in> set (ls_threads st' l) \<or> (\<exists>t. ls_call st' t = CPushThread l w)"
    if "\<not> ls_isCancel st'" "w \<in> live_workers st' l" for l w
  proof -
    have "w \<in> live_workers st l" "\<not> ls_isCancel st" using that assms(2) assms(4) [of w l] by (simp_all add: live_workers_def)
    then have "w \<in> set (ls_threads st l) \<or> (\<exists>t. ls_call st t = CPushThread l w)"
      using assms(1) by (simp add: live_inv_def)
    with assms(3) assms(5) [of _ l w] show ?thesis by auto
  qed
  moreover have "\<not> shutting (ls_call st' t)" if "\<not> ls_isCancel st'" for t
    using assms(1,2) assms(6) [of t] that by (auto simp: live_inv_def)
  ultimately show ?thesis unfolding live_inv_def by blast
qed

lemma notify_frame_live [simp]:
  "ls_isCancel (notify_push l x st) = ls_isCancel st" "ls_isCancel (notify_level l x st) = ls_isCancel st"
  "ls_isCancel (notify_all_level l st) = ls_isCancel st"
  "ls_call (notify_push l x st) u = CPushThread l' w \<longleftrightarrow> ls_call st u = CPushThread l' w"
  "shutting (ls_call (notify_push l x st) u) \<longleftrightarrow> shutting (ls_call st u)"
  "Option.bind (ls_worker (notify_level l x st) w) worker_level = Option.bind (ls_worker st w) worker_level"
  by (auto simp: notify_push_def notify_level_def notify_all_level_def split: caller_pc.splits)

lemma live_inv_caller:
  assumes inv: "live_inv st" and ok: "choice_ok client st t x" and step: "caller_step st t x (ls_call st t) = Some (st', e)"
  shows "live_inv st'"
proof (cases "ls_isCancel st \<or> shutting (ls_call st t)")
  case True
  then have "ls_isCancel st" using inv by (auto simp: live_inv_def)
  then have "ls_isCancel st'"
    using step by (cases "ls_call st t") (auto simp: queue_wait_def queue_append_def makeThread_def
        join_threads_def split: if_splits list.splits)
  then show ?thesis by (simp add: live_inv_def)
next
  case False
  show ?thesis
  proof (cases "ls_call st t")
    case (CMake l)
    then have st': "st' = goto t (CPushThread l x) (makeThread st l x)" using step by simp
    have kept: "ls_call st' u = CPushThread l' w" if "ls_call st u = CPushThread l' w" for u l' w
      using that CMake st' by (auto simp: makeThread_def)
    have new: "ls_call st' t = CPushThread l x" using st' by (simp add: makeThread_def)
    have "w = x \<and> l' = l \<or> w \<in> live_workers st l'" if "w \<in> live_workers st' l'" for w l'
      using that st' by (auto simp: live_workers_def makeThread_def split: if_splits)
    moreover have "ls_threads st' = ls_threads st" "ls_isCancel st' = ls_isCancel st" using st' by (simp_all add: makeThread_def)
    moreover have "\<not> shutting (ls_call st' u)" if "\<not> shutting (ls_call st u)" for u
      using that st' by (simp add: makeThread_def)
    ultimately show ?thesis using inv False kept new unfolding live_inv_def by metis
  next
    case (CPushThread l w)
    then have st': "st' = goto t (CNotify l) (st\<lparr>ls_threads := (ls_threads st)(l := ls_threads st l @ [w]), ls_mt := (ls_mt st)(l := None)\<rparr>)"
      using step by simp
    have "w' \<in> set (ls_threads st' l') \<or> (\<exists>u. ls_call st' u = CPushThread l' w')" if "w' \<in> live_workers st' l'" for w' l'
    proof -
      have "w' \<in> live_workers st l'" using that st' by (simp add: live_workers_def)
      then have "w' \<in> set (ls_threads st l') \<or> (\<exists>u. ls_call st u = CPushThread l' w')" using inv False by (simp add: live_inv_def)
      moreover have "set (ls_threads st l') \<subseteq> set (ls_threads st' l')" using st' by auto
      moreover have "w' \<in> set (ls_threads st' l') \<or> ls_call st' u = CPushThread l' w'" if "ls_call st u = CPushThread l' w'" for u
        using that CPushThread st' by (cases "u = t") auto
      ultimately show ?thesis by blast
    qed
    moreover have "\<not> shutting (ls_call st' u)" for u using inv False st' by (auto simp: live_inv_def)
    ultimately show ?thesis unfolding live_inv_def by blast
  qed (use step False in \<open>auto simp: queue_wait_def queue_append_def intro!: live_inv_move [OF inv] split: if_splits\<close>)
qed

lemma live_inv_worker:
  assumes inv: "live_inv st" and pc: "ls_worker st t = Some pc" and step: "worker_step st t x pc = Some (st', e)"
  shows "live_inv st'"
  using step pc by (cases pc) (auto simp: queue_try_pop_def intro!: live_inv_move [OF inv] split: if_splits list.splits)

lemma sched_step_live:
  assumes "sched_step client st e st'" "live_inv st"
  shows "live_inv st'"
  using assms
proof cases
  case (Schedule t task)
  then show ?thesis
    by (auto simp: schedule_def Let_def intro!: live_inv_move [OF assms(2)] split: if_splits)
next
  case (Close t)
  then show ?thesis by (simp add: live_inv_def close_scheduler_def)
next
  case Caller
  then show ?thesis using assms(2) live_inv_caller by blast
next
  case Worker
  then show ?thesis using assms(2) live_inv_worker by blast
qed (auto intro!: live_inv_move [OF assms(2)] split: if_splits)

lemma sched_run_live: "sched_run client limit es st \<Longrightarrow> live_inv st"
proof (induction rule: sched_run.induct)
  case Sched_start
  then show ?case by (auto simp: LimitedScheduler_new_def live_inv_def live_workers_def split: if_splits)
qed (rule sched_step_live)

theorem live_workers_bound:
  assumes run: "sched_run client limit es st" and go: "\<not> ls_isCancel st"
  shows "finite (live_workers st l)" "card (live_workers st l) \<le> threadCount limit"
proof -
  have inv: "limit_inv st" "ls_limits st l = threadCount limit" using sched_run_limit [OF run] by simp_all
  have live: "w \<in> set (ls_threads st l) \<or> (\<exists>t. ls_call st t = CPushThread l w)" if "w \<in> live_workers st l" for w
    using sched_run_live [OF run] go that by (auto simp: live_inv_def)
  have len: "card (set (ls_threads st l)) \<le> length (ls_threads st l)" by (rule card_length)
  have "\<exists>A. finite A \<and> live_workers st l \<subseteq> A \<and> card A \<le> threadCount limit"
  proof (cases "\<exists>t w. ls_call st t = CPushThread l w")
    case True
    then obtain t w where t: "ls_call st t = CPushThread l w" by blast
    have "w' = w" if "ls_call st u = CPushThread l w'" for u w'
      using holder_unique [OF inv(1), of l t u] t that by simp
    then have "live_workers st l \<subseteq> insert w (set (ls_threads st l))" using live by blast
    moreover have "length (ls_threads st l) < threadCount limit" using limit_invD(3) [OF inv(1), of l t] t inv(2) by simp
    then have "card (insert w (set (ls_threads st l))) \<le> threadCount limit" using len by (simp add: card_insert_if)
    ultimately show ?thesis by (intro exI conjI) auto
  next
    case False
    then have "live_workers st l \<subseteq> set (ls_threads st l)" using live by blast
    moreover have "card (set (ls_threads st l)) \<le> threadCount limit" using len limit_invD(1) [OF inv(1), of l] inv(2) by simp
    ultimately show ?thesis by (intro exI conjI) auto
  qed
  then show "finite (live_workers st l)" "card (live_workers st l) \<le> threadCount limit"
    by (auto dest: finite_subset card_mono)
qed

subsection \<open>Tasks are neither lost nor overtaken\<close>

fun accepted_at :: "nat \<Rightarrow> 'k sched_event list \<Rightarrow> 'k list" where
  "accepted_at l [] = []"
| "accepted_at l (Accepted l' task # es) = (if l' = l then task # accepted_at l es else accepted_at l es)"
| "accepted_at l (_ # es) = accepted_at l es"

fun pushed_at :: "nat \<Rightarrow> 'k sched_event list \<Rightarrow> 'k list" where
  "pushed_at l [] = []"
| "pushed_at l (Pushed_task l' task # es) = (if l' = l then task # pushed_at l es else pushed_at l es)"
| "pushed_at l (_ # es) = pushed_at l es"

fun popped_at :: "nat \<Rightarrow> 'k sched_event list \<Rightarrow> 'k list" where
  "popped_at l [] = []"
| "popped_at l (Popped_task l' w task # es) = (if l' = l then task # popped_at l es else popped_at l es)"
| "popped_at l (_ # es) = popped_at l es"

fun executed_at :: "nat \<Rightarrow> 'k sched_event list \<Rightarrow> 'k list" where
  "executed_at l [] = []"
| "executed_at l (Executed l' w task # es) = (if l' = l then task # executed_at l es else executed_at l es)"
| "executed_at l (_ # es) = executed_at l es"

lemma at_append: "accepted_at l (es @ fs) = accepted_at l es @ accepted_at l fs"
  "pushed_at l (es @ fs) = pushed_at l es @ pushed_at l fs"
  "popped_at l (es @ fs) = popped_at l es @ popped_at l fs"
  "executed_at l (es @ fs) = executed_at l es @ executed_at l fs"
  by (induction l es rule: pushed_at.induct) auto

lemma sched_step_tasks:
  "sched_step client st e st' \<Longrightarrow> ls_tasks st l @ pushed_at l [e] = popped_at l [e] @ ls_tasks st' l"
proof (induction rule: sched_step.induct)
  case (Caller st t x st' e)
  then show ?case by (cases "ls_call st t")
    (auto simp: queue_wait_def queue_append_def makeThread_def join_threads_def split: if_splits list.splits)
next
  case (Worker st t pc x st' e)
  then show ?case by (cases pc) (auto simp: queue_try_pop_def split: if_splits list.splits)
qed (auto simp: schedule_def close_scheduler_def Let_def split: if_splits)

theorem sched_run_fifo:
  assumes "sched_run client limit es st"
  shows "pushed_at l es = popped_at l es @ ls_tasks st l"
  using assms
proof (induction rule: sched_run.induct)
  case (Sched_step es st e st')
  then show ?case using sched_step_tasks [OF Sched_step(2), of l] by (simp add: at_append)
qed (simp add: LimitedScheduler_new_def)

text \<open>What all threads together hold, when only finitely many hold anything.\<close>

definition total :: "(nat \<Rightarrow> 'k multiset) \<Rightarrow> 'k multiset" where
  "total F = (\<Sum>t | F t \<noteq> {#}. F t)"

lemma total_update:
  assumes "finite {t. F t \<noteq> {#}}"
  shows "finite {u. (F(t := m)) u \<noteq> {#}}" "total (F(t := m)) + F t = total F + m"
proof -
  let ?A = "insert t {t. F t \<noteq> {#}}"
  have A: "finite ?A" using assms by simp
  have sub: "total G = sum G ?A" if "{u. G u \<noteq> {#}} \<subseteq> ?A" for G
    unfolding total_def by (rule sum.mono_neutral_left [OF A that]) auto
  have "{u. (F(t := m)) u \<noteq> {#}} \<subseteq> ?A" by auto
  then show "finite {u. (F(t := m)) u \<noteq> {#}}" using A finite_subset by blast
  have "total (F(t := m)) = sum (F(t := m)) ?A" by (rule sub) auto
  also have "\<dots> = m + sum F (?A - {t})" using A by (subst sum.remove [of _ t]) (auto intro!: sum.cong)
  finally have "total (F(t := m)) + F t = m + (F t + sum F (?A - {t}))" by (simp add: ac_simps)
  also have "F t + sum F (?A - {t}) = sum F ?A" using A by (subst (2) sum.remove [of _ t]) auto
  also have "\<dots> = total F" by (rule sub [symmetric]) auto
  finally show "total (F(t := m)) + F t = total F + m" by (simp only: ac_simps)
qed

fun carries :: "nat \<Rightarrow> 'k caller_pc \<Rightarrow> 'k multiset" where
  "carries l (CPush l' task) = (if l' = l then {#task#} else {#})"
| "carries l (CBlocked l' task) = (if l' = l then {#task#} else {#})"
| "carries l (CAppend l' task) = (if l' = l then {#task#} else {#})"
| "carries l _ = {#}"

fun runs :: "nat \<Rightarrow> 'k worker_pc option \<Rightarrow> 'k multiset" where
  "runs l (Some (WRun l' task)) = (if l' = l then {#task#} else {#})"
| "runs l _ = {#}"

abbreviation calls_of :: "nat \<Rightarrow> 'k LimitedScheduler \<Rightarrow> nat \<Rightarrow> 'k multiset" where
  "calls_of l st \<equiv> \<lambda>t. carries l (ls_call st t)"

abbreviation runs_of :: "nat \<Rightarrow> 'k LimitedScheduler \<Rightarrow> nat \<Rightarrow> 'k multiset" where
  "runs_of l st \<equiv> \<lambda>w. runs l (ls_worker st w)"

definition in_calls :: "nat \<Rightarrow> 'k LimitedScheduler \<Rightarrow> 'k multiset" where
  "in_calls l st = total (calls_of l st)"

definition in_execution :: "nat \<Rightarrow> 'k LimitedScheduler \<Rightarrow> 'k multiset" where
  "in_execution l st = total (runs_of l st)"

lemma notify_carries [simp]:
  "carries l (ls_call (notify_push l' x st) u) = carries l (ls_call st u)"
  "runs l (ls_worker (notify_level l' x st) w) = runs l (ls_worker st w)"
  "runs l (ls_worker (notify_all_level l' st) w) = runs l (ls_worker st w)"
  by (auto simp: notify_push_def notify_level_def notify_all_level_def split: caller_pc.splits)

text \<open>One step changes what at most one thread holds.\<close>

definition moves :: "(nat \<Rightarrow> 'k multiset) \<Rightarrow> (nat \<Rightarrow> 'k multiset) \<Rightarrow> 'k multiset \<Rightarrow> 'k multiset \<Rightarrow> bool" where
  "moves F F' gets gives \<longleftrightarrow> (\<exists>t m. F' = F(t := m) \<and> F t + gets = m + gives)"

lemma moves_total:
  assumes "moves F F' gets gives" "finite {t. F t \<noteq> {#}}"
  shows "finite {t. F' t \<noteq> {#}}" "total F + gets = total F' + gives"
proof -
  obtain t m where m: "F' = F(t := m)" "F t + gets = m + gives" using assms(1) by (auto simp: moves_def)
  note u = total_update [OF assms(2), of t m]
  show "finite {t. F' t \<noteq> {#}}" unfolding m(1) by (rule u(1))
  have "(total F' + gives) + F t = (total F + m) + gives" using u(2) unfolding m(1) by (simp add: ac_simps)
  also have "\<dots> = (total F + gets) + F t" using m(2) by (simp add: ac_simps)
  finally show "total F + gets = total F' + gives" by simp
qed

lemma moves_same: "(\<And>t. F' t = F t) \<Longrightarrow> moves F F' {#} {#}"
  by (auto simp: moves_def fun_eq_iff intro!: exI [of _ "0 :: nat"])

lemma moves_call:
  "(\<And>u. F' u = (if u = t then m else F u)) \<Longrightarrow> F t + gets = m + gives \<Longrightarrow> moves F F' gets gives"
  by (auto simp: moves_def fun_eq_iff)

lemma sched_step_calls:
  "sched_step client st e st' \<Longrightarrow> moves (calls_of l st) (calls_of l st') (mset (accepted_at l [e])) (mset (pushed_at l [e]))"
proof (induction rule: sched_step.induct)
  case (Schedule st t task st')
  then show ?case
    by (intro moves_call [where t = t and m = "carries l (ls_call st' t)"]) (auto simp: schedule_def Let_def split: if_splits)
next
  case (Close st t)
  then show ?case by (intro moves_call [where t = t and m = "{#}"]) (auto simp: close_scheduler_def)
next
  case (Caller st t x st' e)
  then show ?case
    by (intro moves_call [where t = t and m = "carries l (ls_call st' t)"]; cases "ls_call st t")
      (auto simp: queue_wait_def queue_append_def makeThread_def join_threads_def split: if_splits list.splits)
next
  case (Thread_fails st t l)
  then show ?case by (intro moves_call [where t = t and m = "{#}"]) auto
next
  case (Worker st t pc x st' e)
  then show ?case by (cases pc) (auto simp: queue_try_pop_def intro!: moves_same split: if_splits list.splits)
next
  case (Spurious_worker st t l)
  then show ?case by (auto intro!: moves_same)
next
  case (Spurious_push st t l' task)
  then show ?case by (auto intro!: moves_same)
qed

lemma sched_step_runs:
  assumes "sched_step client st e st'"
  shows "moves (runs_of l st) (runs_of l st') (mset (popped_at l [e])) (mset (executed_at l [e]))"
  using assms
proof (induction rule: sched_step.induct)
  case (Schedule st t task st')
  then show ?case by (auto simp: schedule_def Let_def intro!: moves_same split: if_splits)
next
  case (Caller st t x st' e)
  then show ?case
    by (cases "ls_call st t") (auto simp: queue_wait_def queue_append_def makeThread_def join_threads_def choice_ok_def
        intro!: moves_same split: if_splits list.splits)
next
  case (Worker st t pc x st' e)
  then show ?case
    by (intro moves_call [where t = t and m = "runs l (ls_worker st' t)"]; cases pc)
      (auto simp: queue_try_pop_def split: if_splits list.splits)
next
  case (Spurious_worker st t l)
  then show ?case by (auto intro!: moves_same)
qed (auto simp: close_scheduler_def intro!: moves_same)

text \<open>Every accepted task is carried by the call that brings it, queued, being executed, or executed, once each.\<close>

theorem sched_run_conserves:
  assumes "sched_run client limit es st"
  shows "finite {t. calls_of l st t \<noteq> {#}} \<and> finite {w. runs_of l st w \<noteq> {#}} \<and>
    mset (accepted_at l es) = in_calls l st + mset (pushed_at l es) \<and>
    mset (popped_at l es) = in_execution l st + mset (executed_at l es)"
  using assms
proof (induction rule: sched_run.induct)
  case Sched_start
  have "runs l (ls_worker (LimitedScheduler_new limit) w) = {#}" for w by (simp add: LimitedScheduler_new_def)
  then show ?case by (simp add: in_calls_def in_execution_def total_def) (simp add: LimitedScheduler_new_def)
next
  case (Sched_step es st e st')
  note c = moves_total [OF sched_step_calls [OF Sched_step.hyps(2), of l]]
    and r = moves_total [OF sched_step_runs [OF Sched_step.hyps(2), of l]]
  show ?case using Sched_step.IH c r
    by (simp add: in_calls_def in_execution_def at_append)
qed

subsection \<open>A lost wake-up\<close>

text \<open>Scripts of moves, to compute histories.\<close>

datatype 'k move = Client_schedules nat 'k | Client_closes nat | Caller_moves nat nat | Worker_moves nat nat

fun perform :: "(nat \<Rightarrow> bool) \<Rightarrow> 'k move \<Rightarrow> 'k LimitedScheduler \<Rightarrow> ('k LimitedScheduler \<times> 'k sched_event) option" where
  "perform client (Client_schedules t task) st = (if ls_call st t = CIdle \<and> client t
     then (case schedule st t task of Inr st' \<Rightarrow> Some (st', Accepted (schedule_level st t) task) | Inl _ \<Rightarrow> None) else None)"
| "perform client (Client_closes t) st = (if ls_call st t = CIdle \<and> client t then Some (close_scheduler st t, Quiet) else None)"
| "perform client (Caller_moves t x) st = (if choice_ok client st t x then caller_step st t x (ls_call st t) else None)"
| "perform client (Worker_moves t x) st = (case ls_worker st t of None \<Rightarrow> None
     | Some pc \<Rightarrow> if ls_call st t = CIdle \<and> choice_ok client st t x then worker_step st t x pc else None)"

fun play :: "(nat \<Rightarrow> bool) \<Rightarrow> 'k move list \<Rightarrow> 'k LimitedScheduler \<Rightarrow> ('k LimitedScheduler \<times> 'k sched_event list) option" where
  "play client [] st = Some (st, [])"
| "play client (m # ms) st = do {
     (st, e) \<leftarrow> perform client m st;
     (st, es) \<leftarrow> play client ms st;
     Some (st, e # es) }"

lemma perform_step: "perform client m st = Some (st', e) \<Longrightarrow> sched_step client st e st'"
  by (cases m) (auto split: if_splits sum.splits option.splits intro: sched_step.intros)

lemma play_run:
  "sched_run client limit es st \<Longrightarrow> play client ms st = Some (st', fs) \<Longrightarrow> sched_run client limit (es @ fs) st'"
proof (induction ms arbitrary: es st fs)
  case (Cons m ms)
  then obtain st1 e fs' where 1: "perform client m st = Some (st1, e)" "play client ms st1 = Some (st', fs')" "fs = e # fs'"
    by (auto simp: bind_eq_Some_conv)
  then show ?case using Cons.IH [OF Sched_step [OF Cons.prems(1) perform_step [OF 1(1)]] 1(2)] by simp
qed simp

text \<open>Both workers find no task; the worker of level 0 is between the evaluation of the predicate and going to
  sleep when client 2 pushes a task and notifies.\<close>

definition lost_script :: "'k \<Rightarrow> 'k move list" where
  "lost_script k = [Worker_moves 1 0, Worker_moves 1 0, Worker_moves 1 0, Worker_moves 1 0,
     Worker_moves 0 0, Worker_moves 0 0, Worker_moves 0 0,
     Client_schedules 2 k, Caller_moves 2 0, Caller_moves 2 0, Caller_moves 2 0, Caller_moves 2 0, Caller_moves 2 0,
     Worker_moves 0 0]"

definition lost_state :: "nat \<Rightarrow> 'k \<Rightarrow> 'k LimitedScheduler" where
  "lost_state limit k = \<lparr>ls_levelThreads = [(0, 0), (1, 1)], ls_stateThreads = [1 \<mapsto> Free, 0 \<mapsto> Free],
     ls_threads = (\<lambda>l. if l < 2 then [l] else []), ls_mtLevels = (\<lambda>_. None), ls_tasks = (\<lambda>_. [])(0 := [k]),
     ls_mt = (\<lambda>_. None), ls_limits = (\<lambda>_. threadCount limit), ls_isCancel = False, ls_isClosed = False,
     ls_worker = [0 \<mapsto> WSleep 0, 1 \<mapsto> WSleep 1], ls_call = (\<lambda>_. CIdle)\<rparr>"

lemma lost_play: "\<exists>es. play (\<lambda>t. t = 2) (lost_script k) (LimitedScheduler_new limit) = Some (lost_state limit k, es)"
proof -
  have "\<not> threadCount limit \<le> Suc 0" using threadCount_bounds [of limit] by simp
  then show ?thesis
    by (simp add: lost_script_def lost_state_def LimitedScheduler_new_def maxLevelCount_def choice_ok_def
      schedule_def schedule_level_def queue_wait_def queue_append_def max_size_def notify_level_def fun_eq_iff)
qed

theorem lost_wakeup_reachable: "\<exists>es. sched_run (\<lambda>t. t = 2) limit es (lost_state limit k)"
  using lost_play [of k limit] play_run [OF Sched_start] by fastforce

subsection \<open>Too many threads\<close>

text \<open>While one thread closes the scheduler and another is still inside \<open>schedule\<close>: the handle \<open>close\<close> waits for no longer counts, so
  a third thread starts on a level made for two.\<close>

definition crowded_script :: "'k \<Rightarrow> 'k move list" where
  "crowded_script k = [Client_schedules 2 k] @ replicate 5 (Caller_moves 2 0) @
     [Client_schedules 2 k] @ replicate 7 (Caller_moves 2 0) @ [Caller_moves 2 4, Caller_moves 2 0, Caller_moves 2 0] @
     [Client_schedules 3 k] @ replicate 2 (Caller_moves 3 0) @
     [Client_closes 5] @ replicate 3 (Caller_moves 5 0) @
     replicate 5 (Caller_moves 3 0) @ [Caller_moves 3 6]"

lemma threadCount_four: "threadCount 4 = 2"
  by (simp add: threadCount_def minThreadCount_def maxThreadCount_def maxLevelCount_def)

lemma crowded_play:
  "\<exists>st es. play (\<lambda>t. t = 2 \<or> t = 3 \<or> t = 5) (crowded_script k) (LimitedScheduler_new 4) = Some (st, es) \<and>
    ls_worker st = [0 \<mapsto> WStart 0, 1 \<mapsto> WStart 1, 4 \<mapsto> WStart 0, 6 \<mapsto> WStart 0] \<and> ls_tasks st 0 = [k, k, k]"
  using threadCount_four
  by (simp add: crowded_script_def LimitedScheduler_new_def maxLevelCount_def
      choice_ok_def schedule_def schedule_level_def queue_wait_def queue_append_def max_size_def notify_level_def notify_all_level_def
      close_scheduler_def find_free_thread_def makeThread_def join_threads_def numeral_eq_Suc fun_eq_iff)

theorem limit_exceeded_while_closing:
  "\<exists>es st. sched_run (\<lambda>t. t = 2 \<or> t = 3 \<or> t = 5) 4 es st \<and> threadCount 4 = 2 \<and> live_workers st 0 = {0, 4, 6} \<and>
    ls_tasks st 0 = [k, k, k]"
proof -
  obtain st es where p: "play (\<lambda>t. t = 2 \<or> t = 3 \<or> t = 5) (crowded_script k) (LimitedScheduler_new 4) = Some (st, es)"
    "ls_worker st = [0 \<mapsto> WStart 0, 1 \<mapsto> WStart 1, 4 \<mapsto> WStart 0, 6 \<mapsto> WStart 0]" "ls_tasks st 0 = [k, k, k]"
    using crowded_play [of k] by blast
  have "live_workers st 0 = {0, 4, 6}" by (auto simp: live_workers_def p(2) split: if_splits)
  with p(3) threadCount_four show ?thesis using play_run [OF Sched_start p(1)] by auto
qed

end
