(* ===== verification/Bits_Algorithms.thy ===== *)
theory Bits_Algorithms
  imports Cpp_Prelude
begin

unbundle bit_operations_syntax

section \<open>BitsAlgorithms.h and TCutUnsigned\<close>

text \<open>
  The compile-time computations on powers of two, on 32-bit words. The static checks of the
  templates are the option type: a template that does not compile for a value is \<open>None\<close>. The
  run-time versions of the same functions are declared in the header but their bodies are not
  part of the repository. \<open>TCutUnsigned\<close> of accessory.h cuts a number to a type of the given number of bits.
\<close>

definition MAX_TEMPLATE_VALUE :: size_t where
  "MAX_TEMPLATE_VALUE = 1073741824"

definition TIsPowerOfTwoIncludingZeroPower :: "size_t \<Rightarrow> bool option" where
  "TIsPowerOfTwoIncludingZeroPower Value =
     (if Value \<le> MAX_TEMPLATE_VALUE then Some (Value \<noteq> 0 \<and> (Value AND (Value - 1)) = 0) else None)"

definition TRoundUpPowerOfTwoIncludingZeroPower :: "size_t \<Rightarrow> size_t option" where
  "TRoundUpPowerOfTwoIncludingZeroPower Value = (let
     v1 = Value - 1;
     v2 = v1 OR drop_bit 1 v1;
     v4 = v2 OR drop_bit 2 v2;
     v8 = v4 OR drop_bit 4 v4;
     v16 = v8 OR drop_bit 8 v8;
     v32 = v16 OR drop_bit 16 v16;
     vr = v32 + 1
   in if Value \<le> MAX_TEMPLATE_VALUE \<and> TIsPowerOfTwoIncludingZeroPower vr = Some True then Some vr else None)"

subsection \<open>TCutUnsigned\<close>

text \<open>The type is chosen by the number of bytes; three bytes use the type of four, and one bit is \<open>bool\<close>.\<close>

definition TCutInternal :: "nat \<Rightarrow> nat option" where
  "TCutInternal BYTE_SIZE = (if BYTE_SIZE = 1 then Some 8 else if BYTE_SIZE = 2 then Some 16
     else if BYTE_SIZE = 3 \<or> BYTE_SIZE = 4 then Some 32 else None)"

definition TCutUnsigned_cast :: "nat \<Rightarrow> size_t \<Rightarrow> size_t option" where
  "TCutUnsigned_cast BIT_SIZE v = (if BIT_SIZE = 1 then Some (if v \<noteq> 0 then 1 else 0)
     else if BIT_SIZE = 0 then None
     else map_option (\<lambda>bits. take_bit bits v) (TCutInternal ((BIT_SIZE - 1) div 8 + 1)))"

subsection \<open>Smearing the highest bit\<close>

definition smeared :: "nat \<Rightarrow> size_t \<Rightarrow> size_t \<Rightarrow> bool" where
  "smeared k x y \<longleftrightarrow> (\<forall>n. bit y n \<longleftrightarrow> (\<exists>j<k. bit x (n + j)))"

lemma smeared_start: "smeared 1 x x"
  by (simp add: smeared_def)

lemma smeared_double:
  assumes "smeared k x y"
  shows "smeared (k + k) x (y OR drop_bit k y)"
  unfolding smeared_def
proof
  fix n
  have "bit (y OR drop_bit k y) n \<longleftrightarrow> (\<exists>j<k. bit x (n + j)) \<or> (\<exists>j<k. bit x (n + k + j))"
    using assms by (auto simp: smeared_def bit_simps add.commute)
  also have "\<dots> \<longleftrightarrow> (\<exists>j<k + k. bit x (n + j))"
  proof safe
    fix j assume "j < k" "bit x (n + k + j)"
    then show "\<exists>j<k + k. bit x (n + j)" by (intro exI [of _ "k + j"]) (simp add: add.assoc)
  next
    fix j assume j: "j < k + k" "bit x (n + j)" "\<not> (\<exists>j<k. bit x (n + k + j))"
    show "\<exists>j<k. bit x (n + j)"
    proof (cases "j < k")
      case False
      then have "j - k < k" "n + k + (j - k) = n + j" using j(1) by simp_all
      then show ?thesis using j by metis
    qed (use j in auto)
  qed (meson trans_less_add1)
  finally show "bit (y OR drop_bit k y) n \<longleftrightarrow> (\<exists>j<k + k. bit x (n + j))" .
qed

lemma unat_bit: "n < 32 \<Longrightarrow> bit (x :: size_t) n \<longleftrightarrow> odd (unat x div 2 ^ n)"
proof -
  have "bit (unat x) n \<longleftrightarrow> bit x n" by (simp add: bit_unsigned_iff)
  then show ?thesis by (simp add: bit_iff_odd [of "unat x"])
qed

lemma high_bit:
  assumes "2 ^ m \<le> unat (x :: size_t)" "unat x < 2 ^ Suc m"
  shows "bit x m"
proof -
  have "m < 32"
  proof (rule ccontr)
    assume "\<not> m < 32"
    then have "(2 :: nat) ^ 32 \<le> 2 ^ m" by (intro power_increasing) simp_all
    then show False using assms(1) size_t_bound [of x] by linarith
  qed
  moreover have "unat x div 2 ^ m = 1" using assms by (simp add: div_nat_eqI)
  ultimately show ?thesis by (simp add: unat_bit)
qed

lemma bit_below:
  assumes "unat (x :: size_t) < 2 ^ k" "bit x n"
  shows "n < k"
proof (rule ccontr)
  assume "\<not> n < k"
  then have "(2 :: nat) ^ k \<le> 2 ^ n" by (intro power_increasing) simp_all
  then have "unat x < 2 ^ n" using assms(1) by (rule order.strict_trans2 [rotated])
  then have "unat x div 2 ^ n = 0" by (rule div_less)
  moreover have "n < 32" using assms(2) bit_imp_le_length [of x n] by simp
  ultimately show False using assms(2) by (simp add: unat_bit)
qed

lemma smear_mask:
  assumes s: "smeared 32 x y" and x: "2 ^ m \<le> unat x" "unat x < 2 ^ Suc m"
  shows "y = mask (Suc m)"
proof (rule bit_word_eqI)
  fix n assume n: "n < LENGTH(32)"
  have "bit y n \<longleftrightarrow> n \<le> m"
  proof
    assume "bit y n"
    then obtain j where "bit x (n + j)" using s by (auto simp: smeared_def)
    then show "n \<le> m" using bit_below [OF x(2)] by fastforce
  next
    assume "n \<le> m"
    moreover have "bit x m" using high_bit x by blast
    moreover have "m < 32" using calculation(2) bit_imp_le_length [of x m] by simp
    ultimately show "bit y n" using s unfolding smeared_def by (metis le_add_diff_inverse less_imp_diff_less)
  qed
  then show "bit y n \<longleftrightarrow> bit (mask (Suc m) :: size_t) n" using n by (simp add: bit_mask_iff less_Suc_eq_le)
qed

lemma binary_range: "0 < (n :: nat) \<Longrightarrow> \<exists>m. 2 ^ m \<le> n \<and> n < 2 ^ Suc m"
  using ex_power_ivl1 [of 2 n] by simp

subsection \<open>Powers of two\<close>

lemma two_power_unat: "k < 32 \<Longrightarrow> unat ((2 :: size_t) ^ k) = 2 ^ k"
proof -
  assume "k < 32"
  then have "(2 :: nat) ^ k < 2 ^ 32" by (intro power_strict_increasing) simp_all
  then show ?thesis using unat_of_nat_size_t [of "2 ^ k"] by simp
qed

lemma power_and_pred: "k < 32 \<Longrightarrow> ((2 :: size_t) ^ k AND (2 ^ k - 1)) = 0"
  by (rule bit_word_eqI) (auto simp: mask_eq_exp_minus_1 [symmetric] bit_and_iff bit_mask_iff bit_exp_iff)

theorem TIsPowerOfTwo_iff:
  assumes "Value \<le> MAX_TEMPLATE_VALUE"
  shows "TIsPowerOfTwoIncludingZeroPower Value = Some (\<exists>k\<le>30. Value = 2 ^ k)"
proof -
  have max: "unat Value \<le> 2 ^ 30" using assms by (simp add: MAX_TEMPLATE_VALUE_def word_le_nat_alt)
  have "\<exists>k\<le>30. Value = 2 ^ k" if nz: "Value \<noteq> 0" and z: "(Value AND (Value - 1)) = 0"
  proof -
    have "0 < unat Value" using nz by (simp add: unat_gt_0)
    then obtain m where m: "2 ^ m \<le> unat Value" "unat Value < 2 ^ Suc m" using binary_range by blast
    have "(2 :: nat) ^ m \<le> 2 ^ 30" using m(1) max by (rule order.trans)
    then have m30: "m \<le> 30" by (rule power_le_imp_le_exp [rotated]) simp
    have "unat Value = 2 ^ m"
    proof (rule ccontr)
      assume "unat Value \<noteq> 2 ^ m"
      then have "2 ^ m \<le> unat (Value - 1)" "unat (Value - 1) < 2 ^ Suc m"
        using m \<open>0 < unat Value\<close> by (simp_all add: unat_minus_one [OF nz])
      then have "bit (Value AND (Value - 1)) m" using high_bit [OF m] high_bit by (simp add: bit_simps)
      then show False using z by simp
    qed
    then have "Value = 2 ^ m" using m30 by (simp add: word_unat_eq_iff two_power_unat)
    then show ?thesis using m30 by blast
  qed
  moreover have "Value \<noteq> 0 \<and> (Value AND (Value - 1)) = 0" if "k \<le> 30" "Value = 2 ^ k" for k
    using that power_and_pred [of k] two_power_unat [of k] by auto
  ultimately show ?thesis using assms by (auto simp: TIsPowerOfTwoIncludingZeroPower_def)
qed

theorem TRoundUpPowerOfTwo_spec:
  assumes "0 < Value" "Value \<le> MAX_TEMPLATE_VALUE"
  obtains k where "k \<le> 30" "TRoundUpPowerOfTwoIncludingZeroPower Value = Some (2 ^ k)"
    "unat Value \<le> 2 ^ k" "k = 0 \<or> 2 ^ (k - 1) < unat Value"
proof -
  let ?x = "Value - 1"
  have nz: "Value \<noteq> 0" using assms(1) by auto
  have pos: "0 < unat Value" using nz by (simp add: unat_gt_0)
  have ux: "unat ?x = unat Value - 1" by (rule unat_minus_one [OF nz])
  have max: "unat Value \<le> 2 ^ 30" using assms(2) by (simp add: MAX_TEMPLATE_VALUE_def word_le_nat_alt)
  define v2 where "v2 = ?x OR drop_bit 1 ?x"
  define v4 where "v4 = v2 OR drop_bit 2 v2"
  define v8 where "v8 = v4 OR drop_bit 4 v4"
  define v16 where "v16 = v8 OR drop_bit 8 v8"
  define v32 where "v32 = v16 OR drop_bit 16 v16"
  have "smeared 2 ?x v2" using smeared_double [OF smeared_start, of ?x] by (simp add: v2_def numeral_2_eq_2)
  then have "smeared 4 ?x v4" using smeared_double by (fastforce simp: v4_def)
  then have "smeared 8 ?x v8" using smeared_double by (fastforce simp: v8_def)
  then have "smeared 16 ?x v16" using smeared_double by (fastforce simp: v16_def)
  then have s: "smeared 32 ?x v32" using smeared_double by (fastforce simp: v32_def)
  obtain k where k: "k \<le> 30" "v32 + 1 = 2 ^ k" "unat Value \<le> 2 ^ k" "k = 0 \<or> 2 ^ (k - 1) < unat Value"
  proof (cases "?x = 0")
    case True
    then have "v32 = 0" by (simp add: v32_def v16_def v8_def v4_def v2_def)
    moreover have "unat Value = 1" using ux pos True by simp
    ultimately show ?thesis using that [of 0] by simp
  next
    case False
    then have "0 < unat ?x" by (simp add: unat_gt_0)
    then obtain m where m: "2 ^ m \<le> unat ?x" "unat ?x < 2 ^ Suc m" using binary_range by blast
    have v: "v32 + 1 = 2 ^ Suc m" using smear_mask [OF s m] by (simp add: mask_eq_exp_minus_1)
    have "(2 :: nat) ^ m < 2 ^ 30" using m(1) max ux pos by linarith
    then have "m < 30" by (rule power_less_imp_less_exp [rotated]) simp
    then show ?thesis using that [of "Suc m"] v m ux pos by simp
  qed
  have le: "v32 + 1 \<le> MAX_TEMPLATE_VALUE"
  proof -
    have "(2 :: nat) ^ k \<le> 2 ^ 30" using k(1) by (intro power_increasing) simp_all
    then show ?thesis using k(1) two_power_unat [of k] by (simp add: k(2) MAX_TEMPLATE_VALUE_def word_le_nat_alt)
  qed
  have "TIsPowerOfTwoIncludingZeroPower (v32 + 1) = Some True"
    using TIsPowerOfTwo_iff [OF le] k(1,2) by auto
  then have "TRoundUpPowerOfTwoIncludingZeroPower Value = Some (2 ^ k)"
    using assms(2) k(2) by (simp add: TRoundUpPowerOfTwoIncludingZeroPower_def Let_def
      v32_def v16_def v8_def v4_def v2_def)
  then show thesis using that k by blast
qed

lemma TRoundUpPowerOfTwo_zero: "TRoundUpPowerOfTwoIncludingZeroPower 0 = None"
proof -
  have "(- 1 :: size_t) OR x = - 1" for x by simp
  then show ?thesis
    by (simp add: TRoundUpPowerOfTwoIncludingZeroPower_def TIsPowerOfTwoIncludingZeroPower_def Let_def)
qed

text \<open>The cut keeps whole bytes, and one bit means "not zero".\<close>

lemma TCutUnsigned_bytes:
  "TCutUnsigned_cast 3 0xFF = Some 0xFF" "TCutUnsigned_cast 1 2 = Some 1" "TCutUnsigned_cast 20 0xFFFFFFFF = Some 0xFFFFFFFF"
  by (simp_all add: TCutUnsigned_cast_def TCutInternal_def take_bit_eq_mod)

end
