(* ===== verification/Allocators.thy ===== *)
theory Allocators
  imports Cpp_Prelude
begin

section \<open>Allocators\<close>

text \<open>
  Three small allocator headers: the debug allocator whose blocks can be write-protected
  (immutable_data_debug_allocator.h), the intrusive reference counter
  (intrusive_ptr_support_stateless_allocators.h) and the standard allocator on top of a memory pool
  (allocator_from_pool_for_node_bassed_containers.h). The operating system and the memory pool, whose
  implementation is not part of the repository, are records of functions.
\<close>

subsection \<open>ImmutableDataDebugAllocatorController\<close>

record 'os virtual_memory =
  VirtualAlloc :: "'os \<Rightarrow> nat \<Rightarrow> 'os \<times> nat"
  VirtualFree :: "'os \<Rightarrow> nat \<Rightarrow> 'os \<times> bool"
  VirtualProtect :: "'os \<Rightarrow> nat \<Rightarrow> nat \<Rightarrow> bool \<Rightarrow> 'os \<times> bool"

type_synonym block = "nat \<times> nat"

text \<open>\<open>room\<close> says whether \<open>emplace_back\<close> gets its memory.\<close>

definition controller_allocate :: "'os virtual_memory \<Rightarrow> bool \<Rightarrow> 'os \<times> block list \<Rightarrow> nat \<Rightarrow> ('os \<times> block list) \<times> nat" where
  "controller_allocate vm room st sz = (if \<not> room then (st, 0)
     else let (os, result) = VirtualAlloc vm (fst st) sz in
       if result = 0 then ((os, snd st), 0) else ((os, snd st @ [(result, sz)]), result))"

definition block_matches :: "nat \<Rightarrow> block \<Rightarrow> bool" where
  "block_matches p b \<longleftrightarrow> p \<ge> fst b \<and> p \<le> fst b + snd b"

fun erase_first :: "('a \<Rightarrow> bool) \<Rightarrow> 'a list \<Rightarrow> 'a list" where
  "erase_first P [] = []"
| "erase_first P (x # xs) = (if P x then xs else x # erase_first P xs)"

definition controller_deallocate ::
    "bool \<Rightarrow> 'os virtual_memory \<Rightarrow> 'os \<times> block list \<Rightarrow> nat \<Rightarrow> nat \<Rightarrow> ('os \<times> block list) option" where
  "controller_deallocate dbg vm st memory_ptr sz = (case find (block_matches memory_ptr) (snd st) of
     None \<Rightarrow> do { ASSERT dbg False; Some st }
   | Some b \<Rightarrow> do {
       ASSERT dbg (sz \<le> snd b);
       let (os, result) = VirtualFree vm (fst st) (fst b);
       ASSERT dbg result;
       Some (os, erase_first (block_matches memory_ptr) (snd st)) })"

fun protect_blocks :: "bool \<Rightarrow> 'os virtual_memory \<Rightarrow> bool \<Rightarrow> block list \<Rightarrow> 'os \<Rightarrow> 'os option" where
  "protect_blocks dbg vm readonly [] os = Some os"
| "protect_blocks dbg vm readonly (b # bs) os = do {
     let (os, result) = VirtualProtect vm os (fst b) (snd b) readonly;
     ASSERT dbg result;
     protect_blocks dbg vm readonly bs os }"

definition Protect :: "bool \<Rightarrow> 'os virtual_memory \<Rightarrow> 'os \<times> block list \<Rightarrow> ('os \<times> block list) option" where
  "Protect dbg vm st = map_option (\<lambda>os. (os, snd st)) (protect_blocks dbg vm True (snd st) (fst st))"

definition UnProtect :: "bool \<Rightarrow> 'os virtual_memory \<Rightarrow> 'os \<times> block list \<Rightarrow> ('os \<times> block list) option" where
  "UnProtect dbg vm st = map_option (\<lambda>os. (os, snd st)) (protect_blocks dbg vm False (snd st) (fst st))"

definition controller_destroy :: "bool \<Rightarrow> 'os \<times> block list \<Rightarrow> unit option" where
  "controller_destroy dbg st = ASSERT dbg (snd st = [])"

text \<open>The allocator class multiplies by the object size, in 32-bit arithmetic.\<close>

definition debug_allocate ::
    "bool \<Rightarrow> 'os virtual_memory \<Rightarrow> bool \<Rightarrow> nat \<Rightarrow> ('os \<times> block list) option \<Rightarrow> nat \<Rightarrow> (('os \<times> block list) \<times> nat) option" where
  "debug_allocate dbg vm room sizeofT strategy count_objects = do {
     ASSERT dbg (strategy \<noteq> None);
     st \<leftarrow> strategy;
     Some (controller_allocate vm room st (count_objects * sizeofT mod 2 ^ 32)) }"

definition debug_deallocate ::
    "bool \<Rightarrow> 'os virtual_memory \<Rightarrow> nat \<Rightarrow> ('os \<times> block list) option \<Rightarrow> nat \<Rightarrow> nat \<Rightarrow> ('os \<times> block list) option" where
  "debug_deallocate dbg vm sizeofT strategy memory_ptr count_objects = do {
     ASSERT dbg (strategy \<noteq> None);
     st \<leftarrow> strategy;
     controller_deallocate dbg vm st memory_ptr (count_objects * sizeofT mod 2 ^ 32) }"

text \<open>Blocks that do not even touch.\<close>

definition apart :: "block list \<Rightarrow> bool" where
  "apart bs \<longleftrightarrow> distinct bs \<and> (\<forall>b\<in>set bs. \<forall>c\<in>set bs. b \<noteq> c \<longrightarrow> \<not> block_matches (fst b) c)"

lemma find_unique: "b \<in> set bs \<Longrightarrow> P b \<Longrightarrow> (\<And>c. c \<in> set bs \<Longrightarrow> P c \<Longrightarrow> c = b) \<Longrightarrow>
    find P bs = Some b \<and> erase_first P bs = remove1 b bs"
proof (induction bs)
  case (Cons a bs)
  show ?case
  proof (cases "P a")
    case True
    then have "a = b" using Cons.prems(3) by simp
    then show ?thesis using Cons.prems(2) by simp
  next
    case False
    then have "a \<noteq> b" "b \<in> set bs" using Cons.prems(1,2) by auto
    then show ?thesis using Cons.IH [OF _ Cons.prems(2)] Cons.prems(3) False by simp
  qed
qed simp

theorem deallocate_exact:
  assumes "apart bs" "b \<in> set bs" "sz \<le> snd b" "VirtualFree vm os (fst b) = (os', True)"
  shows "controller_deallocate dbg vm (os, bs) (fst b) sz = Some (os', remove1 b bs)"
proof -
  have "find (block_matches (fst b)) bs = Some b \<and> erase_first (block_matches (fst b)) bs = remove1 b bs"
    using assms(1,2) by (intro find_unique) (auto simp: apart_def block_matches_def)
  then show ?thesis using assms(3,4) by (simp add: controller_deallocate_def)
qed

text \<open>The comparison includes the address one past a block: when two blocks touch, releasing the second
  releases the first.\<close>

theorem deallocate_wrong_block:
  assumes "VirtualFree vm os a = (os', True)" "sz \<le> n"
  shows "controller_deallocate dbg vm (os, (a, n) # (a + n, m) # bs) (a + n) sz = Some (os', (a + n, m) # bs)"
  using assms by (simp add: controller_deallocate_def block_matches_def)

theorem allocate_deallocate:
  assumes alloc: "VirtualAlloc vm os sz = (os1, p)" "p \<noteq> 0" and sep: "apart (bs @ [(p, sz)])"
    and free: "VirtualFree vm os1 p = (os2, True)"
  shows "controller_allocate vm True (os, bs) sz = ((os1, bs @ [(p, sz)]), p) \<and>
    controller_deallocate dbg vm (os1, bs @ [(p, sz)]) p sz = Some (os2, bs)"
proof -
  have "(p, sz) \<notin> set bs" using sep by (auto simp: apart_def)
  then show ?thesis
    using alloc deallocate_exact [OF sep, of "(p, sz)" sz vm os1 os2 dbg] free
    by (simp add: controller_allocate_def remove1_append)
qed

subsection \<open>The intrusive reference counter\<close>

text \<open>Objects by their address, with their count; a deallocated object is gone. Its destructor does not run.\<close>

type_synonym counted_heap = "nat \<rightharpoonup> size_t"

definition rc_construct :: "counted_heap \<Rightarrow> nat \<Rightarrow> counted_heap" where
  "rc_construct h p = h(p \<mapsto> 0)"

definition rc_copy_construct :: "counted_heap \<Rightarrow> nat \<Rightarrow> nat \<Rightarrow> counted_heap" where
  "rc_copy_construct h p q = h(p \<mapsto> 0)"

definition rc_assign :: "counted_heap \<Rightarrow> nat \<Rightarrow> nat \<Rightarrow> counted_heap" where
  "rc_assign h p q = h"

definition use_count :: "counted_heap \<Rightarrow> nat \<Rightarrow> size_t option" where
  "use_count h p = h p"

definition add_ref :: "counted_heap \<Rightarrow> nat \<Rightarrow> counted_heap option" where
  "add_ref h p = map_option (\<lambda>c. h(p \<mapsto> c + 1)) (h p)"

definition release :: "bool \<Rightarrow> counted_heap \<Rightarrow> nat \<Rightarrow> counted_heap option" where
  "release dbg h p = do {
     c \<leftarrow> h p;
     ASSERT dbg (0 < c);
     let c = c - 1;
     Some (if c = 0 then h(p := None) else h(p \<mapsto> c)) }"

fun run_refs :: "bool \<Rightarrow> bool list \<Rightarrow> nat \<Rightarrow> counted_heap \<Rightarrow> counted_heap option" where
  "run_refs dbg [] p h = Some h"
| "run_refs dbg (up # ops) p h = do { h \<leftarrow> (if up then add_ref h p else release dbg h p); run_refs dbg ops p h }"

text \<open>The number of owners along a sequence of copies and releases; \<open>None\<close> when it reaches zero too early.\<close>

fun owners :: "nat \<Rightarrow> bool list \<Rightarrow> nat option" where
  "owners n [] = Some n"
| "owners n (True # ops) = owners (Suc n) ops"
| "owners n (False # ops) = (if n \<le> 1 then (if n = 1 \<and> ops = [] then Some 0 else None) else owners (n - 1) ops)"

theorem run_refs_owners:
  assumes "owners n ops = Some k" "h p = Some (of_nat n)" "n + length ops < 2 ^ 32"
  shows "run_refs dbg ops p h = Some (if k = 0 \<and> ops \<noteq> [] then h(p := None) else h(p \<mapsto> of_nat k))"
  using assms
proof (induction n ops arbitrary: h rule: owners.induct)
  case (1 n)
  then show ?case by auto
next
  case (2 n ops)
  have a: "add_ref h p = Some (h(p \<mapsto> of_nat (Suc n)))" using 2(3) by (simp add: add_ref_def add.commute)
  have k: "ops = [] \<Longrightarrow> k \<noteq> 0" using 2(2) by auto
  let ?h = "h(p \<mapsto> of_nat (Suc n))"
  have "run_refs dbg ops p ?h = Some (if k = 0 \<and> ops \<noteq> [] then ?h(p := None) else ?h(p \<mapsto> of_nat k))"
    by (rule 2(1)) (use 2(2,4) in simp_all)
  then show ?case using k by (simp only: run_refs.simps if_True a bind.bind_lunit fun_upd_upd) auto
next
  case (3 n ops)
  show ?case
  proof (cases "n \<le> 1")
    case True
    then have "n = 1" "ops = []" "k = 0" using 3(2) by (auto split: if_splits)
    then show ?thesis using 3(3) by (simp add: release_def fun_upd_def)
  next
    case False
    have w: "(of_nat n :: size_t) - 1 = of_nat (n - 1)" using False by (simp add: of_nat_diff)
    have z: "(of_nat n :: size_t) \<noteq> 0" "(of_nat (n - 1) :: size_t) \<noteq> 0"
      using False 3(4) of_nat_eq_size_t [of n 0] of_nat_eq_size_t [of "n - 1" 0] by simp_all
    have r: "release dbg h p = Some (h(p \<mapsto> of_nat (n - 1)))"
    proof -
      have "0 < (of_nat n :: size_t)" using z(1) by (simp only: word_neq_0_conv)
      then show ?thesis by (simp only: release_def 3(3) bind.bind_lunit ASSERT_True Let_def w z(2) if_False)
    qed
    have k: "ops = [] \<Longrightarrow> k \<noteq> 0" using 3(2) False by auto
    let ?h = "h(p \<mapsto> of_nat (n - 1))"
    have "run_refs dbg ops p ?h = Some (if k = 0 \<and> ops \<noteq> [] then ?h(p := None) else ?h(p \<mapsto> of_nat k))"
      by (rule 3(1) [OF False]) (use 3(2,4) False in simp_all)
    then show ?thesis using k by (simp only: run_refs.simps if_False r bind.bind_lunit fun_upd_upd) auto
  qed
qed

lemma release_unowned:
  "h p = Some 0 \<Longrightarrow> release True h p = None \<and> release False h p = Some (h(p \<mapsto> - 1))"
  by (simp add: release_def)

subsection \<open>small_single_block_std_allocator\<close>

datatype pool_exception = TAllocateException | Std_exception

record 'p pool_ops =
  pool_allocate :: "'p \<Rightarrow> nat \<Rightarrow> 'p \<times> (pool_exception + nat)"
  pool_deallocate :: "'p \<Rightarrow> nat \<Rightarrow> 'p"
  pool_MaxItemSize :: "'p \<Rightarrow> nat"
  pool_AmountOfFreeItem :: "'p \<Rightarrow> nat"
  pool_checkAllFreeItems :: "'p \<Rightarrow> unit option"
  pool_tryFreeAll :: "'p \<Rightarrow> 'p \<times> bool"

definition impl_check :: "'p pool_ops \<Rightarrow> 'p \<Rightarrow> unit option" where
  "impl_check P p = pool_checkAllFreeItems P p"

definition impl_allocate :: "bool \<Rightarrow> bool \<Rightarrow> 'p pool_ops \<Rightarrow> 'p \<Rightarrow> nat \<Rightarrow> ('p \<times> (pool_exception + nat)) option" where
  "impl_allocate dbg checking P p n = do {
     ASSERT dbg (n \<le> 1);
     (if checking then impl_check P p else Some ());
     (case pool_allocate P p (pool_MaxItemSize P p) of
        (p, Inl ex) \<Rightarrow> Some (p, Inl ex)
      | (p, Inr result) \<Rightarrow> do { (if checking then impl_check P p else Some ()); Some (p, Inr result) }) }"

definition impl_deallocate :: "bool \<Rightarrow> bool \<Rightarrow> 'p pool_ops \<Rightarrow> 'p \<Rightarrow> nat \<Rightarrow> nat \<Rightarrow> 'p option" where
  "impl_deallocate dbg checking P p pointer n = do {
     ASSERT dbg (n \<le> 1);
     (if checking then impl_check P p else Some ());
     if pointer = 0 then Some p
     else do {
       let p = pool_deallocate P p pointer;
       (if checking then impl_check P p else Some ());
       Some p } }"

definition impl_max_size :: "'p pool_ops \<Rightarrow> 'p \<Rightarrow> nat" where
  "impl_max_size P p = pool_AmountOfFreeItem P p"

definition impl_destroy :: "bool \<Rightarrow> bool \<Rightarrow> bool \<Rightarrow> 'p pool_ops \<Rightarrow> 'p \<Rightarrow> 'p option" where
  "impl_destroy dbg checkingAtDestructor willFree P p = do {
     (if checkingAtDestructor then impl_check P p else Some ());
     if willFree then do {
       let (p, freed) = pool_tryFreeAll P p;
       ASSERT dbg freed;
       Some p }
     else Some p }"

text \<open>The allocator proper: \<open>None\<close> as implementation is the null pointer, before or after a failed preallocation.\<close>

definition apply_max_size :: "'p pool_ops \<Rightarrow> nat \<Rightarrow> 'p option \<Rightarrow> nat" where
  "apply_max_size P MaxItemAmount impl = (case impl of Some p \<Rightarrow> impl_max_size P p | None \<Rightarrow> MaxItemAmount)"

definition apply_allocate ::
    "bool \<Rightarrow> bool \<Rightarrow> 'p pool_ops \<Rightarrow> 'p option \<Rightarrow> nat \<Rightarrow> ('p option \<times> (cpp_exception + nat)) option" where
  "apply_allocate dbg checking P impl n = do {
     ASSERT dbg (n \<le> 1);
     (case impl of None \<Rightarrow> Some (None, Inl Bad_alloc)
      | Some p \<Rightarrow> do {
          (p, result) \<leftarrow> impl_allocate dbg checking P p n;
          (case result of
             Inl TAllocateException \<Rightarrow> Some (Some p, Inl Bad_alloc)
           | Inl Std_exception \<Rightarrow> do { ASSERT dbg False; Some (Some p, Inl Bad_alloc) }
           | Inr pointer \<Rightarrow> Some (Some p, if pointer = 0 then Inl Bad_alloc else Inr pointer)) }) }"

definition apply_deallocate :: "bool \<Rightarrow> bool \<Rightarrow> 'p pool_ops \<Rightarrow> 'p option \<Rightarrow> nat \<Rightarrow> nat \<Rightarrow> 'p option option" where
  "apply_deallocate dbg checking P impl pointer n = do {
     ASSERT dbg (n \<le> 1);
     ASSERT dbg (impl \<noteq> None);
     p \<leftarrow> impl;
     p \<leftarrow> impl_deallocate dbg checking P p pointer n;
     Some (Some p) }"

text \<open>\<open>preallocate\<close>: \<open>storage\<close> is what the memory allocator gives or throws, \<open>ctor\<close> the constructed
  implementation or its exception. The result is the implementation, the storage given back by the
  scope exit, and the exception. The scope exit asks \<open>uncaught_exception()\<close>, which is also true when the call
  itself happens while another exception is in flight (\<open>unwinding\<close>).\<close>

definition preallocate ::
    "bool \<Rightarrow> 'p option \<Rightarrow> pool_exception + nat \<Rightarrow> pool_exception + 'p \<Rightarrow> 'p option \<times> nat list \<times> pool_exception option" where
  "preallocate unwinding impl storage ctor = (if impl \<noteq> None then (impl, [], None)
     else case storage of
       Inl ex \<Rightarrow> (None, [], Some ex)
     | Inr pimpl \<Rightarrow> if pimpl = 0 then (None, [], None)
       else (case ctor of
           Inl ex \<Rightarrow> (None, [pimpl], Some ex)
         | Inr p \<Rightarrow> (Some p, if unwinding then [pimpl] else [], None)))"

definition silentPreallocate ::
    "bool \<Rightarrow> bool \<Rightarrow> 'p option \<Rightarrow> pool_exception + nat \<Rightarrow> pool_exception + 'p \<Rightarrow> ('p option \<times> nat list) option" where
  "silentPreallocate dbg unwinding impl storage ctor = (case preallocate unwinding impl storage ctor of
     (impl, freed, ex) \<Rightarrow> do { ASSERT dbg (ex \<noteq> Some Std_exception); Some (impl, freed) })"

theorem apply_allocate_outcome:
  assumes "apply_allocate dbg checking P impl n = Some (impl', r)"
  shows "(\<exists>q p p'. r = Inr q \<and> q \<noteq> 0 \<and> impl = Some p \<and> impl' = Some p' \<and>
      pool_allocate P p (pool_MaxItemSize P p) = (p', Inr q)) \<or> r = Inl Bad_alloc"
proof (cases impl)
  case None
  then show ?thesis using assms by (simp add: apply_allocate_def bind_eq_Some_conv)
next
  case (Some p)
  obtain p' q where q: "pool_allocate P p (pool_MaxItemSize P p) = (p', q)" by fastforce
  show ?thesis
  proof (cases q)
    case (Inl ex)
    then show ?thesis using assms q Some
      by (cases ex) (auto simp: apply_allocate_def impl_allocate_def bind_eq_Some_conv)
  next
    case (Inr r')
    then show ?thesis using assms q Some
      by (auto simp: apply_allocate_def impl_allocate_def bind_eq_Some_conv split: if_splits)
  qed
qed

theorem preallocate_storage:
  assumes "silentPreallocate dbg unwinding None (Inr q) ctor = Some (impl', freed)" "q \<noteq> 0"
  shows "(impl' = None \<longrightarrow> freed = [q]) \<and> (impl' \<noteq> None \<longrightarrow> (freed = [] \<longleftrightarrow> \<not> unwinding))"
  using assms by (cases ctor) (auto simp: silentPreallocate_def preallocate_def bind_eq_Some_conv)

end
