(* ===== verification/Exception_Tools.thy ===== *)
theory Exception_Tools
  imports Cpp_Prelude
begin

section \<open>Scope guards and the exception tracker\<close>

text \<open>
  SCOPE_EXIT.h with ExceptionDetector.h, and the handler of ExceptionTracker.cpp. A piece of code is
  a function from a state to the state after it and the exception it ends with, if any. The number of
  exceptions in flight, \<open>std::uncaught_exceptions()\<close>, is an argument. (The preprocessor test of
  ExceptionDetector.h misspells \<open>_MSC_VER\<close> with a Cyrillic letter, so the branch with the counter is always
  the one compiled.)
\<close>

type_synonym ('s, 'e) code = "'s \<Rightarrow> 's \<times> 'e option"

subsection \<open>ExceptionDetector\<close>

definition ExceptionDetector_new :: "nat \<Rightarrow> nat" where
  "ExceptionDetector_new uncaught = uncaught"

definition uncaught_exception_on_current_level :: "nat \<Rightarrow> nat \<Rightarrow> bool" where
  "uncaught_exception_on_current_level exceptionCount uncaught \<longleftrightarrow> exceptionCount \<noteq> uncaught"

definition uncaught_exception_on_any_level :: "nat \<Rightarrow> bool" where
  "uncaught_exception_on_any_level uncaught \<longleftrightarrow> 0 < uncaught"

subsection \<open>The destructors of the three guards\<close>

definition ScopeExit_destructor :: "nat \<Rightarrow> nat \<Rightarrow> ('s, 'e) code \<Rightarrow> ('s, 'e) code" where
  "ScopeExit_destructor exceptionCount uncaught executer s = (
     let onException = uncaught_exception_on_current_level exceptionCount uncaught in
     case executer s of
       (s, None) \<Rightarrow> (s, None)
     | (s, Some ex) \<Rightarrow> (s, if \<not> onException then Some ex else None))"

definition ScopeFailureExit_destructor :: "nat \<Rightarrow> nat \<Rightarrow> ('s, 'e) code \<Rightarrow> ('s, 'e) code" where
  "ScopeFailureExit_destructor exceptionCount uncaught executer s =
     (if uncaught_exception_on_current_level exceptionCount uncaught then (fst (executer s), None) else (s, None))"

definition ScopeSuccessExit_destructor :: "nat \<Rightarrow> nat \<Rightarrow> ('s, 'e) code \<Rightarrow> ('s, 'e) code" where
  "ScopeSuccessExit_destructor exceptionCount uncaught executer s =
     (if \<not> uncaught_exception_on_current_level exceptionCount uncaught then executer s else (s, None))"

text \<open>
  A block with a guard, as the language runs it: the guard is constructed, the body runs, the
  destructor runs with one more exception in flight when the body threw; an exception that leaves
  a destructor during unwinding ends the program (\<open>None\<close>).
\<close>

definition guarded ::
    "(nat \<Rightarrow> nat \<Rightarrow> ('s, 'e) code \<Rightarrow> ('s, 'e) code) \<Rightarrow> nat \<Rightarrow> ('s, 'e) code \<Rightarrow> ('s, 'e) code \<Rightarrow> 's \<Rightarrow> ('s \<times> 'e option) option" where
  "guarded destructor uncaught executer body s = (
     let exceptionCount = ExceptionDetector_new uncaught in
     case body s of
       (s, None) \<Rightarrow> Some (destructor exceptionCount uncaught executer s)
     | (s, Some ex) \<Rightarrow> (case destructor exceptionCount (Suc uncaught) executer s of
         (s, None) \<Rightarrow> Some (s, Some ex)
       | (s, Some _) \<Rightarrow> None))"

lemmas guard_defs = guarded_def ExceptionDetector_new_def uncaught_exception_on_current_level_def
  ScopeExit_destructor_def ScopeFailureExit_destructor_def ScopeSuccessExit_destructor_def Let_def

lemma scope_exit_runs:
  "guarded ScopeExit_destructor uncaught executer body s = Some (fst (executer (fst (body s))),
     case snd (body s) of Some ex \<Rightarrow> Some ex | None \<Rightarrow> snd (executer (fst (body s))))"
  by (auto simp: guard_defs split: prod.splits option.splits)

lemma scope_failure_runs:
  "guarded ScopeFailureExit_destructor uncaught executer body s =
     Some (if snd (body s) = None then body s else (fst (executer (fst (body s))), snd (body s)))"
  by (auto simp: guard_defs split: prod.splits option.splits)

lemma scope_success_runs:
  "guarded ScopeSuccessExit_destructor uncaught executer body s =
     Some (if snd (body s) = None then executer (fst (body s)) else body s)"
  by (auto simp: guard_defs split: prod.splits option.splits)

subsection \<open>ExceptionTracker\<close>

text \<open>
  The log is the list of strings written; the time stamp of \<open>logInfo\<close> and the text of the
  system message are parameters. While a stack trace is written further faults can happen: a fault
  carries the faults that occur during its own handling, and whether it unwinds to the \<open>catch (...)\<close> of the
  handler it interrupts instead of being absorbed by the stack walker.
\<close>

datatype fault = Fault (fault_code: "32 word") (fault_nested: "fault list") (fault_unwinds: bool)

record tracker =
  et_enterCount :: int
  et_log :: "string list"
  et_lastError :: "32 word"

record tracker_env =
  ev_me :: bool
  ev_locked :: bool
  ev_ntdll :: bool
  ev_dontFilterCPPException :: bool
  ev_info :: string
  ev_hex :: "32 word \<Rightarrow> string"
  ev_message :: "32 word \<Rightarrow> string"

definition CPP_EXCEPTION_CODE :: "32 word" where
  "CPP_EXCEPTION_CODE = 0xE06D7363"

definition endl :: string where
  "endl = [CHR 0x0D, CHR 0x0A]"

definition log_strings :: "string list \<Rightarrow> tracker \<Rightarrow> tracker" where
  "log_strings xs t = t\<lparr>et_log := et_log t @ xs\<rparr>"

definition logSeverity :: "32 word \<Rightarrow> tracker \<Rightarrow> tracker" where
  "logSeverity exceptionCode t = (let severity =
     (if exceptionCode \<ge> 0 \<and> exceptionCode \<le> 0x3FFFFFFF then ''SUCCESS_EXCEPTION_STATUS''
      else if exceptionCode \<ge> 0x40000000 \<and> exceptionCode \<le> 0x7FFFFFFF then ''INFORMATION_EXCEPTION_STATUS''
      else if exceptionCode \<ge> 0x80000000 \<and> exceptionCode \<le> 0xBFFFFFFF then ''WARNING_EXCEPTION_STATUS''
      else ''ERROR_EXCEPTION_STATUS'')
   in log_strings [''['', severity, '']''] t)"

definition logExceptionInfo :: "tracker_env \<Rightarrow> 32 word \<Rightarrow> tracker \<Rightarrow> tracker" where
  "logExceptionInfo ev exceptionCode t = (if \<not> ev_ntdll ev then t
     else log_strings [''Probably diagnostic message: '', ev_message ev exceptionCode, endl] t)"

definition logError :: "tracker_env \<Rightarrow> string \<Rightarrow> tracker \<Rightarrow> tracker" where
  "logError ev str t = log_strings [ev_info ev, '' Tracker error: '', str, endl] t"

text \<open>What \<open>trackerHandler\<close> writes before the stack trace.\<close>

definition logHeader :: "tracker_env \<Rightarrow> 32 word \<Rightarrow> bool \<Rightarrow> tracker \<Rightarrow> tracker" where
  "logHeader ev exceptionCode isUnhandled t = (
     let t = log_strings [ev_info ev, '' ''] t;
         t = logSeverity exceptionCode t;
         t = (if exceptionCode = CPP_EXCEPTION_CODE then log_strings ['' C++''] t else t);
         t = log_strings [if isUnhandled then '' Unhandled exception code: '' else '' Exception code: 0x'',
           ev_hex ev exceptionCode, endl] t;
         t = logExceptionInfo ev exceptionCode t
     in log_strings [''Symbols loading...'', endl] t)"

text \<open>\<open>VectoredHandler\<close> is called by the system for every fault; \<open>ShowCallstack\<close> of the stack walker is reduced to the
  faults that happen in it. Both get the handler they reach as an argument.\<close>

definition VectoredHandler :: "tracker_env \<Rightarrow> (fault \<Rightarrow> tracker \<Rightarrow> tracker) \<Rightarrow> fault \<Rightarrow> tracker \<Rightarrow> tracker" where
  "VectoredHandler ev tracked f t = (if \<not> ev_me ev then t
     else if fault_code f = CPP_EXCEPTION_CODE \<and> \<not> ev_dontFilterCPPException ev then t
     else tracked f t)"

fun ShowCallstack :: "(fault \<Rightarrow> tracker \<Rightarrow> tracker) \<Rightarrow> fault list \<Rightarrow> tracker \<Rightarrow> tracker \<times> bool" where
  "ShowCallstack vectored [] t = (t, False)"
| "ShowCallstack vectored (f # fs) t = (
     let t = vectored f t in
     if fault_unwinds f then (t, True) else ShowCallstack vectored fs t)"

lemma VectoredHandler_cong [fundef_cong]:
  "f = g \<Longrightarrow> t = u \<Longrightarrow> tracked g u = tracked' g u \<Longrightarrow> VectoredHandler ev tracked f t = VectoredHandler ev tracked' g u"
  by (simp add: VectoredHandler_def)

lemma ShowCallstack_cong [fundef_cong]:
  "fs = gs \<Longrightarrow> t = u \<Longrightarrow> (\<And>f t. f \<in> set gs \<Longrightarrow> vectored f t = vectored' f t) \<Longrightarrow>
     ShowCallstack vectored fs t = ShowCallstack vectored' gs u"
  by (induction fs arbitrary: gs t u) (auto simp: Let_def)

fun trackerHandler :: "tracker_env \<Rightarrow> bool \<Rightarrow> fault \<Rightarrow> tracker \<Rightarrow> tracker" where
  "trackerHandler ev isUnhandled (Fault code nested unwinds) t = (
     let win32LastError = et_lastError t in
     if \<not> ev_locked ev then t
     else let
       t = t\<lparr>et_enterCount := et_enterCount t + 1\<rparr>;
       t = (if et_enterCount t \<ge> 3 then t
         else if et_enterCount t \<ge> 2 then logError ev ''Exception while stack trace logging!'' t
         else (case ShowCallstack (\<lambda>f. VectoredHandler ev (trackerHandler ev False) f) nested (logHeader ev code isUnhandled t) of
           (t, True) \<Rightarrow> t
         | (t, False) \<Rightarrow> log_strings [''End stack trace.'', endl] t));
       t = (if et_enterCount t > 0 then t\<lparr>et_enterCount := et_enterCount t - 1\<rparr> else t)
     in t\<lparr>et_lastError := win32LastError\<rparr>)"

definition UnhandledExceptionStackTraceFilter :: "tracker_env \<Rightarrow> fault \<Rightarrow> tracker \<Rightarrow> tracker" where
  "UnhandledExceptionStackTraceFilter ev f t = (if \<not> ev_me ev then t else trackerHandler ev True f t)"

subsection \<open>Faults while a fault is being logged\<close>

text \<open>A fault inside the handling of a nested fault changes nothing; a nested fault adds one error
  entry, whatever it carries itself.\<close>

lemma handler_deep: "2 \<le> et_enterCount t \<Longrightarrow> trackerHandler ev isUnhandled f t = t"
  by (cases f) (simp add: Let_def)

lemma handler_nested:
  "et_enterCount t = 1 \<Longrightarrow> ev_locked ev \<Longrightarrow>
     trackerHandler ev isUnhandled f t = logError ev ''Exception while stack trace logging!'' t"
  by (cases f) (simp add: Let_def logError_def log_strings_def)

text \<open>The nested faults that reach the handler: C++ exceptions may be filtered, and nothing comes after a
  fault that unwinds.\<close>

fun reported :: "tracker_env \<Rightarrow> fault list \<Rightarrow> nat" where
  "reported ev [] = 0"
| "reported ev (f # fs) =
     (if fault_code f = CPP_EXCEPTION_CODE \<and> \<not> ev_dontFilterCPPException ev then 0 else 1) +
     (if fault_unwinds f then 0 else reported ev fs)"

definition error_entry :: "tracker_env \<Rightarrow> string list" where
  "error_entry ev = [ev_info ev, '' Tracker error: '', ''Exception while stack trace logging!'', endl]"

lemma ShowCallstack_nested:
  assumes "ev_me ev" "ev_locked ev" "et_enterCount t = 1"
  shows "ShowCallstack (\<lambda>f. VectoredHandler ev (trackerHandler ev False) f) fs t =
    (log_strings (concat (replicate (reported ev fs) (error_entry ev))) t, list_ex fault_unwinds fs)"
  using assms
proof (induction fs arbitrary: t)
  case (Cons f fs)
  obtain code nested unwinds where f: "f = Fault code nested unwinds" by (cases f)
  show ?case
  proof (cases "code = CPP_EXCEPTION_CODE \<and> \<not> ev_dontFilterCPPException ev")
    case True
    then show ?thesis using Cons f by (auto simp: Let_def log_strings_def VectoredHandler_def)
  next
    case False
    let ?t = "logError ev ''Exception while stack trace logging!'' t"
    have v: "VectoredHandler ev (trackerHandler ev False) f t = ?t"
      using False Cons.prems f handler_nested [OF Cons.prems(3,2)]
      by (auto simp: VectoredHandler_def simp del: trackerHandler.simps)
    have "et_enterCount ?t = 1" using Cons.prems(3) by (simp add: logError_def log_strings_def)
    then show ?thesis using Cons.IH [of ?t] Cons.prems v False f
      by (simp add: Let_def logError_def log_strings_def error_entry_def)
  qed
qed (simp add: log_strings_def)

theorem handler_top:
  assumes "ev_me ev" "ev_locked ev" "et_enterCount t = 0"
  shows "trackerHandler ev isUnhandled (Fault code nested unwinds) t =
    t\<lparr>et_log := et_log (logHeader ev code isUnhandled t) @ concat (replicate (reported ev nested) (error_entry ev)) @
      (if list_ex fault_unwinds nested then [] else [''End stack trace.'', endl])\<rparr>"
proof -
  let ?t = "t\<lparr>et_enterCount := 1\<rparr>"
  have h: "logHeader ev code isUnhandled ?t = (logHeader ev code isUnhandled t)\<lparr>et_enterCount := 1\<rparr>"
    by (simp add: logHeader_def logExceptionInfo_def logSeverity_def log_strings_def Let_def)
  have e: "et_enterCount (logHeader ev code isUnhandled t) = 0" "et_lastError (logHeader ev code isUnhandled t) = et_lastError t"
    using assms(3) by (simp_all add: logHeader_def logExceptionInfo_def logSeverity_def log_strings_def Let_def)
  show ?thesis
    using assms ShowCallstack_nested [OF assms(1,2), of "logHeader ev code isUnhandled ?t" nested]
    by (auto simp: Let_def h e log_strings_def split: if_splits)
qed

end
