(* ===== verification/System_Properties.thy ===== *)
theory System_Properties
  imports Pool_Items LowLevel_Allocator Scheduler_Correct Bits_Algorithms Allocators Exception_Tools
begin

section \<open>Properties of the memory pool, the allocators, the thread pool and the bit algorithms\<close>

text \<open>
  The statements about the parts below the containers, with the concrete objects that instantiate them.
\<close>

subsection \<open>Concrete objects for the witnesses\<close>

definition demo_alignment :: alignment where
  "demo_alignment = \<lparr>isAlignedSize = (\<lambda>n. n mod 4 = 0), isAlignedAddressFor = (\<lambda>a n. a mod 4 = 0),
     alignSize = (\<lambda>n. (n + 3) div 4 * 4), alignAddressFor = (\<lambda>a n. (a + 3) div 4 * 4)\<rparr>"

definition demo_free_map :: free_item_map where
  "demo_free_map = \<lparr>im_alignedItemSize = 16, im_endConstruct = True, fm_endVoidsSize = 8\<rparr>"

definition demo_alloc_map :: alloc_item_map where
  "demo_alloc_map = \<lparr>im_alignedItemSize = 16, im_endConstruct = True, am_beginVoidsSize = 3,
     am_itemSizeWithoutEndVoids = 10, am_endVoidsSize = 2, am_itemValueSize = 6, am_endVoidsDiff = 10, am_itemValueDiff = 4\<rparr>"

lemma demo_maps_ok: "free_ok demo_alignment demo_free_map 64" "alloc_ok_map demo_alignment demo_alloc_map 64"
  by (simp_all add: free_ok_def alloc_ok_map_def demo_alignment_def demo_free_map_def demo_alloc_map_def)

definition demo_area :: TAreaHeader where
  "demo_area = \<lparr>ah_begin = 0x1000, ah_end = 0x3000, ah_maxPagesForExtend = 2, ah_PageAccess = 0, ah_Aligment = 4\<rparr>"

lemma demo_area_ok: "area_ok 0x1000 demo_area"
  by (simp add: area_ok_def demo_area_def)

subsection \<open>Memory pool items\<close>

text \<open>
  C27. The life of a pool item with checks switched on: making it free, linking it and making it
  allocated each succeed; the free item passes the check of free items and returns the link that was
  stored, and fails the check of allocated items, so that a second deallocation is caught; the
  allocated item passes the check of allocated items, fails that of free items and is
  filled with the pattern for uninitialised values; nothing outside the item changes.
\<close>
theorem pool_item_life_cycle:
  assumes "free_ok al fim base" "alloc_ok_map al aim base" "im_alignedItemSize aim = im_alignedItemSize fim"
  shows "\<exists>m1 m2 m3. ck_free_MakeItem True al fim m base = Some m1 \<and> ck_free_Check True al fim m1 base = Some () \<and>
    ck_SetNextFreeItem True al fim m1 base nextBase = Some m2 \<and> ck_free_Check True al fim m2 base = Some () \<and>
    ck_GetNextFreeItem True al fim m2 base = Some nextBase \<and> ck_alloc_Check True al aim m2 base = None \<and>
    ck_alloc_MakeItem True al aim m2 base = Some m3 \<and> ck_alloc_Check True al aim m3 base = Some () \<and>
    ck_free_Check True al fim m3 base = None \<and>
    (\<forall>i<am_itemValueSize aim. m3 (base + am_itemValueDiff aim + i) = 0x7F) \<and>
    (\<forall>x. x < base \<or> base + im_alignedItemSize fim \<le> x \<longrightarrow> m3 x = m x)"
proof -
  obtain m1 where m1: "ck_free_MakeItem True al fim m base = Some m1" "free_guard fim m1 base"
    "\<forall>x. x < base \<or> base + im_alignedItemSize fim \<le> x \<longrightarrow> m1 x = m x"
    using ck_free_MakeItem_spec [OF assms(1), of True m] by blast
  obtain m2 where m2: "ck_SetNextFreeItem True al fim m1 base nextBase = Some m2" "free_guard fim m2 base"
    "ck_GetNextFreeItem True al fim m2 base = Some nextBase" "\<forall>x. x < base + 4 \<or> base + 8 \<le> x \<longrightarrow> m2 x = m1 x"
    using ck_SetNextFreeItem_spec [OF assms(1) m1(2), of True nextBase] by blast
  obtain m3 where m3: "ck_alloc_MakeItem True al aim m2 base = Some m3" "alloc_guard aim m3 base"
    "\<forall>i<am_itemValueSize aim. m3 (base + am_itemValueDiff aim + i) = 0x7F"
    "\<forall>x. x < base \<or> base + am_endVoidsDiff aim + am_endVoidsSize aim \<le> x \<longrightarrow> m3 x = m2 x"
    using ck_alloc_MakeItem_spec [OF assms(2), of True m2] by blast
  have sz: "8 \<le> im_alignedItemSize fim" "am_endVoidsDiff aim + am_endVoidsSize aim \<le> im_alignedItemSize fim"
    using assms by (simp_all add: free_ok_def alloc_ok_map_def)
  have "\<not> free_guard fim m3 base" using m3(2) by (simp add: free_guard_def alloc_guard_def)
  then have "ck_free_Check True al fim m3 base = None" by (rule free_items.check_fails [OF assms(1)])
  moreover have "\<forall>x. x < base \<or> base + im_alignedItemSize fim \<le> x \<longrightarrow> m3 x = m x"
    using m1(3) m2(4) m3(4) sz by (metis add.assoc add_le_cancel_left le_trans trans_less_add1)
  ultimately show ?thesis
    using m1 m2 m3 free_items.check_iff [OF assms(1)] allocated_items.check_iff [OF assms(2)] double_free_detected [OF m2(2)]
    by blast
qed

theorem pool_item_life_cycle_witness:
  "\<exists>m1 m2. ck_free_MakeItem True demo_alignment demo_free_map (\<lambda>_. 0) 64 = Some m1 \<and>
    ck_SetNextFreeItem True demo_alignment demo_free_map m1 64 128 = Some m2 \<and>
    ck_GetNextFreeItem True demo_alignment demo_free_map m2 64 = Some 128 \<and>
    ck_alloc_Check True demo_alignment demo_alloc_map m2 64 = None"
proof -
  have "im_alignedItemSize demo_alloc_map = im_alignedItemSize demo_free_map"
    by (simp add: demo_free_map_def demo_alloc_map_def)
  from pool_item_life_cycle [OF demo_maps_ok this, of "\<lambda>_. 0" 128] show ?thesis by blast
qed

text \<open>
  C28. What the check of an allocated item notices: changing any of its guard bytes makes the check
  fail. But the guard ends where the constructor computed it: when the pool uses larger items, which is
  what \<open>endConstruct\<close> is for, the bytes from there to the end of the item are never looked at,
  because \<open>endConstruct\<close> overwrites the size before comparing with it.
\<close>
theorem pool_corruption_detection:
  assumes "alignment_ok al n" "0 < n" "ck_alloc_new True al n = Some im"
    "im_alignedItemSize im \<le> real" "isAlignedSize al real" "isAlignedAddressFor al base real"
  shows "\<exists>im'. ck_alloc_endConstruct True al im real = Some im' \<and> im_alignedItemSize im' = real \<and>
    (\<forall>m x v. base + im_alignedItemSize im \<le> x \<longrightarrow>
       ck_alloc_Check True al im' (m(x := v)) base = ck_alloc_Check True al im' m base) \<and>
    (\<forall>m x v. ck_alloc_Check True al im' m base = Some () \<longrightarrow> v \<noteq> m x \<longrightarrow>
       x = base \<or> (\<exists>i<am_beginVoidsSize im'. x = base + 1 + i) \<or>
         (\<exists>i<am_endVoidsSize im'. x = base + am_endVoidsDiff im' + i) \<longrightarrow>
       ck_alloc_Check True al im' (m(x := v)) base = None)"
proof -
  obtain im' where im': "ck_alloc_endConstruct True al im real = Some im'" "alloc_ok_map al im' base"
      "im_alignedItemSize im' = real" "am_endVoidsDiff im' + am_endVoidsSize im' = im_alignedItemSize im"
    using ck_alloc_construct [OF assms] by blast
  have "ck_alloc_Check True al im' (m(x := v)) base = ck_alloc_Check True al im' m base"
    if "base + im_alignedItemSize im \<le> x" for m x v
    using tail_unchecked [OF im'(2), of x True m v] that im'(4) by simp
  moreover have "ck_alloc_Check True al im' (m(x := v)) base = None"
    if "ck_alloc_Check True al im' m base = Some ()" "v \<noteq> m x"
      "x = base \<or> (\<exists>i<am_beginVoidsSize im'. x = base + 1 + i) \<or>
         (\<exists>i<am_endVoidsSize im'. x = base + am_endVoidsDiff im' + i)" for m x v
    using guard_byte_detected [OF im'(2), of m x v] that ck_alloc_Check_iff [OF im'(2), of m] by blast
  ultimately show ?thesis using im'(1,3) by (intro exI [of _ im'] conjI) simp_all
qed

theorem pool_corruption_detection_witness:
  "\<exists>im im'. ck_alloc_new True demo_alignment 6 = Some im \<and> ck_alloc_endConstruct True demo_alignment im 16 = Some im' \<and>
    (\<forall>m v. ck_alloc_Check True demo_alignment im' (m(64 + 15 := v)) 64 = ck_alloc_Check True demo_alignment im' m 64)"
proof -
  have al: "alignment_ok demo_alignment 6" by (simp add: alignment_ok_def demo_alignment_def)
  obtain im where im: "ck_alloc_new True demo_alignment 6 = Some im" "im_alignedItemSize im = 12"
    by (simp add: ck_alloc_new_def demo_alignment_def)
  have "isAlignedSize demo_alignment 16" "isAlignedAddressFor demo_alignment 64 16" by (simp_all add: demo_alignment_def)
  from pool_corruption_detection [OF al _ im(1) _ this] im show ?thesis by fastforce
qed

subsection \<open>The low-level allocator\<close>

text \<open>
  C29. \<open>Align\<close> returns the least multiple of the step that is not below the argument, computed with 32-bit
  wrap-around; when that multiple does not fit into 32 bits the assertion of a debug build fails and
  a release build returns it reduced modulo \<open>2 ^ 32\<close>. \<open>IsAligned\<close> agrees with it.
\<close>
theorem Align_least_multiple:
  assumes "0 < unat AlignStep"
  shows "\<exists>k. unat AlignStep dvd k \<and> unat x \<le> k \<and> (\<forall>m. unat AlignStep dvd m \<longrightarrow> unat x \<le> m \<longrightarrow> k \<le> m) \<and>
    Align dbg x AlignStep = (if dbg \<and> 2 ^ 32 \<le> k then None else Some (of_nat k)) \<and>
    IsAligned dbg x AlignStep = (if dbg \<and> 2 ^ 32 \<le> k then None else Some (k = unat x))"
proof (intro exI conjI)
  let ?k = "round_up (unat x) (unat AlignStep)"
  show "unat AlignStep dvd ?k" by (rule round_up_dvd [OF assms])
  show "unat x \<le> ?k" using round_up_bounds [OF assms] by blast
  show "\<forall>m. unat AlignStep dvd m \<longrightarrow> unat x \<le> m \<longrightarrow> ?k \<le> m" using round_up_least [OF assms] by blast
  show "Align dbg x AlignStep = (if dbg \<and> 2 ^ 32 \<le> ?k then None else Some (of_nat ?k))" by (rule Align_spec [OF assms])
  have "unat AlignStep dvd unat x \<longleftrightarrow> ?k = unat x"
    using round_up_dvd [OF assms, of "unat x"] round_up_least [OF assms, of "unat x" "unat x"] round_up_bounds [OF assms, of "unat x"]
    by auto
  then show "IsAligned dbg x AlignStep = (if dbg \<and> 2 ^ 32 \<le> ?k then None else Some (?k = unat x))"
    by (simp add: IsAligned_spec [OF assms])
qed

theorem Align_least_multiple_witness: "Align True 13 8 = Some 16"
proof -
  have "unat (8 :: size_t) = 8" "unat (13 :: size_t) = 13" by simp_all
  then obtain k where k: "8 dvd k" "13 \<le> k" "k \<le> 16" "Align True 13 8 = (if 2 ^ 32 \<le> k then None else Some (of_nat k))"
    using Align_least_multiple [of 8 13 True] by fastforce
  have "k = 16" using k(1-3) by presburger
  then show ?thesis using k(4) by simp
qed

text \<open>
  C30. Allocation from an area. When the free memory suffices, the block is exactly the beginning of the free
  memory, it ends inside the area, and the area stays valid if and only if the requested size is a
  multiple of the alignment. When it does not, no call ever extends the area: every
  call that returns gives NULL, changes no page access and forbids further extension; beyond that the area is as it was, provided the
  reservation leaves the address it gets alone (otherwise the end of the area is what the failed reservation wrote). And when the system
  grants the reservations the call does not return at all.
\<close>
theorem area_allocation:
  assumes "area_ok page a" "0 < unat Size"
  shows "(unat Size \<le> unat (ah_end a) - unat (ah_begin a) \<longrightarrow>
      allocateOrNULLWithCantContinueExtendThisArea dbg noaccess page reserve s a calls Size =
        Some (s, a\<lparr>ah_begin := ah_begin a + Size\<rparr>, calls, ah_begin a) \<and>
      unat (ah_begin a + Size) = unat (ah_begin a) + unat Size \<and> unat (ah_begin a) + unat Size \<le> unat (ah_end a) \<and>
      (area_ok page (a\<lparr>ah_begin := ah_begin a + Size\<rparr>) \<longleftrightarrow> unat (ah_Aligment a) dvd unat Size)) \<and>
    (unat (ah_end a) - unat (ah_begin a) < unat Size \<longrightarrow>
      (\<forall>s' a' calls' p. allocateOrNULLWithCantContinueExtendThisArea dbg noaccess page reserve s a calls Size =
         Some (s', a', calls', p) \<longrightarrow> p = 0 \<and> calls' = calls \<and>
         a' = a\<lparr>ah_end := ah_end a', ah_maxPagesForExtend := 0\<rparr> \<and>
         (ah_end a' = ah_end a \<or> (\<exists>s0 e0 n. reserve s0 e0 n = (s', ah_end a', False))) \<and>
         ((\<forall>s e n. fst (snd (reserve s e n)) = e) \<longrightarrow> a' = a\<lparr>ah_maxPagesForExtend := 0\<rparr>)) \<and>
      (ah_maxPagesForExtend a \<noteq> 0 \<longrightarrow> (\<forall>s e n. snd (snd (reserve s e n))) \<longrightarrow>
         allocateOrNULLWithCantContinueExtendThisArea dbg noaccess page reserve s a calls Size = None))"
proof -
  have "unat (ah_begin a) \<le> unat (ah_end a)" using assms(1) by (simp add: area_ok_def word_le_nat_alt)
  then have fits: "unat (ah_begin a) + unat Size \<le> unat (ah_end a)" if "unat Size \<le> unat (ah_end a) - unat (ah_begin a)"
    using that by linarith
  show ?thesis
  proof (intro conjI impI allI)
    assume free: "unat Size \<le> unat (ah_end a) - unat (ah_begin a)"
    note spec = allocateWithoutExtend_spec [OF assms(1) free]
    show "allocateOrNULLWithCantContinueExtendThisArea dbg noaccess page reserve s a calls Size =
        Some (s, a\<lparr>ah_begin := ah_begin a + Size\<rparr>, calls, ah_begin a)"
      by (rule allocateOrNULL_enough [OF assms free])
    show "unat (ah_begin a + Size) = unat (ah_begin a) + unat Size" by (rule spec(2))
    show "unat (ah_begin a) + unat Size \<le> unat (ah_end a)" by (rule fits [OF free])
    show "area_ok page (a\<lparr>ah_begin := ah_begin a + Size\<rparr>) \<longleftrightarrow> unat (ah_Aligment a) dvd unat Size" by (rule spec(3))
  next
    assume short: "unat (ah_end a) - unat (ah_begin a) < unat Size" and "ah_maxPagesForExtend a \<noteq> 0"
      "\<forall>s e n. snd (snd (reserve s e n))"
    then show "allocateOrNULLWithCantContinueExtendThisArea dbg noaccess page reserve s a calls Size = None"
      by (intro allocateOrNULL_hangs [OF assms(1) short]) simp_all
  next
    fix s' a' calls' p
    assume short: "unat (ah_end a) - unat (ah_begin a) < unat Size"
      and run: "allocateOrNULLWithCantContinueExtendThisArea dbg noaccess page reserve s a calls Size = Some (s', a', calls', p)"
    note null = allocateOrNULL_short [OF assms(1) short run]
    show "p = 0" "calls' = calls" "a' = a\<lparr>ah_end := ah_end a', ah_maxPagesForExtend := 0\<rparr>"
      "ah_end a' = ah_end a \<or> (\<exists>s0 e0 n. reserve s0 e0 n = (s', ah_end a', False))" by (fact null)+
    assume "\<forall>s e n. fst (snd (reserve s e n)) = e"
    then have "ah_end a' = ah_end a" by (intro null(5)) simp
    with null(3) show "a' = a\<lparr>ah_maxPagesForExtend := 0\<rparr>" by simp
  qed
qed

theorem area_allocation_witness:
  "allocateOrNULLWithCantContinueExtendThisArea True 0 0x1000 (\<lambda>s e n. (s, e, False)) () demo_area [] 8 =
    Some ((), demo_area\<lparr>ah_begin := 0x1008\<rparr>, [], 0x1000) \<and>
   allocateOrNULLWithCantContinueExtendThisArea False 0 0x1000 (\<lambda>s e n. (s, e, False)) () demo_area [] 0x4000 =
    Some ((), demo_area\<lparr>ah_maxPagesForExtend := 0\<rparr>, [], 0)"
proof -
  let ?alloc = "\<lambda>dbg. allocateOrNULLWithCantContinueExtendThisArea dbg 0 0x1000 (\<lambda>s e n. (s, e, False)) () demo_area []"
  have "?alloc True 8 = Some ((), demo_area\<lparr>ah_begin := 0x1008\<rparr>, [], 0x1000)"
    using area_allocation [OF demo_area_ok, of 8 True 0 "\<lambda>s e n. (s, e, False)" "()" "[]"] by (simp add: demo_area_def)
  moreover have "extend_loop (\<lambda>s e n. (s, e, False)) 0x1000 () e 2 = Some ((), e, 2, False)" for e
    by (subst extend_loop.simps) (simp add: word_le_nat_alt)
  then have "?alloc False 0x4000 \<noteq> None"
    unfolding allocateOrNULLWithCantContinueExtendThisArea_def
    by (subst allocate_extending.simps) (simp add: FreeMemoryAtArea_def tryExtendArea_def CheckInvariant_def demo_area_def)
  then obtain s' a' calls' p where r: "?alloc False 0x4000 = Some (s', a', calls', p)" by (cases "?alloc False 0x4000") auto
  have "p = 0" "calls' = []" "a' = demo_area\<lparr>ah_maxPagesForExtend := 0\<rparr>"
    using area_allocation [OF demo_area_ok, of "0x4000" False 0 "\<lambda>s e n. (s, e, False)" "()" "[]"] r
    by (simp_all add: demo_area_def)
  ultimately show ?thesis using r by simp
qed

subsection \<open>The thread pool\<close>

text \<open>
  C31. In every interleaving of clients, tasks, workers and \<open>close\<close>, the scheduler keeps at most
  \<open>threadCount limit\<close> thread handles per level, a number between 2 and 32: the check without the lock may be outdated,
  the one repeated under the lock is not. Until \<open>close\<close> is called the same bound holds for the threads of a level that have
  not ended, those included whose handle is not in the list yet. While the scheduler is being closed it does not
  (\<open>limit_exceeded_while_closing\<close>).
\<close>
theorem scheduler_thread_limit:
  assumes "sched_run client limit es st"
  shows "length (ls_threads st l) \<le> threadCount limit \<and>
    (\<not> ls_isCancel st \<longrightarrow> finite (live_workers st l) \<and> card (live_workers st l) \<le> threadCount limit) \<and>
    2 \<le> threadCount limit \<and> threadCount limit \<le> 32"
  using sched_run_limit [OF assms] threadCount_bounds [of limit] live_workers_bound [OF assms, of l] by (auto simp: limit_inv_def)

theorem scheduler_thread_limit_witness:
  "length (ls_threads (lost_state 8 (1 :: nat)) 0) \<le> threadCount 8 \<and> card (live_workers (lost_state 8 (1 :: nat)) 0) \<le> threadCount 8"
proof -
  obtain es where es: "sched_run (\<lambda>t. t = 2) 8 es (lost_state 8 (1 :: nat))" by (rule exE [OF lost_wakeup_reachable])
  have "\<not> ls_isCancel (lost_state 8 (1 :: nat))" by (simp add: lost_state_def)
  with scheduler_thread_limit [OF es, of 0] show ?thesis by blast
qed

text \<open>
  C32. No task is lost, duplicated or overtaken on its level. The tasks the workers of a level took, in the
  order they took them, followed by those still queued, are the tasks pushed to that level in order. Every task \<open>schedule\<close> accepted for the level is,
  once, still in the hands of the call that brings it, in the queue, being executed by a worker, or executed.
\<close>
theorem scheduler_tasks_in_order:
  assumes "sched_run client limit es st"
  shows "pushed_at l es = popped_at l es @ ls_tasks st l \<and>
    mset (accepted_at l es) = in_calls l st + mset (pushed_at l es) \<and>
    mset (popped_at l es) = in_execution l st + mset (executed_at l es) \<and>
    mset (accepted_at l es) = in_calls l st + mset (ls_tasks st l) + in_execution l st + mset (executed_at l es) \<and>
    finite {t. carries l (ls_call st t) \<noteq> {#}} \<and> finite {w. runs l (ls_worker st w) \<noteq> {#}}"
  using sched_run_fifo [OF assms, of l] sched_run_conserves [OF assms, of l] by (simp add: ac_simps)

theorem scheduler_tasks_in_order_witness:
  "\<exists>es. sched_run (\<lambda>t. t = 2) 8 es (lost_state 8 (1 :: nat)) \<and> pushed_at 0 es = popped_at 0 es @ [1] \<and>
    mset (accepted_at 0 es) = {#1#} + mset (executed_at 0 es)"
proof -
  obtain es where es: "sched_run (\<lambda>t. t = 2) 8 es (lost_state 8 (1 :: nat))" by (rule exE [OF lost_wakeup_reachable])
  have "in_calls 0 (lost_state 8 (1 :: nat)) = {#}" "in_execution 0 (lost_state 8 (1 :: nat)) = {#}"
    by (simp_all add: in_calls_def in_execution_def total_def lost_state_def)
  with scheduler_tasks_in_order [OF es, of 0] es show ?thesis by (auto simp: lost_state_def)
qed

text \<open>
  C33. A wake-up can be lost: \<open>schedule\<close> notifies without holding the mutex of the level, so the notification can fall
  between a worker's look at the queue and its going to sleep. The scheduler then stands still with
  a task in the queue: every worker sleeps and no call is under way.
\<close>
theorem scheduler_lost_wakeup:
  "\<exists>es st. sched_run (\<lambda>t. t = 2) limit es st \<and> ls_tasks st 0 = [k] \<and> \<not> ls_isCancel st \<and>
    (\<forall>t. ls_call st t = CIdle) \<and> (\<forall>t. ls_worker st t \<in> {None, Some (WSleep 0), Some (WSleep 1)})"
proof -
  obtain es where es: "sched_run (\<lambda>t. t = 2) limit es (lost_state limit k)" by (rule exE [OF lost_wakeup_reachable])
  show ?thesis
    by (rule exI [of _ es], rule exI [of _ "lost_state limit k"]) (simp add: es, simp add: lost_state_def)
qed

subsection \<open>Powers of two\<close>

text \<open>
  C34. \<open>TRoundUpPowerOfTwoIncludingZeroPower\<close> compiles for every value from 1 to \<open>MAX_TEMPLATE_VALUE\<close> and is the least power
  of two that is not below the value; for 0 the static check fails.
\<close>
theorem round_up_power_of_two:
  assumes "0 < Value" "Value \<le> MAX_TEMPLATE_VALUE"
  shows "(\<exists>k\<le>30. TRoundUpPowerOfTwoIncludingZeroPower Value = Some (2 ^ k) \<and> unat Value \<le> 2 ^ k \<and>
      (\<forall>j. unat Value \<le> 2 ^ j \<longrightarrow> k \<le> j)) \<and> TRoundUpPowerOfTwoIncludingZeroPower 0 = None"
proof -
  obtain k where k: "k \<le> 30" "TRoundUpPowerOfTwoIncludingZeroPower Value = Some (2 ^ k)" "unat Value \<le> 2 ^ k"
    "k = 0 \<or> 2 ^ (k - 1) < unat Value" by (rule TRoundUpPowerOfTwo_spec [OF assms])
  have "k \<le> j" if "unat Value \<le> 2 ^ j" for j
  proof (cases "k = 0")
    case False
    then have "(2 :: nat) ^ (k - 1) < 2 ^ j" using k(4) that by linarith
    then have "k - 1 < j" by (rule power_less_imp_less_exp [rotated]) simp
    then show ?thesis by linarith
  qed simp
  then show ?thesis using k TRoundUpPowerOfTwo_zero by blast
qed

theorem round_up_power_of_two_witness: "\<exists>k\<le>30. TRoundUpPowerOfTwoIncludingZeroPower 5 = Some (2 ^ k)"
  using round_up_power_of_two [of 5] by (auto simp: MAX_TEMPLATE_VALUE_def)

end
