(* ===== verification/Crt_Patch.thy ===== *)
theory Crt_Patch
  imports Pool_Items
begin

unbundle bit_operations_syntax

section \<open>CrtHappy: patching functions of the run-time library\<close>

text \<open>
  CrtHappy.h overwrites the first bytes of a function by a jump, CrtHappy.cpp provides the functions that
  are jumped to. Memory is a map from addresses to bytes, the rights of a page are a number; a write to a page
  without the right to write is a fault (\<open>None\<close>). The run-time system is a parameter: its two functions for page rights, the page size, the
  number \<open>RT_PG_USERREADWRITE\<close> and which rights allow writing. How the compiler lays out the
  structure \<open>TRelative32Jmp\<close> is implementation-defined (the file has no packing directive) and is a parameter, too.
  Text is a list of character codes.
\<close>

subsection \<open>replaceFunctionByMemoryPatch\<close>

record code_state =
  cs_mem :: memory
  cs_access :: "nat \<Rightarrow> int"

record rtos =
  pg_size :: nat
  RT_PG_USERREADWRITE :: int
  pg_writable :: "int \<Rightarrow> bool"
  RTGetPageAccess :: "code_state \<Rightarrow> nat \<Rightarrow> int"
  RTSetPageAccess :: "code_state \<Rightarrow> nat \<Rightarrow> int \<Rightarrow> code_state"

record TRelative32Jmp_layout =
  jl_offset :: nat
  jl_size :: nat

text \<open>The documented behaviour of the two functions, which concern the page of an address.\<close>

definition rtos_ok :: "rtos \<Rightarrow> bool" where
  "rtos_ok rt \<longleftrightarrow> pg_writable rt (RT_PG_USERREADWRITE rt) \<and>
     (\<forall>s a. RTGetPageAccess rt s a = cs_access s (a div pg_size rt)) \<and>
     (\<forall>s a access. RTSetPageAccess rt s a access = s\<lparr>cs_access := (cs_access s)(a div pg_size rt := access)\<rparr>)"

definition write_byte :: "rtos \<Rightarrow> code_state \<Rightarrow> nat \<Rightarrow> 8 word \<Rightarrow> code_state option" where
  "write_byte rt s a v = (if pg_writable rt (cs_access s (a div pg_size rt))
     then Some (s\<lparr>cs_mem := (cs_mem s)(a := v)\<rparr>) else None)"

definition write_word :: "rtos \<Rightarrow> code_state \<Rightarrow> nat \<Rightarrow> 32 word \<Rightarrow> code_state option" where
  "write_word rt s a w = do {
     s \<leftarrow> write_byte rt s a (ucast w);
     s \<leftarrow> write_byte rt s (a + 1) (ucast (drop_bit 8 w));
     s \<leftarrow> write_byte rt s (a + 2) (ucast (drop_bit 16 w));
     write_byte rt s (a + 3) (ucast (drop_bit 24 w)) }"

definition replaceFunctionByMemoryPatch ::
    "rtos \<Rightarrow> TRelative32Jmp_layout \<Rightarrow> code_state \<Rightarrow> size_t \<Rightarrow> size_t \<Rightarrow> code_state option" where
  "replaceFunctionByMemoryPatch rt lay s replacedFunction functionReplacer = do {
     let OldAccessRights = RTGetPageAccess rt s (unat replacedFunction);
     let s = RTSetPageAccess rt s (unat replacedFunction) (RT_PG_USERREADWRITE rt);
     s \<leftarrow> write_byte rt s (unat replacedFunction) 0xE9;
     s \<leftarrow> write_word rt s (unat replacedFunction + jl_offset lay)
       (functionReplacer - replacedFunction - of_nat (jl_size lay));
     Some (RTSetPageAccess rt s (unat replacedFunction) OldAccessRights) }"

text \<open>What the processor does at an address that holds the opcode: five bytes, the last four being the distance
  from the next instruction.\<close>

definition jump_target :: "memory \<Rightarrow> size_t \<Rightarrow> size_t option" where
  "jump_target m a = (if m (unat a) = 0xE9 then Some (a + 5 + load_pointer m (unat a + 1)) else None)"

subsection \<open>patchCRT\<close>

datatype crt_report_behavior =
    TCrtDbgReport_NotPatchCRTDbgReport
  | TCrtDbgReport_ReportAtConsoleThanASSERTwithFalseForAll
  | TCrtDbgReport_ReportAtConsoleThanRescueWarningsOrASSERTwithFalseForOther
  | TCrtDbgReport_ReportAtConsoleThanRescueForAll

datatype atexit_behavior = TStdAtexit_Ignored | TStdAtexit_NotPatched

record crt_addresses =
  at_CrtDbgReport :: size_t
  at_CrtDbgReportW :: size_t
  at_atexit :: size_t
  at_CrtDbgReportThunk :: size_t
  at_CrtDbgReportThunkW :: size_t
  at_atexit_thunk :: size_t

definition TCrtDbgReportPatch ::
    "rtos \<Rightarrow> TRelative32Jmp_layout \<Rightarrow> crt_addresses \<Rightarrow> crt_report_behavior \<Rightarrow> code_state \<Rightarrow> code_state option" where
  "TCrtDbgReportPatch rt lay ad beh s = (case beh of
     TCrtDbgReport_NotPatchCRTDbgReport \<Rightarrow> Some s
   | _ \<Rightarrow> do {
       s \<leftarrow> replaceFunctionByMemoryPatch rt lay s (at_CrtDbgReport ad) (at_CrtDbgReportThunk ad);
       replaceFunctionByMemoryPatch rt lay s (at_CrtDbgReportW ad) (at_CrtDbgReportThunkW ad) })"

definition TStdAtexitPatch ::
    "rtos \<Rightarrow> TRelative32Jmp_layout \<Rightarrow> crt_addresses \<Rightarrow> atexit_behavior \<Rightarrow> code_state \<Rightarrow> code_state option" where
  "TStdAtexitPatch rt lay ad beh s = (case beh of
     TStdAtexit_Ignored \<Rightarrow> replaceFunctionByMemoryPatch rt lay s (at_atexit ad) (at_atexit_thunk ad)
   | TStdAtexit_NotPatched \<Rightarrow> Some s)"

definition patchCRT :: "rtos \<Rightarrow> TRelative32Jmp_layout \<Rightarrow> crt_addresses \<Rightarrow> crt_report_behavior \<Rightarrow> atexit_behavior \<Rightarrow>
    code_state \<Rightarrow> code_state option" where
  "patchCRT rt lay ad report_beh atexit_beh s = do {
     s \<leftarrow> TCrtDbgReportPatch rt lay ad report_beh s;
     TStdAtexitPatch rt lay ad atexit_beh s }"

subsection \<open>The functions that report\<close>

text \<open>\<open>afterCallThunk\<close>; the structure for not patching has no such member, and the functions below, which are not
  templates, do not compile with it.\<close>

fun afterCallThunk :: "bool \<Rightarrow> crt_report_behavior \<Rightarrow> int \<Rightarrow> int option" where
  "afterCallThunk dbg TCrtDbgReport_NotPatchCRTDbgReport ReportType = None"
| "afterCallThunk dbg TCrtDbgReport_ReportAtConsoleThanASSERTwithFalseForAll ReportType =
     do { ASSERT dbg False; Some (- 1) }"
| "afterCallThunk dbg TCrtDbgReport_ReportAtConsoleThanRescueWarningsOrASSERTwithFalseForOther ReportType =
     (if ReportType = 0 then Some 0 else do { ASSERT dbg False; Some (- 1) })"
| "afterCallThunk dbg TCrtDbgReport_ReportAtConsoleThanRescueForAll ReportType = Some 0"

type_synonym chars = "nat list"

definition chars_of :: "string \<Rightarrow> chars" where
  "chars_of s = map of_char s"

text \<open>\<open>_vsnprintf\<close> and its relatives write at most \<open>count\<close> characters of the formatted text, a terminating zero only when
  there is room for it, and return the length or \<open>-1\<close>. A write outside the buffer is undefined.\<close>

definition vsnprintf :: "chars \<Rightarrow> nat \<Rightarrow> chars \<Rightarrow> (chars \<times> size_t) option" where
  "vsnprintf buffer cnt formatted = (
     let written = (if length formatted < cnt then formatted @ [0] else take cnt formatted) in
     if length written \<le> length buffer
     then Some (written @ drop (length written) buffer,
       if length formatted \<le> cnt then of_nat (length formatted) else - 1)
     else None)"

definition c_string :: "chars \<Rightarrow> chars option" where
  "c_string buffer = (if 0 \<in> set buffer then Some (takeWhile (\<lambda>c. c \<noteq> 0) buffer) else None)"

fun decimal :: "nat \<Rightarrow> chars" where
  "decimal n = (if n < 10 then [48 + n] else decimal (n div 10) @ [48 + n mod 10])"

declare decimal.simps [simp del]

definition MAX_SMALL :: nat where
  "MAX_SMALL = 800"

definition MAX_BIG :: nat where
  "MAX_BIG = MAX_SMALL + 600"

definition report_format :: "chars \<Rightarrow> chars \<Rightarrow> 32 word \<Rightarrow> chars \<Rightarrow> chars \<Rightarrow> chars" where
  "report_format kind filename linenumber moduleName msg =
     kind @ chars_of '' at file '' @ [34] @ filename @ [34] @ chars_of '' at line '' @ [34] @ decimal (unat linenumber) @ [34] @
     chars_of '' at module '' @ [34] @ moduleName @ [34] @ chars_of '' with message '' @ [34] @ msg @ [34, 10]"

definition reportTypes :: "chars list" where
  "reportTypes = map chars_of [''Warning _CrtDbgReport'', ''Error _CrtDbgReport'', ''Assert _CrtDbgReport'']"

definition reportTypesW :: "chars list" where
  "reportTypesW = map chars_of [''Warning _CrtDbgReportW'', ''Error _CrtDbgReportW'', ''Assert _CrtDbgReportW'']"

text \<open>\<open>format\<close> is the text that the format and its arguments stand for, or \<open>None\<close> for a null pointer; \<open>clear\<close> is
  the function of clear.h, which is not in the repository; \<open>rawSmall\<close> and \<open>rawBig\<close> are the two buffers before it. The result is what is printed and what is returned.
  \<open>filename\<close> and \<open>moduleName\<close> are texts: the code checks only \<open>format\<close>, and printing a null pointer with \<open>%s\<close> is undefined.\<close>

definition CrtDbgReportThunk :: "bool \<Rightarrow> (chars \<Rightarrow> chars) \<Rightarrow> crt_report_behavior \<Rightarrow> chars \<Rightarrow> chars \<Rightarrow> int \<Rightarrow> chars \<Rightarrow> 32 word \<Rightarrow>
    chars \<Rightarrow> chars option \<Rightarrow> (chars \<times> int) option" where
  "CrtDbgReportThunk dbg clear beh rawSmall rawBig reportType filename linenumber moduleName format = do {
     ASSERT dbg (reportType \<ge> 0);
     ASSERT dbg (reportType < 3);
     let sizeof_bufferSmall = MAX_SMALL + 1;
     let sizeof_bufferBig = MAX_BIG + 1;
     let bufferSmall = clear rawSmall;
     let bufferBig = clear rawBig;
     bufferSmall \<leftarrow> (case format of
       Some formatted \<Rightarrow> do {
         (bufferSmall, FilledSizeOfBufferSmall) \<leftarrow> vsnprintf bufferSmall (sizeof_bufferSmall - 1) formatted;
         ASSERT dbg (FilledSizeOfBufferSmall < of_nat (sizeof_bufferSmall - 1));
         Some bufferSmall }
     | None \<Rightarrow> Some bufferSmall);
     kind \<leftarrow> (if 0 \<le> reportType \<and> reportType < 3 then Some (reportTypes ! nat reportType) else None);
     msg \<leftarrow> c_string bufferSmall;
     (bufferBig, FilledSizeOfBufferBig) \<leftarrow> vsnprintf bufferBig (sizeof_bufferBig - 1)
       (report_format kind filename linenumber moduleName msg);
     ASSERT dbg (FilledSizeOfBufferBig < of_nat (sizeof_bufferBig - 1));
     printed \<leftarrow> c_string bufferBig;
     result \<leftarrow> afterCallThunk dbg beh reportType;
     Some (printed, result) }"

text \<open>The wide version counts its buffers in bytes, two for each character.\<close>

definition CrtDbgReportThunkW :: "bool \<Rightarrow> (chars \<Rightarrow> chars) \<Rightarrow> crt_report_behavior \<Rightarrow> chars \<Rightarrow> chars \<Rightarrow> int \<Rightarrow> chars \<Rightarrow> 32 word \<Rightarrow>
    chars \<Rightarrow> chars option \<Rightarrow> (chars \<times> int) option" where
  "CrtDbgReportThunkW dbg clear beh rawSmall rawBig reportType filename linenumber moduleName format = do {
     ASSERT dbg (reportType \<ge> 0);
     ASSERT dbg (reportType < 3);
     let sizeof_bufferSmall = 2 * (MAX_SMALL + 1);
     let sizeof_bufferBig = 2 * (MAX_BIG + 1);
     let bufferSmall = clear rawSmall;
     let bufferBig = clear rawBig;
     bufferSmall \<leftarrow> (case format of
       Some formatted \<Rightarrow> do {
         (bufferSmall, FilledSizeOfBufferSmall) \<leftarrow> vsnprintf bufferSmall (sizeof_bufferSmall - 1) formatted;
         ASSERT dbg (FilledSizeOfBufferSmall < of_nat (sizeof_bufferSmall - 1));
         Some bufferSmall }
     | None \<Rightarrow> Some bufferSmall);
     kind \<leftarrow> (if 0 \<le> reportType \<and> reportType < 3 then Some (reportTypesW ! nat reportType) else None);
     msg \<leftarrow> c_string bufferSmall;
     (bufferBig, FilledSizeOfBufferBig) \<leftarrow> vsnprintf bufferBig (sizeof_bufferBig - 1)
       (report_format kind filename linenumber moduleName msg);
     ASSERT dbg (FilledSizeOfBufferBig < of_nat (sizeof_bufferBig - 1));
     printed \<leftarrow> c_string bufferBig;
     result \<leftarrow> afterCallThunk dbg beh reportType;
     Some (printed, result) }"

text \<open>\<open>atexit_thunk\<close> forgets the function it is given.\<close>

definition atexit_thunk :: "size_t list \<Rightarrow> size_t \<Rightarrow> size_t list \<times> int" where
  "atexit_thunk registered f = (registered, 0)"

subsection \<open>What is printed\<close>

definition clear_ok :: "(chars \<Rightarrow> chars) \<Rightarrow> bool" where
  "clear_ok clear \<longleftrightarrow> (\<forall>xs. clear xs = replicate (length xs) 0)"

lemma c_string_zeros:
  assumes "0 \<notin> set s" "length s < n"
  shows "c_string (s @ replicate (n - length s) 0) = Some s"
proof -
  obtain k where "n - length s = Suc k" using assms(2) by (metis Suc_diff_Suc)
  moreover have "takeWhile (\<lambda>c. c \<noteq> 0) (s @ 0 # r) = s" for r using assms(1) by (induction s) auto
  ultimately show ?thesis by (simp add: c_string_def del: neq0_conv)
qed

lemma vsnprintf_room:
  assumes "cnt < n" "0 \<notin> set s"
  shows "\<exists>B. vsnprintf (replicate n 0) cnt s = Some (B, if length s \<le> cnt then of_nat (length s) else - 1) \<and>
    c_string B = Some (take cnt s)"
proof (cases "length s < cnt")
  case True
  have "0 # replicate (n - Suc (length s)) 0 = replicate (n - length s) (0 :: nat)"
    using True assms(1) by (metis Suc_diff_Suc less_trans replicate_Suc)
  with True assms show ?thesis using c_string_zeros [OF assms(2), of n] by (simp add: vsnprintf_def)
next
  case False
  then have l: "length (take cnt s) = cnt" by simp
  have "c_string (take cnt s @ replicate (n - cnt) 0) = Some (take cnt s)"
    using c_string_zeros [of "take cnt s" n] l assms in_set_takeD [of 0 cnt s] by fastforce
  with False l assms(1) show ?thesis by (simp add: vsnprintf_def Let_def)
qed

lemma vsnprintf_doubled:
  assumes "1 < n" "m = 2 * n - 1" "0 \<notin> set s"
  shows "length s < n \<Longrightarrow> \<exists>B. vsnprintf (replicate n 0) m s = Some (B, of_nat (length s)) \<and> c_string B = Some s"
    "\<not> length s < n \<Longrightarrow> vsnprintf (replicate n 0) m s = None"
proof -
  assume l: "length s < n"
  then have "0 # replicate (n - Suc (length s)) 0 = replicate (n - length s) (0 :: nat)"
    by (metis Suc_diff_Suc replicate_Suc)
  moreover have "length s < m" using l assms(1,2) by linarith
  ultimately show "\<exists>B. vsnprintf (replicate n 0) m s = Some (B, of_nat (length s)) \<and> c_string B = Some s"
    using l c_string_zeros [OF assms(3), of n] by (simp add: vsnprintf_def)
next
  assume l: "\<not> length s < n"
  have "n < m" using assms(1,2) by linarith
  with l show "vsnprintf (replicate n 0) m s = None" by (simp add: vsnprintf_def Let_def)
qed

lemma decimal_nonzero: "0 \<notin> set (decimal n)"
  by (induction n rule: decimal.induct) (subst decimal.simps, simp)

lemma report_format_nonzero:
  assumes "0 \<notin> set kind" "0 \<notin> set filename" "0 \<notin> set moduleName" "0 \<notin> set msg"
  shows "0 \<notin> set (report_format kind filename linenumber moduleName msg)"
  using assms decimal_nonzero by (simp add: report_format_def chars_of_def)

lemma report_kinds:
  assumes "0 \<le> t" "t < 3"
  shows "0 \<notin> set (reportTypes ! nat t)" "0 \<notin> set (reportTypesW ! nat t)"
proof -
  have "nat t = 0 \<or> nat t = 1 \<or> nat t = 2" using assms by linarith
  then show "0 \<notin> set (reportTypes ! nat t)" "0 \<notin> set (reportTypesW ! nat t)"
    by (auto simp: reportTypes_def reportTypesW_def chars_of_def)
qed

text \<open>The narrow version never leaves its buffers: a release build cuts a text that is too long, a debug build fails
  the assertion.\<close>

theorem CrtDbgReportThunk_spec:
  assumes "clear_ok clear" "length rawSmall = MAX_SMALL + 1" "length rawBig = MAX_BIG + 1" "0 \<le> t" "t < 3"
    "0 \<notin> set filename" "0 \<notin> set moduleName" "0 \<notin> set msg"
    and report: "report = report_format (reportTypes ! nat t) filename linenumber moduleName"
  shows "CrtDbgReportThunk False clear beh rawSmall rawBig t filename linenumber moduleName (Some msg) =
      map_option (\<lambda>result. (take MAX_BIG (report (take MAX_SMALL msg)), result)) (afterCallThunk False beh t)"
    "CrtDbgReportThunk True clear beh rawSmall rawBig t filename linenumber moduleName (Some msg) =
      (if length msg < MAX_SMALL \<and> length (report msg) < MAX_BIG
       then map_option (\<lambda>result. (report msg, result)) (afterCallThunk True beh t) else None)"
proof -
  have z: "clear rawSmall = replicate (MAX_SMALL + 1) 0" "clear rawBig = replicate (MAX_BIG + 1) 0"
    using assms(1-3) by (simp_all add: clear_ok_def)
  obtain B where B: "vsnprintf (clear rawSmall) MAX_SMALL msg =
      Some (B, if length msg \<le> MAX_SMALL then of_nat (length msg) else - 1)" "c_string B = Some (take MAX_SMALL msg)"
    using vsnprintf_room [of MAX_SMALL "MAX_SMALL + 1" msg] assms(8) z by auto
  have nz: "0 \<notin> set (report (take MAX_SMALL msg))"
    using report_format_nonzero report_kinds(1) [OF assms(4,5)] assms(6-8) unfolding report
    by (meson in_set_takeD)
  obtain C where C: "vsnprintf (clear rawBig) MAX_BIG (report (take MAX_SMALL msg)) = Some (C,
      if length (report (take MAX_SMALL msg)) \<le> MAX_BIG then of_nat (length (report (take MAX_SMALL msg))) else - 1)"
    "c_string C = Some (take MAX_BIG (report (take MAX_SMALL msg)))"
    using vsnprintf_room [of MAX_BIG "MAX_BIG + 1", OF _ nz] z by auto
  note run = CrtDbgReportThunk_def B C [unfolded report] Let_def
  show "CrtDbgReportThunk False clear beh rawSmall rawBig t filename linenumber moduleName (Some msg) =
      map_option (\<lambda>result. (take MAX_BIG (report (take MAX_SMALL msg)), result)) (afterCallThunk False beh t)"
    using assms(4,5) by (cases "afterCallThunk False beh t") (simp_all add: run report)
  have len: "(of_nat k :: size_t) < of_nat n \<longleftrightarrow> k < n" if "k \<le> n" "n \<le> MAX_BIG" for k n
    using that by (subst of_nat_less_size_t) (simp_all add: MAX_BIG_def MAX_SMALL_def)
  have m1: "\<not> (- 1 :: size_t) < of_nat n" for n by (simp add: not_less)
  show "CrtDbgReportThunk True clear beh rawSmall rawBig t filename linenumber moduleName (Some msg) =
      (if length msg < MAX_SMALL \<and> length (report msg) < MAX_BIG
       then map_option (\<lambda>result. (report msg, result)) (afterCallThunk True beh t) else None)"
  proof (cases "length msg < MAX_SMALL")
    case False
    then have "\<not> (if length msg \<le> MAX_SMALL then of_nat (length msg) else - 1 :: size_t) < of_nat MAX_SMALL"
      using len [of "length msg" MAX_SMALL] m1 by (simp add: MAX_BIG_def)
    then show ?thesis using False assms(4,5) by (simp add: run report)
  next
    case True
    then have small: "(of_nat (length msg) :: size_t) < of_nat MAX_SMALL" "take MAX_SMALL msg = msg"
      using len [of "length msg" MAX_SMALL] by (simp_all add: MAX_BIG_def)
    show ?thesis
    proof (cases "length (report msg) < MAX_BIG")
      case True
      have "vsnprintf (clear rawBig) MAX_BIG (report msg) = Some (C, of_nat (length (report msg)))"
        "c_string C = Some (report msg)" using C small(2) True by simp_all
      then show ?thesis using True small \<open>length msg < MAX_SMALL\<close> len [of "length (report msg)" MAX_BIG] assms(4,5)
        by (cases "afterCallThunk True beh t") (simp_all add: CrtDbgReportThunk_def B Let_def report)
    next
      case False
      then have "\<not> (if length (report msg) \<le> MAX_BIG then of_nat (length (report msg)) else - 1 :: size_t) < of_nat MAX_BIG"
        using len [of "length (report msg)" MAX_BIG] m1 by simp
      moreover have "vsnprintf (clear rawBig) MAX_BIG (report msg) =
          Some (C, if length (report msg) \<le> MAX_BIG then of_nat (length (report msg)) else - 1)"
        using C(1) small(2) by simp
      ultimately show ?thesis using False small \<open>length msg < MAX_SMALL\<close> assms(4,5)
        by (simp add: CrtDbgReportThunk_def B Let_def report)
    qed
  qed
qed

text \<open>The wide version writes past its buffers exactly when a text is too long, in every build.\<close>

theorem CrtDbgReportThunkW_spec:
  assumes "clear_ok clear" "length rawSmall = MAX_SMALL + 1" "length rawBig = MAX_BIG + 1" "0 \<le> t" "t < 3"
    "0 \<notin> set filename" "0 \<notin> set moduleName" "0 \<notin> set msg"
    and report: "report = report_format (reportTypesW ! nat t) filename linenumber moduleName"
  shows "CrtDbgReportThunkW dbg clear beh rawSmall rawBig t filename linenumber moduleName (Some msg) =
      (if length msg \<le> MAX_SMALL \<and> length (report msg) \<le> MAX_BIG
       then map_option (\<lambda>result. (report msg, result)) (afterCallThunk dbg beh t) else None)"
proof -
  have z: "clear rawSmall = replicate (MAX_SMALL + 1) 0" "clear rawBig = replicate (MAX_BIG + 1) 0"
    using assms(1-3) by (simp_all add: clear_ok_def)
  note small = vsnprintf_doubled [of 801 1601 msg, OF _ _ assms(8)]
  have z1: "clear rawSmall = replicate 801 0" "clear rawBig = replicate 1401 0"
    using z by (simp_all add: MAX_BIG_def MAX_SMALL_def)
  have "0 \<notin> set (report msg)"
    using report_format_nonzero report_kinds(2) [OF assms(4,5)] assms(6-8) unfolding report by blast
  note big = vsnprintf_doubled [of 1401 2801 "report msg", OF _ _ this]
  have len: "(of_nat k :: size_t) < of_nat n" if "k < n" "n < 2 ^ 32" for k n
    using that by (subst of_nat_less_size_t) simp_all
  note run = CrtDbgReportThunkW_def Let_def MAX_SMALL_def MAX_BIG_def
  show ?thesis
  proof (cases "length msg \<le> 800")
    case False
    then have "vsnprintf (clear rawSmall) 1601 msg = None" using small(2) unfolding z1 by simp
    then show ?thesis using False assms(4,5) by (simp add: run)
  next
    case True
    then obtain B where B: "vsnprintf (clear rawSmall) 1601 msg = Some (B, of_nat (length msg))" "c_string B = Some msg"
      using small(1) unfolding z1 by auto
    have ls: "(of_nat (length msg) :: size_t) < 1601" using True len [of "length msg" 1601] by simp
    show ?thesis
    proof (cases "length (report msg) \<le> 1400")
      case False
      then have "vsnprintf (clear rawBig) 2801 (report msg) = None" using big(2) unfolding z1 by simp
      then show ?thesis using False True B ls assms(4,5) by (simp add: run report)
    next
      case big_ok: True
      then obtain C where C: "vsnprintf (clear rawBig) 2801 (report msg) = Some (C, of_nat (length (report msg)))"
        "c_string C = Some (report msg)" using big(1) unfolding z1 by auto
      have "(of_nat (length (report msg)) :: size_t) < 2801" using big_ok len [of "length (report msg)" 2801] by simp
      then show ?thesis using big_ok True B C ls assms(4,5)
        by (cases "afterCallThunk dbg beh t") (simp_all add: run report)
    qed
  qed
qed

subsection \<open>The jump\<close>

text \<open>When the bytes written lie in one page the patch succeeds, and the rights of the page are as before.\<close>

lemma div_between: "a \<le> b \<Longrightarrow> b \<le> (c :: nat) \<Longrightarrow> a div n = c div n \<Longrightarrow> b div n = c div n"
  by (metis div_le_mono le_antisym)

lemma patch_runs:
  assumes "rtos_ok rt" and "a div pg_size rt = final div pg_size rt"
    and final: "final = a + jl_offset lay + 3" and a: "a = unat replaced"
  shows "replaceFunctionByMemoryPatch rt lay s replaced replacer = Some (s\<lparr>cs_mem :=
    store_pointer ((cs_mem s)(a := 0xE9)) (a + jl_offset lay) (replacer - replaced - of_nat (jl_size lay))\<rparr>)"
proof -
  let ?o = "a + jl_offset lay"
  have one: "a div pg_size rt = (?o + 3) div pg_size rt" using assms(2) final by simp
  have p: "?o div pg_size rt = a div pg_size rt" "(?o + 1) div pg_size rt = a div pg_size rt"
    "(?o + 2) div pg_size rt = a div pg_size rt" "(?o + 3) div pg_size rt = a div pg_size rt"
    using div_between [OF _ _ one, of ?o] div_between [OF _ _ one, of "?o + 1"] div_between [OF _ _ one, of "?o + 2"] one
    by simp_all
  show ?thesis using assms(1) p
    by (simp add: replaceFunctionByMemoryPatch_def rtos_ok_def write_byte_def write_word_def
        store_pointer_def a [symmetric])
qed

lemma load_skewed:
  "load_pointer (store_pointer m (b + 3) d) b = load_pointer m b AND 0xFFFFFF OR push_bit 24 d"
proof -
  have m: "(0xFFFFFF :: 32 word) = mask 24" by (simp add: mask_eq_exp_minus_1)
  show ?thesis unfolding m
    by (rule bit_word_eqI) (auto simp: load_pointer_def store_pointer_def bit_simps dest: bit_imp_le_length)
qed

theorem patch_spec:
  assumes "rtos_ok rt" and a: "a = unat replaced"
  shows "a div pg_size rt = (a + 4) div pg_size rt \<Longrightarrow>
      \<exists>m. replaceFunctionByMemoryPatch rt \<lparr>jl_offset = 1, jl_size = 5\<rparr> s replaced replacer = Some (s\<lparr>cs_mem := m\<rparr>) \<and>
        jump_target m replaced = Some replacer \<and> (\<forall>x. x < a \<or> a + 5 \<le> x \<longrightarrow> m x = cs_mem s x)"
    "a div pg_size rt = (a + 7) div pg_size rt \<Longrightarrow>
      \<exists>m. replaceFunctionByMemoryPatch rt \<lparr>jl_offset = 4, jl_size = 8\<rparr> s replaced replacer = Some (s\<lparr>cs_mem := m\<rparr>) \<and>
        jump_target m replaced = Some (replaced + 5 +
          (load_pointer (cs_mem s) (a + 1) AND 0xFFFFFF OR push_bit 24 (replacer - replaced - 8)))"
proof -
  assume p: "a div pg_size rt = (a + 4) div pg_size rt"
  let ?m = "store_pointer ((cs_mem s)(a := 0xE9)) (a + 1) (replacer - replaced - 5)"
  have "replaceFunctionByMemoryPatch rt \<lparr>jl_offset = 1, jl_size = 5\<rparr> s replaced replacer = Some (s\<lparr>cs_mem := ?m\<rparr>)"
    using patch_runs [OF assms(1) p _ a, of "\<lparr>jl_offset = 1, jl_size = 5\<rparr>" s replacer] by simp
  moreover have "?m a = 0xE9" by (simp add: store_pointer_def)
  then have "jump_target ?m replaced = Some replacer"
    unfolding jump_target_def a [symmetric] by (simp only: load_store_pointer) simp
  moreover have "?m x = cs_mem s x" if "x < a \<or> a + 5 \<le> x" for x using that by (auto simp: store_pointer_def)
  ultimately show "\<exists>m. replaceFunctionByMemoryPatch rt \<lparr>jl_offset = 1, jl_size = 5\<rparr> s replaced replacer = Some (s\<lparr>cs_mem := m\<rparr>) \<and>
      jump_target m replaced = Some replacer \<and> (\<forall>x. x < a \<or> a + 5 \<le> x \<longrightarrow> m x = cs_mem s x)" by blast
next
  assume p: "a div pg_size rt = (a + 7) div pg_size rt"
  have shift: "a + 1 + 3 = a + 4" by simp
  let ?m = "store_pointer ((cs_mem s)(a := 0xE9)) (a + 4) (replacer - replaced - 8)"
  have "replaceFunctionByMemoryPatch rt \<lparr>jl_offset = 4, jl_size = 8\<rparr> s replaced replacer = Some (s\<lparr>cs_mem := ?m\<rparr>)"
    using patch_runs [OF assms(1) p _ a, of "\<lparr>jl_offset = 4, jl_size = 8\<rparr>" s replacer] by simp
  moreover have "?m a = 0xE9" by (simp add: store_pointer_def)
  moreover have "load_pointer ?m (a + 1) =
      load_pointer ((cs_mem s)(a := 0xE9)) (a + 1) AND 0xFFFFFF OR push_bit 24 (replacer - replaced - 8)"
    using load_skewed [of "(cs_mem s)(a := 0xE9)" "a + 1" "replacer - replaced - 8"] unfolding shift .
  moreover have "load_pointer ((cs_mem s)(a := 0xE9)) (a + 1) = load_pointer (cs_mem s) (a + 1)"
    by (simp add: load_pointer_def)
  ultimately show "\<exists>m. replaceFunctionByMemoryPatch rt \<lparr>jl_offset = 4, jl_size = 8\<rparr> s replaced replacer = Some (s\<lparr>cs_mem := m\<rparr>) \<and>
      jump_target m replaced = Some (replaced + 5 +
        (load_pointer (cs_mem s) (a + 1) AND 0xFFFFFF OR push_bit 24 (replacer - replaced - 8)))"
    unfolding jump_target_def a [symmetric] by (intro exI [of _ ?m]) simp
qed

end
