(* ===== verification/Unit_Test_Runner.thy ===== *)
theory Unit_Test_Runner
  imports Cpp_Prelude
begin

section \<open>The unit test runner\<close>

text \<open>
  UnitTests.h and UnitTests.cpp: modules register themselves under a name; the runner takes the names of a list that a
  file outside the repository supplies, initialises the module, lets a test thread run its \<open>main\<close>, waits with a
  time limit and finalises it. A test is three functions on the state of the world. What \<open>main\<close> does within the
  time limit is either to return, to throw, or to be still at work; the wrappers of the operating system (\<open>SendTestOrder\<close>,
  \<open>WaitTestOrderComplete\<close>, the constructor of the thread) are not in the repository: the first is a parameter, the second
  answers whether \<open>main\<close> is done, the third succeeds. Messages to the console are a log.
\<close>

subsection \<open>Tests and their registration\<close>

datatype test_exception = Std_exception string | Other_exception

datatype main_end = Main_returns | Main_throws test_exception | Main_still_running

record 's TAbstractUnitTest =
  ut_initialize :: "'s \<Rightarrow> 's \<times> test_exception option"
  ut_main :: "nat \<Rightarrow> 's \<Rightarrow> 's \<times> main_end"
  ut_finalize :: "'s \<Rightarrow> 's \<times> test_exception option"

text \<open>\<open>TUnitTestBase\<close>: three empty bodies, from which modules inherit.\<close>

definition TUnitTestBase :: "'s TAbstractUnitTest" where
  "TUnitTestBase = \<lparr>ut_initialize = (\<lambda>s. (s, None)), ut_main = (\<lambda>timeout s. (s, Main_returns)), ut_finalize = (\<lambda>s. (s, None))\<rparr>"

record 's TTestNameToTest =
  nt_TestName :: string
  nt_TestInstance :: "'s TAbstractUnitTest"
  nt_Timeout :: nat

definition add_test :: "'s TTestNameToTest list \<Rightarrow> string \<Rightarrow> 's TAbstractUnitTest \<Rightarrow> nat \<Rightarrow> 's TTestNameToTest list" where
  "add_test tests TestName testInstance Timeout =
     tests @ [\<lparr>nt_TestName = TestName, nt_TestInstance = testInstance, nt_Timeout = Timeout\<rparr>]"

definition find_test :: "'s TTestNameToTest list \<Rightarrow> string \<Rightarrow> 's TTestNameToTest option" where
  "find_test tests TestName = find (\<lambda>t. TestName = nt_TestName t) tests"

subsection \<open>The test thread\<close>

datatype message =
    BeginMessage nat
  | OnceErrorMessage
  | ExecuteUnitTestMessage string nat
  | UnknownUnitTestMessage string nat
  | InitializationExceptionMessage string nat string
  | FinalizationExceptionMessage string nat string
  | ExceptionMessage string nat string
  | LackFreeCPUTimeMessage
  | TimeoutMessage string nat nat
  | EndMessage

record 's runner =
  ru_world :: 's
  ru_once :: bool
  ru_log :: "message list"

definition DebugConsoleMessage :: "message \<Rightarrow> 's runner \<Rightarrow> 's runner" where
  "DebugConsoleMessage m st = st\<lparr>ru_log := ru_log st @ [m]\<rparr>"

text \<open>One turn of the thread: whether the order is complete when the time is over. Only exceptions derived from
  \<open>std::exception\<close> are caught; another one ends the program.\<close>

definition thread_body :: "bool \<Rightarrow> 's TAbstractUnitTest \<Rightarrow> nat \<Rightarrow> string \<Rightarrow> nat \<Rightarrow> 's runner \<Rightarrow> ('s runner \<times> bool) option" where
  "thread_body dbg unitTest timeout testName testNumber st = (case ut_main unitTest timeout (ru_world st) of (s, r) \<Rightarrow>
     let st = st\<lparr>ru_world := s\<rparr> in
     (case r of
       Main_returns \<Rightarrow> Some (st, True)
     | Main_throws (Std_exception what) \<Rightarrow> do {
         let st = DebugConsoleMessage (ExceptionMessage testName testNumber what) st;
         ASSERT dbg False;
         Some (st, True) }
     | Main_throws Other_exception \<Rightarrow> None
     | Main_still_running \<Rightarrow> Some (st, False)))"

definition callAsyncTest :: "bool \<Rightarrow> (nat \<Rightarrow> bool) \<Rightarrow> 's TAbstractUnitTest \<Rightarrow> nat \<Rightarrow> string \<Rightarrow> nat \<Rightarrow> 's runner \<Rightarrow>
    ('s runner \<times> bool) option" where
  "callAsyncTest dbg SendTestOrder unitTest UnitTestTimeout TestName TestNumber st = (
     if \<not> SendTestOrder TestNumber then do {
       let st = DebugConsoleMessage LackFreeCPUTimeMessage st;
       ASSERT dbg False;
       Some (st, False) }
     else do {
       (st, complete) \<leftarrow> thread_body dbg unitTest UnitTestTimeout TestName TestNumber st;
       if \<not> complete then do {
         let st = DebugConsoleMessage (TimeoutMessage TestName TestNumber UnitTestTimeout) st;
         ASSERT dbg False;
         Some (st, False) }
       else Some (st, True) })"

subsection \<open>runInternal\<close>

text \<open>How a run ends: behind its last test, by the early return after a time-out, or by an exception that is
  not a \<open>std::exception\<close>.\<close>

datatype run_end = Completed | Stopped | Propagated

fun run_list :: "bool \<Rightarrow> (nat \<Rightarrow> bool) \<Rightarrow> 's TTestNameToTest list \<Rightarrow> nat \<Rightarrow> string list \<Rightarrow> 's runner \<Rightarrow>
    ('s runner \<times> run_end) option" where
  "run_list dbg SendTestOrder tests TestNumber [] st = Some (DebugConsoleMessage EndMessage st, Completed)"
| "run_list dbg SendTestOrder tests TestNumber (TestName # names) st = (
     let st = DebugConsoleMessage (ExecuteUnitTestMessage TestName TestNumber) st in
     case find_test tests TestName of
       None \<Rightarrow> None
     | Some t \<Rightarrow> (case ut_initialize (nt_TestInstance t) (ru_world st) of
         (s, Some Other_exception) \<Rightarrow> Some (st\<lparr>ru_world := s\<rparr>, Propagated)
       | (s, Some (Std_exception what)) \<Rightarrow> do {
           let st = DebugConsoleMessage (InitializationExceptionMessage TestName TestNumber what) (st\<lparr>ru_world := s\<rparr>);
           ASSERT dbg False;
           run_list dbg SendTestOrder tests (Suc TestNumber) names st }
       | (s, None) \<Rightarrow> do {
           (st, called) \<leftarrow> callAsyncTest dbg SendTestOrder (nt_TestInstance t) (nt_Timeout t) TestName TestNumber
             (st\<lparr>ru_world := s\<rparr>);
           if \<not> called then Some (st, Stopped)
           else (case ut_finalize (nt_TestInstance t) (ru_world st) of
             (s, Some Other_exception) \<Rightarrow> Some (st\<lparr>ru_world := s\<rparr>, Propagated)
           | (s, Some (Std_exception what)) \<Rightarrow> do {
               let st = DebugConsoleMessage (FinalizationExceptionMessage TestName TestNumber what) (st\<lparr>ru_world := s\<rparr>);
               ASSERT dbg False;
               run_list dbg SendTestOrder tests (Suc TestNumber) names st }
           | (s, None) \<Rightarrow> run_list dbg SendTestOrder tests (Suc TestNumber) names (st\<lparr>ru_world := s\<rparr>)) }))"

definition runInternal :: "bool \<Rightarrow> (nat \<Rightarrow> bool) \<Rightarrow> 's TTestNameToTest list \<Rightarrow> string list \<Rightarrow> 's runner \<Rightarrow>
    ('s runner \<times> run_end) option" where
  "runInternal dbg SendTestOrder tests TestList st = do {
     let st = DebugConsoleMessage (BeginMessage (length TestList)) st;
     let st = (if ru_once st then DebugConsoleMessage OnceErrorMessage st else st);
     ASSERT dbg (\<not> ru_once st);
     run_list dbg SendTestOrder tests 1 TestList (st\<lparr>ru_once := True\<rparr>) }"

text \<open>The configuration decides whether tests run at all.\<close>

definition runUnitTests :: "bool \<Rightarrow> bool \<Rightarrow> (nat \<Rightarrow> bool) \<Rightarrow> 's TTestNameToTest list \<Rightarrow> string list \<Rightarrow> 's runner \<Rightarrow>
    ('s runner \<times> run_end) option" where
  "runUnitTests unitTestsOn dbg SendTestOrder tests TestList st =
     (if unitTestsOn then runInternal dbg SendTestOrder tests TestList st else Some (st, Completed))"

subsection \<open>What a run means\<close>

text \<open>The specification: the world after all tests, if every one is registered, gets its order through and ends
  its three parts in time without an exception.\<close>

definition test_passes :: "(nat \<Rightarrow> bool) \<Rightarrow> 's TTestNameToTest \<Rightarrow> nat \<Rightarrow> 's \<Rightarrow> 's option" where
  "test_passes SendTestOrder t n s = (case ut_initialize (nt_TestInstance t) s of
     (s, Some ex) \<Rightarrow> None
   | (s, None) \<Rightarrow> if \<not> SendTestOrder n then None
       else (case ut_main (nt_TestInstance t) (nt_Timeout t) s of
         (s, Main_returns) \<Rightarrow> (case ut_finalize (nt_TestInstance t) s of (s, None) \<Rightarrow> Some s | (s, Some ex) \<Rightarrow> None)
       | (s, r) \<Rightarrow> None))"

fun all_pass :: "(nat \<Rightarrow> bool) \<Rightarrow> 's TTestNameToTest list \<Rightarrow> nat \<Rightarrow> string list \<Rightarrow> 's \<Rightarrow> 's option" where
  "all_pass SendTestOrder tests n [] s = Some s"
| "all_pass SendTestOrder tests n (name # names) s = do {
     t \<leftarrow> find_test tests name;
     s \<leftarrow> test_passes SendTestOrder t n s;
     all_pass SendTestOrder tests (Suc n) names s }"

fun execute_messages :: "nat \<Rightarrow> string list \<Rightarrow> message list" where
  "execute_messages n [] = []"
| "execute_messages n (name # names) = ExecuteUnitTestMessage name n # execute_messages (Suc n) names"

lemma run_list_debug:
  "(case all_pass SendTestOrder tests n names (ru_world st) of
      Some s \<Rightarrow> run_list True SendTestOrder tests n names st =
        Some (st\<lparr>ru_world := s, ru_log := ru_log st @ execute_messages n names @ [EndMessage]\<rparr>, Completed)
    | None \<Rightarrow> run_list True SendTestOrder tests n names st = None \<or>
        (\<exists>st'. run_list True SendTestOrder tests n names st = Some (st', Propagated)))"
proof (induction names arbitrary: n st)
  case Nil
  then show ?case by (simp add: DebugConsoleMessage_def)
next
  case (Cons name names)
  show ?case
  proof (cases "find_test tests name")
    case None
    then show ?thesis by (simp add: Let_def)
  next
    case (Some t)
    note run = Some Let_def DebugConsoleMessage_def test_passes_def callAsyncTest_def thread_body_def
    obtain s1 ex1 where i: "ut_initialize (nt_TestInstance t) (ru_world st) = (s1, ex1)" by fastforce
    obtain s2 r where m: "ut_main (nt_TestInstance t) (nt_Timeout t) s1 = (s2, r)" by fastforce
    obtain s3 ex3 where f: "ut_finalize (nt_TestInstance t) s2 = (s3, ex3)" by fastforce
    show ?thesis
    proof (cases "ex1 = None \<and> SendTestOrder n \<and> r = Main_returns \<and> ex3 = None")
      case True
      then show ?thesis
        using i m f Cons.IH [of "Suc n" "\<lparr>ru_world = s3, ru_once = ru_once st, ru_log = ru_log st @ [ExecuteUnitTestMessage name n]\<rparr>"]
        by (cases st) (auto simp: run split: option.splits)
    next
      case False
      then have "test_passes SendTestOrder t n (ru_world st) = None"
        using i m f by (auto simp: test_passes_def split: option.splits main_end.splits)
      moreover from False i m f have "run_list True SendTestOrder tests n (name # names) st = None \<or>
          (\<exists>st'. run_list True SendTestOrder tests n (name # names) st = Some (st', Propagated))"
        by (auto simp: run split: option.splits main_end.splits test_exception.splits)
      ultimately show ?thesis using Some by simp
    qed
  qed
qed

theorem runInternal_debug:
  "(\<exists>st'. runInternal True SendTestOrder tests names st = Some (st', Completed)) \<longleftrightarrow>
     \<not> ru_once st \<and> all_pass SendTestOrder tests 1 names (ru_world st) \<noteq> None"
  "\<not> ru_once st \<Longrightarrow> all_pass SendTestOrder tests 1 names (ru_world st) = Some s \<Longrightarrow>
     runInternal True SendTestOrder tests names st = Some (\<lparr>ru_world = s, ru_once = True,
       ru_log = ru_log st @ BeginMessage (length names) # execute_messages 1 names @ [EndMessage]\<rparr>, Completed)"
  using run_list_debug [of SendTestOrder tests 1 names
      "\<lparr>ru_world = ru_world st, ru_once = True, ru_log = ru_log st @ [BeginMessage (length names)]\<rparr>"]
  by (cases st; auto simp: runInternal_def DebugConsoleMessage_def Let_def split: option.splits)+

text \<open>A release build goes on after exceptions: only a time-out, an order that is not taken, an unknown name or an exception of
  another kind keep the final message from being printed.\<close>

definition test_ends :: "(nat \<Rightarrow> bool) \<Rightarrow> 's TTestNameToTest \<Rightarrow> nat \<Rightarrow> bool" where
  "test_ends SendTestOrder t n \<longleftrightarrow> SendTestOrder n \<and>
     (\<forall>s. snd (ut_initialize (nt_TestInstance t) s) \<noteq> Some Other_exception \<and>
        snd (ut_finalize (nt_TestInstance t) s) \<noteq> Some Other_exception \<and>
        snd (ut_main (nt_TestInstance t) (nt_Timeout t) s) \<notin> {Main_still_running, Main_throws Other_exception})"

lemma run_list_release:
  assumes "\<forall>i<length names. \<exists>t. find_test tests (names ! i) = Some t \<and> test_ends SendTestOrder t (n + i)"
  shows "\<exists>st'. run_list False SendTestOrder tests n names st = Some (st', Completed)"
  using assms
proof (induction names arbitrary: n st)
  case Nil
  then show ?case by simp
next
  case (Cons name names)
  from Cons.prems obtain t where t: "find_test tests name = Some t" "test_ends SendTestOrder t n" by fastforce
  have rest: "\<exists>st'. run_list False SendTestOrder tests (Suc n) names st = Some (st', Completed)" for st
  proof (rule Cons.IH, intro allI impI)
    fix i assume "i < length names"
    with Cons.prems [rule_format, of "Suc i"]
    show "\<exists>t. find_test tests (names ! i) = Some t \<and> test_ends SendTestOrder t (Suc n + i)" by simp
  qed
  obtain s1 ex1 where i: "ut_initialize (nt_TestInstance t) (ru_world st) = (s1, ex1)" by fastforce
  obtain s2 r where m: "ut_main (nt_TestInstance t) (nt_Timeout t) s1 = (s2, r)" by fastforce
  obtain s3 ex3 where f: "ut_finalize (nt_TestInstance t) s2 = (s3, ex3)" by fastforce
  have "SendTestOrder n" "ex1 \<noteq> Some Other_exception" "r \<noteq> Main_still_running" "r \<noteq> Main_throws Other_exception"
    "ex3 \<noteq> Some Other_exception"
    using t(2) i m f unfolding test_ends_def by (metis insertCI snd_conv)+
  then show ?case using t(1) i m f
    by (auto simp: Let_def DebugConsoleMessage_def callAsyncTest_def thread_body_def
        split: option.splits main_end.splits test_exception.splits intro!: rest)
qed

text \<open>A second module of the same name is never run.\<close>

lemma find_add_test:
  "find_test (add_test tests name t timeout) x =
     (case find_test tests x of Some u \<Rightarrow> Some u
      | None \<Rightarrow> if x = name then Some \<lparr>nt_TestName = name, nt_TestInstance = t, nt_Timeout = timeout\<rparr> else None)"
  by (induction tests) (auto simp: find_test_def add_test_def)

lemma run_list_cong:
  "(\<And>x. find_test tests x = find_test tests' x) \<Longrightarrow> run_list dbg SendTestOrder tests n names st = run_list dbg SendTestOrder tests' n names st"
  by (induction names arbitrary: n st)
    (simp_all cong: option.case_cong prod.case_cong test_exception.case_cong if_cong)

theorem second_registration_ignored:
  assumes "find_test tests name \<noteq> None"
  shows "runInternal dbg SendTestOrder (add_test tests name t timeout) names st = runInternal dbg SendTestOrder tests names st"
proof -
  have "find_test (add_test tests name t timeout) x = find_test tests x" for x
    using assms by (auto simp: find_add_test split: option.splits)
  note eq = run_list_cong [OF this]
  show ?thesis by (simp add: runInternal_def eq)
qed

end
