(* ===== verification/Win_Heap.thy ===== *)
theory Win_Heap
  imports Exception_Tools
begin

section \<open>Heaps with construction and destruction of objects\<close>

text \<open>
  WinHeap.h and WinHeap.cpp: the abstract \<open>Heap\<close>, whose \<open>construct\<close> and \<open>destruct\<close> are guarded by the scope exits of
  SCOPE_EXIT.h, and its implementation on a Windows heap. The heap functions of the system are a record of functions on a
  state \<open>'os\<close>; the constructor and the destructor of the object are pieces of code on the same state. The virtual
  functions an operation of \<open>Heap\<close> calls are its first arguments. A null pointer is 0.
\<close>

subsection \<open>WinHeap\<close>

record 'os heap_api =
  HeapCreate :: "'os \<Rightarrow> 'os \<times> nat"
  HeapDestroy :: "'os \<Rightarrow> nat \<Rightarrow> 'os"
  GetProcessHeap :: nat
  HeapAlloc :: "'os \<Rightarrow> nat \<Rightarrow> size_t \<Rightarrow> 'os \<times> nat"
  HeapFree :: "'os \<Rightarrow> nat \<Rightarrow> nat \<Rightarrow> 'os"

datatype heap_deleter = Destroys_heap | Keeps_heap

record WinHeap =
  wh_heapHandle :: nat
  wh_deleter :: heap_deleter

definition WinHeap_new :: "'os heap_api \<Rightarrow> 'os \<Rightarrow> 'os \<times> WinHeap" where
  "WinHeap_new api os = (case HeapCreate api os of (os, h) \<Rightarrow> (os, \<lparr>wh_heapHandle = h, wh_deleter = Destroys_heap\<rparr>))"

definition WinHeap_default :: "'os heap_api \<Rightarrow> WinHeap" where
  "WinHeap_default api = \<lparr>wh_heapHandle = GetProcessHeap api, wh_deleter = Keeps_heap\<rparr>"

text \<open>Moving a \<open>unique_ptr\<close> leaves a null pointer behind.\<close>

definition WinHeap_move :: "WinHeap \<Rightarrow> WinHeap \<times> WinHeap" where
  "WinHeap_move h = (h, h\<lparr>wh_heapHandle := 0\<rparr>)"

definition delete_handle :: "'os heap_api \<Rightarrow> 'os \<Rightarrow> WinHeap \<Rightarrow> 'os" where
  "delete_handle api os w = (if wh_heapHandle w = 0 then os
     else case wh_deleter w of Destroys_heap \<Rightarrow> HeapDestroy api os (wh_heapHandle w) | Keeps_heap \<Rightarrow> os)"

definition WinHeap_move_assign :: "'os heap_api \<Rightarrow> 'os \<Rightarrow> WinHeap \<Rightarrow> WinHeap \<Rightarrow> 'os \<times> WinHeap \<times> WinHeap" where
  "WinHeap_move_assign api os w h = (delete_handle api os w, h, h\<lparr>wh_heapHandle := 0\<rparr>)"

definition WinHeap_Deallocate :: "'os heap_api \<Rightarrow> WinHeap \<Rightarrow> 'os \<Rightarrow> nat \<Rightarrow> 'os" where
  "WinHeap_Deallocate api w os pointer = (if pointer = 0 then os
     else if wh_heapHandle w = 0 then os else HeapFree api os (wh_heapHandle w) pointer)"

definition WinHeap_Allocate :: "'os heap_api \<Rightarrow> WinHeap \<Rightarrow> 'os \<Rightarrow> size_t \<Rightarrow> 'os \<times> nat" where
  "WinHeap_Allocate api w os sz = (let sz = (if sz \<le> 0 then sz + 1 else sz) in
     if wh_heapHandle w = 0 then (os, 0) else HeapAlloc api os (wh_heapHandle w) sz)"

datatype heap_exception = Not_implemented

definition WinHeap_Reallocate :: "WinHeap \<Rightarrow> nat \<Rightarrow> size_t \<Rightarrow> heap_exception + nat" where
  "WinHeap_Reallocate w pointer sz = Inl Not_implemented"

definition WinHeap_Size :: "WinHeap \<Rightarrow> nat \<Rightarrow> heap_exception + size_t" where
  "WinHeap_Size w pointer = Inl Not_implemented"

subsection \<open>Heap\<close>

definition Heap_construct :: "('s \<Rightarrow> size_t \<Rightarrow> 's \<times> nat) \<Rightarrow> ('s \<Rightarrow> nat \<Rightarrow> 's) \<Rightarrow> size_t \<Rightarrow> (nat \<Rightarrow> ('s, 'e) code) \<Rightarrow> nat \<Rightarrow> 's \<Rightarrow>
    ('s \<times> ('e + nat)) option" where
  "Heap_construct Allocate Deallocate sizeofT ctor uncaught s = (case Allocate s sizeofT of (s, buf_original) \<Rightarrow>
     if buf_original = 0 then Some (s, Inr 0)
     else do {
       ((s, buf), ex) \<leftarrow> guarded ScopeFailureExit_destructor uncaught
         (\<lambda>(s, buf). ((Deallocate s buf, 0), None))
         (\<lambda>(s, buf). case ctor buf s of (s, ex) \<Rightarrow> ((s, buf), ex)) (s, buf_original);
       (case ex of Some ex \<Rightarrow> Some (s, Inl ex) | None \<Rightarrow> Some (s, Inr buf)) })"

definition Heap_destruct :: "('s \<Rightarrow> nat \<Rightarrow> 's) \<Rightarrow> (nat \<Rightarrow> ('s, 'e) code) \<Rightarrow> nat \<Rightarrow> nat \<Rightarrow> 's \<Rightarrow> ('s \<times> 'e option) option" where
  "Heap_destruct Deallocate dtor uncaught v s = (if v = 0 then Some (s, None)
     else guarded ScopeExit_destructor uncaught (\<lambda>s. (Deallocate s v, None)) (dtor v) s)"

text \<open>\<open>construct_unique\<close> pairs the object with the deleter that calls \<open>destruct\<close>; the pointer calls it unless it is null.\<close>

definition Heap_construct_unique :: "('s \<Rightarrow> size_t \<Rightarrow> 's \<times> nat) \<Rightarrow> ('s \<Rightarrow> nat \<Rightarrow> 's) \<Rightarrow> size_t \<Rightarrow> (nat \<Rightarrow> ('s, 'e) code) \<Rightarrow>
    (nat \<Rightarrow> ('s, 'e) code) \<Rightarrow> nat \<Rightarrow> 's \<Rightarrow> ('s \<times> ('e + nat \<times> (nat \<Rightarrow> 's \<Rightarrow> ('s \<times> 'e option) option))) option" where
  "Heap_construct_unique Allocate Deallocate sizeofT ctor dtor uncaught s = do {
     (s, r) \<leftarrow> Heap_construct Allocate Deallocate sizeofT ctor uncaught s;
     (case r of Inl ex \<Rightarrow> Some (s, Inl ex) | Inr v \<Rightarrow> Some (s, Inr (v, Heap_destruct Deallocate dtor v))) }"

text \<open>\<open>store\<close> writes the characters of a string at an address.\<close>

definition Heap_cstrdup :: "('s \<Rightarrow> size_t \<Rightarrow> 's \<times> nat) \<Rightarrow> ('s \<Rightarrow> nat \<Rightarrow> string \<Rightarrow> 's) \<Rightarrow> 's \<Rightarrow> string option \<Rightarrow> 's \<times> nat" where
  "Heap_cstrdup Allocate store s str = (case str of None \<Rightarrow> (s, 0)
   | Some str \<Rightarrow> (let len = of_nat (length str) + 1 in
       case Allocate s len of (s, buf) \<Rightarrow> if buf = 0 then (s, 0) else (store s buf (str @ [CHR 0x00]), buf)))"

subsection \<open>Nothing leaks\<close>

text \<open>What the code relies on: the blocks of the heap \<open>h\<close> are \<open>live os h\<close>; an allocation returns null or a new block, and
  freeing removes one.\<close>

definition heap_api_ok :: "'os heap_api \<Rightarrow> ('os \<Rightarrow> nat \<Rightarrow> nat set) \<Rightarrow> bool" where
  "heap_api_ok api live \<longleftrightarrow>
     (\<forall>os h n. case HeapAlloc api os h n of (os', p) \<Rightarrow>
        if p = 0 then live os' = live os else p \<notin> live os h \<and> live os' = (live os)(h := insert p (live os h))) \<and>
     (\<forall>os h p. live (HeapFree api os h p) = (live os)(h := live os h - {p}))"

definition keeps :: "('os \<Rightarrow> 'l) \<Rightarrow> (nat \<Rightarrow> ('os, 'e) code) \<Rightarrow> bool" where
  "keeps live c \<longleftrightarrow> (\<forall>p s. live (fst (c p s)) = live s)"

lemma Heap_construct_cases:
  "Heap_construct Allocate Deallocate n ctor uncaught s = (case Allocate s n of (s1, p) \<Rightarrow>
     if p = 0 then Some (s1, Inr 0)
     else (case ctor p s1 of (s2, None) \<Rightarrow> Some (s2, Inr p) | (s2, Some ex) \<Rightarrow> Some (Deallocate s2 p, Inl ex)))"
  by (simp add: Heap_construct_def scope_failure_runs split: prod.splits option.splits)

lemma Heap_destruct_cases:
  "Heap_destruct Deallocate dtor uncaught p s =
     Some (if p = 0 then (s, None) else (Deallocate (fst (dtor p s)) p, snd (dtor p s)))"
  by (simp add: Heap_destruct_def scope_exit_runs split: option.splits)

theorem construct_destruct_spec:
  assumes api: "heap_api_ok api live" and k: "keeps live ctor" "keeps live dtor" and h: "wh_heapHandle w = h"
    and mk_def: "Heap_construct (WinHeap_Allocate api w) (WinHeap_Deallocate api w) n ctor uncaught os = mk"
  shows "case WinHeap_Allocate api w os n of (os1, p) \<Rightarrow>
    if p = 0 then mk = Some (os1, Inr 0) \<and> live os1 = live os
    else p \<notin> live os h \<and> (case ctor p os1 of
        (os2, Some ex) \<Rightarrow> \<exists>os'. mk = Some (os', Inl ex) \<and> live os' = live os
      | (os2, None) \<Rightarrow> mk = Some (os2, Inr p) \<and> live os2 = (live os)(h := insert p (live os h)) \<and>
          (\<exists>os'. Heap_destruct (WinHeap_Deallocate api w) dtor uncaught' p os2 = Some (os', snd (dtor p os2)) \<and> live os' = live os))"
proof -
  obtain os1 p where a: "WinHeap_Allocate api w os n = (os1, p)" by fastforce
  have law: "if p = 0 then live os1 = live os else p \<notin> live os h \<and> live os1 = (live os)(h := insert p (live os h))"
    if "HeapAlloc api os h m = (os1, p)" for m
    using api that unfolding heap_api_ok_def by (auto dest!: spec [of _ os] spec [of _ h] spec [of _ m])
  have al: "if p = 0 then live os1 = live os
      else h \<noteq> 0 \<and> p \<notin> live os h \<and> live os1 = (live os)(h := insert p (live os h))"
    using a h law by (fastforce simp: WinHeap_Allocate_def Let_def split: if_splits)
  have free: "live (WinHeap_Deallocate api w s p) = live os"
    if "p \<noteq> 0" "live s = (live os)(h := insert p (live os h))" for s
    using that al h api by (auto simp: WinHeap_Deallocate_def heap_api_ok_def)
  show ?thesis
  proof (cases "p = 0")
    case True
    then show ?thesis using a al by (simp add: mk_def[symmetric] Heap_construct_cases)
  next
    case False
    obtain os2 ex where c: "ctor p os1 = (os2, ex)" by fastforce
    then have l2: "live os2 = (live os)(h := insert p (live os h))" using k(1) al False unfolding keeps_def by (metis fst_conv)
    have l3: "live (fst (dtor p os2)) = (live os)(h := insert p (live os h))" using k(2) l2 unfolding keeps_def by metis
    show ?thesis
      using False a c al l2 free [OF False l2] free [OF False l3]
      by (cases ex) (auto simp: mk_def[symmetric] Heap_construct_cases Heap_destruct_cases)
  qed
qed

text \<open>A heap that has been moved from hands out nothing, and gives nothing back: a block freed through it
  stays allocated.\<close>

lemma moved_from_heap:
  assumes "WinHeap_move w = (new, old)"
  shows "WinHeap_Allocate api old os n = (os, 0)" "WinHeap_Deallocate api old os p = os" "delete_handle api os old = os"
    "WinHeap_Allocate api new = WinHeap_Allocate api w"
  using assms by (auto simp: WinHeap_move_def WinHeap_Allocate_def WinHeap_Deallocate_def delete_handle_def Let_def)

end
