(* ===== verification/Type_Traits.thy ===== *)
theory Type_Traits
  imports Cpp_Prelude
begin

section \<open>Type traits of accessory.h\<close>

text \<open>
  The compile-time functions of accessory.h that classify types by overload resolution and \<open>sizeof\<close>: types are data, the
  traits are functions on them. \<open>createObject()\<close> yields an lvalue of the type; it matches an overload for
  a (qualified) \<open>void*\<close> when it is an object pointer, an array, or of a class with a conversion to a pointer, and an overload for a
  reference to an array when it is an array of that element type and length. Sizes are those of the 32-bit
  compiler. A static check that fails is \<open>None\<close>: the program does not compile.
\<close>

subsection \<open>Types\<close>

datatype fundamental = F_bool | F_char | F_signed_char | F_unsigned_char | F_wchar_t | F_signed_short | F_unsigned_short |
  F_signed_int | F_unsigned_int | F_signed_long | F_unsigned_long | F_long_long | F_float | F_double | F_long_double

datatype cpp_type = CppType (t_const: bool) (t_volatile: bool) (t_core: core)
and core = Fundamental fundamental | PointerTo cpp_type | FunctionPointer | ArrayOf cpp_type nat | ClassType nat bool

abbreviation plain :: "core \<Rightarrow> cpp_type" where
  "plain c \<equiv> CppType False False c"

fun sizeof_fundamental :: "fundamental \<Rightarrow> nat" where
  "sizeof_fundamental F_bool = 1"
| "sizeof_fundamental F_char = 1"
| "sizeof_fundamental F_signed_char = 1"
| "sizeof_fundamental F_unsigned_char = 1"
| "sizeof_fundamental F_wchar_t = 2"
| "sizeof_fundamental F_signed_short = 2"
| "sizeof_fundamental F_unsigned_short = 2"
| "sizeof_fundamental F_signed_int = 4"
| "sizeof_fundamental F_unsigned_int = 4"
| "sizeof_fundamental F_signed_long = 4"
| "sizeof_fundamental F_unsigned_long = 4"
| "sizeof_fundamental F_long_long = 8"
| "sizeof_fundamental F_float = 4"
| "sizeof_fundamental F_double = 8"
| "sizeof_fundamental F_long_double = 8"

text \<open>The number in a class type is its size, the flag tells whether it converts to a pointer.\<close>

fun sizeof_type :: "cpp_type \<Rightarrow> nat" and sizeof_core :: "core \<Rightarrow> nat" where
  "sizeof_type (CppType c v t) = sizeof_core t"
| "sizeof_core (Fundamental f) = sizeof_fundamental f"
| "sizeof_core (PointerTo t) = 4"
| "sizeof_core FunctionPointer = 4"
| "sizeof_core (ArrayOf t n) = n * sizeof_type t"
| "sizeof_core (ClassType n conv) = n"

subsection \<open>TTypeChecker\<close>

fun pointerCheck_small :: "core \<Rightarrow> bool" where
  "pointerCheck_small (PointerTo t) = True"
| "pointerCheck_small (ArrayOf t n) = True"
| "pointerCheck_small (ClassType n conv) = conv"
| "pointerCheck_small c = False"

definition array_overloads :: "fundamental list" where
  "array_overloads = [F_bool, F_char, F_signed_char, F_unsigned_char, F_signed_short, F_unsigned_short,
     F_signed_long, F_unsigned_long, F_signed_int, F_unsigned_int, F_float]"

definition SMALL_RESULT_IF_ARRAY_OF :: "fundamental \<Rightarrow> core \<Rightarrow> bool" where
  "SMALL_RESULT_IF_ARRAY_OF f c = (case c of ArrayOf t n \<Rightarrow> t_core t = Fundamental f \<and> n = 4 div sizeof_fundamental f | _ \<Rightarrow> False)"

definition arrayCheck_small :: "core \<Rightarrow> bool" where
  "arrayCheck_small c \<longleftrightarrow> (\<exists>f\<in>set array_overloads. SMALL_RESULT_IF_ARRAY_OF f c)"

text \<open>The explicit specialisations, for the plain and for the volatile type.\<close>

definition simple_types :: "fundamental list" where
  "simple_types = [F_bool, F_char, F_signed_char, F_unsigned_char, F_signed_short, F_unsigned_short, F_signed_long,
     F_unsigned_long, F_signed_int, F_unsigned_int]"

definition float_types :: "fundamental list" where
  "float_types = [F_float, F_double, F_long_double]"

definition specialised :: "fundamental list \<Rightarrow> cpp_type \<Rightarrow> bool" where
  "specialised fs t \<longleftrightarrow> \<not> t_const t \<and> (case t_core t of Fundamental f \<Rightarrow> f \<in> set fs | _ \<Rightarrow> False)"

definition IS_FLOAT :: "cpp_type \<Rightarrow> bool" where
  "IS_FLOAT t \<longleftrightarrow> specialised float_types t"

definition IS_SIMPLE :: "cpp_type \<Rightarrow> bool" where
  "IS_SIMPLE t \<longleftrightarrow> specialised simple_types t \<or> specialised float_types t"

definition IS_ARRAY :: "cpp_type \<Rightarrow> bool" where
  "IS_ARRAY t \<longleftrightarrow> (if IS_SIMPLE t then False
     else pointerCheck_small (t_core t) \<and> sizeof_type t \<noteq> 4 \<or> arrayCheck_small (t_core t))"

definition IS_POINTER :: "cpp_type \<Rightarrow> bool" where
  "IS_POINTER t \<longleftrightarrow> (if IS_SIMPLE t then False else pointerCheck_small (t_core t) \<and> \<not> IS_ARRAY t)"

definition IS_OBJECT :: "cpp_type \<Rightarrow> bool" where
  "IS_OBJECT t \<longleftrightarrow> \<not> (IS_SIMPLE t \<or> IS_POINTER t \<or> IS_ARRAY t)"

lemmas trait_defs = IS_OBJECT_def IS_POINTER_def IS_ARRAY_def IS_SIMPLE_def IS_FLOAT_def specialised_def

text \<open>Every type falls into exactly one of the four classes, and only simple types are floating point types.\<close>

theorem classes_partition:
  "length (filter id [IS_SIMPLE t, IS_POINTER t, IS_ARRAY t, IS_OBJECT t]) = 1" "IS_FLOAT t \<Longrightarrow> IS_SIMPLE t"
  by (auto simp: trait_defs)

text \<open>What the classes are: an array that happens to have the size of a pointer is taken for a pointer unless its elements
  are of one of the listed types, and a class with a conversion to a pointer is taken for a pointer or an array.\<close>

theorem IS_ARRAY_iff:
  "IS_ARRAY (CppType c v (ArrayOf e n)) \<longleftrightarrow> n * sizeof_type e \<noteq> 4 \<or>
     (\<exists>f\<in>set array_overloads. t_core e = Fundamental f \<and> n * sizeof_type e = 4)"
  "IS_POINTER (CppType c v (ArrayOf e n)) \<longleftrightarrow> \<not> IS_ARRAY (CppType c v (ArrayOf e n))"
proof -
  have size: "sizeof_type e = sizeof_fundamental f" if "t_core e = Fundamental f" for f using that by (cases e) simp
  have div: "n = 4 div sizeof_fundamental f \<longleftrightarrow> n * sizeof_fundamental f = 4" if "f \<in> set array_overloads" for f
    using that by (auto simp: array_overloads_def)
  have "arrayCheck_small (ArrayOf e n) \<longleftrightarrow> (\<exists>f\<in>set array_overloads. t_core e = Fundamental f \<and> n * sizeof_type e = 4)"
    using size div by (auto simp: arrayCheck_small_def SMALL_RESULT_IF_ARRAY_OF_def)
  then show "IS_ARRAY (CppType c v (ArrayOf e n)) \<longleftrightarrow> n * sizeof_type e \<noteq> 4 \<or>
     (\<exists>f\<in>set array_overloads. t_core e = Fundamental f \<and> n * sizeof_type e = 4)"
    "IS_POINTER (CppType c v (ArrayOf e n)) \<longleftrightarrow> \<not> IS_ARRAY (CppType c v (ArrayOf e n))"
    by (auto simp: trait_defs)
qed

lemma other_types:
  "IS_POINTER (CppType c v (PointerTo t))"
  "IS_OBJECT (CppType c v FunctionPointer)"
  "IS_OBJECT (CppType True v (Fundamental f))"
  "IS_OBJECT (CppType c v (ClassType n False))"
  "IS_POINTER (CppType c v (ClassType n True)) \<longleftrightarrow> n = 4"
  "IS_ARRAY (CppType c v (ClassType n True)) \<longleftrightarrow> n \<noteq> 4"
  by (auto simp: trait_defs arrayCheck_small_def SMALL_RESULT_IF_ARRAY_OF_def)

subsection \<open>LengthOfArray\<close>

definition STATIC_CHECK :: "bool \<Rightarrow> unit option" where
  "STATIC_CHECK expression = (if expression then Some () else None)"

text \<open>For an argument that is a pointer the second, more special overload is chosen, whose check fails. The indexing of the first
  needs an array (or a class with a subscript operator, which is left out).\<close>

fun LengthOfArray :: "cpp_type \<Rightarrow> nat option" where
  "LengthOfArray (CppType c v (ArrayOf e n)) = do {
     let SizeOfArray = sizeof_type (CppType c v (ArrayOf e n));
     let SizeOfItem = sizeof_type e;
     STATIC_CHECK (IS_ARRAY (CppType c v (ArrayOf e n)));
     Some (SizeOfArray div SizeOfItem) }"
| "LengthOfArray t = None"

theorem LengthOfArray_spec:
  assumes "sizeof_type e \<noteq> 0"
  shows "LengthOfArray (CppType c v (ArrayOf e n)) =
    (if n * sizeof_type e = 4 \<and> (\<forall>f\<in>set array_overloads. t_core e \<noteq> Fundamental f) then None else Some n)"
  using assms IS_ARRAY_iff(1) [of c v e n] by (auto simp: STATIC_CHECK_def)

subsection \<open>selectType, IsSameType and TUnConst\<close>

definition selectType :: "bool \<Rightarrow> 'a \<Rightarrow> 'a \<Rightarrow> 'a" where
  "selectType condition onRelize onFail = (case condition of True \<Rightarrow> onRelize | False \<Rightarrow> onFail)"

definition IsSameType :: "'a \<Rightarrow> 'a \<Rightarrow> bool" where
  "IsSameType TVerified TModel = (if TVerified = TModel then True else False)"

datatype parameter_type = By_value cpp_type | By_reference cpp_type

fun TUnConst :: "parameter_type \<Rightarrow> parameter_type \<times> bool" where
  "TUnConst (By_value (CppType True v c)) = (By_value (CppType False v c), True)"
| "TUnConst (By_reference (CppType True v c)) = (By_reference (CppType False v c), True)"
| "TUnConst t = (t, False)"

lemma TUnConst_idem: "TUnConst (fst (TUnConst t)) = (fst (TUnConst t), False)"
  by (cases t rule: TUnConst.cases) auto

subsection \<open>Conversions between classes\<close>

text \<open>\<open>derives a b\<close>: class \<open>a\<close> is \<open>b\<close> or derived from it, so that a reference to \<open>b\<close> binds to an object of \<open>a\<close>.\<close>

definition TConversionAllowed :: "('c \<Rightarrow> 'c \<Rightarrow> bool) \<Rightarrow> 'c \<Rightarrow> 'c \<Rightarrow> bool" where
  "TConversionAllowed derives TDerived TParent \<longleftrightarrow> derives TDerived TParent"

definition TSymmetricConversable :: "('c \<Rightarrow> 'c \<Rightarrow> bool) \<Rightarrow> 'c \<Rightarrow> 'c \<Rightarrow> bool" where
  "TSymmetricConversable derives TType1 TType2 \<longleftrightarrow>
     TConversionAllowed derives TType1 TType2 \<or> TConversionAllowed derives TType2 TType1"

definition TIsLessDerived :: "('c \<Rightarrow> 'c \<Rightarrow> bool) \<Rightarrow> 'c \<Rightarrow> 'c \<Rightarrow> bool option" where
  "TIsLessDerived derives TTestedToLessDerived TAnother = do {
     STATIC_CHECK (TSymmetricConversable derives TTestedToLessDerived TAnother);
     Some (\<not> derives TTestedToLessDerived TAnother) }"

definition TSelectLessDerived :: "('c \<Rightarrow> 'c \<Rightarrow> bool) \<Rightarrow> 'c \<Rightarrow> 'c \<Rightarrow> 'c option" where
  "TSelectLessDerived derives TType1 TType2 = do {
     less_derived \<leftarrow> TIsLessDerived derives TType1 TType2;
     Some (selectType less_derived TType1 TType2) }"

text \<open>The selected class is a base of both; unrelated classes do not compile.\<close>

theorem TSelectLessDerived_spec:
  assumes "\<And>a. derives a a"
  shows "case TSelectLessDerived derives a b of None \<Rightarrow> \<not> derives a b \<and> \<not> derives b a
    | Some r \<Rightarrow> r \<in> {a, b} \<and> derives a r \<and> derives b r"
  using assms by (auto simp: TSelectLessDerived_def TIsLessDerived_def TSymmetricConversable_def TConversionAllowed_def
    STATIC_CHECK_def selectType_def split: bool.splits)

end
