(* ===== verification/Interrupts.thy ===== *)
theory Interrupts
  imports Cpp_Prelude
begin

unbundle bit_operations_syntax

section \<open>Interrupt handlers and page faults\<close>

text \<open>
  The assembly of main.cpp: the handlers of the non-maskable interrupt, which drive two lamps, and the pair of
  handlers with which the program steps over a write to a read-only page (the page fault makes the page writable and sets the
  trap flag, the debug exception that follows clears it). Each handler is a list of instructions as in the source; the machine has the
  registers, the zero flag and memory in double words, of which only addresses with the alignment of the stack are used.
  Devices are a state \<open>'io\<close> with functions for reading and writing ports. A called function leaves the caller's registers
  except \<open>eax\<close>, \<open>ecx\<close> and \<open>edx\<close> alone, may write below the stack pointer, and a result of type \<open>bool\<close> is in the low byte of
  \<open>eax\<close> only.
\<close>

subsection \<open>The machine\<close>

datatype reg = EAX | ECX | EDX | EBX | ESP | EBP | ESI | EDI

text \<open>The one access right the handler asks for, \<open>RT_PG_USERREADWRITE\<close> of the RTOS.\<close>

datatype page_access = USERREADWRITE

record 'io machine =
  m_reg :: "reg \<Rightarrow> 32 word"
  m_zf :: bool
  m_mem :: "32 word \<Rightarrow> 32 word"
  m_io :: 'io
  m_dummyErrorCode :: "32 word"
  m_count_gghh :: size_t
  m_page_calls :: "(32 word \<times> page_access) list"

text \<open>Of the environment: devices, which addresses can be read, the faulting address, what called functions leave in the
  registers they may use and in the memory below the stack pointer.\<close>

record 'io machine_env =
  e_in :: "'io \<Rightarrow> 16 word \<Rightarrow> 'io \<times> 8 word"
  e_out :: "'io \<Rightarrow> 16 word \<Rightarrow> 8 word \<Rightarrow> 'io"
  e_readable :: "32 word \<Rightarrow> bool"
  e_cr2 :: "32 word"
  e_left :: "reg \<Rightarrow> 32 word"
  e_below :: "32 word \<Rightarrow> 32 word"
  e_stack_use :: "32 word"

datatype instr = Push reg | Pop reg | Pushad | Popad | Mov_dx "16 word" | In_al_dx | Xor_al "8 word" | And_al "8 word" |
  Or_al "8 word" | Out_dx_al | Cli | Mov_ebx_esp | Add_ebx "32 word" | Push_at_ebx | Pop_dummyErrorCode | Cmp_eax_0 |
  Jnz "instr list" | Jmp "32 word" | Call_f3 | Call_RTGetCR2 | Call_f1 | And_at_esp_8 "32 word" | Or_at_esp_8 "32 word" | Iretd

text \<open>A handler ends by returning to an address with flags, or by jumping to the former handler.\<close>

datatype handler_end = Interrupt_return "32 word" "32 word" | Continues_at "32 word"

definition set_reg :: "reg \<Rightarrow> 32 word \<Rightarrow> 'io machine \<Rightarrow> 'io machine" where
  "set_reg r v m = m\<lparr>m_reg := (m_reg m)(r := v)\<rparr>"

definition push :: "32 word \<Rightarrow> 'io machine \<Rightarrow> 'io machine" where
  "push v m = (let sp = m_reg m ESP - 4 in (set_reg ESP sp m)\<lparr>m_mem := (m_mem m)(sp := v)\<rparr>)"

definition pop_value :: "'io machine \<Rightarrow> 32 word \<times> 'io machine" where
  "pop_value m = (m_mem m (m_reg m ESP), set_reg ESP (m_reg m ESP + 4) m)"

definition al :: "'io machine \<Rightarrow> 8 word" where
  "al m = ucast (m_reg m EAX)"

definition set_al :: "8 word \<Rightarrow> 'io machine \<Rightarrow> 'io machine" where
  "set_al v m = set_reg EAX ((m_reg m EAX AND NOT 0xFF) OR ucast v) m"

definition set_dx :: "16 word \<Rightarrow> 'io machine \<Rightarrow> 'io machine" where
  "set_dx v m = set_reg EDX ((m_reg m EDX AND NOT 0xFFFF) OR ucast v) m"

text \<open>\<open>pushad\<close> stores eight registers, \<open>popad\<close> restores all but the stack pointer.\<close>

definition pushad :: "'io machine \<Rightarrow> 'io machine" where
  "pushad m = push (m_reg m EDI) (push (m_reg m ESI) (push (m_reg m EBP) (push (m_reg m ESP) (push (m_reg m EBX)
     (push (m_reg m EDX) (push (m_reg m ECX) (push (m_reg m EAX) m)))))))"

definition popad :: "'io machine \<Rightarrow> 'io machine" where
  "popad m = (let sp = m_reg m ESP in
     m\<lparr>m_reg := (m_reg m)(EDI := m_mem m sp, ESI := m_mem m (sp + 4), EBP := m_mem m (sp + 8), EBX := m_mem m (sp + 16),
       EDX := m_mem m (sp + 20), ECX := m_mem m (sp + 24), EAX := m_mem m (sp + 28), ESP := sp + 32)\<rparr>)"

definition call_returns :: "'io machine_env \<Rightarrow> 32 word \<Rightarrow> 'io machine \<Rightarrow> 'io machine" where
  "call_returns env result m = (let sp = m_reg m ESP in
     m\<lparr>m_reg := (m_reg m)(EAX := result, ECX := e_left env ECX, EDX := e_left env EDX),
       m_mem := (\<lambda>a. if 0 < sp - a \<and> sp - a \<le> e_stack_use env then e_below env a else m_mem m a)\<rparr>)"

definition bool_result :: "'io machine_env \<Rightarrow> bool \<Rightarrow> 32 word" where
  "bool_result env b = (e_left env EAX AND NOT 0xFF) OR (if b then 1 else 0)"

text \<open>\<open>f3\<close> and \<open>f1\<close>. The latter takes its two arguments off the stack; the calls of \<open>RTSetPageAccess\<close> are a list of the addresses and the access asked for.\<close>

definition f3 :: bool where
  "f3 = True"

definition f1 :: "32 word \<Rightarrow> 32 word \<Rightarrow> 'io machine \<Rightarrow> 'io machine \<times> bool" where
  "f1 ErrorCode Address m = (m\<lparr>m_page_calls := m_page_calls m @ [(Address, USERREADWRITE)], m_count_gghh := m_count_gghh m + 1\<rparr>,
     m_count_gghh m = 0)"

definition call_f1 :: "'io machine_env \<Rightarrow> 'io machine \<Rightarrow> 'io machine" where
  "call_f1 env m = (case pop_value m of (ErrorCode, m') \<Rightarrow> (case pop_value m' of (Address, m'') \<Rightarrow>
     (case f1 ErrorCode Address m of (m, b) \<Rightarrow> set_reg ESP (m_reg m'' ESP) (call_returns env (bool_result env b) m))))"

fun exec_handler :: "'io machine_env \<Rightarrow> instr list \<Rightarrow> 'io machine \<Rightarrow> ('io machine \<times> handler_end) option" where
  "exec_handler env [] m = None"
| "exec_handler env (Iretd # is) m =
     (let sp = m_reg m ESP in
      Some (set_reg ESP (sp + 12) m, Interrupt_return (m_mem m sp) (m_mem m (sp + 8))))"
| "exec_handler env (Jmp a # is) m = Some (m, Continues_at a)"
| "exec_handler env (Jnz target # is) m = (if m_zf m then exec_handler env is m else exec_handler env target m)"
| "exec_handler env (Push r # is) m = exec_handler env is (push (m_reg m r) m)"
| "exec_handler env (Pop r # is) m = (case pop_value m of (v, m) \<Rightarrow> exec_handler env is (set_reg r v m))"
| "exec_handler env (Pushad # is) m = exec_handler env is (pushad m)"
| "exec_handler env (Popad # is) m = exec_handler env is (popad m)"
| "exec_handler env (Mov_dx v # is) m = exec_handler env is (set_dx v m)"
| "exec_handler env (In_al_dx # is) m = (case e_in env (m_io m) (ucast (m_reg m EDX)) of (io, v) \<Rightarrow>
     exec_handler env is (set_al v (m\<lparr>m_io := io\<rparr>)))"
| "exec_handler env (Xor_al v # is) m = exec_handler env is ((set_al (al m XOR v) m)\<lparr>m_zf := al m XOR v = 0\<rparr>)"
| "exec_handler env (And_al v # is) m = exec_handler env is ((set_al (al m AND v) m)\<lparr>m_zf := al m AND v = 0\<rparr>)"
| "exec_handler env (Or_al v # is) m = exec_handler env is ((set_al (al m OR v) m)\<lparr>m_zf := al m OR v = 0\<rparr>)"
| "exec_handler env (Out_dx_al # is) m =
     exec_handler env is (m\<lparr>m_io := e_out env (m_io m) (ucast (m_reg m EDX)) (al m)\<rparr>)"
| "exec_handler env (Cli # is) m = exec_handler env is m"
| "exec_handler env (Mov_ebx_esp # is) m = exec_handler env is (set_reg EBX (m_reg m ESP) m)"
| "exec_handler env (Add_ebx v # is) m =
     exec_handler env is ((set_reg EBX (m_reg m EBX + v) m)\<lparr>m_zf := m_reg m EBX + v = 0\<rparr>)"
| "exec_handler env (Push_at_ebx # is) m = (if e_readable env (m_reg m EBX)
     then exec_handler env is (push (m_mem m (m_reg m EBX)) m) else None)"
| "exec_handler env (Pop_dummyErrorCode # is) m = (case pop_value m of (v, m) \<Rightarrow>
     exec_handler env is (m\<lparr>m_dummyErrorCode := v\<rparr>))"
| "exec_handler env (Cmp_eax_0 # is) m = exec_handler env is (m\<lparr>m_zf := m_reg m EAX = 0\<rparr>)"
| "exec_handler env (Call_f3 # is) m = exec_handler env is (call_returns env (bool_result env f3) m)"
| "exec_handler env (Call_RTGetCR2 # is) m = exec_handler env is (call_returns env (e_cr2 env) m)"
| "exec_handler env (Call_f1 # is) m = exec_handler env is (call_f1 env m)"
| "exec_handler env (And_at_esp_8 v # is) m = (let a = m_reg m ESP + 8 in
     exec_handler env is (m\<lparr>m_mem := (m_mem m)(a := m_mem m a AND v), m_zf := m_mem m a AND v = 0\<rparr>))"
| "exec_handler env (Or_at_esp_8 v # is) m = (let a = m_reg m ESP + 8 in
     exec_handler env is (m\<lparr>m_mem := (m_mem m)(a := m_mem m a OR v), m_zf := m_mem m a OR v = 0\<rparr>))"

subsection \<open>The handlers\<close>

definition NMIHandler :: "16 word \<Rightarrow> 8 word \<Rightarrow> 8 word \<Rightarrow> instr list" where
  "NMIHandler REG_BUS MASK_BUS_SVGREEN MASK_BUS_SVRED =
     [Push EAX, Push EDX, Mov_dx 0x666, In_al_dx, Mov_dx REG_BUS, In_al_dx, Xor_al MASK_BUS_SVGREEN,
      And_al (NOT MASK_BUS_SVRED), Out_dx_al, Pop EDX, Pop EAX, Iretd]"

definition ResetNMI :: "16 word \<Rightarrow> 8 word \<Rightarrow> 8 word \<Rightarrow> instr list" where
  "ResetNMI REG_BUS MASK_BUS_SVGREEN MASK_BUS_SVRED =
     [Push EAX, Push EDX, Mov_dx REG_BUS, In_al_dx, Or_al MASK_BUS_SVGREEN, Or_al MASK_BUS_SVRED, Out_dx_al,
      Pop EDX, Pop EAX, Iretd]"

text \<open>The 16-bit operations on the image of the flags leave its upper half alone.\<close>

definition f2 :: "32 word \<Rightarrow> instr list" where
  "f2 oldF2 = [Cli, Pushad, Call_f3, Cmp_eax_0, Popad, Jnz [And_at_esp_8 (NOT 0x100), Iretd], Jmp oldF2]"

definition f0 :: "32 word \<Rightarrow> instr list" where
  "f0 oldF = [Cli, Pushad, Mov_ebx_esp, Add_ebx 32, Pop EBX, Call_RTGetCR2, Push EBX, Push EAX, Push_at_ebx, Call_f1,
     Cmp_eax_0, Popad, Jnz [Pop_dummyErrorCode, Or_at_esp_8 0x100, Iretd], Jmp oldF]"

subsection \<open>replaceInterruptVector\<close>

record RTInterruptGate =
  Offset_Lower :: "16 word"
  Offset_Upper :: "16 word"

text \<open>The interrupt table \<open>'idt\<close> is accessed by two functions of the run-time system. The switch that keeps interrupts disabled meanwhile has
  no effect on the result.\<close>

definition replaceInterruptVector :: "('idt \<Rightarrow> 8 word \<Rightarrow> RTInterruptGate) \<Rightarrow> ('idt \<Rightarrow> 8 word \<Rightarrow> 32 word \<Rightarrow> 'idt) \<Rightarrow>
    'idt \<Rightarrow> 8 word \<Rightarrow> 32 word \<Rightarrow> 'idt \<times> 32 word \<times> RTInterruptGate" where
  "replaceInterruptVector RTSaveVector RTSetIntVector idt InterruptNumber InterruptHandler = (
     let oldInterruptGate = RTSaveVector idt InterruptNumber;
         oldInterruptHandler = push_bit 16 (ucast (Offset_Upper oldInterruptGate)) + ucast (Offset_Lower oldInterruptGate);
         idt = RTSetIntVector idt InterruptNumber InterruptHandler
     in (idt, oldInterruptHandler, oldInterruptGate))"

text \<open>The documented behaviour of the two: a gate set for a handler holds the two halves of its address, other gates stay.\<close>

definition vectors_ok :: "('idt \<Rightarrow> 8 word \<Rightarrow> RTInterruptGate) \<Rightarrow> ('idt \<Rightarrow> 8 word \<Rightarrow> 32 word \<Rightarrow> 'idt) \<Rightarrow> bool" where
  "vectors_ok RTSaveVector RTSetIntVector \<longleftrightarrow> (\<forall>idt n h k. RTSaveVector (RTSetIntVector idt n h) k =
     (if k = n then \<lparr>Offset_Lower = ucast h, Offset_Upper = ucast (drop_bit 16 h)\<rparr> else RTSaveVector idt k))"

subsection \<open>What the handlers do\<close>

lemma ucast_set_low:
  "ucast ((x AND NOT 0xFFFF) OR ucast (v :: 16 word) :: 32 word) = v"
  "ucast ((x AND NOT 0xFF) OR ucast (w :: 8 word) :: 32 word) = w"
proof -
  have m: "(0xFFFF :: 32 word) = mask 16" "(0xFF :: 32 word) = mask 8" by (simp_all add: mask_eq_exp_minus_1)
  show "ucast ((x AND NOT 0xFFFF) OR ucast (v :: 16 word) :: 32 word) = v"
    "ucast ((x AND NOT 0xFF) OR ucast (w :: 8 word) :: 32 word) = w"
    unfolding m by (rule bit_word_eqI; auto simp: bit_simps)+
qed

lemma al_set_al [simp]: "al (set_al v m) = v"
proof -
  have "m_reg (set_al v m) EAX = (m_reg m EAX AND NOT 0xFF) OR ucast v" by (simp add: set_al_def set_reg_def)
  then show ?thesis by (simp only: al_def ucast_set_low)
qed

lemma port_set_dx [simp]: "ucast (m_reg (set_dx v m) EDX) = v"
proof -
  have "m_reg (set_dx v m) EDX = (m_reg m EDX AND NOT 0xFFFF) OR ucast v" by (simp add: set_dx_def set_reg_def)
  then show ?thesis by (simp only: ucast_set_low)
qed

lemma set_al_simps [simp]:
  "m_io (set_al v m) = m_io m" "m_mem (set_al v m) = m_mem m" "r \<noteq> EAX \<Longrightarrow> m_reg (set_al v m) r = m_reg m r"
  by (simp_all add: set_al_def set_reg_def)

lemma set_dx_simps [simp]:
  "m_io (set_dx v m) = m_io m" "m_mem (set_dx v m) = m_mem m" "r \<noteq> EDX \<Longrightarrow> m_reg (set_dx v m) r = m_reg m r"
  by (simp_all add: set_dx_def set_reg_def)

lemma al_keeps [simp]: "al (m\<lparr>m_io := io\<rparr>) = al m" "al (m\<lparr>m_zf := z\<rparr>) = al m"
  by (simp_all add: al_def)

lemmas stack_defs = set_reg_def push_def pop_value_def Let_def

text \<open>Both handlers of the non-maskable interrupt restore every register and drive the bus register only.\<close>

theorem NMIHandler_spec:
  assumes "e_in env (m_io m) 0x666 = (io1, ignored)" "e_in env io1 REG_BUS = (io2, v)"
  shows "\<exists>m'. exec_handler env (NMIHandler REG_BUS GREEN RED) m =
      Some (m', Interrupt_return (m_mem m (m_reg m ESP)) (m_mem m (m_reg m ESP + 8))) \<and>
    m_reg m' = (m_reg m)(ESP := m_reg m ESP + 12) \<and> m_io m' = e_out env io2 REG_BUS ((v XOR GREEN) AND NOT RED)"
  using assms by (auto simp add: NMIHandler_def stack_defs fun_eq_iff) (simp add: add.commute)

theorem ResetNMI_spec:
  assumes "e_in env (m_io m) REG_BUS = (io1, v)"
  shows "\<exists>m'. exec_handler env (ResetNMI REG_BUS GREEN RED) m =
      Some (m', Interrupt_return (m_mem m (m_reg m ESP)) (m_mem m (m_reg m ESP + 8))) \<and>
    m_reg m' = (m_reg m)(ESP := m_reg m ESP + 12) \<and> m_io m' = e_out env io1 REG_BUS (v OR GREEN OR RED)"
  using assms by (auto simp add: ResetNMI_def stack_defs fun_eq_iff or.assoc) (simp add: add.commute)

text \<open>What \<open>pushad\<close> saved is what \<open>popad\<close> restores, whatever happened between, if memory at and above the saved registers was
  left alone.\<close>

lemma pushad_mem:
  "m_mem (pushad m) (m_reg m ESP - 4) = m_reg m EAX" "m_mem (pushad m) (m_reg m ESP - 8) = m_reg m ECX"
  "m_mem (pushad m) (m_reg m ESP - 12) = m_reg m EDX" "m_mem (pushad m) (m_reg m ESP - 16) = m_reg m EBX"
  "m_mem (pushad m) (m_reg m ESP - 24) = m_reg m EBP" "m_mem (pushad m) (m_reg m ESP - 28) = m_reg m ESI"
  "m_mem (pushad m) (m_reg m ESP - 32) = m_reg m EDI" "m_reg (pushad m) ESP = m_reg m ESP - 32"
  by (simp_all add: pushad_def stack_defs)

lemma pushad_keeps:
  "m_io (pushad m) = m_io m" "m_count_gghh (pushad m) = m_count_gghh m" "m_page_calls (pushad m) = m_page_calls m"
  "m_dummyErrorCode (pushad m) = m_dummyErrorCode m" "r \<noteq> ESP \<Longrightarrow> m_reg (pushad m) r = m_reg m r"
  by (simp_all add: pushad_def stack_defs)

lemma pushad_mem_above:
  assumes "a - m_reg m ESP < 0x40000000"
  shows "m_mem (pushad m) a = m_mem m a"
proof -
  have "a \<noteq> m_reg m ESP - k" if "\<not> - k < 0x40000000" for k
    using assms that by auto
  then show ?thesis by (simp add: pushad_def stack_defs)
qed

lemma popad_restores:
  assumes "m_reg m' ESP = m_reg m ESP - 32" "\<And>k. k \<in> {0, 4, 8, 16, 20, 24, 28} \<Longrightarrow> m_mem m' (m_reg m ESP - 32 + k) = m_mem (pushad m) (m_reg m ESP - 32 + k)"
  shows "m_reg (popad m') = m_reg m"
proof -
  have "m_mem m' (m_reg m ESP - 32) = m_reg m EDI" "m_mem m' (m_reg m ESP - 28) = m_reg m ESI"
    "m_mem m' (m_reg m ESP - 24) = m_reg m EBP" "m_mem m' (m_reg m ESP - 16) = m_reg m EBX"
    "m_mem m' (m_reg m ESP - 12) = m_reg m EDX" "m_mem m' (m_reg m ESP - 8) = m_reg m ECX"
    "m_mem m' (m_reg m ESP - 4) = m_reg m EAX"
    using assms(2)[of 0] assms(2)[of 4] assms(2)[of 8] assms(2)[of 16] assms(2)[of 20] assms(2)[of 24] assms(2)[of 28]
    by (simp_all add: pushad_mem)
  then have "m_reg (popad m') r = m_reg m r" for r
    by (cases r) (simp_all add: popad_def Let_def assms(1))
  then show ?thesis by blast
qed

lemma popad_keeps [simp]:
  "m_io (popad m) = m_io m" "m_count_gghh (popad m) = m_count_gghh m" "m_page_calls (popad m) = m_page_calls m"
  "m_mem (popad m) = m_mem m" "m_zf (popad m) = m_zf m" "m_dummyErrorCode (popad m) = m_dummyErrorCode m"
  by (simp_all add: popad_def Let_def)

lemma call_returns_keeps [simp]:
  "m_reg (call_returns env v m) ESP = m_reg m ESP" "m_reg (call_returns env v m) EAX = v" "m_reg (call_returns env v m) EBX = m_reg m EBX"
  "m_count_gghh (call_returns env v m) = m_count_gghh m" "m_page_calls (call_returns env v m) = m_page_calls m"
  "m_io (call_returns env v m) = m_io m"
  by (simp_all add: call_returns_def Let_def)

lemma call_returns_mem:
  assumes "e_stack_use env < 0x40000000" "m_reg m ESP - a = 0 \<or> 0x40000000 \<le> m_reg m ESP - a"
  shows "m_mem (call_returns env v m) a = m_mem m a"
  using assms by (auto simp: call_returns_def Let_def)

lemma minus_small:
  fixes k :: "32 word"
  assumes "k < 64"
  shows "k = 0 \<or> 0x40000000 \<le> - k"
proof (cases "k = 0")
  case False
  have "uint k < 64" using assms by (simp add: word_less_def)
  moreover have "0 < uint k" using False by (simp add: uint_0_iff order_less_le)
  ultimately have "- uint k mod 2 ^ 32 = 2 ^ 32 - uint k" by (simp add: zmod_zminus1_eq_if)
  then have "uint (- k) = 2 ^ 32 - uint k" by (simp add: uint_word_ariths)
  then show ?thesis using \<open>uint k < 64\<close> by (simp add: word_le_def)
qed simp

text \<open>A call leaves the saved registers and the frame above them alone.\<close>

lemma call_returns_frame:
  assumes "e_stack_use env < 0x40000000" "m_reg m ESP = sp" "k < 64"
  shows "m_mem (call_returns env v m) (sp + k) = m_mem m (sp + k)"
  using minus_small[OF assms(3)] assms(1,2) by (intro call_returns_mem) auto

lemma bool_result_True: "bool_result env True \<noteq> 0"
proof
  assume "bool_result env True = 0"
  then have "\<not> bit (bool_result env True) 0" by simp
  then show False by (simp add: bool_result_def bit_simps)
qed

text \<open>The debug exception returns to the interrupted code with the trap flag cleared and the registers as they were.\<close>

theorem f2_spec:
  assumes "e_stack_use env < 0x40000000"
  shows "\<exists>m'. exec_handler env (f2 oldF2) m =
      Some (m', Interrupt_return (m_mem m (m_reg m ESP)) (m_mem m (m_reg m ESP + 8) AND NOT 0x100)) \<and>
    m_reg m' = (m_reg m)(ESP := m_reg m ESP + 12) \<and> m_io m' = m_io m \<and> m_page_calls m' = m_page_calls m"
proof -
  let ?r = "bool_result env f3"
  let ?m1 = "(call_returns env ?r (pushad m))\<lparr>m_zf := ?r = 0\<rparr>"
  have r: "?r \<noteq> 0" using bool_result_True[of env] by (simp add: f3_def)
  have mem: "m_mem ?m1 (m_reg m ESP - 32 + k) = m_mem (pushad m) (m_reg m ESP - 32 + k)" if "k < 64" for k
    using call_returns_frame[OF assms _ that, of "pushad m"] by (simp add: pushad_mem)
  have above: "m_mem ?m1 (m_reg m ESP) = m_mem m (m_reg m ESP)" "m_mem ?m1 (m_reg m ESP + 8) = m_mem m (m_reg m ESP + 8)"
    using mem[of 32] mem[of 40] pushad_mem_above[of "m_reg m ESP" m] pushad_mem_above[of "m_reg m ESP + 8" m]
    by simp_all (simp add: add.commute)
  have regs: "m_reg (popad ?m1) = m_reg m"
    by (rule popad_restores) (simp add: pushad_mem, rule mem, auto)
  show ?thesis using r above regs by (simp add: f2_def Let_def set_reg_def pushad_keeps)
qed

text \<open>The state in which \<open>f0\<close> compares the result of \<open>f1\<close>.\<close>

definition f0_called :: "'io machine_env \<Rightarrow> 'io machine \<Rightarrow> 'io machine" where
  "f0_called env m = (let m1 = call_returns env (e_cr2 env)
       (set_reg EBX (m_reg m EDI) (set_reg ESP (m_reg m ESP - 28) ((pushad m)\<lparr>m_zf := m_reg m ESP = 0\<rparr>)))
     in call_f1 env (push (m_mem (push (m_reg m1 EAX) (push (m_reg m1 EBX) m1)) (m_reg m EDI)) (push (m_reg m1 EAX) (push (m_reg m1 EBX) m1))))"

lemma exec_f0:
  assumes "e_readable env (m_reg m EDI)"
  shows "exec_handler env (f0 oldF) m = exec_handler env [Cmp_eax_0, Popad, Jnz [Pop_dummyErrorCode, Or_at_esp_8 0x100, Iretd], Jmp oldF]
    (f0_called env m)"
  using assms by (simp add: f0_def f0_called_def pop_value_def pushad_mem set_reg_def Let_def push_def)

lemma f0_called_regs:
  "m_reg (f0_called env m) ESP = m_reg m ESP - 32" "m_io (f0_called env m) = m_io m"
  "m_reg (f0_called env m) EAX = bool_result env (m_count_gghh m = 0)"
  "m_page_calls (f0_called env m) = m_page_calls m @ [(e_cr2 env, USERREADWRITE)]"
  "m_count_gghh (f0_called env m) = m_count_gghh m + 1"
  by (simp_all add: f0_called_def call_f1_def f1_def stack_defs pushad_keeps)

lemma f0_called_mem:
  assumes "e_stack_use env < 0x40000000" "k \<in> {0, 4, 8, 16, 20, 24, 28, 32, 36, 44}"
  shows "m_mem (f0_called env m) (m_reg m ESP - 32 + k) = m_mem (pushad m) (m_reg m ESP - 32 + k)"
  using assms by (auto simp: f0_called_def call_f1_def f1_def stack_defs pushad_mem call_returns_mem pushad_keeps)

text \<open>
  The page fault handler. If the address in \<open>edi\<close> can be read (the handler reads the error code from there), the page of
  the faulting address is made writable, and if the call is reported as handled the interrupted code goes on with the trap flag
  set and every register as it was. Otherwise the former handler gets control with the registers and stack of the fault.
\<close>

theorem f0_spec:
  assumes use: "e_stack_use env < 0x40000000" and edi: "e_readable env (m_reg m EDI)"
  shows "\<exists>m' e. exec_handler env (f0 oldF) m = Some (m', e) \<and> m_page_calls m' = m_page_calls m @ [(e_cr2 env, USERREADWRITE)] \<and>
    m_count_gghh m' = m_count_gghh m + 1 \<and>
    (if bool_result env (m_count_gghh m = 0) \<noteq> 0
     then e = Interrupt_return (m_mem m (m_reg m ESP + 4)) (m_mem m (m_reg m ESP + 12) OR 0x100) \<and>
       m_reg m' = (m_reg m)(ESP := m_reg m ESP + 16) \<and> m_dummyErrorCode m' = m_mem m (m_reg m ESP)
     else e = Continues_at oldF \<and> m_reg m' = m_reg m)"
proof -
  let ?m1 = "f0_called env m"
  have regs: "m_reg (popad (?m1\<lparr>m_zf := z\<rparr>)) = m_reg m" for z
    by (rule popad_restores) (use f0_called_mem[OF use, of _ m] in \<open>auto simp: f0_called_regs\<close>)
  have frame: "m_mem ?m1 (m_reg m ESP) = m_mem m (m_reg m ESP)" "m_mem ?m1 (m_reg m ESP + 4) = m_mem m (m_reg m ESP + 4)"
    "m_mem ?m1 (m_reg m ESP + 12) = m_mem m (m_reg m ESP + 12)"
    using f0_called_mem[OF use, of 32 m] f0_called_mem[OF use, of 36 m] f0_called_mem[OF use, of 44 m]
      pushad_mem_above[of "m_reg m ESP" m] pushad_mem_above[of "m_reg m ESP + 4" m] pushad_mem_above[of "m_reg m ESP + 12" m]
    by simp_all (simp_all add: add.commute)
  show ?thesis using regs frame
    by (cases "bool_result env (m_count_gghh m = 0) = 0")
      (simp_all add: exec_f0[OF edi] f0_called_regs pop_value_def set_reg_def Let_def, simp_all add: add.commute)
qed

text \<open>With the error code out of reach the handler faults itself.\<close>

theorem f0_unreadable:
  assumes "\<not> e_readable env (m_reg m EDI)"
  shows "exec_handler env (f0 oldF) m = None"
  using assms by (simp add: f0_def pop_value_def pushad_mem set_reg_def Let_def push_def)

text \<open>Installing the handler that was found by a replacement undoes the replacement.\<close>

theorem replaceInterruptVector_back:
  assumes api: "vectors_ok save setv" and "replaceInterruptVector save setv idt n handler = (idt', old, gate)"
    and "replaceInterruptVector save setv idt' n old = (idt'', old', gate')"
  shows "save idt'' k = save idt k" "old' = handler" "gate = save idt n"
proof -
  have split: "push_bit 16 (ucast (ucast (drop_bit 16 h) :: 16 word)) + ucast (ucast h :: 16 word) = h" for h :: "32 word"
  proof -
    let ?hi = "push_bit 16 (ucast (ucast (drop_bit 16 h) :: 16 word)) :: 32 word" and ?lo = "ucast (ucast h :: 16 word) :: 32 word"
    have "?hi AND ?lo = 0" by (rule bit_word_eqI) (auto simp: bit_simps)
    then have "?hi + ?lo = ?hi OR ?lo" by (rule disjunctive_add_eq_or)
    also have "\<dots> = h" by (rule bit_word_eqI) (auto simp: bit_simps)
    finally show ?thesis .
  qed
  have join: "ucast (push_bit 16 (ucast u) + ucast l :: 32 word) = l"
    "ucast (drop_bit 16 (push_bit 16 (ucast u) + ucast l :: 32 word)) = u" for u l :: "16 word"
  proof -
    have "(push_bit 16 (ucast u) :: 32 word) AND ucast l = 0"
      by (rule bit_word_eqI) (auto simp: bit_simps dest: bit_imp_le_length)
    then have *: "push_bit 16 (ucast u) + ucast l = (push_bit 16 (ucast u) OR ucast l :: 32 word)" by (rule disjunctive_add_eq_or)
    show "ucast (push_bit 16 (ucast u) + ucast l :: 32 word) = l"
      "ucast (drop_bit 16 (push_bit 16 (ucast u) + ucast l :: 32 word)) = u"
      unfolding * by (rule bit_word_eqI; auto simp: bit_simps dest: bit_imp_le_length)+
  qed
  have idt': "idt' = setv idt n handler"
    and old: "old = push_bit 16 (ucast (Offset_Upper (save idt n))) + ucast (Offset_Lower (save idt n))"
    and gate: "gate = save idt n" and idt'': "idt'' = setv idt' n old"
    using assms(2,3) by (auto simp: replaceInterruptVector_def Let_def)
  show "save idt'' k = save idt k" using api join by (simp add: vectors_ok_def idt'' idt' old)
  show "old' = handler" using api assms(3) split by (auto simp: replaceInterruptVector_def Let_def vectors_ok_def idt')
  show "gate = save idt n" by (rule gate)
qed

end
