(* ===== verification/Structured_Exceptions.thy ===== *)
theory Structured_Exceptions
  imports Crt_Patch
begin

section \<open>Translation of structured exceptions\<close>

text \<open>
  StructuredExceptionHandler.cpp of Tx/StackWalker, in the 32-bit build: the names of the exception codes, the text of the call stack, the
  exception class and the object that installs the translator of the thread. DbgHelp is a parameter: its functions
  take and return its state \<open>'d\<close>. The walk ends when \<open>StackWalk\<close> of DbgHelp says so, so the loop is
  \<^theory_text>\<open>partial_function (option)\<close> with \<open>None\<close> for a walk without an end.
\<close>

subsection \<open>Names of exception codes\<close>

definition ExceptionNameMap :: "(32 word \<times> string) list" where
  "ExceptionNameMap = [
     (0xC0000005, ''EXCEPTION_ACCESS_VIOLATION''),
     (0xC000008C, ''EXCEPTION_ARRAY_BOUNDS_EXCEEDED''),
     (0x80000003, ''EXCEPTION_BREAKPOINT''),
     (0x80000002, ''EXCEPTION_DATATYPE_MISALIGNMENT''),
     (0xC000008D, ''EXCEPTION_FLT_DENORMAL_OPERAND''),
     (0xC000008E, ''EXCEPTION_FLT_DIVIDE_BY_ZERO''),
     (0xC000008F, ''EXCEPTION_FLT_INEXACT_RESULT''),
     (0xC0000090, ''EXCEPTION_FLT_INVALID_OPERATION''),
     (0xC0000091, ''EXCEPTION_FLT_OVERFLOW''),
     (0xC0000092, ''EXCEPTION_FLT_STACK_CHECK''),
     (0xC0000093, ''EXCEPTION_FLT_UNDERFLOW''),
     (0x80000001, ''EXCEPTION_GUARD_PAGE''),
     (0xC000001D, ''EXCEPTION_ILLEGAL_INSTRUCTION''),
     (0xC0000006, ''EXCEPTION_IN_PAGE_ERROR''),
     (0xC0000094, ''EXCEPTION_INT_DIVIDE_BY_ZERO''),
     (0xC0000095, ''EXCEPTION_INT_OVERFLOW''),
     (0xC0000026, ''EXCEPTION_INVALID_DISPOSITION''),
     (0xC0000008, ''EXCEPTION_INVALID_HANDLE''),
     (0xC0000025, ''EXCEPTION_NONCONTINUABLE_EXCEPTION''),
     (0xC0000096, ''EXCEPTION_PRIV_INSTRUCTION''),
     (0x80000004, ''EXCEPTION_SINGLE_STEP''),
     (0xC00000FD, ''EXCEPTION_STACK_OVERFLOW''),
     (0x80000029, ''STATUS_UNWIND_CONSOLIDATE'')]"

definition GetExceptionCodeName :: "32 word \<Rightarrow> string" where
  "GetExceptionCodeName Code = (case map_of ExceptionNameMap Code of Some res \<Rightarrow> res | None \<Rightarrow> '''')"

definition getExceptionName :: "32 word \<Rightarrow> string" where
  "getExceptionName Code = GetExceptionCodeName Code"

subsection \<open>The text of the call stack\<close>

record stack_frame =
  AddrPC_Offset :: "32 word"
  AddrFrame_Offset :: "32 word"
  AddrStack_Offset :: "32 word"

record context_record =
  Eip :: "32 word"
  Ebp :: "32 word"
  Esp :: "32 word"

record 'd dbghelp =
  SymInitialize :: "'d \<Rightarrow> 'd \<times> bool"
  SymCleanup :: "'d \<Rightarrow> 'd"
  walk_frame :: "'d \<Rightarrow> stack_frame \<Rightarrow> context_record \<Rightarrow> 'd \<times> (stack_frame \<times> context_record) option"
  SymFromAddr :: "'d \<Rightarrow> 32 word \<Rightarrow> 'd \<times> chars option"
  SymGetLineFromAddr :: "'d \<Rightarrow> 32 word \<Rightarrow> 'd \<times> (chars \<times> 32 word) option"

fun hex_digits :: "nat \<Rightarrow> chars" where
  "hex_digits n = (let d = n mod 16; c = (if d < 10 then 48 + d else 87 + d) in
     if n < 16 then [c] else hex_digits (n div 16) @ [c])"

declare hex_digits.simps [simp del]

text \<open>\<open>std::hex\<close> with \<open>showbase\<close>, \<open>internal\<close>, the fill character zero and \<open>setw(sizeof(void *) * 2 + 2)\<close>: the fill goes between the prefix, which zero does not
  get, and the digits.\<close>

definition address_text :: "32 word \<Rightarrow> chars" where
  "address_text a = (let prefix = (if a = 0 then [] else chars_of ''0x''); digits = hex_digits (unat a) in
     prefix @ replicate (4 * 2 + 2 - (length prefix + length digits)) 48 @ digits)"

definition trace_line :: "32 word \<Rightarrow> chars \<Rightarrow> 32 word \<Rightarrow> chars \<Rightarrow> chars" where
  "trace_line pc FileName LineNumber Name =
     address_text pc @ chars_of '' '' @ FileName @ chars_of '':'' @ decimal (unat LineNumber) @ chars_of '' '' @ Name @ [10]"

text \<open>The two lookups of one turn of the loop, the second only after the first succeeded.\<close>

definition frame_text :: "'d dbghelp \<Rightarrow> 'd \<Rightarrow> 32 word \<Rightarrow> 'd \<times> chars" where
  "frame_text dh d pc = (case SymFromAddr dh d pc of
     (d, None) \<Rightarrow> (d, [])
   | (d, Some Name) \<Rightarrow> (case SymGetLineFromAddr dh d pc of
       (d, None) \<Rightarrow> (d, [])
     | (d, Some (FileName, LineNumber)) \<Rightarrow> (d, trace_line pc FileName LineNumber Name)))"

partial_function (option) walk_loop :: "'d dbghelp \<Rightarrow> 'd \<Rightarrow> stack_frame \<Rightarrow> context_record \<Rightarrow> chars \<Rightarrow> ('d \<times> chars) option" where
  "walk_loop dh d stackFrame contextRecord outputString = (case walk_frame dh d stackFrame contextRecord of
     (d, None) \<Rightarrow> Some (d, outputString)
   | (d, Some (stackFrame, contextRecord)) \<Rightarrow> (case frame_text dh d (AddrPC_Offset stackFrame) of
       (d, l) \<Rightarrow> walk_loop dh d stackFrame contextRecord (outputString @ l)))"

datatype seh_exception = EXCEPTION_CONTINUE_SEARCH |
  SEHException (getExceptionCode: "32 word") (what: string) (getStackTrace: chars)

definition StackWalk :: "'d dbghelp \<Rightarrow> 'd \<Rightarrow> context_record \<Rightarrow> ('d \<times> (seh_exception + chars)) option" where
  "StackWalk dh d EP = (case SymInitialize dh d of
     (d, False) \<Rightarrow> Some (d, Inl EXCEPTION_CONTINUE_SEARCH)
   | (d, True) \<Rightarrow> do {
       (d, outputString) \<leftarrow> walk_loop dh d
         \<lparr>AddrPC_Offset = Eip EP, AddrFrame_Offset = Ebp EP, AddrStack_Offset = Esp EP\<rparr> EP [];
       Some (SymCleanup dh d, Inr outputString)
     })"

subsection \<open>The exception and the translator\<close>

text \<open>\<open>c_str()\<close> cuts the text at its first zero.\<close>

definition SEHException_new :: "32 word \<Rightarrow> chars \<Rightarrow> seh_exception" where
  "SEHException_new Code StackTrace = SEHException Code (getExceptionName Code) (takeWhile (\<lambda>c. c \<noteq> 0) StackTrace)"

definition SETranslatorFunction :: "'d dbghelp \<Rightarrow> 'd \<Rightarrow> 32 word \<Rightarrow> context_record \<Rightarrow> ('d \<times> seh_exception) option" where
  "SETranslatorFunction dh d Code EP = do {
     (d, r) \<leftarrow> StackWalk dh d EP;
     Some (d, case r of Inl e \<Rightarrow> e | Inr StackTrace \<Rightarrow> SEHException_new Code StackTrace)
   }"

text \<open>The translator of the thread is one cell; \<open>_set_se_translator\<close> returns what was in it.\<close>

datatype se_translator = No_translator | SE_Translator | Other_translator nat

definition StructuredExceptionHandler_new :: "se_translator \<Rightarrow> se_translator \<times> se_translator" where
  "StructuredExceptionHandler_new cell = (let previousHandler = cell in (SE_Translator, previousHandler))"

definition StructuredExceptionHandler_delete :: "se_translator \<Rightarrow> se_translator \<Rightarrow> se_translator" where
  "StructuredExceptionHandler_delete previousHandler cell = previousHandler"

subsection \<open>What is shown\<close>

lemma map_of_ExceptionNameMap_range:
  assumes "map_of ExceptionNameMap c = Some s"
  shows "s \<noteq> ''''"
  using map_of_SomeD[OF assms] by (auto simp: ExceptionNameMap_def)

lemma names_distinct: "distinct (map snd ExceptionNameMap)"
  by code_simp

text \<open>Two codes with a name are told apart by it; codes outside the table have the empty name.\<close>

theorem code_names:
  shows "GetExceptionCodeName c = '''' \<longleftrightarrow> c \<notin> fst ` set ExceptionNameMap"
    and "GetExceptionCodeName c = GetExceptionCodeName c' \<Longrightarrow> GetExceptionCodeName c \<noteq> '''' \<Longrightarrow> c = c'"
proof -
  have none: "GetExceptionCodeName c = '''' \<longleftrightarrow> map_of ExceptionNameMap c = None" for c
    using map_of_ExceptionNameMap_range by (auto simp: GetExceptionCodeName_def split: option.splits)
  then show "GetExceptionCodeName c = '''' \<longleftrightarrow> c \<notin> fst ` set ExceptionNameMap"
    by (simp add: map_of_eq_None_iff)
  assume "GetExceptionCodeName c = GetExceptionCodeName c'" "GetExceptionCodeName c \<noteq> ''''"
  then obtain s where "map_of ExceptionNameMap c = Some s" "map_of ExceptionNameMap c' = Some s"
    using none[of c] none[of c'] by (auto simp: GetExceptionCodeName_def)
  then have "(c, s) \<in> set ExceptionNameMap" "(c', s) \<in> set ExceptionNameMap" by (auto dest: map_of_SomeD)
  moreover have "inj_on snd (set ExceptionNameMap)" using names_distinct by (simp add: distinct_map)
  ultimately have "(c, s) = (c', s)" using inj_onD[of snd "set ExceptionNameMap" "(c, s)" "(c', s)"] by simp
  then show "c = c'" by simp
qed

text \<open>An address takes ten characters and can be read back.\<close>

fun read_hex :: "nat \<Rightarrow> chars \<Rightarrow> nat" where
  "read_hex n [] = n"
| "read_hex n (c # cs) = read_hex (16 * n + (if c < 58 then c - 48 else c - 87)) cs"

lemma read_hex_append: "read_hex n (cs @ ds) = read_hex (read_hex n cs) ds"
  by (induction n cs rule: read_hex.induct) auto

lemma read_hex_zeros: "read_hex 0 (replicate k 48) = 0"
  by (induction k) auto

lemma read_hex_digits: "read_hex 0 (hex_digits n) = n"
proof (induction n rule: hex_digits.induct)
  case (1 n)
  have "n mod 16 < 16" by simp
  with 1 show ?case by (subst hex_digits.simps) (auto simp: read_hex_append Let_def)
qed

lemma length_hex_digits: "n < 16 ^ Suc k \<Longrightarrow> length (hex_digits n) \<le> Suc k"
proof (induction k arbitrary: n)
  case 0
  then show ?case by (subst hex_digits.simps) (simp add: Let_def)
next
  case (Suc k)
  then have "n div 16 < 16 ^ Suc k" by (simp add: less_mult_imp_div_less)
  from Suc.IH[OF this] show ?case by (subst hex_digits.simps) (simp add: Let_def)
qed

theorem address_text_spec:
  shows "length (address_text a) = 10" and "read_hex 0 (drop 2 (address_text a)) = unat a"
proof -
  have "unat a < 16 ^ Suc 7" using unsigned_less[of a] by simp
  then have l: "length (hex_digits (unat a)) \<le> 8" using length_hex_digits[of "unat a" 7] by simp
  show "length (address_text a) = 10" using l by (cases "a = 0") (auto simp: address_text_def Let_def chars_of_def)
  have "hex_digits 0 = [48]" by (subst hex_digits.simps) simp
  then have "address_text 0 = replicate 10 48" by (simp add: address_text_def numeral_eq_Suc)
  then show "read_hex 0 (drop 2 (address_text a)) = unat a"
    by (cases "a = 0") (auto simp: address_text_def Let_def chars_of_def read_hex_append read_hex_zeros read_hex_digits)
qed

text \<open>
  If the walk ends after \<open>n\<close> frames, the text has the lines of those frames in order and the symbol handler is cleaned up. \<open>walked\<close> is the
  state and the text after \<open>n\<close> frames.
\<close>

fun walked :: "'d dbghelp \<Rightarrow> nat \<Rightarrow> 'd \<Rightarrow> stack_frame \<Rightarrow> context_record \<Rightarrow> ('d \<times> chars) option" where
  "walked dh 0 d sf ctx = (case walk_frame dh d sf ctx of (d, None) \<Rightarrow> Some (d, []) | _ \<Rightarrow> None)"
| "walked dh (Suc n) d sf ctx = (case walk_frame dh d sf ctx of
     (d, None) \<Rightarrow> None
   | (d, Some (sf, ctx)) \<Rightarrow> (case frame_text dh d (AddrPC_Offset sf) of
       (d, l) \<Rightarrow> map_option (\<lambda>(d, t). (d, l @ t)) (walked dh n d sf ctx)))"

lemma walk_loop_walked:
  "walked dh n d sf ctx = Some (d', t) \<Longrightarrow> walk_loop dh d sf ctx out = Some (d', out @ t)"
proof (induction n arbitrary: d sf ctx out t)
  case 0
  then show ?case by (subst walk_loop.simps) (auto split: prod.splits option.splits)
next
  case (Suc n)
  then show ?case by (subst walk_loop.simps) (auto split: prod.splits option.splits)
qed

lemma walk_loop_ends:
  assumes "walk_loop dh d sf ctx out = Some r"
  shows "\<exists>n d' t. walked dh n d sf ctx = Some (d', t) \<and> r = (d', out @ t)"
proof (rule walk_loop.raw_induct[where P = "\<lambda>dh d sf ctx out r. \<exists>n d' t. walked dh n d sf ctx = Some (d', t) \<and> r = (d', out @ t)",
      OF _ assms], goal_cases)
  case (1 loop dh d sf ctx out r)
  show ?case
  proof (cases "walk_frame dh d sf ctx")
    case (Pair d1 next_frame)
    show ?thesis
    proof (cases next_frame)
      case None
      then have "walked dh 0 d sf ctx = Some (d1, []) \<and> r = (d1, out @ [])" using 1(2) Pair by simp
      then show ?thesis by blast
    next
      case (Some f)
      obtain sf1 ctx1 where f: "f = (sf1, ctx1)" by (cases f)
      obtain d2 l where l: "frame_text dh d1 (AddrPC_Offset sf1) = (d2, l)" by (cases "frame_text dh d1 (AddrPC_Offset sf1)")
      have "loop dh d2 sf1 ctx1 (out @ l) = Some r" using 1(2) Pair Some f l by simp
      from 1(1)[OF this] obtain n d' t where "walked dh n d2 sf1 ctx1 = Some (d', t)" "r = (d', (out @ l) @ t)" by blast
      then have "walked dh (Suc n) d sf ctx = Some (d', l @ t) \<and> r = (d', out @ (l @ t))" using Pair Some f l by simp
      then show ?thesis by blast
    qed
  qed
qed

definition first_frame :: "context_record \<Rightarrow> stack_frame" where
  "first_frame EP = \<lparr>AddrPC_Offset = Eip EP, AddrFrame_Offset = Ebp EP, AddrStack_Offset = Esp EP\<rparr>"

theorem StackWalk_spec:
  "StackWalk dh d EP = Some (d', r) \<longleftrightarrow>
    (case SymInitialize dh d of
       (d1, False) \<Rightarrow> d' = d1 \<and> r = Inl EXCEPTION_CONTINUE_SEARCH
     | (d1, True) \<Rightarrow> \<exists>n d2 t. walked dh n d1 (first_frame EP) EP = Some (d2, t) \<and> d' = SymCleanup dh d2 \<and> r = Inr t)"
proof -
  have loop: "walk_loop dh d1 (first_frame EP) EP [] = Some (d2, t) \<longleftrightarrow> (\<exists>n. walked dh n d1 (first_frame EP) EP = Some (d2, t))" for d1 d2 t
    using walk_loop_walked[of dh _ d1 "first_frame EP" EP d2 t "[]"] walk_loop_ends[of dh d1 "first_frame EP" EP "[]" "(d2, t)"] by auto
  then show ?thesis
    by (auto simp: StackWalk_def first_frame_def[symmetric] bind_eq_Some_conv split: prod.splits bool.splits)
qed

text \<open>While a handler object lives faults of the thread become \<open>SEHException\<close>s; destroying it brings the translator before it back, whatever was
  installed meanwhile by objects that are gone.\<close>

fun with_handlers :: "nat \<Rightarrow> se_translator \<Rightarrow> se_translator list \<times> se_translator" where
  "with_handlers 0 cell = ([], cell)"
| "with_handlers (Suc n) cell = (case StructuredExceptionHandler_new cell of (cell, previousHandler) \<Rightarrow>
     (case with_handlers n cell of (seen, cell') \<Rightarrow> (cell # seen, StructuredExceptionHandler_delete previousHandler cell')))"

theorem handlers_nest:
  "with_handlers n cell = (replicate n SE_Translator, cell)"
  by (induction n arbitrary: cell)
    (simp_all add: StructuredExceptionHandler_new_def StructuredExceptionHandler_delete_def)

end
