(* ===== verification/Tool_Properties.thy ===== *)
theory Tool_Properties
  imports Crt_Patch Mock_Objects Unit_Test_Runner Win_Heap Type_Traits Interrupts Structured_Exceptions
begin

section \<open>Properties of the tools around the library\<close>

text \<open>C35 to C40: the mock objects and the runner of the unit tests, the heap that constructs objects, the type classes of
  accessory.h, the reports of the C run-time and the page fault handler.\<close>

unbundle bit_operations_syntax

subsection \<open>Mock objects\<close>

text \<open>
  C35. The mock objects judge life times correctly: in a debug build a sequence of constructions, copies, assignments,
  uses and destructions of mocks, run between the two ends of \<open>TCheckLostObjects\<close>, gets through without a failed assertion
  exactly if every event is allowed for the objects alive at that moment (no second construction at a place, no use of a
  dead object, no second destruction) and the same objects are alive at the end as at the beginning.
\<close>

theorem test_script_verdict:
  assumes "mock_inv L w" "card L + length es < 2 ^ 64"
  shows "(\<exists>w'. run_checked True es w = Some w') \<longleftrightarrow> live_after_all es L = Some L"
  using run_checked_spec assms .

definition mock_start :: "nat mock_world" where
  "mock_start = \<lparr>mg_enabledObjectIntegrityCheck = True, mg_ignoreCreating = False, mg_objectsTracker = {}, mg_signature = (\<lambda>_. 0),
     mw_instanceAmount = 0, mw_throw = \<lparr>tc_amountOfConstructWithoutThrow = 0, tc_amountOfConstructedWithoutThrow = 0,
     tc_enabledThrowCount = False\<rparr>, mw_value = (\<lambda>_. 0)\<rparr>"

theorem test_script_verdict_witness:
  "(\<exists>w. run_checked True [Construct 4 (7 :: nat), Copy 8 4, Destruct 4, Destruct 8] mock_start = Some w) \<and>
   \<not> (\<exists>w. run_checked True [Construct 4 (7 :: nat), Copy 8 4, Destruct 4] mock_start = Some w)"
proof -
  have i: "mock_inv {} mock_start" by (simp add: mock_inv_def mock_start_def)
  show ?thesis
    using test_script_verdict[OF i, of "[Construct 4 7, Copy 8 4, Destruct 4, Destruct 8]"]
      test_script_verdict[OF i, of "[Construct 4 7, Copy 8 4, Destruct 4]"] by auto
qed

subsection \<open>The test runner\<close>

text \<open>
  C36. A debug run of the unit tests comes to its end exactly if it is the first run and every listed test is registered,
  gets its order through, and ends initialisation, test and finalisation in time and without an exception. Then the tests
  have run in the order of the list, each on the state its predecessor left, and the console shows the begin message, one line for each test
  and the end message, nothing else.
\<close>

theorem test_run_verdict:
  assumes "all_pass SendTestOrder tests 1 names (ru_world st) = r"
  shows "(\<exists>st'. runInternal True SendTestOrder tests names st = Some (st', Completed)) = (\<not> ru_once st \<and> r \<noteq> None) \<and>
    (\<forall>st'. runInternal True SendTestOrder tests names st = Some (st', Completed) \<longrightarrow> Some (ru_world st') = r \<and> ru_once st' \<and>
       ru_log st' = ru_log st @ BeginMessage (length names) # execute_messages 1 names @ [EndMessage])"
proof -
  note verdict = runInternal_debug(1)[of SendTestOrder tests names st]
  have "Some (ru_world st') = r \<and> ru_once st' \<and>
       ru_log st' = ru_log st @ BeginMessage (length names) # execute_messages 1 names @ [EndMessage]"
    if run: "runInternal True SendTestOrder tests names st = Some (st', Completed)" for st'
  proof -
    have "\<not> ru_once st \<and> all_pass SendTestOrder tests 1 names (ru_world st) \<noteq> None" using verdict run by blast
    then obtain s where s: "\<not> ru_once st" "all_pass SendTestOrder tests 1 names (ru_world st) = Some s" by blast
    from runInternal_debug(2)[OF this] run s(2) assms show ?thesis by simp
  qed
  then show ?thesis using verdict assms by auto
qed

definition counting_test :: "bool \<Rightarrow> nat TAbstractUnitTest" where
  "counting_test fails = TUnitTestBase\<lparr>ut_main := \<lambda>timeout s. (s + 1, if fails then Main_throws (Std_exception ''failed'') else Main_returns)\<rparr>"

theorem test_run_verdict_witness:
  "(\<exists>st'. runInternal True (\<lambda>_. True) (add_test (add_test [] ''a'' (counting_test False) 10) ''b'' (counting_test False) 10) [''b'', ''a'']
      \<lparr>ru_world = 0, ru_once = False, ru_log = []\<rparr> = Some (st', Completed)) \<and>
   \<not> (\<exists>st'. runInternal True (\<lambda>_. True) (add_test [] ''a'' (counting_test True) 10) [''a'']
      \<lparr>ru_world = 0, ru_once = False, ru_log = []\<rparr> = Some (st', Completed))"
proof -
  let ?st = "\<lparr>ru_world = 0, ru_once = False, ru_log = []\<rparr> :: nat runner"
  have 1: "all_pass (\<lambda>_. True) (add_test (add_test [] ''a'' (counting_test False) 10) ''b'' (counting_test False) 10) 1 [''b'', ''a'']
      (ru_world ?st) = Some 2"
    by (simp add: add_test_def find_test_def test_passes_def counting_test_def TUnitTestBase_def)
  have 2: "all_pass (\<lambda>_. True) (add_test [] ''a'' (counting_test True) 10) 1 [''a''] (ru_world ?st) = None"
    by (simp add: add_test_def find_test_def test_passes_def counting_test_def TUnitTestBase_def)
  from test_run_verdict[OF 1] test_run_verdict[OF 2] show ?thesis by simp
qed

subsection \<open>Construction on a heap\<close>

text \<open>
  C37. \<open>Heap::construct\<close> and \<open>Heap::destruct\<close> on a Windows heap leak nothing: without memory the result is null; if the
  constructor throws, the block is given back and the exception of the constructor leaves; otherwise the object owns one block
  more, and destroying it later gives the block back even if the destructor throws, whose exception then leaves.
\<close>

theorem heap_object_life_cycle:
  assumes "heap_api_ok api live" "keeps live ctor" "keeps live dtor" "wh_heapHandle w = h"
    and "Heap_construct (WinHeap_Allocate api w) (WinHeap_Deallocate api w) n ctor uncaught os = mk"
  shows "case WinHeap_Allocate api w os n of (os1, p) \<Rightarrow>
    if p = 0 then mk = Some (os1, Inr 0) \<and> live os1 = live os
    else p \<notin> live os h \<and> (case ctor p os1 of
        (os2, Some ex) \<Rightarrow> \<exists>os'. mk = Some (os', Inl ex) \<and> live os' = live os
      | (os2, None) \<Rightarrow> mk = Some (os2, Inr p) \<and> live os2 = (live os)(h := insert p (live os h)) \<and>
          (\<exists>os'. Heap_destruct (WinHeap_Deallocate api w) dtor uncaught' p os2 = Some (os', snd (dtor p os2)) \<and> live os' = live os))"
  using construct_destruct_spec[OF assms] .

text \<open>A system heap whose state is the list of blocks of every heap; the destructor of the example throws.\<close>

definition list_heap :: "(nat \<Rightarrow> nat list) heap_api" where
  "list_heap = \<lparr>HeapCreate = (\<lambda>os. (os, 1)), HeapDestroy = (\<lambda>os h. os(h := [])), GetProcessHeap = 1,
     HeapAlloc = (\<lambda>os h n. (let p = Suc (sum_list (os h)) in (os(h := p # os h), p))),
     HeapFree = (\<lambda>os h p. os(h := removeAll p (os h)))\<rparr>"

lemma list_heap_ok: "heap_api_ok list_heap (\<lambda>os h. set (os h))"
proof -
  have "Suc (sum_list xs) \<notin> set xs" for xs :: "nat list"
    using member_le_sum_list[of "Suc (sum_list xs)" xs] by auto
  then show ?thesis by (auto simp: heap_api_ok_def list_heap_def Let_def fun_eq_iff)
qed

theorem heap_object_life_cycle_witness:
  "Heap_construct (WinHeap_Allocate list_heap (WinHeap_default list_heap)) (WinHeap_Deallocate list_heap (WinHeap_default list_heap)) 8
     (\<lambda>p s. (s, None :: string option)) 0 (\<lambda>_. [5]) = Some ((\<lambda>_. [5])(1 := [6, 5]), Inr 6) \<and>
   (\<exists>os'. Heap_destruct (WinHeap_Deallocate list_heap (WinHeap_default list_heap)) (\<lambda>p s. (s, Some ''thrown'')) 0 6 ((\<lambda>_. [5])(1 := [6, 5]))
     = Some (os', Some ''thrown'') \<and> (\<lambda>h. set (os' h)) = (\<lambda>_. {5}))"
proof -
  let ?w = "WinHeap_default list_heap"
  have k: "keeps (\<lambda>os h. set (os h)) (\<lambda>p s. (s, None :: string option))"
    "keeps (\<lambda>os h. set (os h)) (\<lambda>p s. (s, Some ''thrown''))" by (simp_all add: keeps_def)
  have w: "wh_heapHandle ?w = 1" by (simp add: WinHeap_default_def list_heap_def)
  have a: "WinHeap_Allocate list_heap ?w (\<lambda>_. [5]) 8 = ((\<lambda>_. [5])(1 := [6, 5]), 6)"
    by (simp add: WinHeap_Allocate_def WinHeap_default_def list_heap_def)
  show ?thesis using heap_object_life_cycle[OF list_heap_ok k w refl, of 8 0 "\<lambda>_. [5]" 0] a by simp
qed

subsection \<open>Type classes\<close>

text \<open>
  C38. \<open>TTypeChecker\<close> puts every type into exactly one of the classes simple, pointer, array and object, and only simple types are
  floating point types. An array is classified as an array except when it has the size of a pointer and elements of a
  type that is not listed; then it is classified as a pointer and \<open>LengthOfArray\<close> does not compile for it, while it gives the number of elements
  for every other array.
\<close>

theorem type_classes:
  shows "length (filter id [IS_SIMPLE t, IS_POINTER t, IS_ARRAY t, IS_OBJECT t]) = 1 \<and> (IS_FLOAT t \<longrightarrow> IS_SIMPLE t) \<and>
    (IS_ARRAY (CppType c v (ArrayOf e n)) \<longleftrightarrow> n * sizeof_type e \<noteq> 4 \<or>
       (\<exists>f\<in>set array_overloads. t_core e = Fundamental f \<and> n * sizeof_type e = 4)) \<and>
    IS_POINTER (CppType c v (ArrayOf e n)) = (\<not> IS_ARRAY (CppType c v (ArrayOf e n))) \<and>
    (sizeof_type e \<noteq> 0 \<longrightarrow> LengthOfArray (CppType c v (ArrayOf e n)) =
       (if IS_ARRAY (CppType c v (ArrayOf e n)) then Some n else None))"
  using classes_partition[of t] IS_ARRAY_iff[of c v e n] LengthOfArray_spec[of e c v n] by auto

theorem type_classes_witness:
  "IS_ARRAY (plain (ArrayOf (plain (Fundamental F_char)) 4)) \<and> IS_POINTER (plain (ArrayOf (plain (Fundamental F_wchar_t)) 2)) \<and>
   LengthOfArray (plain (ArrayOf (plain (Fundamental F_double)) 3)) = Some 3 \<and> IS_SIMPLE (plain (Fundamental F_float))"
  using type_classes[of "plain (Fundamental F_float)" False False "plain (Fundamental F_char)" 4]
    type_classes[of "plain (Fundamental F_float)" False False "plain (Fundamental F_wchar_t)" 2]
    type_classes[of "plain (Fundamental F_float)" False False "plain (Fundamental F_double)" 3]
  by (simp add: array_overloads_def trait_defs float_types_def simple_types_def)

subsection \<open>Reports of the C run-time\<close>

text \<open>
  C39. The report functions that replace those of the C run-time. The narrow one never writes outside its buffers: without assertions it prints
  the message cut after 800 and the whole text cut after 1400 characters, and with them a message or text that long fails. The wide one
  takes its buffer sizes in bytes for sizes in characters: it prints every text that fits, and a longer one is written past the end
  of the buffer (no result), assertions or not.
\<close>

theorem report_buffers:
  assumes "clear_ok clear" "length rawSmall = MAX_SMALL + 1" "length rawBig = MAX_BIG + 1" "0 \<le> t" "t < 3"
    "0 \<notin> set filename" "0 \<notin> set moduleName" "0 \<notin> set msg"
    and report: "report = report_format (reportTypes ! nat t) filename linenumber moduleName"
    and reportW: "reportW = report_format (reportTypesW ! nat t) filename linenumber moduleName"
  shows "CrtDbgReportThunk False clear beh rawSmall rawBig t filename linenumber moduleName (Some msg) =
      map_option (\<lambda>result. (take MAX_BIG (report (take MAX_SMALL msg)), result)) (afterCallThunk False beh t) \<and>
    CrtDbgReportThunk True clear beh rawSmall rawBig t filename linenumber moduleName (Some msg) =
      (if length msg < MAX_SMALL \<and> length (report msg) < MAX_BIG
       then map_option (\<lambda>result. (report msg, result)) (afterCallThunk True beh t) else None) \<and>
    CrtDbgReportThunkW dbg clear beh rawSmall rawBig t filename linenumber moduleName (Some msg) =
      (if length msg \<le> MAX_SMALL \<and> length (reportW msg) \<le> MAX_BIG
       then map_option (\<lambda>result. (reportW msg, result)) (afterCallThunk dbg beh t) else None)"
  using CrtDbgReportThunk_spec[OF assms(1-8) report] CrtDbgReportThunkW_spec[OF assms(1-8) reportW] by blast

theorem report_buffers_witness:
  "CrtDbgReportThunkW False (\<lambda>b. replicate (length b) 0) TCrtDbgReport_ReportAtConsoleThanRescueForAll (replicate 801 1) (replicate 1401 1)
     1 [97] 12 [98] (Some (replicate 801 65)) = None \<and>
   CrtDbgReportThunk False (\<lambda>b. replicate (length b) 0) TCrtDbgReport_ReportAtConsoleThanRescueForAll (replicate 801 1) (replicate 1401 1)
     1 [97] 12 [98] (Some (replicate 801 65)) \<noteq> None"
  using report_buffers[of "\<lambda>b. replicate (length b) 0" "replicate 801 1" "replicate 1401 1" 1 "[97]" "[98]" "replicate 801 65" _ 12 _
      TCrtDbgReport_ReportAtConsoleThanRescueForAll False, OF _ _ _ _ _ _ _ _ refl refl]
  by (simp add: clear_ok_def MAX_BIG_def MAX_SMALL_def)

subsection \<open>The page fault handler\<close>

text \<open>
  C40. The page fault handler \<open>f0\<close>, with a called function using less than 1 GB of stack: it reads the error code for \<open>f1\<close> from the address in \<open>edi\<close>,
  so without a readable address there it faults itself. Otherwise the page of the faulting address is made writable, and if \<open>f1\<close> reports
  the fault as handled, the interrupted instruction is tried again with the trap flag set, the error code off the stack and
  every register restored; if not, the former handler continues with the registers and the stack of the fault. The debug exception
  handler \<open>f2\<close> that follows the retried instruction returns with the trap flag cleared and every register restored.
\<close>

theorem page_fault_steps:
  assumes "e_stack_use env < 0x40000000"
  shows "(if \<not> e_readable env (m_reg m EDI) then exec_handler env (f0 oldF) m = None
     else \<exists>m' e. exec_handler env (f0 oldF) m = Some (m', e) \<and> m_page_calls m' = m_page_calls m @ [(e_cr2 env, USERREADWRITE)] \<and>
       m_count_gghh m' = m_count_gghh m + 1 \<and>
       (if bool_result env (m_count_gghh m = 0) \<noteq> 0
        then e = Interrupt_return (m_mem m (m_reg m ESP + 4)) (m_mem m (m_reg m ESP + 12) OR 0x100) \<and>
          m_reg m' = (m_reg m)(ESP := m_reg m ESP + 16) \<and> m_dummyErrorCode m' = m_mem m (m_reg m ESP)
        else e = Continues_at oldF \<and> m_reg m' = m_reg m)) \<and>
    (\<exists>m'. exec_handler env (f2 oldF2) m =
       Some (m', Interrupt_return (m_mem m (m_reg m ESP)) (m_mem m (m_reg m ESP + 8) AND NOT 0x100)) \<and>
     m_reg m' = (m_reg m)(ESP := m_reg m ESP + 12) \<and> m_io m' = m_io m \<and> m_page_calls m' = m_page_calls m)"
proof (rule conjI)
  show "if \<not> e_readable env (m_reg m EDI) then exec_handler env (f0 oldF) m = None
     else \<exists>m' e. exec_handler env (f0 oldF) m = Some (m', e) \<and> m_page_calls m' = m_page_calls m @ [(e_cr2 env, USERREADWRITE)] \<and>
       m_count_gghh m' = m_count_gghh m + 1 \<and>
       (if bool_result env (m_count_gghh m = 0) \<noteq> 0
        then e = Interrupt_return (m_mem m (m_reg m ESP + 4)) (m_mem m (m_reg m ESP + 12) OR 0x100) \<and>
          m_reg m' = (m_reg m)(ESP := m_reg m ESP + 16) \<and> m_dummyErrorCode m' = m_mem m (m_reg m ESP)
        else e = Continues_at oldF \<and> m_reg m' = m_reg m)"
  proof (cases "e_readable env (m_reg m EDI)")
    case True
    from f0_spec[OF assms True, of oldF] show ?thesis unfolding if_not_P[OF not_not[THEN iffD2, OF True]] .
  next
    case False
    then show ?thesis using f0_unreadable by simp
  qed
qed (rule f2_spec[OF assms])

definition quiet_env :: "unit machine_env" where
  "quiet_env = \<lparr>e_in = (\<lambda>io port. (io, 0)), e_out = (\<lambda>io port v. io), e_readable = (\<lambda>a. a \<noteq> 0), e_cr2 = 0x5000,
     e_left = (\<lambda>r. 0), e_below = (\<lambda>a. 7), e_stack_use = 256\<rparr>"

definition faulted :: "32 word \<Rightarrow> unit machine" where
  "faulted edi = \<lparr>m_reg = (\<lambda>r. if r = ESP then 0x8000 else if r = EDI then edi else 3), m_zf = False,
     m_mem = (\<lambda>a. if a = 0x8004 then 0x1234 else if a = 0x800C then 0x2 else 0), m_io = (), m_dummyErrorCode = 0, m_count_gghh = 0,
     m_page_calls = []\<rparr>"

theorem page_fault_steps_witness:
  "exec_handler quiet_env (f0 0x999) (faulted 0) = None \<and>
   (\<exists>m'. exec_handler quiet_env (f0 0x999) (faulted 0x40) = Some (m', Interrupt_return 0x1234 0x102))"
proof -
  have u: "e_stack_use quiet_env < 0x40000000" by (simp add: quiet_env_def)
  have b: "bool_result quiet_env (m_count_gghh (faulted 0x40) = 0) \<noteq> 0" by (simp add: bool_result_def quiet_env_def faulted_def)
  show ?thesis
    using page_fault_steps[OF u, of "faulted 0" "0x999"] page_fault_steps[OF u, of "faulted 0x40" "0x999"] b
    by (auto simp: quiet_env_def faulted_def)
qed

end
