(* ===== verification/Spec2Isabelle.thy ===== *)
theory Spec2Isabelle
  imports Ral_Properties Ral_Test_Properties Deque_Properties Queue_Properties System_Properties Tool_Properties
begin

text \<open>
  \<^bold>\<open>A model of the C++ support library: containers, queues, pools, allocators, schedulers and the tools
  around them.\<close>

  The repository is a collection of headers for a 32-bit real-time system and its Windows tools. The
  parts with run-time logic of their own are modelled, each definition from the lines the manifest
  names, and the properties that make them correct are proved. Where the code does not do what it
  means to do, the theorem states what it does.

  \<^bold>\<open>Conventions (Cpp_Prelude).\<close> \<open>size_t\<close> is \<open>32 word\<close>; where a component computes with natural numbers the
  wrap-around is written out. \<open>ASSERT dbg c\<close> is the macro of accessory.h, \<open>dbg\<close> telling whether assertions
  are compiled in. A function into \<open>option\<close> returns \<open>Some\<close> when the call returns; \<open>None\<close> is a null or
  dangling access, a failed assertion or a loop without end. Exceptions are the left part of a sum;
  an argument whose construction may throw is the outcome of its constructor. Loops without
  a bound in the code are \<open>partial_function (option)\<close>, so there is no fuel to choose: a theorem that
  concludes \<open>Some\<close> says that the loop ends. Code outside the repository (node allocators, alignment
  strategies, the operating system, the pool behind an allocator) is a parameter.

  \<^bold>\<open>random_access_list.hpp: the tree.\<close> \<open>TAvlTreeNode\<close> objects live in a heap, a map from addresses to records
  (Avl_Heap); \<open>tree_at\<close> relates a pointer to a tree of addresses, and Avl_Zipper adds the path to the
  root and the stored sizes and heights. Avl_Rotate has the rotations and the rebalancing loop, Avl_Navigate
  neighbours, indices and jumps, Avl_Update insertion and removal, Avl_Stump the invariant of the tree
  object over the list of its element nodes, Avl_Vine the conversion to a list and \<open>moveNodes\<close>,
  Avl_SelfCheck the checks the code runs on itself, which pass exactly on trees without a fault.

  \<^bold>\<open>random_access_list.hpp: the container.\<close> Ral_Iterator has the iterators, Ral_Container the operations as the
  header composes them, Ral_Correct, Ral_Rearrange and Ral_Lifecycle what each operation does to the list of
  values on every branch, exceptions included, Ral_Construct the constructors from counts, ranges and other
  lists, counted assignment, copying, moving and the comparisons, Ral_Sequence the interpretation of the contracts, Ral_Demo a
  concrete list. Ral_Properties holds C1 to C12 and C15 to C17: insertion, removal and scripts of both refine plain
  lists; the index operations are inverse; the self check finds every fault; exceptions leave everything unchanged; nothing leaks. It
  also states that the tree is not balanced, that a missing gap node makes every construction undefined, that \<open>at\<close> has its test inverted, that \<open>remove_if\<close> returns only
  when everything is removed, and what the one-element \<open>splice\<close> moves. These theorems assume that no exception is in flight when the
  member is called: makeNode asks \<open>uncaught_exception()\<close>, and \<open>emplace_unwinding\<close> of Ral_Correct shows what happens otherwise.

  \<^bold>\<open>Several lists on one heap, and the unit test of the list.\<close> Ral_Store has the invariant of a heap whose nodes belong to the lists
  of a block, each node to one of them, and what keeps it. Ral_Scripts is a language of commands for the public members with its two
  meanings, on such lists and on plain lists, and with the preconditions of every call. Ral_Script_Steps and Ral_Script_Agree show,
  command by command, that both sides make the step or both fail, Ral_Script_Blocks the same for scripts and for blocks, which return
  every node. Ral_Unit_Test translates UnitTests/RandomAccessListTest.cpp into scripts, with \<open>rand()\<close> as a parameter, and
  Ral_Unit_Test_Passes evaluates it on plain lists, the loops for all amounts. Ral_Test_Properties holds C13 and C14: a block passes
  exactly when it passes on plain lists, and the unit test passes.

  \<^bold>\<open>The contracts (Sequence_Interface).\<close> Locales for indexed and editable sequences and for bounded deques, with the
  client lemmas proved once; \<open>random_access_list\<close> and \<open>inplace_fixed_deque\<close> interpret them.

  \<^bold>\<open>inplace_fixed_deque.hpp and containers_utility.hpp.\<close> Containers_Utility models raw storage and the copies
  that roll back, Fixed_Deque the circular array with its inclusive end when it wraps, Deque_Sequence
  clearing, assignment, iterators and the interpretation. Deque_Tests has the unit test of the deque as scripts of commands,
  which pass on deques exactly when they pass on lists. Deque_Properties holds C18 to C22.

  \<^bold>\<open>UnboundedQueue.hpp.\<close> Monitor models a mutex with a condition variable as a step relation over the states of
  the threads, with spurious wake-ups and expiring waits, and states in a locale what a monitor must promise so
  that no wake-up is lost. Unbounded_Queue and Unbounded_List_Queue are the two classes, each member a
  critical section; both interpret the locale. Queue_Properties holds C23 to C26: no lost wake-up, first
  in first out over all threads, the behaviour after \<open>close\<close>, and the queue of lists as a refinement of an atomic queue.

  \<^bold>\<open>MemoryPoolInternalClasses.h (Pool_Items).\<close> The layout of free and allocated pool items on a byte memory for
  the checking strategies; the locale \<open>checked_item\<close> is what both kinds promise. C27 and C28: the life of an
  item, which corruption the checks notice and which they cannot. \<open>allocateUniversal\<close> of MemoryPool.h is there too.

  \<^bold>\<open>LowestLevelAllocator.h (LowLevel_Allocator).\<close> Page access, rounding, the intrusive list and areas. C29 and C30:
  \<open>Align\<close> with its overflow, and allocation from an area, which is never extended. The header is a draft that does not compile; what it
  means where it does not is said at the definitions.

  \<^bold>\<open>LimitedScheduler (Limited_Scheduler, Scheduler_Correct).\<close> A thread pool of two levels with its bounded queue; all
  interleavings are histories of one step relation over the program points of clients and workers. C31 to
  C33: the number of threads, the order and conservation of tasks, and a history in which a wake-up is lost; another history, in
  Scheduler_Correct, exceeds the number of threads while the scheduler is being closed. The sizes the containers call unsafe are
  taken as exact.

  \<^bold>\<open>Small parts.\<close> Bits_Algorithms (C34: rounding up to a power of two, and \<open>TCutUnsigned\<close>), Allocators (the debug
  allocator, the reference counter, the allocator on a pool), Exception_Tools (scope guards and the
  exception tracker). System_Properties holds C27 to C34.

  \<^bold>\<open>Tools.\<close> Crt_Patch: CrtHappy, which overwrites functions of the C run-time by jumps and prints their
  reports; the layout of the jump structure and the page functions of the RTOS are parameters. Mock_Objects: the mocks of
  the unit tests with their tracker, counters and throwing constructors. Unit_Test_Runner: registration, the test thread and
  the run over the list. Win_Heap: the heap that constructs and destroys objects, on the guards of Exception_Tools.
  Type_Traits: the classes of accessory.h that compute with types, as functions on a datatype of types. Interrupts: the handlers in
  assembly of main.cpp as instruction lists on a machine. Structured_Exceptions: the translation of system exceptions, the
  call stack text with DbgHelp as a parameter. Tool_Properties holds C35 to C40: mock scripts pass exactly when all life times are right, what a
  completed test run means, no leak on the heap, the classes of types, the bounds of the report buffers, the steps of a page fault.

  \<^bold>\<open>Bounds.\<close> Theorems about the list assume fewer than \<open>2 ^ 32\<close> nodes, those about scripts, which take distances of
  iterators, an allocator of fewer than \<open>2 ^ 31\<close> nodes, and the deque invariant a capacity below
  \<open>2 ^ 31\<close>, since iterator distances are signed; both are limits of the address space. The mock counter has 64 bits, and
  functions called from an interrupt handler use less than 1 GB of stack.

  \<^bold>\<open>Not modelled.\<close> The memory pool itself, the alignment strategies and the run-time bit functions, whose
  bodies are not in the repository; the owning class of LowestLevelAllocator.h and assoc_list.hpp, which
  are unfinished drafts; adapters and macros (functional_extension.h, mplContainersCompositor.h, range.h), which only pass calls on; the
  stack walker, which is third-party code, the file logger and the start-up code of main.cpp, which are calls into the system;
  moving a list element by element between different allocators, which depends on the element type; the mocks of
  references, which repeat those of values; the unit tests other than those of the deque and the list; the C# helpers.
\<close>

end
